(* ===== verification/Prelude.thy ===== *)
theory Prelude
  imports Main "HOL-Library.Word" "HOL-Library.Multiset"
begin

text \<open>
  What every component of the development shares: the machine integers of the C code, the
  outcome of a C call, the memory allocator as the code sees it, the two loop shapes that
  the cache-line buckets use, and generic lemmas on association lists and multisets.
\<close>

section \<open>Machine integers\<close>

text \<open>
  \<open>uint8_t\<close>, \<open>uint32_t\<close>, \<open>uint64_t\<close>; \<open>size_t\<close>, \<open>uintptr_t\<close>, \<open>clht_addr_t\<close> and
  \<open>clht_val_t\<close> are 64 bits wide on the platforms the code builds for.
\<close>

type_synonym u8 = "8 word"
type_synonym u32 = "32 word"
type_synonym u64 = "64 word"

text \<open>Counters: a count of distinct non-zero 64-bit values fits a \<open>size_t\<close>.\<close>

lemma card_nonzero_u64:
  fixes D :: "u64 set"
  assumes "0 \<notin> D"
  shows "card D < 2 ^ 64"
proof -
  have "card D < card (UNIV :: u64 set)"
    using assms by (intro psubset_card_mono) auto
  then show ?thesis by (simp add: card_word)
qed

lemma unat_of_nat_u64: "n < 2 ^ 64 \<Longrightarrow> unat (of_nat n :: u64) = n"
  by (simp add: unat_of_nat take_bit_nat_eq_self)

lemma unat_ucast_of_nat_u32: "unat (ucast (of_nat n :: u64) :: u32) = n mod 2 ^ 32"
  by (simp add: unsigned_ucast_eq unat_of_nat take_bit_eq_mod mod_mod_cancel)

named_theorems kv_simps \<open>equations of the abstract map and of the outcome type\<close>
named_theorems inv_intros \<open>introduction rules for the components' invariants\<close>

section \<open>Outcome of a C call\<close>

text \<open>
  A call returns (\<open>Done\<close>), waits for ever in a lock or retry loop when no other thread
  runs (\<open>Spins\<close>), or dereferences a null pointer (\<open>Faults\<close>).
\<close>

datatype 'a outcome = Done 'a | Spins | Faults

fun bind_outcome :: "'a outcome \<Rightarrow> ('a \<Rightarrow> 'b outcome) \<Rightarrow> 'b outcome" where
  "bind_outcome (Done x) f = f x"
| "bind_outcome Spins f = Spins"
| "bind_outcome Faults f = Faults"

lemma bind_outcome_Done_iff [kv_simps]:
  "bind_outcome m f = Done y \<longleftrightarrow> (\<exists>x. m = Done x \<and> f x = Done y)"
  by (cases m) auto

lemma bind_outcome_Spins_iff:
  "bind_outcome m f = Spins \<longleftrightarrow> m = Spins \<or> (\<exists>x. m = Done x \<and> f x = Spins)"
  by (cases m) auto

section \<open>The allocator\<close>

text \<open>
  \<open>memalign\<close> either fails or returns fresh memory whose content is not initialised. The
  answers it will give are a list (an empty list answers NULL); an answer carries the words
  found in the three \<open>val\<close> cells of a bucket placed there, which the code leaves as they are.
  \<open>live\<close> counts the blocks obtained and not yet given back with \<open>free\<close>.
\<close>

type_synonym fresh_block = "u64 \<times> u64 \<times> u64"

record mem =
  answers :: "fresh_block option list"
  live :: nat

definition memalign :: "mem \<Rightarrow> fresh_block option \<times> mem" where
  "memalign m =
     (case answers m of
        [] \<Rightarrow> (None, m)
      | None # as \<Rightarrow> (None, m\<lparr>answers := as\<rparr>)
      | Some g # as \<Rightarrow> (Some g, m\<lparr>answers := as, live := Suc (live m)\<rparr>))"

definition mfree :: "mem \<Rightarrow> mem" where
  "mfree m = m\<lparr>live := live m - 1\<rparr>"

text \<open>At least \<open>n\<close> further requests will be granted.\<close>

definition ready :: "nat \<Rightarrow> mem \<Rightarrow> bool" where
  "ready n m \<longleftrightarrow> n \<le> length (answers m) \<and> (\<forall>a\<in>set (take n (answers m)). a \<noteq> None)"

lemma ready_0 [simp]: "ready 0 m"
  by (simp add: ready_def)

lemma ready_Suc_memalign:
  assumes "ready (Suc n) m"
  obtains g m' where "memalign m = (Some g, m')" and "ready n m'" and "live m' = Suc (live m)"
proof -
  from assms obtain g as where a: "answers m = Some g # as"
    by (cases "answers m") (auto simp: ready_def)
  with assms have "ready n (m\<lparr>answers := as, live := Suc (live m)\<rparr>)"
    by (auto simp: ready_def)
  with a show thesis by (intro that) (auto simp: memalign_def)
qed

lemma ready_mono: "ready n m \<Longrightarrow> k \<le> n \<Longrightarrow> ready k m"
  using set_take_subset_set_take [of k n "answers m"] by (auto simp: ready_def)

lemma ready_SucD: "ready (Suc n) m \<Longrightarrow> ready n m"
  by (erule ready_mono) simp

text \<open>A memory that grants eight requests, for the concrete runs of the witnesses.\<close>

definition example_mem :: mem where
  "example_mem = \<lparr>answers = replicate 8 (Some (7, 7, 7)), live = 0\<rparr>"

lemma example_mem_ready: "n \<le> 8 \<Longrightarrow> ready n example_mem"
  by (simp add: ready_def example_mem_def)

section \<open>Lists: reading by index, association lists with distinct keys\<close>

lemma map_index_eq: "map (\<lambda>i. f (xs ! i)) [0..<length xs] = map f xs"
  by (rule nth_equalityI) auto

lemma map_of_eq_mset:
  assumes "distinct (map fst xs)" and "mset xs = mset ys"
  shows "map_of xs = map_of ys"
proof -
  from assms(2) have "mset (map fst xs) = mset (map fst ys)" by simp
  with assms(1) have "distinct (map fst ys)"
    by (metis mset_eq_imp_distinct_iff)
  moreover from assms(2) have "set xs = set ys" by (rule mset_eq_setD)
  ultimately show ?thesis using assms(1) by (simp add: map_of_inject_set)
qed

lemma mset_distinct_map_fst:
  "mset xs = mset ys \<Longrightarrow> distinct (map fst xs) \<Longrightarrow> distinct (map fst ys)"
  by (metis mset_eq_imp_distinct_iff mset_map)

lemma map_of_add_entry:
  assumes "mset xs' = add_mset (k, v) (mset xs)" and "distinct (map fst xs)"
    and "k \<notin> fst ` set xs"
  shows "map_of xs' = (map_of xs)(k \<mapsto> v)" and "distinct (map fst xs')"
proof -
  have eq: "mset ((k, v) # xs) = mset xs'" using assms(1) by simp
  have d: "distinct (map fst ((k, v) # xs))" using assms(2,3) by simp
  from map_of_eq_mset [OF d eq] show "map_of xs' = (map_of xs)(k \<mapsto> v)" by simp
  from mset_distinct_map_fst [OF eq d] show "distinct (map fst xs')" .
qed

lemma map_of_del_entry:
  assumes "mset xs = add_mset (k, v) (mset xs')" and "distinct (map fst xs)"
  shows "map_of xs' = (map_of xs)(k := None)" and "distinct (map fst xs')"
    and "map_of xs k = Some v"
proof -
  have eq: "mset xs = mset ((k, v) # xs')" using assms(1) by simp
  from mset_distinct_map_fst [OF eq assms(2)]
  have d: "distinct (map fst xs')" and n: "k \<notin> fst ` set xs'" by simp_all
  from n have "map_of xs' k = None" by (simp add: map_of_eq_None_iff)
  then show "map_of xs' = (map_of xs)(k := None)"
    unfolding map_of_eq_mset [OF assms(2) eq] by (auto simp: fun_eq_iff)
  show "distinct (map fst xs')" by (rule d)
  show "map_of xs k = Some v" unfolding map_of_eq_mset [OF assms(2) eq] by simp
qed

lemma card_dom_map_of:
  "distinct (map fst xs) \<Longrightarrow> card (dom (map_of xs)) = length xs"
  by (metis distinct_card dom_map_of_conv_image_fst length_map list.set_map)

end
