(* ===== verification/Kv_store.thy ===== *)
theory Kv_store
  imports Prelude
begin

text \<open>
  The contract of a concurrent hash table of the benchmark, seen by one thread at a time: the
  abstract key-value map, the interface \<open>kv_store\<close> that a variant of the table provides, and
  \<open>hashed_store\<close>, which derives the contract of a whole table from the contract of one
  bucket chain. A table may reserve a key (key 0 stands for an empty slot in most variants) or
  a value: \<open>kok\<close> and \<open>vok\<close> say which keys and values its contract covers.
\<close>

section \<open>The abstract map\<close>

type_synonym kv = "u64 \<rightharpoonup> u64"

datatype kv_op = Get u64 | Put u64 u64 | Remove u64

fun op_key :: "kv_op \<Rightarrow> u64" where
  "op_key (Get k) = k"
| "op_key (Put k v) = k"
| "op_key (Remove k) = k"

text \<open>The operations a table supports: it may reserve a key or a value.\<close>

fun op_ok :: "(u64 \<Rightarrow> bool) \<Rightarrow> (u64 \<Rightarrow> bool) \<Rightarrow> kv_op \<Rightarrow> bool" where
  "op_ok kok vok (Get k) = kok k"
| "op_ok kok vok (Put k v) = (kok k \<and> vok v)"
| "op_ok kok vok (Remove k) = kok k"

lemma op_ok_any: "op_ok kok (\<lambda>_. True) x \<longleftrightarrow> kok (op_key x)"
  by (cases x) simp_all

datatype kv_res = RVal u64 | RBool bool

text \<open>
  \<open>clht_get\<close> and \<open>clht_remove\<close> answer 0 for an absent key; \<open>clht_put\<close> does not overwrite.
\<close>

definition val_or_0 :: "u64 option \<Rightarrow> u64" where
  "val_or_0 x = (case x of None \<Rightarrow> 0 | Some v \<Rightarrow> v)"

lemma val_or_0_simps [simp]: "val_or_0 None = 0" "val_or_0 (Some v) = v"
  by (simp_all add: val_or_0_def)

fun kv_step :: "kv \<Rightarrow> kv_op \<Rightarrow> kv_res \<times> kv" where
  "kv_step m (Get k) = (RVal (val_or_0 (m k)), m)"
| "kv_step m (Put k v) = (if m k = None then (RBool True, m(k \<mapsto> v)) else (RBool False, m))"
| "kv_step m (Remove k) = (RVal (val_or_0 (m k)), m(k := None))"

fun kv_run :: "kv \<Rightarrow> kv_op list \<Rightarrow> kv_res list \<times> kv" where
  "kv_run m [] = ([], m)"
| "kv_run m (x # xs) =
     (let (r, m1) = kv_step m x; (rs, m2) = kv_run m1 xs in (r # rs, m2))"

section \<open>Running the operations of a table\<close>

text \<open>
  One operation, and a list of them, of a table given by its three handlers. A call that
  spins or faults ends the run.
\<close>

fun table_step ::
  "('t \<Rightarrow> u64 \<Rightarrow> u64) \<Rightarrow> ('t \<Rightarrow> u64 \<Rightarrow> u64 \<Rightarrow> mem \<Rightarrow> (bool \<times> 't \<times> mem) outcome) \<Rightarrow>
   ('t \<Rightarrow> u64 \<Rightarrow> (u64 \<times> 't) outcome) \<Rightarrow> 't \<times> mem \<Rightarrow> kv_op \<Rightarrow> (kv_res \<times> 't \<times> mem) outcome" where
  "table_step get put rem (t, m) (Get k) = Done (RVal (get t k), t, m)"
| "table_step get put rem (t, m) (Put k v) =
     bind_outcome (put t k v m) (\<lambda>(r, t', m'). Done (RBool r, t', m'))"
| "table_step get put rem (t, m) (Remove k) =
     bind_outcome (rem t k) (\<lambda>(r, t'). Done (RVal r, t', m))"

fun table_run ::
  "('t \<Rightarrow> u64 \<Rightarrow> u64) \<Rightarrow> ('t \<Rightarrow> u64 \<Rightarrow> u64 \<Rightarrow> mem \<Rightarrow> (bool \<times> 't \<times> mem) outcome) \<Rightarrow>
   ('t \<Rightarrow> u64 \<Rightarrow> (u64 \<times> 't) outcome) \<Rightarrow> 't \<times> mem \<Rightarrow> kv_op list \<Rightarrow>
   (kv_res list \<times> 't \<times> mem) outcome" where
  "table_run get put rem (t, m) [] = Done ([], t, m)"
| "table_run get put rem (t, m) (x # xs) =
     bind_outcome (table_step get put rem (t, m) x)
       (\<lambda>(r, t', m'). bind_outcome (table_run get put rem (t', m') xs)
          (\<lambda>(rs, t'', m''). Done (r # rs, t'', m'')))"

section \<open>Runs of operations\<close>

text \<open>
  The weakest interface: a state with one step per operation, of which it is known that a step
  that returns is the step of the abstract map.
\<close>

fun steps_run :: "('s \<Rightarrow> kv_op \<Rightarrow> (kv_res \<times> 's) outcome) \<Rightarrow> 's \<Rightarrow> kv_op list \<Rightarrow> (kv_res list \<times> 's) outcome" where
  "steps_run step s [] = Done ([], s)"
| "steps_run step s (x # xs) =
     bind_outcome (step s x)
       (\<lambda>(r, s'). bind_outcome (steps_run step s' xs) (\<lambda>(rs, s''). Done (r # rs, s'')))"

lemma table_run_steps: "table_run get put rem s xs = steps_run (table_step get put rem) s xs"
proof (induction xs arbitrary: s)
  case Nil
  then show ?case by (cases s) simp
next
  case (Cons x xs)
  obtain t m where s: "s = (t, m)" by (cases s)
  show ?case
  proof (cases "table_step get put rem s x")
    case (Done y)
    obtain r t' m' where y: "y = (r, t', m')" by (cases y)
    with Done Cons.IH show ?thesis
      by (cases "steps_run (table_step get put rem) (t', m') xs") (auto simp: s)
  qed (simp_all add: s)
qed

locale op_store =
  fixes inv :: "'s \<Rightarrow> bool"
    and absm :: "'s \<Rightarrow> kv"
    and step :: "'s \<Rightarrow> kv_op \<Rightarrow> (kv_res \<times> 's) outcome"
    and ok :: "kv_op \<Rightarrow> bool"
  assumes step_law: "inv s \<Longrightarrow> ok x \<Longrightarrow> step s x = Done (r, s') \<Longrightarrow>
       inv s' \<and> kv_step (absm s) x = (r, absm s')"
begin

lemma run_law:
  assumes "inv s" and "\<forall>x\<in>set xs. ok x" and "steps_run step s xs = Done (rs, s')"
  shows "inv s' \<and> kv_run (absm s) xs = (rs, absm s')"
  using assms
proof (induction xs arbitrary: s rs)
  case Nil
  then show ?case by simp
next
  case (Cons x xs)
  from Cons.prems(3) obtain r s1 rs' where
    st: "step s x = Done (r, s1)" and run: "steps_run step s1 xs = Done (rs', s')" and rs: "rs = r # rs'"
    by (auto simp: bind_outcome_Done_iff)
  from step_law [OF Cons.prems(1) _ st] Cons.prems(2)
  have 1: "inv s1" and 2: "kv_step (absm s) x = (r, absm s1)" by auto
  from Cons.IH [OF 1 _ run] Cons.prems(2) show ?case by (simp add: 2 rs)
qed

end

section \<open>The interface of a table\<close>

text \<open>
  \<open>kv_store\<close> is the partial contract: an operation that returns has the effect and the
  result of the abstract map. \<open>kv_total\<close> adds that \<open>put\<close> returns as long as memory lasts.
\<close>

locale kv_store =
  fixes inv :: "'t \<Rightarrow> bool"
    and absm :: "'t \<Rightarrow> kv"
    and get :: "'t \<Rightarrow> u64 \<Rightarrow> u64"
    and put :: "'t \<Rightarrow> u64 \<Rightarrow> u64 \<Rightarrow> mem \<Rightarrow> (bool \<times> 't \<times> mem) outcome"
    and rem :: "'t \<Rightarrow> u64 \<Rightarrow> (u64 \<times> 't) outcome"
    and kok vok :: "u64 \<Rightarrow> bool"
  assumes get_law: "inv t \<Longrightarrow> kok k \<Longrightarrow> get t k = val_or_0 (absm t k)"
    and put_law: "inv t \<Longrightarrow> kok k \<Longrightarrow> vok v \<Longrightarrow> put t k v m = Done (r, t', m') \<Longrightarrow>
       inv t' \<and> r = (absm t k = None) \<and> absm t' = (if r then (absm t)(k \<mapsto> v) else absm t)"
    and rem_law: "inv t \<Longrightarrow> kok k \<Longrightarrow>
       \<exists>t'. rem t k = Done (val_or_0 (absm t k), t') \<and> inv t' \<and> absm t' = (absm t)(k := None)"
begin

lemma step_refines:
  assumes "inv t" and "op_ok kok vok x"
    and "table_step get put rem (t, m) x = Done (r, t', m')"
  shows "inv t' \<and> kv_step (absm t) x = (r, absm t')"
proof (cases x)
  case (Get k)
  with assms get_law show ?thesis by auto
next
  case (Put k v)
  with assms obtain b where b: "put t k v m = Done (b, t', m')" "r = RBool b"
    by (auto simp: bind_outcome_Done_iff)
  with put_law [OF assms(1) _ _ b(1)] assms(2) Put show ?thesis by auto
next
  case (Remove k)
  with rem_law [OF assms(1), of k] assms show ?thesis by auto
qed

sublocale ops: op_store "\<lambda>s. inv (fst s)" "\<lambda>s. absm (fst s)" "table_step get put rem" "op_ok kok vok"
proof
  fix s x r s'
  assume "inv (fst s)" "op_ok kok vok x" "table_step get put rem s x = Done (r, s')"
  then show "inv (fst s') \<and> kv_step (absm (fst s)) x = (r, absm (fst s'))"
    using step_refines [of "fst s" x "snd s" r "fst s'" "snd s'"] by simp
qed

lemma run_refines:
  assumes "inv t" and "\<forall>x\<in>set xs. op_ok kok vok x"
    and "table_run get put rem (t, m) xs = Done (rs, t', m')"
  shows "inv t' \<and> kv_run (absm t) xs = (rs, absm t')"
  using ops.run_law [of "(t, m)" xs rs "(t', m')"] assms by (simp add: table_run_steps)

lemma get_after_put:
  assumes "inv t" and "kok k" and "vok v" and "kok k'" and "put t k v m = Done (True, t', m')"
  shows "get t' k' = (if k' = k then v else get t k')"
  using put_law [OF assms(1,2,3,5)] assms by (simp add: get_law)

lemma put_existing_fails:
  assumes "inv t" and "kok k" and "vok v" and "put t k v m = Done (r, t', m')" and "absm t k = Some w"
  shows "r = False" and "absm t' = absm t"
  using put_law [OF assms(1-4)] assms(5) by auto

end

locale kv_total = kv_store +
  assumes put_total: "inv t \<Longrightarrow> kok k \<Longrightarrow> vok v \<Longrightarrow> ready (Suc n) m \<Longrightarrow>
    \<exists>r t' m'. put t k v m = Done (r, t', m') \<and> ready n m'"
begin

lemma step_total:
  assumes "inv t" and "op_ok kok vok x" and "ready (Suc n) m"
  shows "\<exists>r t' m'. table_step get put rem (t, m) x = Done (r, t', m') \<and> ready n m'"
proof (cases x)
  case (Get k)
  with assms(3) show ?thesis by (auto dest: ready_SucD)
next
  case (Put k v)
  with assms put_total [of t k v n m] show ?thesis by auto
next
  case (Remove k)
  with assms rem_law [of t k] show ?thesis by (auto dest: ready_SucD)
qed

text \<open>With enough memory a run of any operations returns, and answers as the map would.\<close>

lemma run_total_refines:
  assumes "inv t" and "\<forall>x\<in>set xs. op_ok kok vok x" and "ready (length xs) m"
  shows "\<exists>rs t' m'. table_run get put rem (t, m) xs = Done (rs, t', m') \<and> inv t' \<and>
    kv_run (absm t) xs = (rs, absm t')"
proof -
  have "\<exists>rs t' m'. table_run get put rem (t, m) xs = Done (rs, t', m')"
    using assms
  proof (induction xs arbitrary: t m)
    case Nil
    then show ?case by simp
  next
    case (Cons x xs)
    then obtain r t1 m1 where s: "table_step get put rem (t, m) x = Done (r, t1, m1)"
      and rd: "ready (length xs) m1" using step_total [of t x "length xs" m] by auto
    from step_refines [OF Cons.prems(1) _ s] Cons.prems(2) have "inv t1" by auto
    from Cons.IH [OF this _ rd] Cons.prems(2) obtain rs t' m' where
      "table_run get put rem (t1, m1) xs = Done (rs, t', m')" by auto
    with s show ?case by auto
  qed
  with run_refines [OF assms(1,2)] show ?thesis by blast
qed

end

section \<open>From one chain to a whole table\<close>

text \<open>
  A table holds an array of chains; a key goes to the chain that its bucket number selects.
  The invariant of the table: every chain satisfies the chain's invariant and holds keys of
  its own number only; its map looks a key up in the key's chain.
\<close>

definition chains_inv :: "('b \<Rightarrow> bool) \<Rightarrow> ('b \<Rightarrow> kv) \<Rightarrow> (u64 \<Rightarrow> nat) \<Rightarrow> 'b list \<Rightarrow> bool" where
  "chains_inv binv bmap h bs \<longleftrightarrow>
     (\<forall>i<length bs. binv (bs ! i) \<and> (\<forall>k\<in>dom (bmap (bs ! i)). h k = i))"

definition chains_map :: "('b \<Rightarrow> kv) \<Rightarrow> (u64 \<Rightarrow> nat) \<Rightarrow> 'b list \<Rightarrow> kv" where
  "chains_map bmap h bs k = bmap (bs ! h k) k"

lemma chains_invI [inv_intros]:
  assumes "\<And>i. i < length bs \<Longrightarrow> binv (bs ! i)"
    and "\<And>i k. i < length bs \<Longrightarrow> k \<in> dom (bmap (bs ! i)) \<Longrightarrow> h k = i"
  shows "chains_inv binv bmap h bs"
  using assms by (auto simp: chains_inv_def)

lemma chains_inv_nth: "chains_inv binv bmap h bs \<Longrightarrow> i < length bs \<Longrightarrow> binv (bs ! i)"
  by (simp add: chains_inv_def)

lemma chains_inv_dom:
  "chains_inv binv bmap h bs \<Longrightarrow> i < length bs \<Longrightarrow> k \<in> dom (bmap (bs ! i)) \<Longrightarrow> h k = i"
  by (auto simp: chains_inv_def)

lemma chains_inv_update:
  assumes "chains_inv binv bmap h bs" and "binv b" and "dom (bmap b) \<subseteq> insert k (dom (bmap (bs ! h k)))"
  shows "chains_inv binv bmap h (bs[h k := b])"
proof (rule chains_invI)
  fix i assume i: "i < length (bs[h k := b])"
  with assms(1,2) show "binv (bs[h k := b] ! i)"
    by (cases "i = h k") (auto simp: chains_inv_def)
  fix k' assume k': "k' \<in> dom (bmap (bs[h k := b] ! i))"
  show "h k' = i"
  proof (cases "i = h k")
    case True
    with i k' assms(3) have "k' = k \<or> k' \<in> dom (bmap (bs ! h k))" by auto
    with True i chains_inv_dom [OF assms(1)] show ?thesis by auto
  next
    case False
    with i k' chains_inv_dom [OF assms(1), of i k'] show ?thesis by simp
  qed
qed

lemma chains_map_update:
  assumes "h k < length bs" and "chains_inv binv bmap h bs"
    and "bmap b = (bmap (bs ! h k))(k := x)"
  shows "chains_map bmap h (bs[h k := b]) = (chains_map bmap h bs)(k := x)"
proof
  fix k'
  show "chains_map bmap h (bs[h k := b]) k' = ((chains_map bmap h bs)(k := x)) k'"
    using assms(1,3) by (cases "h k' = h k") (auto simp: chains_map_def)
qed

lemma chains_map_same:
  assumes "h k < length bs" and "bmap b = bmap (bs ! h k)"
  shows "chains_map bmap h (bs[h k := b]) = chains_map bmap h bs"
proof
  fix k'
  show "chains_map bmap h (bs[h k := b]) k' = chains_map bmap h bs k'"
    using assms by (cases "h k' = h k") (auto simp: chains_map_def)
qed

text \<open>The map of the table is the union of the chains' maps, which are disjoint.\<close>

lemma chains_dom:
  assumes "chains_inv binv bmap h bs" and "\<And>k. h k < length bs"
  shows "dom (chains_map bmap h bs) = (\<Union>i<length bs. dom (bmap (bs ! i)))"
proof
  show "dom (chains_map bmap h bs) \<subseteq> (\<Union>i<length bs. dom (bmap (bs ! i)))"
    using assms(2) by (force simp: chains_map_def dom_def)
  show "(\<Union>i<length bs. dom (bmap (bs ! i))) \<subseteq> dom (chains_map bmap h bs)"
  proof
    fix k assume "k \<in> (\<Union>i<length bs. dom (bmap (bs ! i)))"
    then obtain i where i: "i < length bs" "k \<in> dom (bmap (bs ! i))" by auto
    with chains_inv_dom [OF assms(1)] have "h k = i" by blast
    with i show "k \<in> dom (chains_map bmap h bs)" by (auto simp: chains_map_def dom_def)
  qed
qed

lemma chains_card:
  assumes "chains_inv binv bmap h bs" and "\<And>k. h k < length bs"
    and "\<And>b. b \<in> set bs \<Longrightarrow> finite (dom (bmap b))"
  shows "card (dom (chains_map bmap h bs)) = (\<Sum>b\<leftarrow>bs. card (dom (bmap b)))"
proof -
  have "card (\<Union>i<length bs. dom (bmap (bs ! i))) = (\<Sum>i<length bs. card (dom (bmap (bs ! i))))"
  proof (rule card_UN_disjoint)
    show "\<forall>i\<in>{..<length bs}. finite (dom (bmap (bs ! i)))" using assms(3) by simp
    show "\<forall>i\<in>{..<length bs}. \<forall>j\<in>{..<length bs}. i \<noteq> j \<longrightarrow>
        dom (bmap (bs ! i)) \<inter> dom (bmap (bs ! j)) = {}"
      using chains_inv_dom [OF assms(1)] by blast
  qed simp
  also have "\<dots> = (\<Sum>b\<leftarrow>bs. card (dom (bmap b)))"
    by (simp add: sum_list_sum_nth atLeast0LessThan)
  finally show ?thesis unfolding chains_dom [OF assms(1,2)] .
qed

text \<open>The entries of all chains of a table: their keys differ, and they are the table's map.\<close>

lemma all_entries_distinct:
  assumes "chains_inv binv bmap h bs" and "\<And>b. binv b \<Longrightarrow> distinct (map fst (es b)) \<and> bmap b = map_of (es b)"
  shows "distinct (map fst (concat (map es bs)))"
proof -
  have d: "distinct (map fst (es (bs ! i)))" if "i < length bs" for i
    using chains_inv_nth [OF assms(1) that] assms(2) by blast
  have dom: "dom (bmap (bs ! i)) = fst ` set (es (bs ! i))" if "i < length bs" for i
    using chains_inv_nth [OF assms(1) that] assms(2) by (simp add: dom_map_of_conv_image_fst)
  have disj: "fst ` set (es (bs ! i)) \<inter> fst ` set (es (bs ! j)) = {}"
    if "i < length bs" "j < length bs" "i \<noteq> j" for i j
    using that chains_inv_dom [OF assms(1)] dom by (metis disjoint_iff)
  have "distinct (concat (map (\<lambda>b. map fst (es b)) bs))"
    using d disj
  proof (induction bs)
    case Nil
    then show ?case by simp
  next
    case (Cons b bs)
    have "fst ` set (es b) \<inter> fst ` set (es c) = {}" if c: "c \<in> set bs" for c
    proof -
      from c obtain j where "j < length bs" "bs ! j = c" by (auto simp: in_set_conv_nth)
      with Cons.prems(2) [of 0 "Suc j"] show ?thesis by simp
    qed
    then have "set (map fst (es b)) \<inter> set (concat (map (\<lambda>b. map fst (es b)) bs)) = {}" by fastforce
    moreover have "distinct (concat (map (\<lambda>b. map fst (es b)) bs))"
    proof (rule Cons.IH)
      fix i j
      show "distinct (map fst (es (bs ! i)))" if "i < length bs"
        using Cons.prems(1) [of "Suc i"] that by simp
      show "fst ` set (es (bs ! i)) \<inter> fst ` set (es (bs ! j)) = {}"
        if "i < length bs" "j < length bs" "i \<noteq> j"
        using Cons.prems(2) [of "Suc i" "Suc j"] that by simp
    qed
    ultimately show ?case using Cons.prems(1) [of 0] by simp
  qed
  then show ?thesis by (simp add: map_concat comp_def)
qed

lemma all_entries_map:
  assumes "chains_inv binv bmap h bs" and "\<And>b. binv b \<Longrightarrow> distinct (map fst (es b)) \<and> bmap b = map_of (es b)"
    and "\<And>k. h k < length bs"
  shows "map_of (concat (map es bs)) = chains_map bmap h bs"
proof
  fix k
  let ?es = "concat (map es bs)"
  have bmap: "bmap (bs ! i) = map_of (es (bs ! i))" if "i < length bs" for i
    using chains_inv_nth [OF assms(1) that] assms(2) by blast
  show "map_of ?es k = chains_map bmap h bs k"
  proof (cases "chains_map bmap h bs k")
    case None
    have "k \<notin> fst ` set (es b)" if b: "b \<in> set bs" for b
    proof
      assume k: "k \<in> fst ` set (es b)"
      from b obtain i where i: "i < length bs" "bs ! i = b" by (auto simp: in_set_conv_nth)
      from i bmap have "bmap b = map_of (es b)" by blast
      with k have "k \<in> dom (bmap b)" by (simp only: dom_map_of_conv_image_fst)
      with i chains_inv_dom [OF assms(1)] None show False by (force simp: chains_map_def)
    qed
    then have "k \<notin> fst ` set ?es" by auto
    with None show ?thesis by (simp add: map_of_eq_None_iff)
  next
    case (Some v)
    then have "(k, v) \<in> set (es (bs ! h k))"
      using bmap [OF assms(3)] by (auto simp: chains_map_def dest: map_of_SomeD)
    then have "(k, v) \<in> set ?es" using assms(3) [of k] by auto
    from map_of_is_SomeI [OF all_entries_distinct [OF assms(1,2)] this] Some show ?thesis by simp
  qed
qed

locale hashed_store = chain: kv_store binv bmap bget bput brem kok vok
  for binv :: "'b \<Rightarrow> bool"
    and bmap :: "'b \<Rightarrow> kv"
    and bget :: "'b \<Rightarrow> u64 \<Rightarrow> u64"
    and bput :: "'b \<Rightarrow> u64 \<Rightarrow> u64 \<Rightarrow> mem \<Rightarrow> (bool \<times> 'b \<times> mem) outcome"
    and brem :: "'b \<Rightarrow> u64 \<Rightarrow> (u64 \<times> 'b) outcome"
    and kok vok :: "u64 \<Rightarrow> bool" +
  fixes shape :: "'t \<Rightarrow> bool"
    and chains :: "'t \<Rightarrow> 'b list"
    and hash :: "'t \<Rightarrow> u64 \<Rightarrow> nat"
    and get :: "'t \<Rightarrow> u64 \<Rightarrow> u64"
    and put :: "'t \<Rightarrow> u64 \<Rightarrow> u64 \<Rightarrow> mem \<Rightarrow> (bool \<times> 't \<times> mem) outcome"
    and rem :: "'t \<Rightarrow> u64 \<Rightarrow> (u64 \<times> 't) outcome"
  assumes hash_less: "shape t \<Longrightarrow> hash t k < length (chains t)"
    and get_eq: "shape t \<Longrightarrow> get t k = bget (chains t ! hash t k) k"
    and put_step: "shape t \<Longrightarrow> put t k v m = Done (r, t', m') \<Longrightarrow>
       shape t' \<and> hash t' = hash t \<and>
       (\<exists>b. bput (chains t ! hash t k) k v m = Done (r, b, m') \<and> chains t' = (chains t)[hash t k := b])"
    and rem_step: "shape t \<Longrightarrow> brem (chains t ! hash t k) k = Done (w, b) \<Longrightarrow>
       \<exists>t'. rem t k = Done (w, t') \<and> shape t' \<and> hash t' = hash t \<and> chains t' = (chains t)[hash t k := b]"
begin

definition tinv :: "'t \<Rightarrow> bool" where
  "tinv t \<longleftrightarrow> shape t \<and> chains_inv binv bmap (hash t) (chains t)"

definition tmap :: "'t \<Rightarrow> kv" where
  "tmap t = chains_map bmap (hash t) (chains t)"

lemma tinv_chain: "tinv t \<Longrightarrow> binv (chains t ! hash t k)"
  by (auto simp: tinv_def intro: chains_inv_nth hash_less)

lemma tmap_at: "tmap t k = bmap (chains t ! hash t k) k"
  by (simp add: tmap_def chains_map_def)

lemma tinv_upd:
  assumes "tinv t" and "binv b" and "dom (bmap b) \<subseteq> insert k (dom (bmap (chains t ! hash t k)))"
    and "shape t'" and "hash t' = hash t" and "chains t' = (chains t)[hash t k := b]"
  shows "tinv t'"
  using assms chains_inv_update [of binv bmap "hash t" "chains t" b k] by (simp add: tinv_def)

lemma tmap_upd:
  assumes "tinv t" and "bmap b = (bmap (chains t ! hash t k))(k := x)"
    and "hash t' = hash t" and "chains t' = (chains t)[hash t k := b]"
  shows "tmap t' = (tmap t)(k := x)"
  using assms chains_map_update [of "hash t" k "chains t" binv bmap b x]
  by (simp add: tinv_def tmap_def hash_less)

lemma tmap_upd_same:
  assumes "tinv t" and "bmap b = bmap (chains t ! hash t k)"
    and "hash t' = hash t" and "chains t' = (chains t)[hash t k := b]"
  shows "tmap t' = tmap t"
  using assms chains_map_same [of "hash t" k "chains t" bmap b]
  by (simp add: tinv_def tmap_def hash_less)

lemma table_get_law: "tinv t \<Longrightarrow> kok k \<Longrightarrow> get t k = val_or_0 (tmap t k)"
  using chain.get_law [OF tinv_chain [of t k], of k] by (simp add: get_eq tinv_def tmap_at)

lemma table_put_law:
  assumes "tinv t" and "kok k" and "vok v" and "put t k v m = Done (r, t', m')"
  shows "tinv t' \<and> r = (tmap t k = None) \<and> tmap t' = (if r then (tmap t)(k \<mapsto> v) else tmap t)"
proof -
  from put_step [OF _ assms(4)] assms(1) obtain b where
    b: "bput (chains t ! hash t k) k v m = Done (r, b, m')" and
    t': "shape t'" "hash t' = hash t" "chains t' = (chains t)[hash t k := b]"
    by (auto simp: tinv_def)
  from chain.put_law [OF tinv_chain [OF assms(1)] assms(2,3) b]
  have 1: "binv b" "r = (bmap (chains t ! hash t k) k = None)"
    "bmap b = (if r then (bmap (chains t ! hash t k))(k \<mapsto> v) else bmap (chains t ! hash t k))"
    by auto
  then have "tinv t'" using assms(1) tinv_upd [of t b k t'] t' by (auto split: if_splits)
  with 1 assms(1) t' show ?thesis
    using tmap_upd [of t b k "Some v" t'] tmap_upd_same [of t b k t'] by (auto simp: tmap_at)
qed

lemma table_rem_law:
  assumes "tinv t" and "kok k"
  shows "\<exists>t'. rem t k = Done (val_or_0 (tmap t k), t') \<and> tinv t' \<and> tmap t' = (tmap t)(k := None)"
proof -
  from chain.rem_law [OF tinv_chain [OF assms(1)] assms(2)] obtain b where
    b: "brem (chains t ! hash t k) k = Done (val_or_0 (tmap t k), b)" "binv b"
      "bmap b = (bmap (chains t ! hash t k))(k := None)"
    by (auto simp: tmap_at)
  from rem_step [OF _ b(1)] assms(1) obtain t' where t': "rem t k = Done (val_or_0 (tmap t k), t')"
    "shape t'" "hash t' = hash t" "chains t' = (chains t)[hash t k := b]" by (auto simp: tinv_def)
  with b assms(1) tinv_upd [of t b k t'] tmap_upd [of t b k None t'] show ?thesis by auto
qed

sublocale table: kv_store tinv tmap get put rem kok vok
  by unfold_locales (use table_get_law table_put_law table_rem_law in auto)

end

locale hashed_total = hashed_store + chain_total: kv_total binv bmap bget bput brem kok vok +
  assumes put_returns: "shape t \<Longrightarrow> bput (chains t ! hash t k) k v m = Done (r, b, m') \<Longrightarrow>
    \<exists>t'. put t k v m = Done (r, t', m')"
begin

lemma table_put_total:
  assumes "tinv t" and "kok k" and "vok v" and "ready (Suc n) m"
  shows "\<exists>r t' m'. put t k v m = Done (r, t', m') \<and> ready n m'"
proof -
  from chain_total.put_total [OF tinv_chain [OF assms(1), of k] assms(2,3,4)] obtain r b m' where
    b: "bput (chains t ! hash t k) k v m = Done (r, b, m')" "ready n m'" by blast
  from put_returns [OF _ b(1)] assms(1) b(2) show ?thesis by (auto simp: tinv_def)
qed

sublocale table_total: kv_total tinv tmap get put rem kok vok
  by unfold_locales (rule table_put_total)

end

end
