(* ===== verification/Chain.thy ===== *)
theory Chain
  imports Kv_store
begin

text \<open>
  The bucket of the lock-based variants and the loops over a chain of buckets. A bucket holds
  \<open>ENTRIES_PER_BUCKET\<close> keys and values; key 0 marks an empty slot. The code links buckets by
  \<open>next\<close>: a chain is modelled as the list of its buckets, first the one inside the table's
  array, so \<open>bucket->next == NULL\<close> reads "the rest of the list is empty". The text of these
  loops is the same in \<open>clht_lb.c\<close>, \<open>clht_lb_lock_ins.c\<close> and \<open>clht_lb_res.c\<close>; the variants
  differ in the locks and in what they do around the loops.
\<close>

section \<open>Buckets\<close>

definition ENTRIES_PER_BUCKET :: nat where
  "ENTRIES_PER_BUCKET = 3"

record 'l bucket =
  lock :: 'l
  key :: "u64 list"
  val :: "u64 list"

definition bucket_ok :: "('l, 'z) bucket_scheme \<Rightarrow> bool" where
  "bucket_ok b \<longleftrightarrow> length (key b) = ENTRIES_PER_BUCKET \<and> length (val b) = ENTRIES_PER_BUCKET"

text \<open>
  \<open>clht_bucket_create\<close>: the keys and the lock are cleared, the values are not initialised.
\<close>

definition clht_bucket_create :: "mem \<Rightarrow> 'l::zero bucket option \<times> mem" where
  "clht_bucket_create m =
     (case memalign m of
        (None, m') \<Rightarrow> (None, m')
      | (Some (g0, g1, g2), m') \<Rightarrow>
          (Some \<lparr>lock = 0, key = replicate ENTRIES_PER_BUCKET 0, val = [g0, g1, g2]\<rparr>, m'))"

text \<open>A bucket as \<open>clht_hashtable_create\<close> leaves it, and the lock of a chain.\<close>

definition empty_bucket :: "'l::zero bucket" where
  "empty_bucket = \<lparr>lock = 0, key = replicate ENTRIES_PER_BUCKET 0, val = replicate ENTRIES_PER_BUCKET 0\<rparr>"

definition set_lock :: "'l bucket list \<Rightarrow> 'l \<Rightarrow> 'l bucket list" where
  "set_lock bs l = (case bs of [] \<Rightarrow> [] | b # bs' \<Rightarrow> b\<lparr>lock := l\<rparr> # bs')"

text \<open>The slot in which a bucket's loop finds a key: the first one that holds it.\<close>

definition find_key :: "('l, 'z) bucket_scheme \<Rightarrow> u64 \<Rightarrow> nat option" where
  "find_key b k = List.find (\<lambda>j. key b ! j = k) [0..<ENTRIES_PER_BUCKET]"

text \<open>Write a key and a value into slot \<open>j\<close> of bucket \<open>h\<close> of a chain (\<open>*empty_v\<close>, \<open>*empty\<close>).\<close>

definition write_slot ::
  "('l, 'z) bucket_scheme list \<Rightarrow> nat \<Rightarrow> nat \<Rightarrow> u64 \<Rightarrow> u64 \<Rightarrow> ('l, 'z) bucket_scheme list" where
  "write_slot bs h j k v =
     (let b = bs ! h; b = b\<lparr>val := (val b)[j := v]\<rparr>; b = b\<lparr>key := (key b)[j := k]\<rparr>
      in bs[h := b])"

section \<open>The loops\<close>

text \<open>
  The loop of \<open>clht_get\<close>. The value is read before the key and compared again after; with no
  other thread running the second read gives the same value.
\<close>

fun chain_get :: "('l, 'z) bucket_scheme list \<Rightarrow> u64 \<Rightarrow> u64" where
  "chain_get [] k = 0"
| "chain_get (b # bs) k =
     (case find_key b k of
        Some j \<Rightarrow> (let v = val b ! j in if val b ! j = v then v else 0)
      | None \<Rightarrow> chain_get bs k)"

fun bucket_exists :: "('l, 'z) bucket_scheme list \<Rightarrow> u64 \<Rightarrow> bool" where
  "bucket_exists [] k = False"
| "bucket_exists (b # bs) k = (if find_key b k \<noteq> None then True else bucket_exists bs k)"

text \<open>
  The loop of \<open>clht_put\<close>: leave with \<open>Inl\<close> when the key is found; otherwise remember the first
  empty slot, as the number of its bucket in the chain and its index.
\<close>

fun put_scan ::
  "('l, 'z) bucket_scheme \<Rightarrow> u64 \<Rightarrow> nat \<Rightarrow> nat list \<Rightarrow> (nat \<times> nat) option \<Rightarrow>
   unit + (nat \<times> nat) option" where
  "put_scan b k h [] e = Inr e"
| "put_scan b k h (j # js) e =
     (if key b ! j = k then Inl ()
      else if e = None \<and> key b ! j = 0 then put_scan b k h js (Some (h, j))
      else put_scan b k h js e)"

fun put_walk ::
  "('l, 'z) bucket_scheme list \<Rightarrow> u64 \<Rightarrow> nat \<Rightarrow> (nat \<times> nat) option \<Rightarrow>
   unit + (nat \<times> nat) option" where
  "put_walk [] k h e = Inr e"
| "put_walk (b # bs) k h e =
     (case put_scan b k h [0..<ENTRIES_PER_BUCKET] e of
        Inl u \<Rightarrow> Inl u
      | Inr e' \<Rightarrow> (if bs = [] then Inr e' else put_walk bs k (Suc h) e'))"

text \<open>The loop of \<open>clht_remove\<close>: clear the key that is found and return its value.\<close>

fun chain_remove ::
  "('l, 'z) bucket_scheme list \<Rightarrow> u64 \<Rightarrow> (u64 \<times> ('l, 'z) bucket_scheme list) option" where
  "chain_remove [] k = None"
| "chain_remove (b # bs) k =
     (case find_key b k of
        Some j \<Rightarrow> Some (val b ! j, b\<lparr>key := (key b)[j := 0]\<rparr> # bs)
      | None \<Rightarrow> map_option (\<lambda>(v, bs'). (v, b # bs')) (chain_remove bs k))"

text \<open>The loop of \<open>clht_size\<close> over one chain.\<close>

fun chain_size :: "('l, 'z) bucket_scheme list \<Rightarrow> nat" where
  "chain_size [] = 0"
| "chain_size (b # bs) =
     length (filter (\<lambda>j. key b ! j > 0) [0..<ENTRIES_PER_BUCKET]) + chain_size bs"

text \<open>
  What \<open>clht_put\<close> does between acquiring and releasing the lock: walk, then write the empty
  slot or, if there is none, link a new bucket and write its first slot. A failed allocation
  is dereferenced.
\<close>

definition chain_insert ::
  "'l::zero bucket list \<Rightarrow> u64 \<Rightarrow> u64 \<Rightarrow> mem \<Rightarrow> (bool \<times> 'l bucket list \<times> mem) outcome" where
  "chain_insert bs k v m =
     (case put_walk bs k 0 None of
        Inl _ \<Rightarrow> Done (False, bs, m)
      | Inr (Some (h, j)) \<Rightarrow> Done (True, write_slot bs h j k v, m)
      | Inr None \<Rightarrow>
          (case clht_bucket_create m of
             (None, m') \<Rightarrow> Faults
           | (Some b, m') \<Rightarrow> Done (True, write_slot (bs @ [b]) (length bs) 0 k v, m')))"

section \<open>What a chain stores\<close>

definition bucket_entries :: "('l, 'z) bucket_scheme \<Rightarrow> (u64 \<times> u64) list" where
  "bucket_entries b = filter (\<lambda>(k, v). k \<noteq> 0) (zip (key b) (val b))"

definition chain_entries :: "('l, 'z) bucket_scheme list \<Rightarrow> (u64 \<times> u64) list" where
  "chain_entries bs = concat (map bucket_entries bs)"

definition chain_map :: "('l, 'z) bucket_scheme list \<Rightarrow> kv" where
  "chain_map bs = map_of (chain_entries bs)"

definition chain_ok :: "('l, 'z) bucket_scheme list \<Rightarrow> bool" where
  "chain_ok bs \<longleftrightarrow> bs \<noteq> [] \<and> (\<forall>b\<in>set bs. bucket_ok b)"

definition chain_inv :: "('l, 'z) bucket_scheme list \<Rightarrow> bool" where
  "chain_inv bs \<longleftrightarrow> chain_ok bs \<and> distinct (map fst (chain_entries bs))"

lemma chain_entries_simps [simp]:
  "chain_entries [] = []"
  "chain_entries (b # bs) = bucket_entries b @ chain_entries bs"
  "chain_entries (as @ bs) = chain_entries as @ chain_entries bs"
  by (simp_all add: chain_entries_def)

lemma find_key_None: "bucket_ok b \<Longrightarrow> find_key b k = None \<longleftrightarrow> k \<notin> set (key b)"
  by (auto simp: find_key_def find_None_iff bucket_ok_def in_set_conv_nth)

lemma find_key_Some:
  "find_key b k = Some j \<Longrightarrow> j < ENTRIES_PER_BUCKET \<and> key b ! j = k"
  by (auto simp: find_key_def find_Some_iff)

lemma find_key_Some_in: "bucket_ok b \<Longrightarrow> find_key b k = Some j \<Longrightarrow> k \<in> set (key b)"
  by (drule find_key_Some) (auto simp: bucket_ok_def)

lemma bucket_keys: "bucket_ok b \<Longrightarrow> map fst (bucket_entries b) = filter (\<lambda>k. k \<noteq> 0) (key b)"
proof -
  assume "bucket_ok b"
  then have "key b = map fst (zip (key b) (val b))" by (simp add: bucket_ok_def)
  then show ?thesis
    unfolding bucket_entries_def by (metis (no_types, lifting) case_prod_beta' filter_cong filter_map comp_def)
qed

lemma in_bucket_keys:
  "bucket_ok b \<Longrightarrow> k \<noteq> 0 \<Longrightarrow> k \<in> fst ` set (bucket_entries b) \<longleftrightarrow> k \<in> set (key b)"
  using arg_cong [OF bucket_keys, of b set] by auto

lemma found_entry:
  assumes "bucket_ok b" and "find_key b k = Some j" and "k \<noteq> 0"
  shows "(k, val b ! j) \<in> set (bucket_entries b)"
proof -
  from assms(1,2) have "j < length (zip (key b) (val b))" "zip (key b) (val b) ! j = (k, val b ! j)"
    using find_key_Some [OF assms(2)] by (auto simp: bucket_ok_def)
  then have "(k, val b ! j) \<in> set (zip (key b) (val b))" by (metis nth_mem)
  with assms(3) show ?thesis by (simp add: bucket_entries_def)
qed

lemma chain_keys_distinct_Cons:
  "distinct (map fst (chain_entries (b # bs))) \<Longrightarrow>
     distinct (map fst (bucket_entries b)) \<and> distinct (map fst (chain_entries bs)) \<and>
     fst ` set (bucket_entries b) \<inter> fst ` set (chain_entries bs) = {}"
  by simp

lemma zero_no_entry: "(0, v) \<notin> set (chain_entries bs)"
  by (auto simp: chain_entries_def bucket_entries_def)

lemma chain_map_0: "chain_map bs 0 = None"
  using zero_no_entry by (force simp: chain_map_def map_of_eq_None_iff)

section \<open>Lookup\<close>

lemma chain_get_map:
  assumes "\<forall>b\<in>set bs. bucket_ok b" and "distinct (map fst (chain_entries bs))" and "k \<noteq> 0"
  shows "chain_get bs k = val_or_0 (chain_map bs k)"
  using assms
proof (induction bs)
  case Nil
  then show ?case by (simp add: chain_map_def)
next
  case (Cons b bs)
  show ?case
  proof (cases "find_key b k")
    case None
    with Cons.prems have "map_of (bucket_entries b) k = None"
      by (simp add: find_key_None map_of_eq_None_iff in_bucket_keys)
    with None Cons show ?thesis by (simp add: chain_map_def map_add_def)
  next
    case (Some j)
    with Cons.prems have e: "(k, val b ! j) \<in> set (chain_entries (b # bs))"
      using found_entry [of b k j] by simp
    have "map_of (chain_entries (b # bs)) k = Some (val b ! j)"
      by (rule map_of_is_SomeI [OF Cons.prems(2) e])
    with Some show ?thesis by (simp add: chain_map_def)
  qed
qed

lemma bucket_exists_iff:
  assumes "\<forall>b\<in>set bs. bucket_ok b"
  shows "bucket_exists bs k \<longleftrightarrow> (\<exists>b\<in>set bs. k \<in> set (key b))"
  using assms by (induction bs) (auto simp: find_key_None)

lemma chain_dom:
  assumes "\<forall>b\<in>set bs. bucket_ok b" and "k \<noteq> 0"
  shows "k \<in> fst ` set (chain_entries bs) \<longleftrightarrow> (\<exists>b\<in>set bs. k \<in> set (key b))"
  using assms(1)
proof (induction bs)
  case Nil
  then show ?case by simp
next
  case (Cons b bs)
  with in_bucket_keys [of b k] assms(2) show ?case by (simp add: image_Un)
qed

lemma chain_map_None:
  assumes "\<forall>b\<in>set bs. bucket_ok b" and "k \<noteq> 0"
  shows "chain_map bs k = None \<longleftrightarrow> \<not> bucket_exists bs k"
  using chain_dom [OF assms] bucket_exists_iff [OF assms(1)]
  by (simp add: chain_map_def map_of_eq_None_iff)

section \<open>Insertion\<close>

lemma put_scan_result:
  "put_scan b k h js e =
     (if \<exists>j\<in>set js. key b ! j = k then Inl ()
      else Inr (if e = None then map_option (Pair h) (List.find (\<lambda>j. key b ! j = 0) js) else e))"
  by (induction js arbitrary: e) auto

fun chain_empty :: "('l, 'z) bucket_scheme list \<Rightarrow> nat \<Rightarrow> (nat \<times> nat) option" where
  "chain_empty [] h = None"
| "chain_empty (b # bs) h =
     (case find_key b 0 of Some j \<Rightarrow> Some (h, j) | None \<Rightarrow> chain_empty bs (Suc h))"

lemma put_scan_bucket:
  assumes "bucket_ok b"
  shows "put_scan b k h [0..<ENTRIES_PER_BUCKET] e =
     (if k \<in> set (key b) then Inl ()
      else Inr (if e = None then map_option (Pair h) (find_key b 0) else e))"
proof -
  have "(\<exists>j\<in>set [0..<ENTRIES_PER_BUCKET]. key b ! j = k) \<longleftrightarrow> k \<in> set (key b)"
    using assms by (auto simp: bucket_ok_def in_set_conv_nth)
  then show ?thesis unfolding put_scan_result find_key_def by simp
qed

lemma put_walk_result:
  assumes "\<forall>b\<in>set bs. bucket_ok b"
  shows "put_walk bs k h e =
     (if bucket_exists bs k then Inl () else Inr (if e = None then chain_empty bs h else e))"
  using assms
proof (induction bs arbitrary: h e)
  case Nil
  then show ?case by simp
next
  case (Cons b bs)
  then show ?case
    by (auto simp: put_scan_bucket find_key_None dest: find_key_Some_in split: option.splits)
qed

lemma chain_empty_Some:
  assumes "chain_empty bs h = Some (h', j)"
  shows "h \<le> h' \<and> h' < h + length bs \<and> j < ENTRIES_PER_BUCKET \<and> key (bs ! (h' - h)) ! j = 0"
  using assms
proof (induction bs arbitrary: h)
  case Nil
  then show ?case by simp
next
  case (Cons b bs)
  show ?case
  proof (cases "find_key b 0")
    case None
    with Cons.prems have "chain_empty bs (Suc h) = Some (h', j)" by simp
    from Cons.IH [OF this] show ?thesis by (auto simp: nth_Cons')
  next
    case (Some i)
    with Cons.prems find_key_Some [OF Some] show ?thesis by simp
  qed
qed

lemma mset_filter_update:
  assumes "j < length xs" and "\<not> P (xs ! j)" and "P x"
  shows "mset (filter P (xs[j := x])) = add_mset x (mset (filter P xs))"
proof -
  have "filter P xs = filter P (take j xs @ xs ! j # drop (Suc j) xs)"
    using assms(1) by (simp add: id_take_nth_drop [symmetric])
  with assms show ?thesis by (simp add: upd_conv_take_nth_drop)
qed

lemma bucket_write_entries:
  assumes "bucket_ok b" and "j < ENTRIES_PER_BUCKET" and "key b ! j = 0" and "k \<noteq> 0"
  shows "mset (bucket_entries (b\<lparr>val := (val b)[j := v], key := (key b)[j := k]\<rparr>)) =
    add_mset (k, v) (mset (bucket_entries b))"
  using assms mset_filter_update [of j "zip (key b) (val b)" "\<lambda>(k, v). k \<noteq> 0" "(k, v)"]
  by (simp add: bucket_entries_def bucket_ok_def update_zip)

lemma mset_chain_entries_update:
  assumes "h < length bs"
  shows "mset (chain_entries (bs[h := b])) =
    mset (bucket_entries b) + mset (chain_entries (take h bs)) + mset (chain_entries (drop (Suc h) bs))"
  using assms by (simp add: upd_conv_take_nth_drop)

lemma mset_chain_entries_split:
  assumes "h < length bs"
  shows "mset (chain_entries bs) =
    mset (bucket_entries (bs ! h)) + mset (chain_entries (take h bs)) +
    mset (chain_entries (drop (Suc h) bs))"
  using mset_chain_entries_update [OF assms, of "bs ! h"] by simp

lemma write_slot_length [simp]: "length (write_slot bs h j k v) = length bs"
  by (simp add: write_slot_def Let_def)

lemma write_slot_entries:
  assumes "chain_ok bs" and "h < length bs" and "j < ENTRIES_PER_BUCKET"
    and "key (bs ! h) ! j = 0" and "k \<noteq> 0"
  shows "mset (chain_entries (write_slot bs h j k v)) = add_mset (k, v) (mset (chain_entries bs))"
proof -
  from assms(1,2) have "bucket_ok (bs ! h)" by (simp add: chain_ok_def)
  from bucket_write_entries [OF this assms(3-5), of v] show ?thesis
    using assms(2) by (simp add: write_slot_def Let_def mset_chain_entries_update
        mset_chain_entries_split [OF assms(2)])
qed

lemma write_slot_ok: "chain_ok bs \<Longrightarrow> chain_ok (write_slot bs h j k v)"
  unfolding write_slot_def chain_ok_def Let_def
  by (cases "h < length bs") (auto simp: bucket_ok_def list_update_beyond dest!: set_update_subset_insert [THEN subsetD])

lemma write_slot_hd_lock: "bs \<noteq> [] \<Longrightarrow> lock (hd (write_slot bs h j k v)) = lock (hd bs)"
  by (cases bs; cases h) (auto simp: write_slot_def Let_def)

lemma chain_entry_added:
  assumes "chain_inv bs" and "chain_ok bs'" and "chain_map bs k = None"
    and "mset (chain_entries bs') = add_mset (k, v) (mset (chain_entries bs))"
  shows "chain_inv bs' \<and> chain_map bs' = (chain_map bs)(k \<mapsto> v)"
  using assms map_of_add_entry [OF assms(4)]
  by (auto simp: chain_inv_def chain_map_def map_of_eq_None_iff)

lemma fresh_bucket:
  assumes "clht_bucket_create m = (Some b, m')"
  shows "bucket_ok b" and "bucket_entries b = []" and "lock b = 0" and "live m' = Suc (live m)"
    and "find_key b 0 = Some 0"
  using assms
  by (auto simp: clht_bucket_create_def bucket_ok_def bucket_entries_def ENTRIES_PER_BUCKET_def
      memalign_def find_key_def numeral_3_eq_3 upt_conv_Cons
      split: prod.splits option.splits list.splits)

lemma chain_ok_snoc: "chain_ok bs \<Longrightarrow> bucket_ok b \<Longrightarrow> chain_ok (bs @ [b])"
  by (auto simp: chain_ok_def)

lemma chain_map_exists:
  "chain_inv bs \<Longrightarrow> k \<noteq> 0 \<Longrightarrow> chain_map bs k = None \<longleftrightarrow> \<not> bucket_exists bs k"
  by (simp add: chain_map_None chain_inv_def chain_ok_def)

lemma chain_insert_cases:
  assumes "chain_inv bs"
  shows "chain_insert bs k v m =
     (if bucket_exists bs k then Done (False, bs, m)
      else case chain_empty bs 0 of
        Some (h, j) \<Rightarrow> Done (True, write_slot bs h j k v, m)
      | None \<Rightarrow>
          (case clht_bucket_create m of
             (None, m') \<Rightarrow> Faults
           | (Some b, m') \<Rightarrow> Done (True, write_slot (bs @ [b]) (length bs) 0 k v, m')))"
  using assms put_walk_result [of bs k 0 None]
  by (auto simp: chain_insert_def chain_inv_def chain_ok_def split: option.splits)

text \<open>Writing an absent key into the first empty slot, or into a new bucket.\<close>

lemma empty_slot:
  assumes "chain_inv bs" and "chain_map bs k = None" and "k \<noteq> 0" and "chain_empty bs 0 = Some (i, j)"
  shows "chain_inv (write_slot bs i j k v)" and "chain_map (write_slot bs i j k v) = (chain_map bs)(k \<mapsto> v)"
    and "lock (hd (write_slot bs i j k v)) = lock (hd bs)"
proof -
  have ok: "chain_ok bs" using assms(1) by (simp add: chain_inv_def)
  from chain_empty_Some [OF assms(4)] write_slot_entries [OF ok _ _ _ assms(3), of i j v]
  have "mset (chain_entries (write_slot bs i j k v)) = add_mset (k, v) (mset (chain_entries bs))" by simp
  from chain_entry_added [OF assms(1) write_slot_ok [OF ok] assms(2) this]
  show "chain_inv (write_slot bs i j k v)" and "chain_map (write_slot bs i j k v) = (chain_map bs)(k \<mapsto> v)"
    by auto
  show "lock (hd (write_slot bs i j k v)) = lock (hd bs)"
    using ok by (simp add: write_slot_hd_lock chain_ok_def)
qed

lemma new_slot:
  assumes "chain_inv bs" and "chain_map bs k = None" and "k \<noteq> 0" and "clht_bucket_create m = (Some b, m')"
  shows "chain_inv (write_slot (bs @ [b]) (length bs) 0 k v)"
    and "chain_map (write_slot (bs @ [b]) (length bs) 0 k v) = (chain_map bs)(k \<mapsto> v)"
    and "lock (hd (write_slot (bs @ [b]) (length bs) 0 k v)) = lock (hd bs)"
proof -
  have ok: "chain_ok bs" using assms(1) by (simp add: chain_inv_def)
  note fb = fresh_bucket [OF assms(4)]
  have ok': "chain_ok (bs @ [b])" using ok fb(1) by (rule chain_ok_snoc)
  have "mset (chain_entries (write_slot (bs @ [b]) (length bs) 0 k v)) = add_mset (k, v) (mset (chain_entries bs))"
    using write_slot_entries [OF ok', of "length bs" 0 k v] fb assms(3) find_key_Some [OF fb(5)]
    by (simp add: ENTRIES_PER_BUCKET_def)
  from chain_entry_added [OF assms(1) write_slot_ok [OF ok'] assms(2) this]
  show "chain_inv (write_slot (bs @ [b]) (length bs) 0 k v)"
    and "chain_map (write_slot (bs @ [b]) (length bs) 0 k v) = (chain_map bs)(k \<mapsto> v)" by auto
  show "lock (hd (write_slot (bs @ [b]) (length bs) 0 k v)) = lock (hd bs)"
    using ok write_slot_hd_lock [of "bs @ [b]"] by (simp add: chain_ok_def)
qed

lemma chain_insert_law:
  assumes "chain_inv bs" and "k \<noteq> 0" and "chain_insert bs k v m = Done (r, bs', m')"
  shows "chain_inv bs' \<and> r = (chain_map bs k = None) \<and>
    chain_map bs' = (if r then (chain_map bs)(k \<mapsto> v) else chain_map bs) \<and>
    lock (hd bs') = lock (hd bs)"
proof (cases "bucket_exists bs k")
  case True
  with assms show ?thesis by (auto simp: chain_insert_cases chain_map_exists)
next
  case False
  with assms(1,2) have none: "chain_map bs k = None" by (simp add: chain_map_exists)
  show ?thesis
  proof (cases "chain_empty bs 0")
    case None
    with assms(1,3) False obtain b where b: "clht_bucket_create m = (Some b, m')" and r: "r"
      and bs': "bs' = write_slot (bs @ [b]) (length bs) 0 k v"
      by (auto simp: chain_insert_cases split: prod.splits option.splits)
    from new_slot [OF assms(1) none assms(2) b] none show ?thesis by (simp add: bs' r)
  next
    case (Some e)
    obtain i j where e: "e = (i, j)" by (cases e)
    with assms(1,3) False Some have r: "r" and bs': "bs' = write_slot bs i j k v"
      by (auto simp: chain_insert_cases)
    from empty_slot [OF assms(1) none assms(2) Some [unfolded e]] none show ?thesis by (simp add: bs' r)
  qed
qed

lemma chain_insert_total:
  fixes bs :: "'l::zero bucket list"
  assumes "chain_inv bs" and "ready (Suc n) m"
  shows "\<exists>r bs' m'. chain_insert bs k v m = Done (r, bs', m') \<and> ready n m'"
proof -
  from ready_Suc_memalign [OF assms(2)] obtain g m1 where
    g: "memalign m = (Some g, m1)" "ready n m1" by blast
  then obtain b :: "'l bucket" where "clht_bucket_create m = (Some b, m1)"
    by (cases g) (auto simp: clht_bucket_create_def)
  with g assms show ?thesis
    by (auto simp: chain_insert_cases dest: ready_SucD split: option.splits)
qed

text \<open>A chain is full when no bucket has a cleared key.\<close>

definition chain_full :: "('l, 'z) bucket_scheme list \<Rightarrow> bool" where
  "chain_full bs \<longleftrightarrow> (\<forall>b\<in>set bs. 0 \<notin> set (key b))"

lemma chain_full_iff: "\<forall>b\<in>set bs. bucket_ok b \<Longrightarrow> chain_full bs \<longleftrightarrow> chain_empty bs h = None"
  by (induction bs arbitrary: h)
    (auto simp: chain_full_def find_key_None dest: find_key_Some_in split: option.splits)

lemma chain_insert_faults:
  assumes "chain_inv bs" and "k \<noteq> 0"
  shows "chain_insert bs k v m = Faults \<longleftrightarrow>
    chain_map bs k = None \<and> chain_full bs \<and> fst (memalign m) = None"
  using assms chain_full_iff [of bs 0]
  by (auto simp: chain_insert_cases chain_map_exists clht_bucket_create_def chain_inv_def
      chain_ok_def split: option.splits prod.splits)

section \<open>Removal\<close>

lemma mset_filter_clear:
  assumes "j < length xs" and "P (xs ! j)" and "\<not> P x"
  shows "mset (filter P xs) = add_mset (xs ! j) (mset (filter P (xs[j := x])))"
proof -
  have "filter P xs = filter P ((xs[j := x])[j := xs ! j])" by simp
  also have "mset \<dots> = add_mset (xs ! j) (mset (filter P (xs[j := x])))"
    using assms by (intro mset_filter_update) auto
  finally show ?thesis .
qed

lemma bucket_clear_entries:
  assumes "bucket_ok b" and "j < ENTRIES_PER_BUCKET" and "key b ! j = k" and "k \<noteq> 0"
  shows "mset (bucket_entries b) =
    add_mset (k, val b ! j) (mset (bucket_entries (b\<lparr>key := (key b)[j := 0]\<rparr>)))"
proof -
  have "zip ((key b)[j := 0]) (val b) = (zip (key b) (val b))[j := (0, val b ! j)]"
    using update_zip [of "key b" "val b" j "(0, val b ! j)"] by simp
  then show ?thesis
    using assms mset_filter_clear [of j "zip (key b) (val b)" "\<lambda>(k, v). k \<noteq> 0" "(0, val b ! j)"]
    by (simp add: bucket_entries_def bucket_ok_def)
qed

lemma chain_remove_None: "chain_remove bs k = None \<longleftrightarrow> \<not> bucket_exists bs k"
  by (induction bs) (auto split: option.splits)

lemma chain_remove_Some:
  assumes "chain_remove bs k = Some (v, bs')" and "\<forall>b\<in>set bs. bucket_ok b" and "k \<noteq> 0"
  shows "mset (chain_entries bs) = add_mset (k, v) (mset (chain_entries bs'))"
    and "\<forall>b\<in>set bs'. bucket_ok b" and "length bs' = length bs" and "map lock bs' = map lock bs"
proof -
  have "mset (chain_entries bs) = add_mset (k, v) (mset (chain_entries bs')) \<and>
    (\<forall>b\<in>set bs'. bucket_ok b) \<and> length bs' = length bs \<and> map lock bs' = map lock bs"
    using assms
  proof (induction bs arbitrary: bs')
    case Nil
    then show ?case by simp
  next
    case (Cons b bs)
    show ?case
    proof (cases "find_key b k")
      case None
      with Cons.prems obtain cs where "chain_remove bs k = Some (v, cs)" "bs' = b # cs" by auto
      with Cons.IH [of cs] Cons.prems show ?thesis by simp
    next
      case (Some j)
      from Cons.prems(1) Some have bs': "v = val b ! j" "bs' = b\<lparr>key := (key b)[j := 0]\<rparr> # bs"
        by auto
      from Cons.prems(2,3) bucket_clear_entries [of b j k] find_key_Some [OF Some]
      show ?thesis by (auto simp: bs' bucket_ok_def)
    qed
  qed
  then show "mset (chain_entries bs) = add_mset (k, v) (mset (chain_entries bs'))"
    and "\<forall>b\<in>set bs'. bucket_ok b" and "length bs' = length bs" and "map lock bs' = map lock bs"
    by blast+
qed

lemma chain_remove_correct:
  assumes "chain_inv bs" and "k \<noteq> 0" and "chain_remove bs k = Some (v, bs')"
  shows "chain_inv bs' \<and> chain_map bs k = Some v \<and> chain_map bs' = (chain_map bs)(k := None)"
proof -
  from assms(1) have ok: "\<forall>b\<in>set bs. bucket_ok b" and d: "distinct (map fst (chain_entries bs))"
    by (auto simp: chain_inv_def chain_ok_def)
  note r = chain_remove_Some [OF assms(3) ok assms(2)]
  from map_of_del_entry [OF r(1) d] r(2,3) assms(1) show ?thesis
    by (auto simp: chain_inv_def chain_ok_def chain_map_def)
qed

section \<open>Size\<close>

lemma bucket_size:
  assumes "bucket_ok b"
  shows "length (filter (\<lambda>j. key b ! j > 0) [0..<ENTRIES_PER_BUCKET]) = length (bucket_entries b)"
proof -
  have "key b = map (\<lambda>j. key b ! j) [0..<ENTRIES_PER_BUCKET]"
    using assms by (metis bucket_ok_def map_nth)
  then have "filter (\<lambda>k. k \<noteq> 0) (key b) =
      filter (\<lambda>k. k \<noteq> 0) (map (\<lambda>j. key b ! j) [0..<ENTRIES_PER_BUCKET])"
    by (rule arg_cong)
  then have "length (filter (\<lambda>k. k \<noteq> 0) (key b)) =
      length (filter (\<lambda>j. key b ! j > 0) [0..<ENTRIES_PER_BUCKET])"
    by (simp add: filter_map comp_def word_neq_0_conv)
  moreover have "length (bucket_entries b) = length (filter (\<lambda>k. k \<noteq> 0) (key b))"
    by (metis assms bucket_keys length_map)
  ultimately show ?thesis by simp
qed

lemma chain_size_entries:
  "\<forall>b\<in>set bs. bucket_ok b \<Longrightarrow> chain_size bs = length (chain_entries bs)"
  by (induction bs) (auto simp: bucket_size)

lemma chain_size_card: "chain_inv bs \<Longrightarrow> chain_size bs = card (dom (chain_map bs))"
  by (auto simp: chain_inv_def chain_ok_def chain_map_def card_dom_map_of chain_size_entries)

lemma finite_dom_chain_map: "finite (dom (chain_map bs))"
  by (simp add: chain_map_def finite_dom_map_of)

section \<open>The entries of a table\<close>

text \<open>The entries of all chains of a table: their keys differ, and they are the table's map.\<close>

lemma dom_chain_map: "dom (chain_map bs) = fst ` set (chain_entries bs)"
  by (simp add: chain_map_def dom_map_of_conv_image_fst)

lemma chain_inv_entries: "chain_inv bs \<Longrightarrow> distinct (map fst (chain_entries bs)) \<and> chain_map bs = map_of (chain_entries bs)"
  by (simp add: chain_inv_def chain_map_def)

lemma chains_entries_distinct:
  assumes "chains_inv binv chain_map h bss" and "\<And>bs. binv bs \<Longrightarrow> chain_inv bs"
  shows "distinct (map fst (concat (map chain_entries bss)))"
  using assms(2) by (intro all_entries_distinct [OF assms(1)] chain_inv_entries)

lemma chains_entries_map:
  assumes "chains_inv binv chain_map h bss" and "\<And>bs. binv bs \<Longrightarrow> chain_inv bs"
    and "\<And>k. h k < length bss"
  shows "map_of (concat (map chain_entries bss)) = chains_map chain_map h bss"
  using assms(2) by (intro all_entries_map [OF assms(1) _ assms(3)] chain_inv_entries)

section \<open>Locks and empty chains\<close>

lemma set_lock_simps [simp]:
  "chain_entries (set_lock bs l) = chain_entries bs"
  "chain_map (set_lock bs l) = chain_map bs"
  "chain_ok (set_lock bs l) = chain_ok bs"
  "chain_inv (set_lock bs l) = chain_inv bs"
  "bucket_exists (set_lock bs l) k = bucket_exists bs k"
  "(\<forall>b\<in>set (set_lock bs l). bucket_ok b) = (\<forall>b\<in>set bs. bucket_ok b)"
  "length (set_lock bs l) = length bs"
  "set_lock bs l = [] \<longleftrightarrow> bs = []"
  "set_lock (set_lock bs l) l' = set_lock bs l'"
  by (cases bs; simp add: set_lock_def bucket_entries_def chain_map_def chain_ok_def chain_inv_def
      bucket_ok_def find_key_def; fail)+

lemma lock_set_lock: "bs \<noteq> [] \<Longrightarrow> lock (hd (set_lock bs l)) = l"
  by (cases bs) (simp_all add: set_lock_def)

lemma set_lock_same: "lock (hd bs) = l \<Longrightarrow> set_lock bs l = bs"
  by (cases bs) (auto simp: set_lock_def)

lemma empty_bucket_facts:
  "bucket_ok empty_bucket" "bucket_entries empty_bucket = []" "lock empty_bucket = 0"
  by (simp_all add: empty_bucket_def bucket_ok_def bucket_entries_def ENTRIES_PER_BUCKET_def
      numeral_3_eq_3)

lemma empty_chain:
  "chain_inv [empty_bucket]" "chain_map [empty_bucket] = Map.empty"
  by (simp_all add: chain_inv_def chain_ok_def chain_map_def empty_bucket_facts)

lemma chains_empty:
  assumes "binv [empty_bucket]" and "n = length bss" and "bss = replicate n [empty_bucket]"
    and "\<And>k. h k < n"
  shows "chains_inv binv chain_map h bss" and "chains_map chain_map h bss = Map.empty"
proof -
  from assms(3) have nth: "bss ! i = [empty_bucket]" if "i < n" for i
    using that by (metis nth_replicate)
  then show "chains_inv binv chain_map h bss"
    using assms(1,2) by (auto simp: chains_inv_def empty_chain)
  show "chains_map chain_map h bss = Map.empty"
    using nth assms(4) by (auto simp: chains_map_def empty_chain)
qed

end
