(* ===== verification/Clht_hash.thy ===== *)
theory Clht_hash
  imports Prelude
begin

unbundle bit_operations_syntax

text \<open>
  The bit tricks that every variant of the table relies on: \<open>is_power_of_two\<close>, \<open>is_odd\<close> and
  Jenkins' 64-bit hash (\<open>src/src/clht/src/clht_lb.c\<close>, repeated in the other variants),
  \<open>pow2roundup\<close> (\<open>src/include/utils.h\<close>), and the masking that turns a key into a bucket
  number.
\<close>

section \<open>Powers of two\<close>

definition is_power_of_two :: "u32 \<Rightarrow> bool" where
  "is_power_of_two x \<longleftrightarrow> x \<noteq> 0 \<and> \<not> (x AND (x - 1)) \<noteq> 0"

definition is_odd :: "u32 \<Rightarrow> u32" where
  "is_odd x = x AND 1"

definition pow2roundup :: "u32 \<Rightarrow> u32" where
  "pow2roundup x =
     (if x = 0 then 1
      else let x = x - 1;
               x = x OR drop_bit 1 x;
               x = x OR drop_bit 2 x;
               x = x OR drop_bit 4 x;
               x = x OR drop_bit 8 x;
               x = x OR drop_bit 16 x
           in x + 1)"

lemma unat_bound: "unat (x :: 'a::len word) < 2 ^ LENGTH('a)"
  by (rule unsigned_less)

lemma unat_ucast_u32: "unat (ucast (n :: u32) :: u64) = unat n"
proof -
  have "unat n < 2 ^ 32" using unat_bound [of n] by simp
  also have "(2::nat) ^ 32 < 2 ^ 64" by simp
  finally show ?thesis by (simp add: unsigned_ucast_eq take_bit_nat_eq_self)
qed

lemma unat_exp2: "n < LENGTH('a) \<Longrightarrow> unat (2 ^ n :: 'a::len word) = 2 ^ n"
  by (metis mod_less of_nat_numeral of_nat_power one_less_numeral_iff power_strict_increasing
      semiring_norm(76) unat_of_nat)

lemma unat_pred: "x \<noteq> 0 \<Longrightarrow> unat (x - 1 :: 'a::len word) = unat x - 1"
  by (rule unat_minus_one)

lemma unat_pred_gt1:
  assumes "1 < (x :: u32)"
  shows "unat (x - 1) = unat x - 1 \<and> 0 < unat x"
proof (intro conjI)
  from assms have p: "0 < unat x" by (simp add: word_less_nat_alt)
  then show "0 < unat x" .
  from p have "x \<noteq> 0" by (simp add: unat_gt_0)
  then show "unat (x - 1) = unat x - 1" by (rule unat_pred)
qed

lemma top_bit_word:
  fixes x :: "'a::len word"
  assumes "x \<noteq> 0"
  obtains n where "n < LENGTH('a)" and "2 ^ n \<le> unat x" and "unat x < 2 ^ Suc n"
    and "bit x n" and "\<And>j. n < j \<Longrightarrow> \<not> bit x j"
proof -
  from assms have "1 \<le> unat x" by (simp add: Suc_leI unat_gt_0)
  then obtain n where n: "2 ^ n \<le> unat x" "unat x < 2 ^ (n + 1)"
    using ex_power_ivl1 [of 2 "unat x"] by auto
  have "(2::nat) ^ n < 2 ^ LENGTH('a)"
    using n(1) unat_bound [of x] by linarith
  then have len: "n < LENGTH('a)" by (simp add: power_less_imp_less_exp)
  have bu: "bit x j \<longleftrightarrow> bit (unat x) j" for j
    by (simp add: bit_unsigned_iff)
  have "unat x div 2 ^ n = 1"
    using n by (intro div_nat_eqI) auto
  then have "bit x n" unfolding bu by (simp add: bit_iff_odd)
  moreover have "\<not> bit x j" if "n < j" for j
  proof -
    have "(2::nat) ^ Suc n \<le> 2 ^ j" using that by (intro power_increasing) auto
    with n(2) have "unat x < 2 ^ j" by simp
    then show ?thesis unfolding bu by (simp add: bit_iff_odd)
  qed
  ultimately show thesis using that [OF len] n by simp
qed

lemma bit_word_between:
  fixes x :: "'a::len word"
  assumes "2 ^ n \<le> unat x" and "unat x < 2 ^ Suc n"
  shows "bit x n"
proof -
  have "unat x div 2 ^ n = 1"
    using assms by (intro div_nat_eqI) auto
  then have "bit (unat x) n" by (simp add: bit_iff_odd)
  then show ?thesis by (simp add: bit_unsigned_iff)
qed

text \<open>
  The test \<open>x & (x - 1)\<close> of \<open>is_power_of_two\<close> accepts exactly the powers of two that
  fit in 32 bits.
\<close>

theorem is_power_of_two_correct:
  "is_power_of_two x = (\<exists>n<32. x = 2 ^ n)"
proof
  assume p: "is_power_of_two x"
  then have "x \<noteq> 0" by (simp add: is_power_of_two_def)
  then obtain n where n: "n < LENGTH(32)" "2 ^ n \<le> unat x" "unat x < 2 ^ Suc n" "bit x n"
    by (rule top_bit_word)
  have "x = 2 ^ n"
  proof (rule ccontr)
    assume "x \<noteq> 2 ^ n"
    moreover have u2: "unat (2 ^ n :: u32) = 2 ^ n"
      using n(1) by (simp add: unat_exp2)
    ultimately have "unat x \<noteq> 2 ^ n" by (metis word_unat_eq_iff)
    moreover have "unat (x - 1) = unat x - 1"
      using \<open>x \<noteq> 0\<close> by (simp add: unat_minus_one)
    ultimately have "2 ^ n \<le> unat (x - 1)" "unat (x - 1) < 2 ^ Suc n"
      using n(2,3) by auto
    then have "bit (x - 1) n" by (rule bit_word_between)
    with n(4) have "bit (x AND (x - 1)) n" by (simp add: bit_and_iff)
    with p show False by (simp add: is_power_of_two_def)
  qed
  with n(1) show "\<exists>n<32. x = 2 ^ n" by auto
next
  assume "\<exists>n<32. x = 2 ^ n"
  then obtain n where n: "n < 32" "x = 2 ^ n" by blast
  have "x AND (x - 1) = 0"
  proof (rule bit_eqI)
    fix j
    show "bit (x AND (x - 1)) j \<longleftrightarrow> bit (0 :: u32) j"
      by (simp add: n(2) bit_simps flip: mask_eq_exp_minus_1)
  qed
  moreover have "x \<noteq> 0" using n by simp
  ultimately show "is_power_of_two x" by (simp add: is_power_of_two_def)
qed

lemma smear_step:
  fixes x y :: u32
  assumes "\<And>i. bit y i \<longleftrightarrow> (\<exists>d<m. bit x (i + d))"
  shows "bit (y OR drop_bit m y) i \<longleftrightarrow> (\<exists>d<2 * m. bit x (i + d))"
proof -
  have "bit (y OR drop_bit m y) i \<longleftrightarrow> (\<exists>d<m. bit x (i + d)) \<or> (\<exists>d<m. bit x (m + i + d))"
    by (simp add: bit_or_iff bit_drop_bit_eq assms)
  also have "\<dots> \<longleftrightarrow> (\<exists>d<2 * m. bit x (i + d))"
  proof
    assume "(\<exists>d<m. bit x (i + d)) \<or> (\<exists>d<m. bit x (m + i + d))"
    then consider d where "d < m" "bit x (i + d)" | d where "d < m" "bit x (m + i + d)" by blast
    then show "\<exists>d<2 * m. bit x (i + d)"
    proof cases
      case 1
      then show ?thesis by (intro exI [of _ d]) simp
    next
      case 2
      then show ?thesis by (intro exI [of _ "m + d"]) (simp add: ac_simps)
    qed
  next
    assume "\<exists>d<2 * m. bit x (i + d)"
    then obtain d where d: "d < 2 * m" "bit x (i + d)" by blast
    show "(\<exists>d<m. bit x (i + d)) \<or> (\<exists>d<m. bit x (m + i + d))"
    proof (cases "d < m")
      case True
      with d(2) show ?thesis by blast
    next
      case False
      with d have "d - m < m \<and> bit x (m + i + (d - m))" by (simp add: ac_simps)
      then show ?thesis by blast
    qed
  qed
  finally show ?thesis .
qed

text \<open>The five shifts copy the highest set bit into every lower position.\<close>

lemma smear_all:
  fixes x :: u32
  defines "a \<equiv> x OR drop_bit 1 x"
  defines "b \<equiv> a OR drop_bit 2 a"
  defines "c \<equiv> b OR drop_bit 4 b"
  defines "d \<equiv> c OR drop_bit 8 c"
  defines "e \<equiv> d OR drop_bit 16 d"
  shows "bit e i \<longleftrightarrow> (\<exists>j<32. bit x (i + j))"
proof -
  have "bit x i \<longleftrightarrow> (\<exists>j<1. bit x (i + j))" for i by simp
  from smear_step [of x 1, OF this] have 1: "bit a i \<longleftrightarrow> (\<exists>j<2. bit x (i + j))" for i
    by (simp add: a_def)
  from smear_step [of a 2, OF 1] have 2: "bit b i \<longleftrightarrow> (\<exists>j<4. bit x (i + j))" for i
    by (simp add: b_def)
  from smear_step [of b 4, OF 2] have 3: "bit c i \<longleftrightarrow> (\<exists>j<8. bit x (i + j))" for i
    by (simp add: c_def)
  from smear_step [of c 8, OF 3] have 4: "bit d i \<longleftrightarrow> (\<exists>j<16. bit x (i + j))" for i
    by (simp add: d_def)
  from smear_step [of d 16, OF 4] show ?thesis by (simp add: e_def)
qed

lemma pow2roundup_mask:
  assumes "1 < x"
  obtains n where "n < 32" and "2 ^ n \<le> unat (x - 1)" and "unat (x - 1) < 2 ^ Suc n"
    and "pow2roundup x = mask (Suc n) + 1"
proof -
  have "x - 1 \<noteq> 0" using assms by auto
  then obtain n where n: "n < LENGTH(32)" "2 ^ n \<le> unat (x - 1)" "unat (x - 1) < 2 ^ Suc n"
      "bit (x - 1) n" "\<And>j. n < j \<Longrightarrow> \<not> bit (x - 1) j"
    by (rule top_bit_word) blast
  have sm: "bit (mask (Suc n) :: u32) i \<longleftrightarrow> (\<exists>j<32. bit (x - 1) (i + j))" for i
  proof
    assume "bit (mask (Suc n) :: u32) i"
    then have "i \<le> n" by (simp add: bit_mask_iff)
    with n(1,4) have "n - i < 32 \<and> bit (x - 1) (i + (n - i))" by simp
    then show "\<exists>j<32. bit (x - 1) (i + j)" by blast
  next
    assume "\<exists>j<32. bit (x - 1) (i + j)"
    then obtain j where "bit (x - 1) (i + j)" by blast
    with n(5) have "i + j \<le> n" by (meson not_le)
    with n(1) show "bit (mask (Suc n) :: u32) i" by (simp add: bit_mask_iff)
  qed
  have "pow2roundup x = mask (Suc n) + 1"
    unfolding pow2roundup_def Let_def
    using assms arg_cong [OF bit_eqI [OF trans [OF smear_all sm [symmetric]]], of "\<lambda>e. e + 1"]
    by (simp only: word_not_simps if_False split: if_split) auto
  with n that show thesis by simp
qed

lemma pow2roundup_least_power_law:
  assumes "unat x \<le> 2 ^ 31"
  shows "\<exists>n\<le>31. pow2roundup x = 2 ^ n \<and> unat x \<le> 2 ^ n \<and> (\<forall>m. unat x \<le> 2 ^ m \<longrightarrow> n \<le> m)"
proof (cases "x \<le> 1")
  case True
  then have "x = 0 \<or> x = 1" by (metis le_less word_less_1)
  then show ?thesis by (intro exI [of _ 0]) (auto simp: pow2roundup_def)
next
  case False
  then have "1 < x" by simp
  then obtain n where n: "n < 32" "2 ^ n \<le> unat (x - 1)" "unat (x - 1) < 2 ^ Suc n"
      "pow2roundup x = mask (Suc n) + 1"
    by (rule pow2roundup_mask)
  have u: "unat (x - 1) = unat x - 1" "0 < unat x"
    using unat_pred_gt1 [OF \<open>1 < x\<close>] by blast+
  have "(2::nat) ^ n < 2 ^ 31" using n(2) u assms by simp
  then have "n < 31" by (rule power_less_imp_less_exp [rotated]) simp
  then have "pow2roundup x = 2 ^ Suc n" by (simp add: n(4) mask_eq_exp_minus_1)
  moreover have "unat x \<le> 2 ^ Suc n" using n(3) u by simp
  moreover have "Suc n \<le> m" if "unat x \<le> 2 ^ m" for m
  proof -
    have "(2::nat) ^ n < 2 ^ m" using n(2) u that by linarith
    then show ?thesis by (simp add: Suc_leI)
  qed
  ultimately show ?thesis using \<open>n < 31\<close> by (intro exI [of _ "Suc n"]) simp
qed

text \<open>
  \<open>pow2roundup\<close> returns the least power of two that is not below its argument, as long
  as that power fits in 32 bits; 0 is rounded to 1.
\<close>

theorem pow2roundup_least_power:
  assumes "unat x \<le> 2 ^ 31"
  shows "\<exists>n\<le>31. pow2roundup x = 2 ^ n \<and> unat x \<le> 2 ^ n \<and> (\<forall>m. unat x \<le> 2 ^ m \<longrightarrow> n \<le> m)"
  using assms by (rule pow2roundup_least_power_law)

text \<open>The hypothesis holds at 5, whose rounding is 8.\<close>

theorem pow2roundup_least_power_witness:
  "\<exists>n\<le>31. pow2roundup 5 = 2 ^ n \<and> unat (5 :: u32) \<le> 2 ^ n \<and> (\<forall>m. unat (5 :: u32) \<le> 2 ^ m \<longrightarrow> n \<le> m)"
  by (rule pow2roundup_least_power [of 5]) simp

lemma pow2roundup_overflow:
  assumes "2 ^ 31 < unat x"
  shows "pow2roundup x = 0"
proof -
  have "1 < x" using assms by (simp add: word_less_nat_alt)
  then obtain n where n: "n < 32" "2 ^ n \<le> unat (x - 1)" "unat (x - 1) < 2 ^ Suc n"
      "pow2roundup x = mask (Suc n) + 1"
    by (rule pow2roundup_mask)
  have "unat (x - 1) = unat x - 1" using unat_pred_gt1 [OF \<open>1 < x\<close>] by blast
  with assms n(3) have "(2::nat) ^ 31 < 2 ^ Suc n" by linarith
  then have "31 < Suc n" by (rule power_less_imp_less_exp [rotated]) simp
  with n(1) have "n = 31" by simp
  then show ?thesis by (simp add: n(4) mask_eq_exp_minus_1)
qed

lemma even_unat: "even (unat w) \<longleftrightarrow> even (w :: 'a::len word)"
  by transfer (simp add: even_nat_iff)

lemma even_pow2roundup: "pow2roundup x = 1 \<or> even (pow2roundup x)"
proof (cases "1 < x")
  case True
  then obtain n where "pow2roundup x = mask (Suc n) + 1" by (rule pow2roundup_mask)
  moreover have "odd (mask (Suc n) :: u32)" by (simp add: even_mask_iff)
  ultimately show ?thesis by simp
next
  case False
  then have "x \<le> 1" by simp
  then have "x = 0 \<or> x = 1" by (metis le_less word_less_1)
  then show ?thesis by (auto simp: pow2roundup_def)
qed

section \<open>Jenkins' hash\<close>

definition ac_Jenkins_hash_64 :: "u64 \<Rightarrow> u64" where
  "ac_Jenkins_hash_64 key =
     (let key = key + NOT (push_bit 32 key);
          key = key XOR drop_bit 22 key;
          key = key + NOT (push_bit 13 key);
          key = key XOR drop_bit 8 key;
          key = key + push_bit 3 key;
          key = key XOR drop_bit 15 key;
          key = key + NOT (push_bit 27 key);
          key = key XOR drop_bit 31 key
      in key)"

text \<open>
  Each of the eight lines is injective: \<open>key ^= key >> s\<close> because the difference of two keys
  with the same image is its own shift, the others because they multiply by an odd number.
\<close>

lemma drop_bit_fixpoint_0:
  fixes d :: u64
  assumes "0 < s" and "d = drop_bit s d"
  shows "d = 0"
proof -
  from assms(2) have "unat d = unat (drop_bit s d)" by simp
  also have "\<dots> = drop_bit s (unat d)" by (rule unat_drop_bit_eq)
  finally have "unat d = unat d div 2 ^ s" by (simp only: drop_bit_eq_div)
  moreover have "unat d div 2 ^ s < unat d" if "0 < unat d"
    using that assms(1) one_less_power [of "2::nat" s] by (intro div_less_dividend) simp_all
  ultimately have "unat d = 0" by fastforce
  then show ?thesis by (simp add: unat_eq_zero)
qed

lemma inj_xor_shift:
  assumes "0 < s"
  shows "inj (\<lambda>k :: u64. k XOR drop_bit s k)"
proof (rule injI)
  fix k k' :: u64
  assume "k XOR drop_bit s k = k' XOR drop_bit s k'"
  then have "bit (k XOR drop_bit s k) n \<longleftrightarrow> bit (k' XOR drop_bit s k') n" for n by simp
  then have "k XOR k' = drop_bit s (k XOR k')"
    by (intro bit_eqI) (auto simp: bit_xor_iff bit_drop_bit_eq)
  with assms have "k XOR k' = 0" by (rule drop_bit_fixpoint_0)
  then have "\<not> bit (k XOR k') n" for n by simp
  then show "k = k'" by (intro bit_eqI) (simp add: bit_xor_iff)
qed

lemma inj_mult_inverse:
  fixes a :: "'a::comm_ring_1"
  assumes "a * c = 1"
  shows "inj (\<lambda>k. k * a + b)"
proof (rule injI)
  fix k k' :: 'a
  assume "k * a + b = k' * a + b"
  then have "k * a * c = k' * a * c" by simp
  with assms show "k = k'" by (simp add: mult.assoc)
qed

lemma add_not_push: "k + NOT (push_bit s k) = k * (1 - 2 ^ s) + (- 1 :: u64)"
  by (simp add: not_eq_complement push_bit_eq_mult algebra_simps)

lemma add_push: "k + push_bit s k = k * (1 + 2 ^ s) + (0 :: u64)"
  by (simp add: push_bit_eq_mult algebra_simps)

lemma inj_add_not_push:
  assumes "s = 32 \<or> s = 27 \<or> s = 13"
  shows "inj (\<lambda>k :: u64. k + NOT (push_bit s k))"
proof -
  have "(1 - 2 ^ 32) * (1 + 2 ^ 32 :: u64) = 1"
    and "(1 - 2 ^ 27) * (1 + 2 ^ 27 + 2 ^ 54 :: u64) = 1"
    and "(1 - 2 ^ 13) * (1 + 2 ^ 13 + 2 ^ 26 + 2 ^ 39 + 2 ^ 52 :: u64) = 1"
    by simp_all
  with assms show ?thesis unfolding add_not_push by (metis inj_mult_inverse)
qed

lemma inj_add_push3: "inj (\<lambda>k :: u64. k + push_bit 3 k)"
proof -
  have "(1 + 2 ^ 3) * (10248191152060862009 :: u64) = 1" by simp
  then show ?thesis unfolding add_push by (rule inj_mult_inverse)
qed

lemma Jenkins_as_composition:
  "ac_Jenkins_hash_64 =
     (\<lambda>k. k XOR drop_bit 31 k) \<circ> (\<lambda>k. k + NOT (push_bit 27 k)) \<circ>
     (\<lambda>k. k XOR drop_bit 15 k) \<circ> (\<lambda>k. k + push_bit 3 k) \<circ>
     (\<lambda>k. k XOR drop_bit 8 k) \<circ> (\<lambda>k. k + NOT (push_bit 13 k)) \<circ>
     (\<lambda>k. k XOR drop_bit 22 k) \<circ> (\<lambda>k. k + NOT (push_bit 32 k))"
  unfolding ac_Jenkins_hash_64_def Let_def comp_def by (rule refl)

text \<open>
  C40. Jenkins' mixing function is a permutation of the 64-bit keys, so hashing first never
  makes two different keys equal.
\<close>

theorem Jenkins_hash_permutation: "bij ac_Jenkins_hash_64"
proof -
  have "inj ac_Jenkins_hash_64"
    unfolding Jenkins_as_composition
    by (intro inj_compose inj_xor_shift inj_add_not_push inj_add_push3) simp_all
  then show ?thesis by (simp add: bij_def finite_UNIV_inj_surj)
qed

section \<open>Bucket numbers\<close>

text \<open>
  The variants compute \<open>key & (num_buckets - 1)\<close> and return it as a \<open>uint32_t\<close>; the caller
  widens it again to index the array of buckets.
\<close>

definition mask_bin :: "u64 \<Rightarrow> u64 \<Rightarrow> u32" where
  "mask_bin hash key = ucast (key AND hash)"

lemma unat_and_le: "unat (a AND b :: 'a::len word) \<le> unat b"
  by (metis word_and_le1 word_le_nat_alt)

lemma mask_bin_le: "unat (mask_bin h k) \<le> unat h"
proof -
  have "unat (mask_bin h k) \<le> unat (k AND h)"
    by (simp add: mask_bin_def unsigned_ucast_eq take_bit_nat_less_eq_self)
  with unat_and_le [of k h] show ?thesis by linarith
qed

lemma mask_bin_less:
  assumes "n \<noteq> 0"
  shows "unat (mask_bin (n - 1) k) < unat n"
proof -
  have "unat (n - 1) < unat n"
    using assms by (simp add: unat_pred unat_gt_0)
  with mask_bin_le [of "n - 1" k] show ?thesis by linarith
qed

lemma mask_bin_mod:
  assumes "n \<le> 32"
  shows "unat (mask_bin (2 ^ n - 1) k) = unat k mod 2 ^ n"
proof -
  have "unat (k AND (2 ^ n - 1)) = unat k mod 2 ^ n"
    unfolding mask_eq_exp_minus_1 [symmetric] take_bit_eq_mask [symmetric]
    by (simp only: unsigned_take_bit_eq) (simp only: take_bit_eq_mod)
  moreover have "unat k mod 2 ^ n < 2 ^ 32"
  proof -
    have "unat k mod 2 ^ n < 2 ^ n" by simp
    also have "(2::nat) ^ n \<le> 2 ^ 32" using assms by (intro power_increasing) auto
    finally show ?thesis .
  qed
  ultimately show ?thesis
    by (simp add: mask_bin_def unsigned_ucast_eq take_bit_eq_mod)
qed

lemma ucast_scast_mult: "(ucast (scast b * n :: u64) :: u32) = b * ucast n" for b :: u32
proof -
  have "(ucast (x * y :: u64) :: u32) = ucast x * ucast y" for x y
    by (simp add: word_unat_eq_iff unsigned_ucast_eq take_bit_eq_mod unat_word_ariths(2) mod_mod_cancel mod_simps)
  moreover have "ucast (scast a :: u64) = a" for a :: u32
    by transfer (simp add: take_bit_signed_take_bit)
  ultimately show ?thesis by simp
qed

lemma ucast_power: "e < 32 \<Longrightarrow> (ucast (2 ^ e :: u64) :: u32) = 2 ^ e"
  using power_strict_increasing [of e 32 "2::nat"]
  by (simp add: word_unat_eq_iff unsigned_ucast_eq take_bit_eq_mod unat_exp2)

end
