(* ===== verification/Atomic_ops.thy ===== *)
theory Atomic_ops
  imports Prelude
begin

text \<open>
  The atomic instructions of \<open>src/src/clht/include/atomic_ops.h\<close>, in the x86 branch: each
  takes the content of the cell and gives the value returned and the content left behind. The
  macros \<open>_U8\<close> to \<open>_U64\<close> differ in the width only, which is the type here.
\<close>

definition CAS :: "'a::len word \<Rightarrow> 'a word \<Rightarrow> 'a word \<Rightarrow> 'a word \<times> 'a word" where
  "CAS cell expected new = (cell, if cell = expected then new else cell)"

definition SWAP :: "'a::len word \<Rightarrow> 'a word \<Rightarrow> 'a word \<times> 'a word" where
  "SWAP cell new = (cell, new)"

definition FAI :: "'a::len word \<Rightarrow> 'a word \<times> 'a word" where
  "FAI cell = (cell, cell + 1)"

definition FAD :: "'a::len word \<Rightarrow> 'a word \<times> 'a word" where
  "FAD cell = (cell, cell - 1)"

definition IAF :: "'a::len word \<Rightarrow> 'a word \<times> 'a word" where
  "IAF cell = (cell + 1, cell + 1)"

definition DAF :: "'a::len word \<Rightarrow> 'a word \<times> 'a word" where
  "DAF cell = (cell - 1, cell - 1)"

text \<open>Test-and-set exchanges the byte with \<open>0xff\<close> and returns the old one.\<close>

definition TAS_U8 :: "u8 \<Rightarrow> u8 \<times> u8" where
  "TAS_U8 cell = SWAP cell 255"

lemma CAS_success: "fst (CAS cell e n) = e \<longleftrightarrow> cell = e"
  and CAS_stored: "snd (CAS cell e n) = (if cell = e then n else cell)"
  by (simp_all add: CAS_def)

lemma TAS_stored: "snd (TAS_U8 cell) \<noteq> 0"
  by (simp add: TAS_U8_def SWAP_def)

end
