(* ===== verification/Clht_lb.thy ===== *)
theory Clht_lb
  imports Chain Clht_hash Atomic_ops
begin

text \<open>
  \<open>CLHT-LB-NO-RESIZE\<close> (\<open>src/src/clht/src/clht_lb.c\<close>, \<open>include/clht_lb.h\<close>): one
  fetch-and-increment lock per bucket, lookups without locks, chains that grow by one bucket
  when they are full. \<open>READ_ONLY_FAIL\<close> is defined in the header, so \<open>clht_put\<close> and
  \<open>clht_remove\<close> look before they lock.
\<close>

unbundle bit_operations_syntax

section \<open>State\<close>

record hashtable_lb =
  num_buckets_lb :: u64
  table_lb :: "u64 bucket list list"

record clht_lb =
  ht_lb :: hashtable_lb

definition clht_hashtable_create_lb :: "u32 \<Rightarrow> mem \<Rightarrow> hashtable_lb option \<times> mem" where
  "clht_hashtable_create_lb num_buckets m =
     (if num_buckets = 0 then (None, m)
      else case memalign m of
        (None, m1) \<Rightarrow> (None, m1)
      | (Some _, m1) \<Rightarrow>
          (case memalign m1 of
             (None, m2) \<Rightarrow> (None, mfree m2)
           | (Some _, m2) \<Rightarrow>
               (Some \<lparr>num_buckets_lb = ucast num_buckets,
                      table_lb = replicate (unat num_buckets) [empty_bucket]\<rparr>, m2)))"

definition clht_create_lb :: "u32 \<Rightarrow> mem \<Rightarrow> clht_lb option \<times> mem" where
  "clht_create_lb num_buckets m =
     (case memalign m of
        (None, m1) \<Rightarrow> (None, m1)
      | (Some _, m1) \<Rightarrow>
          (case clht_hashtable_create_lb num_buckets m1 of
             (None, m2) \<Rightarrow> (None, mfree m2)
           | (Some t, m2) \<Rightarrow> (Some \<lparr>ht_lb = t\<rparr>, m2)))"

definition clht_hash_lb :: "hashtable_lb \<Rightarrow> u64 \<Rightarrow> u32" where
  "clht_hash_lb hashtable k = ucast (k AND (num_buckets_lb hashtable - 1))"

section \<open>Locks\<close>

text \<open>
  \<open>LOCK_ACQ\<close> with \<open>TAS_WITH_FAI\<close>: \<open>while (FAI_U64(lock)) _mm_pause()\<close>. Every attempt adds
  1 to the lock word, so with no other thread the loop ends at the latest when the word wraps.
\<close>

function lock_acq_fai :: "u64 \<Rightarrow> u64" where
  "lock_acq_fai l = (if fst (FAI l) = 0 then snd (FAI l) else lock_acq_fai (snd (FAI l)))"
  by pat_completeness auto
termination
proof (relation "measure (\<lambda>l. unat (- l))")
  fix l :: u64
  assume "fst (FAI l) \<noteq> 0"
  then have "- l \<noteq> 0" by (simp add: FAI_def)
  then have "unat (- l - 1) < unat (- l)" by (simp add: unat_pred unat_gt_0)
  moreover have "- (l + 1) = - l - 1" by simp
  ultimately have "unat (- (l + 1)) < unat (- l)" by (simp only:)
  then show "(snd (FAI l), l) \<in> measure (\<lambda>l. unat (- l))"
    by (simp only: in_measure FAI_def snd_conv)
qed simp

declare lock_acq_fai.simps [simp del]

lemma lock_acq_fai_result: "lock_acq_fai l = 1"
proof (induction l rule: lock_acq_fai.induct)
  case (1 l)
  then show ?case by (cases "l = 0") (simp_all add: lock_acq_fai.simps [of l] lock_acq_fai.simps [of 0] FAI_def)
qed

definition LOCK_ACQ_lb :: "u64 bucket list \<Rightarrow> u64 bucket list" where
  "LOCK_ACQ_lb bs = set_lock bs (lock_acq_fai (lock (hd bs)))"

definition LOCK_RLS_lb :: "u64 bucket list \<Rightarrow> u64 bucket list" where
  "LOCK_RLS_lb bs = set_lock bs 0"

section \<open>Operations\<close>

definition clht_get_lb :: "hashtable_lb \<Rightarrow> u64 \<Rightarrow> u64" where
  "clht_get_lb hashtable k =
     (let bin = unat (clht_hash_lb hashtable k) in chain_get (table_lb hashtable ! bin) k)"

text \<open>The part of \<open>clht_put\<close> that works on the chain of the key's bucket.\<close>

definition put_chain_lb ::
  "u64 bucket list \<Rightarrow> u64 \<Rightarrow> u64 \<Rightarrow> mem \<Rightarrow> (bool \<times> u64 bucket list \<times> mem) outcome" where
  "put_chain_lb bs k v m =
     (if bucket_exists bs k then Done (False, bs, m)
      else bind_outcome (chain_insert (LOCK_ACQ_lb bs) k v m)
             (\<lambda>(r, bs', m'). Done (r, LOCK_RLS_lb bs', m')))"

definition clht_put_lb :: "clht_lb \<Rightarrow> u64 \<Rightarrow> u64 \<Rightarrow> mem \<Rightarrow> (bool \<times> clht_lb \<times> mem) outcome" where
  "clht_put_lb h k v m =
     (let hashtable = ht_lb h; bin = unat (clht_hash_lb hashtable k)
      in bind_outcome (put_chain_lb (table_lb hashtable ! bin) k v m)
           (\<lambda>(r, bs, m'). Done (r, h\<lparr>ht_lb := hashtable\<lparr>table_lb := (table_lb hashtable)[bin := bs]\<rparr>\<rparr>, m')))"

definition remove_chain_lb :: "u64 bucket list \<Rightarrow> u64 \<Rightarrow> (u64 \<times> u64 bucket list) outcome" where
  "remove_chain_lb bs k =
     (if \<not> bucket_exists bs k then Done (0, bs)
      else let bs = LOCK_ACQ_lb bs in
        case chain_remove bs k of
          Some (v, bs') \<Rightarrow> Done (v, LOCK_RLS_lb bs')
        | None \<Rightarrow> Done (0, LOCK_RLS_lb bs))"

definition clht_remove_lb :: "clht_lb \<Rightarrow> u64 \<Rightarrow> (u64 \<times> clht_lb) outcome" where
  "clht_remove_lb h k =
     (let hashtable = ht_lb h; bin = unat (clht_hash_lb hashtable k)
      in bind_outcome (remove_chain_lb (table_lb hashtable ! bin) k)
           (\<lambda>(r, bs). Done (r, h\<lparr>ht_lb := hashtable\<lparr>table_lb := (table_lb hashtable)[bin := bs]\<rparr>\<rparr>)))"

text \<open>The sequential insertion of the copying code: the loop of \<open>clht_put\<close> with no lock.\<close>

definition clht_put_seq_lb ::
  "hashtable_lb \<Rightarrow> u64 \<Rightarrow> u64 \<Rightarrow> u32 \<Rightarrow> mem \<Rightarrow> (bool \<times> hashtable_lb \<times> mem) outcome" where
  "clht_put_seq_lb hashtable k v bin m =
     (let i = unat bin; bs = table_lb hashtable ! i;
          upd = (\<lambda>bs'. hashtable\<lparr>table_lb := (table_lb hashtable)[i := bs']\<rparr>)
      in bind_outcome (chain_insert bs k v m) (\<lambda>(r, bs', m'). Done (r, upd bs', m')))"

text \<open>
  \<open>bucket_cpy\<close> copies the occupied slots of a chain in order. The source takes the value from
  \<open>bucket->key[j]\<close>; the model keeps that.
\<close>

fun bucket_cpy_loop_lb ::
  "(u64 \<times> u64) list \<Rightarrow> hashtable_lb \<Rightarrow> mem \<Rightarrow> (hashtable_lb \<times> mem) outcome" where
  "bucket_cpy_loop_lb [] ht_new m = Done (ht_new, m)"
| "bucket_cpy_loop_lb ((k, _) # es) ht_new m =
     (let bin = clht_hash_lb ht_new k; v = k
      in bind_outcome (clht_put_seq_lb ht_new k v bin m)
           (\<lambda>(_, ht', m'). bucket_cpy_loop_lb es ht' m'))"

definition bucket_cpy_lb ::
  "u64 bucket list \<Rightarrow> hashtable_lb \<Rightarrow> mem \<Rightarrow> (u64 bucket list \<times> hashtable_lb \<times> mem) outcome" where
  "bucket_cpy_lb bs ht_new m =
     (let bs = LOCK_ACQ_lb bs
      in bind_outcome (bucket_cpy_loop_lb (chain_entries bs) ht_new m)
           (\<lambda>(ht', m'). Done (bs, ht', m')))"

definition clht_destroy_lb :: "hashtable_lb \<Rightarrow> mem \<Rightarrow> mem" where
  "clht_destroy_lb hashtable m = mfree (mfree m)"

text \<open>\<open>clht_size\<close>; the loop bound is \<open>num_buckets\<close> cut to 32 bits.\<close>

definition clht_size_lb :: "hashtable_lb \<Rightarrow> u64" where
  "clht_size_lb hashtable =
     (let num_buckets = (ucast (num_buckets_lb hashtable) :: u32)
      in of_nat (\<Sum>bin\<leftarrow>[0..<unat num_buckets]. chain_size (table_lb hashtable ! bin)))"

section \<open>Invariant and abstraction\<close>

definition shape_lb :: "clht_lb \<Rightarrow> bool" where
  "shape_lb h \<longleftrightarrow>
     (let t = ht_lb h in num_buckets_lb t \<noteq> 0 \<and> unat (num_buckets_lb t) < 2 ^ 32 \<and>
        length (table_lb t) = unat (num_buckets_lb t))"

definition chain_inv_lb :: "u64 bucket list \<Rightarrow> bool" where
  "chain_inv_lb bs \<longleftrightarrow> chain_inv bs \<and> lock (hd bs) = 0"

definition bin_lb :: "clht_lb \<Rightarrow> u64 \<Rightarrow> nat" where
  "bin_lb h k = unat (clht_hash_lb (ht_lb h) k)"

definition inv_lb :: "clht_lb \<Rightarrow> bool" where
  "inv_lb h \<longleftrightarrow> shape_lb h \<and> chains_inv chain_inv_lb chain_map (bin_lb h) (table_lb (ht_lb h))"

definition map_lb :: "clht_lb \<Rightarrow> kv" where
  "map_lb h = chains_map chain_map (bin_lb h) (table_lb (ht_lb h))"

section \<open>One chain\<close>

lemma acquired_lb:
  "chain_inv_lb bs \<Longrightarrow> chain_inv (LOCK_ACQ_lb bs) \<and> chain_map (LOCK_ACQ_lb bs) = chain_map bs"
  by (simp add: LOCK_ACQ_lb_def chain_inv_lb_def)

lemma released_lb:
  "chain_inv bs \<Longrightarrow> chain_inv_lb (LOCK_RLS_lb bs) \<and> chain_map (LOCK_RLS_lb bs) = chain_map bs"
  by (simp add: LOCK_RLS_lb_def chain_inv_lb_def lock_set_lock chain_inv_def chain_ok_def)

lemma chain_inv_lbD: "chain_inv_lb bs \<Longrightarrow> chain_inv bs"
  by (simp add: chain_inv_lb_def)

lemma put_chain_lb_law:
  assumes "chain_inv_lb bs" and "k \<noteq> 0" and "put_chain_lb bs k v m = Done (r, bs', m')"
  shows "chain_inv_lb bs' \<and> r = (chain_map bs k = None) \<and>
    chain_map bs' = (if r then (chain_map bs)(k \<mapsto> v) else chain_map bs)"
proof (cases "bucket_exists bs k")
  case True
  with assms chain_map_exists [OF chain_inv_lbD [OF assms(1)]] show ?thesis
    by (auto simp: put_chain_lb_def)
next
  case False
  with assms(3) obtain ds where ds: "chain_insert (LOCK_ACQ_lb bs) k v m = Done (r, ds, m')"
    and bs': "bs' = LOCK_RLS_lb ds" by (auto simp: put_chain_lb_def bind_outcome_Done_iff)
  from acquired_lb [OF assms(1)] chain_insert_law [OF _ assms(2) ds] released_lb [of ds]
  show ?thesis by (simp add: bs')
qed

lemma put_chain_lb_total:
  assumes "chain_inv_lb bs" and "ready (Suc n) m"
  shows "\<exists>r bs' m'. put_chain_lb bs k v m = Done (r, bs', m') \<and> ready n m'"
  using chain_insert_total [of "LOCK_ACQ_lb bs" n m k v] acquired_lb [OF assms(1)] assms(2)
  by (auto simp: put_chain_lb_def dest: ready_SucD)

lemma remove_chain_lb_law:
  assumes "chain_inv_lb bs" and "k \<noteq> 0"
  shows "\<exists>bs'. remove_chain_lb bs k = Done (val_or_0 (chain_map bs k), bs') \<and>
    chain_inv_lb bs' \<and> chain_map bs' = (chain_map bs)(k := None)"
proof (cases "bucket_exists bs k")
  case False
  with assms have "chain_map bs k = None"
    by (simp add: chain_map_exists chain_inv_lb_def)
  with False assms show ?thesis by (auto simp: remove_chain_lb_def)
next
  case True
  define cs where "cs = LOCK_ACQ_lb bs"
  have cs: "chain_inv cs" "chain_map cs = chain_map bs" "bucket_exists cs k"
    using acquired_lb [OF assms(1)] True by (auto simp: cs_def LOCK_ACQ_lb_def)
  then obtain v ds where ds: "chain_remove cs k = Some (v, ds)"
    using chain_remove_None [of cs k] by (cases "chain_remove cs k") auto
  from chain_remove_correct [OF cs(1) assms(2) ds] released_lb [of ds] True ds cs(2) show ?thesis
    by (auto simp: remove_chain_lb_def Let_def cs_def [symmetric])
qed

interpretation lb_chain: kv_total chain_inv_lb chain_map chain_get put_chain_lb remove_chain_lb
  "\<lambda>k. k \<noteq> 0" "\<lambda>_. True"
proof unfold_locales
  fix bs :: "u64 bucket list" and k :: u64
  assume "chain_inv_lb bs" "k \<noteq> 0"
  then show "chain_get bs k = val_or_0 (chain_map bs k)"
    by (simp add: chain_get_map chain_inv_lb_def chain_inv_def chain_ok_def)
qed (use put_chain_lb_law put_chain_lb_total remove_chain_lb_law in blast)+

section \<open>The table\<close>

interpretation lb: hashed_total chain_inv_lb chain_map chain_get put_chain_lb remove_chain_lb
  "\<lambda>k. k \<noteq> 0" "\<lambda>_. True"
  shape_lb "\<lambda>h. table_lb (ht_lb h)" bin_lb
  "\<lambda>h. clht_get_lb (ht_lb h)" clht_put_lb clht_remove_lb
proof unfold_locales
  fix h :: clht_lb and k :: u64
  assume "shape_lb h"
  then show "bin_lb h k < length (table_lb (ht_lb h))"
    using mask_bin_less [of "num_buckets_lb (ht_lb h)" k]
    by (simp add: shape_lb_def Let_def bin_lb_def clht_hash_lb_def mask_bin_def)
qed (auto simp: bin_lb_def clht_hash_lb_def shape_lb_def Let_def clht_get_lb_def
    clht_put_lb_def clht_remove_lb_def fun_eq_iff bind_outcome_Done_iff)

lemma inv_lb_eq: "inv_lb = lb.tinv" and map_lb_eq: "map_lb = lb.tmap"
  by (simp_all add: fun_eq_iff inv_lb_def map_lb_def lb.tinv_def lb.tmap_def)

text \<open>
  C14. A run of any lookups, insertions and removals with keys other than 0 on a well-formed
  lock-based table returns, keeps the table well formed, and gives the answers and the final
  content of the abstract map, provided that one block of memory is available per operation.
\<close>

theorem clht_lb_refines_map:
  assumes "inv_lb h" and "\<forall>x\<in>set xs. op_key x \<noteq> 0" and "ready (length xs) m"
  shows "\<exists>rs h' m'. table_run (\<lambda>h. clht_get_lb (ht_lb h)) clht_put_lb clht_remove_lb (h, m) xs =
      Done (rs, h', m') \<and> inv_lb h' \<and> kv_run (map_lb h) xs = (rs, map_lb h')"
  using assms unfolding inv_lb_eq map_lb_eq by (rule lb.table_total.run_total_refines [unfolded op_ok_any])

section \<open>Creation\<close>

lemma create_cases:
  assumes "clht_create_lb n m = (w, m')"
  shows "(w = None \<and> live m' = live m) \<or>
    (\<exists>h. w = Some h \<and> live m' = live m + 3 \<and> n \<noteq> 0 \<and>
       num_buckets_lb (ht_lb h) = ucast n \<and>
       table_lb (ht_lb h) = replicate (unat n) [empty_bucket])"
  using assms
  by (auto simp: clht_create_lb_def clht_hashtable_create_lb_def memalign_def mfree_def
      split: prod.splits option.splits list.splits if_splits)

lemma created_shape:
  fixes n :: u32
  assumes "n \<noteq> 0" and "num_buckets_lb (ht_lb h) = ucast n"
    and "table_lb (ht_lb h) = replicate (unat n) [empty_bucket]"
  shows "inv_lb h \<and> map_lb h = Map.empty"
proof -
  have sh: "shape_lb h"
    using assms unat_bound [of n] unat_ucast_u32 [of n]
    by (auto simp: shape_lb_def Let_def unat_eq_zero [symmetric])
  have less: "bin_lb h k < unat n" for k
    using lb.hash_less [OF sh, of k] assms(3) by simp
  have cinv: "chain_inv_lb [empty_bucket]"
    by (simp add: chain_inv_lb_def empty_chain empty_bucket_facts)
  note e = chains_empty [of chain_inv_lb "unat n" "table_lb (ht_lb h)" "bin_lb h"]
  from e cinv less assms(3) sh show ?thesis by (simp add: inv_lb_def map_lb_def)
qed

text \<open>
  C25. \<open>clht_create\<close> returns NULL exactly when the bucket count is 0 or one of the three
  requests for memory fails, and then gives every block back; otherwise the new table is well
  formed, empty, and owns three blocks.
\<close>

theorem clht_create_lb_correct:
  "case clht_create_lb n m of
     (None, m') \<Rightarrow> live m' = live m \<and> (n = 0 \<or> \<not> ready 3 m)
   | (Some h, m') \<Rightarrow> live m' = live m + 3 \<and> n \<noteq> 0 \<and> inv_lb h \<and> map_lb h = Map.empty"
proof (cases "clht_create_lb n m")
  case (Pair w m')
  show ?thesis
  proof (cases w)
    case None
    have "n = 0 \<or> \<not> ready 3 m"
    proof (rule ccontr)
      assume "\<not> (n = 0 \<or> \<not> ready 3 m)"
      then have n: "n \<noteq> 0" and "ready (Suc (Suc (Suc 0))) m" by (simp_all add: numeral_3_eq_3)
      from ready_Suc_memalign [OF this(2)] obtain g1 m1 where
        1: "memalign m = (Some g1, m1)" "ready (Suc (Suc 0)) m1" by blast
      from ready_Suc_memalign [OF 1(2)] obtain g2 m2 where
        2: "memalign m1 = (Some g2, m2)" "ready (Suc 0) m2" by blast
      from ready_Suc_memalign [OF 2(2)] obtain g3 m3 where "memalign m2 = (Some g3, m3)" by blast
      with 1 2 n Pair None show False
        by (simp add: clht_create_lb_def clht_hashtable_create_lb_def)
    qed
    with create_cases [OF Pair] Pair None show ?thesis by auto
  next
    case (Some h)
    with create_cases [OF Pair] created_shape [of n h] Pair show ?thesis by auto
  qed
qed

text \<open>
  In a well-formed table \<open>clht_size\<close> is the number of keys that the table maps; the
  \<open>size_t\<close> counter does not wrap, because the key 0 is never counted.
\<close>

theorem clht_size_lb_correct:
  assumes "inv_lb h"
  shows "unat (clht_size_lb (ht_lb h)) = card (dom (map_lb h))"
proof -
  let ?t = "table_lb (ht_lb h)"
  from assms have sh: "shape_lb h" and ci: "chains_inv chain_inv_lb chain_map (bin_lb h) ?t"
    by (auto simp: inv_lb_def)
  have "unat (ucast (num_buckets_lb (ht_lb h)) :: u32) = length ?t"
    using sh by (simp add: shape_lb_def Let_def unsigned_ucast_eq take_bit_nat_eq_self)
  then have size: "clht_size_lb (ht_lb h) = of_nat (\<Sum>bs\<leftarrow>?t. chain_size bs)"
    unfolding clht_size_lb_def Let_def by (simp add: map_index_eq)
  have "(\<Sum>bs\<leftarrow>?t. chain_size bs) = (\<Sum>bs\<leftarrow>?t. card (dom (chain_map bs)))"
  proof (rule arg_cong [where f = sum_list], rule map_cong)
    fix bs assume "bs \<in> set ?t"
    with ci have "chain_inv_lb bs" by (auto simp: chains_inv_def in_set_conv_nth)
    then show "chain_size bs = card (dom (chain_map bs))"
      by (simp add: chain_inv_lb_def chain_size_card)
  qed simp
  also have "\<dots> = card (dom (map_lb h))"
    unfolding map_lb_def using ci
    by (rule chains_card [symmetric]) (use lb.hash_less [OF sh] finite_dom_chain_map in auto)
  finally have "clht_size_lb (ht_lb h) = of_nat (card (dom (map_lb h)))"
    by (simp add: size)
  moreover have "0 \<notin> dom (map_lb h)"
    by (simp add: map_lb_def chains_map_def chain_map_0 dom_def)
  ultimately show ?thesis using card_nonzero_u64 by (simp add: unat_of_nat_u64)
qed

section \<open>Failing allocation, copying, destruction\<close>

text \<open>
  \<open>clht_put\<close> dereferences a null pointer exactly when the key is absent, every slot of
  its chain is occupied, and the allocation of another bucket fails.
\<close>

theorem clht_put_lb_faults:
  assumes "inv_lb h" and "k \<noteq> 0"
  shows "clht_put_lb h k v m = Faults \<longleftrightarrow>
    map_lb h k = None \<and> chain_full (table_lb (ht_lb h) ! bin_lb h k) \<and> fst (memalign m) = None"
proof -
  let ?bs = "table_lb (ht_lb h) ! bin_lb h k"
  have inv: "chain_inv_lb ?bs" using assms(1) lb.tinv_chain by (simp add: inv_lb_eq)
  have full: "chain_full (LOCK_ACQ_lb ?bs) \<longleftrightarrow> chain_full ?bs"
    by (cases ?bs) (auto simp: chain_full_def LOCK_ACQ_lb_def set_lock_def)
  have "clht_put_lb h k v m = Faults \<longleftrightarrow> put_chain_lb ?bs k v m = Faults"
    by (cases "put_chain_lb ?bs k v m") (auto simp: clht_put_lb_def Let_def bin_lb_def)
  also have "\<dots> \<longleftrightarrow> \<not> bucket_exists ?bs k \<and> chain_insert (LOCK_ACQ_lb ?bs) k v m = Faults"
    by (cases "chain_insert (LOCK_ACQ_lb ?bs) k v m") (auto simp: put_chain_lb_def)
  also have "\<dots> \<longleftrightarrow> chain_map ?bs k = None \<and> chain_full ?bs \<and> fst (memalign m) = None"
    using chain_insert_faults [of "LOCK_ACQ_lb ?bs" k v m] acquired_lb [OF inv] assms(2) full
      chain_map_exists [OF chain_inv_lbD [OF inv] assms(2)] by auto
  finally show ?thesis by (simp add: map_lb_eq lb.tmap_at)
qed

lemma put_seq_lb_law:
  assumes "inv_lb \<lparr>ht_lb = t\<rparr>" and "k \<noteq> 0"
    and "clht_put_seq_lb t k v (clht_hash_lb t k) m = Done (r, t', m')"
  shows "inv_lb \<lparr>ht_lb = t'\<rparr> \<and>
    map_lb \<lparr>ht_lb = t'\<rparr> = (if map_lb \<lparr>ht_lb = t\<rparr> k = None then (map_lb \<lparr>ht_lb = t\<rparr>)(k \<mapsto> v)
      else map_lb \<lparr>ht_lb = t\<rparr>)"
proof -
  let ?h = "\<lparr>ht_lb = t\<rparr>" and ?bin = "bin_lb \<lparr>ht_lb = t\<rparr> k"
  from assms(3) obtain bs where bs: "chain_insert (table_lb t ! ?bin) k v m = Done (r, bs, m')"
    and t': "t' = t\<lparr>table_lb := (table_lb t)[?bin := bs]\<rparr>"
    by (auto simp: clht_put_seq_lb_def Let_def bind_outcome_Done_iff bin_lb_def)
  have ti: "lb.tinv ?h" using assms(1) by (simp add: inv_lb_eq)
  then have sh: "shape_lb \<lparr>ht_lb = t'\<rparr>" "bin_lb \<lparr>ht_lb = t'\<rparr> = bin_lb ?h"
    "table_lb t' = (table_lb t)[?bin := bs]"
    by (auto simp: lb.tinv_def shape_lb_def Let_def t' bin_lb_def clht_hash_lb_def fun_eq_iff)
  have ci: "chain_inv_lb (table_lb t ! ?bin)" using lb.tinv_chain [OF ti, of k] by simp
  from chain_insert_law [OF chain_inv_lbD [OF ci] assms(2) bs] ci
  have 1: "chain_inv_lb bs" "r = (chain_map (table_lb t ! ?bin) k = None)"
    "chain_map bs = (if r then (chain_map (table_lb t ! ?bin))(k \<mapsto> v) else chain_map (table_lb t ! ?bin))"
    by (auto simp: chain_inv_lb_def)
  have at: "map_lb ?h k = chain_map (table_lb t ! ?bin) k"
    by (simp add: map_lb_eq lb.tmap_at)
  have "dom (chain_map bs) \<subseteq> insert k (dom (chain_map (table_lb t ! ?bin)))"
    using 1(3) by (auto split: if_splits)
  then have "inv_lb \<lparr>ht_lb = t'\<rparr>"
    using lb.tinv_upd [OF ti 1(1), of k "\<lparr>ht_lb = t'\<rparr>"] sh by (simp add: inv_lb_eq)
  with at 1 ti show ?thesis
    using lb.tmap_upd [OF ti, of bs k "Some v" "\<lparr>ht_lb = t'\<rparr>"] sh
      lb.tmap_upd_same [OF ti, of bs k "\<lparr>ht_lb = t'\<rparr>"]
    by (simp add: map_lb_eq split: if_splits)
qed

lemma bucket_cpy_loop_lb_law:
  assumes "inv_lb \<lparr>ht_lb = t\<rparr>" and "0 \<notin> fst ` set es"
    and "bucket_cpy_loop_lb es t m = Done (t', m')"
  shows "inv_lb \<lparr>ht_lb = t'\<rparr> \<and> map_lb \<lparr>ht_lb = t'\<rparr> =
    (\<lambda>k. if map_lb \<lparr>ht_lb = t\<rparr> k = None \<and> k \<in> fst ` set es then Some k else map_lb \<lparr>ht_lb = t\<rparr> k)"
  using assms
proof (induction es arbitrary: t m)
  case Nil
  then show ?case by simp
next
  case (Cons e es)
  obtain k w where e: "e = (k, w)" by (cases e)
  from Cons.prems(3) obtain r t1 m1 where
    p: "clht_put_seq_lb t k k (clht_hash_lb t k) m = Done (r, t1, m1)" and
    rest: "bucket_cpy_loop_lb es t1 m1 = Done (t', m')"
    by (auto simp: e Let_def bind_outcome_Done_iff)
  from Cons.prems(2) have k: "k \<noteq> 0" and es: "0 \<notin> fst ` set es" by (auto simp: e)
  from put_seq_lb_law [OF Cons.prems(1) k p]
  have 1: "inv_lb \<lparr>ht_lb = t1\<rparr>" "map_lb \<lparr>ht_lb = t1\<rparr> =
    (if map_lb \<lparr>ht_lb = t\<rparr> k = None then (map_lb \<lparr>ht_lb = t\<rparr>)(k \<mapsto> k) else map_lb \<lparr>ht_lb = t\<rparr>)"
    by blast+
  from Cons.IH [OF 1(1) es rest] show ?case
    by (auto simp: 1(2) e fun_eq_iff)
qed

text \<open>
  \<open>bucket_cpy\<close> of this file does not copy the values: it stores every key of the chain
  under itself, whatever value the chain maps it to. (The function is static and not called.)
\<close>

theorem bucket_cpy_lb_stores_keys_as_values:
  assumes "inv_lb \<lparr>ht_lb = t\<rparr>" and "map_lb \<lparr>ht_lb = t\<rparr> = Map.empty" and "chain_inv_lb bs"
    and "bucket_cpy_lb bs t m = Done (bs', t', m')"
  shows "map_lb \<lparr>ht_lb = t'\<rparr> = (\<lambda>k. if k \<in> dom (chain_map bs) then Some k else None)"
proof -
  from assms(4) have r: "bucket_cpy_loop_lb (chain_entries bs) t m = Done (t', m')"
    by (auto simp: bucket_cpy_lb_def Let_def bind_outcome_Done_iff LOCK_ACQ_lb_def)
  have "0 \<notin> fst ` set (chain_entries bs)" using zero_no_entry by force
  from bucket_cpy_loop_lb_law [OF assms(1) this r] show ?thesis
    by (simp add: assms(2) chain_map_def dom_map_of_conv_image_fst fun_eq_iff)
qed

section \<open>Witnesses\<close>

definition example_lb :: clht_lb where
  "example_lb = \<lparr>ht_lb = \<lparr>num_buckets_lb = 2, table_lb = replicate 2 [empty_bucket]\<rparr>\<rparr>"

lemma example_lb_inv: "inv_lb example_lb" "map_lb example_lb = Map.empty"
  using created_shape [of 2 example_lb] by (simp_all add: example_lb_def)

theorem clht_lb_refines_map_witness:
  "\<exists>rs h' m'. table_run (\<lambda>h. clht_get_lb (ht_lb h)) clht_put_lb clht_remove_lb
      (example_lb, example_mem) [Put 5 50, Put 7 70, Get 5, Remove 7, Get 7] = Done (rs, h', m') \<and>
    inv_lb h' \<and>
    kv_run (map_lb example_lb) [Put 5 50, Put 7 70, Get 5, Remove 7, Get 7] = (rs, map_lb h')"
  by (rule clht_lb_refines_map) (simp_all add: example_lb_inv example_mem_ready)

theorem clht_create_lb_correct_witness:
  "case clht_create_lb 2 example_mem of
     (None, m') \<Rightarrow> live m' = live example_mem \<and> ((2::u32) = 0 \<or> \<not> ready 3 example_mem)
   | (Some h, m') \<Rightarrow> live m' = live example_mem + 3 \<and> (2::u32) \<noteq> 0 \<and> inv_lb h \<and> map_lb h = Map.empty"
  by (rule clht_create_lb_correct)

theorem clht_size_lb_correct_witness:
  "unat (clht_size_lb (ht_lb example_lb)) = card (dom (map_lb example_lb))"
  by (rule clht_size_lb_correct) (rule example_lb_inv)

theorem clht_put_lb_faults_witness:
  "clht_put_lb example_lb 5 50 example_mem = Faults \<longleftrightarrow>
    map_lb example_lb 5 = None \<and> chain_full (table_lb (ht_lb example_lb) ! bin_lb example_lb 5) \<and>
    fst (memalign example_mem) = None"
  by (rule clht_put_lb_faults) (simp_all add: example_lb_inv)

definition example_chain_lb :: "u64 bucket list" where
  "example_chain_lb = [\<lparr>lock = 0, key = [5, 0, 0], val = [50, 0, 0]\<rparr>]"

theorem bucket_cpy_lb_stores_keys_as_values_witness:
  "\<exists>bs' t' m'. bucket_cpy_lb example_chain_lb (ht_lb example_lb) example_mem = Done (bs', t', m') \<and>
    map_lb \<lparr>ht_lb = t'\<rparr> = (\<lambda>k. if k \<in> dom (chain_map example_chain_lb) then Some k else None)"
proof -
  have "case bucket_cpy_lb example_chain_lb (ht_lb example_lb) example_mem of
      Done _ \<Rightarrow> True | _ \<Rightarrow> False" by code_simp
  then obtain bs' t' m' where
    r: "bucket_cpy_lb example_chain_lb (ht_lb example_lb) example_mem = Done (bs', t', m')"
    by (auto split: outcome.splits)
  have ex: "\<lparr>ht_lb = ht_lb example_lb\<rparr> = example_lb" by simp
  have "chain_inv_lb example_chain_lb"
    by (simp add: chain_inv_lb_def chain_inv_def chain_ok_def example_chain_lb_def bucket_ok_def
        ENTRIES_PER_BUCKET_def bucket_entries_def)
  from bucket_cpy_lb_stores_keys_as_values [OF _ _ this r] r show ?thesis
    by (simp add: ex example_lb_inv)
qed

end
