(* ===== verification/Step_system.thy ===== *)
theory Step_system
  imports Main
begin

text \<open>
  Programs of several threads as step relations: the states that can be reached, and the
  interface of an inductive invariant. The concurrent models of the development (the
  lock-free bucket, the locks) are interpretations.
\<close>

inductive reachable :: "('s \<Rightarrow> bool) \<Rightarrow> ('s \<Rightarrow> 's \<Rightarrow> bool) \<Rightarrow> 's \<Rightarrow> bool"
  for init :: "'s \<Rightarrow> bool" and step :: "'s \<Rightarrow> 's \<Rightarrow> bool" where
  start: "init s \<Longrightarrow> reachable init step s"
| step: "reachable init step s \<Longrightarrow> step s s' \<Longrightarrow> reachable init step s'"

locale step_system =
  fixes init :: "'s \<Rightarrow> bool"
    and step :: "'s \<Rightarrow> 's \<Rightarrow> bool"
    and inv :: "'s \<Rightarrow> bool"
    and bound :: "'s \<Rightarrow> bool"
  assumes init_inv: "init s \<Longrightarrow> inv s"
    and step_inv: "inv s \<Longrightarrow> step s s' \<Longrightarrow> bound s' \<Longrightarrow> inv s'"
    and bound_back: "step s s' \<Longrightarrow> bound s' \<Longrightarrow> bound s"
begin

text \<open>
  \<open>bound\<close> limits the length of the runs that are considered (a counter that has not wrapped
  yet); once it is exceeded it stays so.
\<close>

lemma reachable_inv: "reachable init step s \<Longrightarrow> bound s \<Longrightarrow> inv s"
  by (induction rule: reachable.induct) (auto intro: init_inv step_inv dest: bound_back)

lemma reachable_step_inv:
  assumes "reachable init step s" and "step s s'" and "bound s'"
  shows "inv s" and "inv s'"
  using assms reachable_inv [of s] reachable_inv [OF reachable.step [OF assms(1,2)]] bound_back
  by blast+

end

lemma reachable_successively:
  assumes "reachable init step (hd cs)" and "successively step cs" and "cs \<noteq> []"
  shows "reachable init step (last cs)"
  using assms
proof (induction cs)
  case (Cons c cs)
  show ?case
  proof (cases cs)
    case (Cons d ds)
    with Cons.prems have "step c d" "successively step cs" by (simp_all add: successively_Cons)
    moreover from Cons.prems(1) have "reachable init step c" by simp
    from reachable.step [OF this] have "reachable init step d" using calculation(1) by simp
    ultimately show ?thesis using Cons.IH Cons by simp
  qed (use Cons.prems in simp)
qed simp

text \<open>
  A run that follows a schedule: \<open>act\<close> executes one entry of the schedule if the thread it names
  can do it; the result is the list of all states passed through.
\<close>

fun schedule_run :: "('a \<Rightarrow> 's \<Rightarrow> 's option) \<Rightarrow> 'a list \<Rightarrow> 's \<Rightarrow> 's list option" where
  "schedule_run act [] c = Some [c]"
| "schedule_run act (a # as) c =
     (case act a c of
        None \<Rightarrow> None
      | Some c' \<Rightarrow> (case schedule_run act as c' of None \<Rightarrow> None | Some cs \<Rightarrow> Some (c # cs)))"

lemma schedule_run_steps:
  assumes "\<And>a c c'. act a c = Some c' \<Longrightarrow> step c c'" and "schedule_run act as c = Some cs"
  shows "cs \<noteq> [] \<and> hd cs = c \<and> successively step cs"
  using assms(2)
proof (induction as arbitrary: c cs)
  case (Cons a as)
  then obtain c' ds where a: "act a c = Some c'" and ds: "schedule_run act as c' = Some ds" and cs: "cs = c # ds"
    by (auto split: option.splits)
  with Cons.IH [OF ds] assms(1) [OF a] show ?case by (cases ds) (auto simp: successively_Cons)
qed auto

end
