(* ===== verification/Clht_lb_steps.thy ===== *)
theory Clht_lb_steps
  imports Clht_lb Step_system
begin

text \<open>
  \<open>clht_get\<close>, \<open>clht_put\<close> and \<open>clht_remove\<close> of \<open>src/src/clht/src/clht_lb.c\<close> on one chain of buckets,
  one access to shared memory per step, for any number of threads: the functions of theory Clht_lb
  cut at every load and store of a chain and at the fetch-and-increment of the lock. Memory is
  sequentially consistent. A slot is named by the number \<open>h\<close> of its bucket in the chain and its
  index \<open>j\<close> there. The second load of a key in \<open>clht_put\<close> (\<open>else if\<close>) and the loads of \<open>next\<close> that
  repeat one before them happen under the lock and are one step with the first.
\<close>

section \<open>Slots\<close>

abbreviation slot :: "'l bucket list \<Rightarrow> nat \<Rightarrow> nat \<Rightarrow> bool" where
  "slot bs h j \<equiv> h < length bs \<and> j < ENTRIES_PER_BUCKET"

definition key_at :: "'l bucket list \<Rightarrow> nat \<Rightarrow> nat \<Rightarrow> u64" where
  "key_at bs h j = key (bs ! h) ! j"

definition val_at :: "'l bucket list \<Rightarrow> nat \<Rightarrow> nat \<Rightarrow> u64" where
  "val_at bs h j = val (bs ! h) ! j"

definition set_key :: "'l bucket list \<Rightarrow> nat \<Rightarrow> nat \<Rightarrow> u64 \<Rightarrow> 'l bucket list" where
  "set_key bs h j k = bs[h := (bs ! h)\<lparr>key := (key (bs ! h))[j := k]\<rparr>]"

definition set_val :: "'l bucket list \<Rightarrow> nat \<Rightarrow> nat \<Rightarrow> u64 \<Rightarrow> 'l bucket list" where
  "set_val bs h j v = bs[h := (bs ! h)\<lparr>val := (val (bs ! h))[j := v]\<rparr>]"

section \<open>One thread\<close>

text \<open>
  The point a thread has reached and its local variables. \<open>G\<close>: the lookup; \<open>P_look\<close>, \<open>R_look\<close>: the
  call of \<open>bucket_exists\<close> before the lock is taken; \<open>P_scan\<close>, \<open>R_scan\<close>: the loop under the lock;
  \<open>\<dots>_link\<close>: the load of \<open>bucket->next\<close>; \<open>P_grow\<close>, \<open>P_nkey\<close>, \<open>P_nval\<close>: a new bucket is linked, its key
  written, its value written; \<open>Answered\<close> holds the operation and its result.
\<close>

datatype lb_local =
    Idle
  | G_val u64 nat nat
  | G_key u64 nat nat u64
  | G_val2 u64 nat nat u64
  | G_link u64 nat
  | P_look u64 u64 nat nat
  | P_look_link u64 u64 nat
  | P_lock u64 u64
  | P_scan u64 u64 nat nat "(nat \<times> nat) option"
  | P_link u64 u64 nat "(nat \<times> nat) option"
  | P_wval u64 u64 nat nat
  | P_wkey u64 u64 nat nat
  | P_grow u64 u64 nat
  | P_nkey u64 u64 nat
  | P_nval u64 u64 nat
  | P_rls u64 u64 bool
  | R_look u64 nat nat
  | R_look_link u64 nat
  | R_lock u64
  | R_scan u64 nat nat
  | R_link u64 nat
  | R_val u64 nat nat
  | R_clear u64 nat nat u64
  | R_rls u64 u64
  | Crashed u64 u64
  | Answered kv_op kv_res

fun lb_start :: "kv_op \<Rightarrow> lb_local" where
  "lb_start (Get k) = G_val k 0 0"
| "lb_start (Put k v) = P_look k v 0 0"
| "lb_start (Remove k) = R_look k 0 0"

fun lb_step :: "lb_local \<Rightarrow> u64 bucket list \<Rightarrow> mem \<Rightarrow> lb_local \<times> u64 bucket list \<times> mem" where
  "lb_step Idle bs m = (Idle, bs, m)"
| "lb_step (G_val k h j) bs m = (G_key k h j (val_at bs h j), bs, m)"
| "lb_step (G_key k h j w) bs m =
     (if key_at bs h j = k then G_val2 k h j w
      else if Suc j < ENTRIES_PER_BUCKET then G_val k h (Suc j) else G_link k h, bs, m)"
| "lb_step (G_val2 k h j w) bs m = (Answered (Get k) (RVal (if val_at bs h j = w then w else 0)), bs, m)"
| "lb_step (G_link k h) bs m =
     (if Suc h < length bs then G_val k (Suc h) 0 else Answered (Get k) (RVal 0), bs, m)"
| "lb_step (P_look k v h j) bs m =
     (if key_at bs h j = k then Answered (Put k v) (RBool False)
      else if Suc j < ENTRIES_PER_BUCKET then P_look k v h (Suc j) else P_look_link k v h, bs, m)"
| "lb_step (P_look_link k v h) bs m = (if Suc h < length bs then P_look k v (Suc h) 0 else P_lock k v, bs, m)"
| "lb_step (P_lock k v) bs m =
     (let (old, new) = FAI (lock (hd bs))
      in (if old = 0 then P_scan k v 0 0 None else P_lock k v, set_lock bs new, m))"
| "lb_step (P_scan k v h j e) bs m =
     (if key_at bs h j = k then P_rls k v False
      else let e = (if e = None \<and> key_at bs h j = 0 then Some (h, j) else e)
           in if Suc j < ENTRIES_PER_BUCKET then P_scan k v h (Suc j) e else P_link k v h e, bs, m)"
| "lb_step (P_link k v h e) bs m =
     (if Suc h < length bs then P_scan k v (Suc h) 0 e
      else case e of None \<Rightarrow> P_grow k v h | Some (a, b) \<Rightarrow> P_wval k v a b, bs, m)"
| "lb_step (P_wval k v a b) bs m = (P_wkey k v a b, set_val bs a b v, m)"
| "lb_step (P_wkey k v a b) bs m = (P_rls k v True, set_key bs a b k, m)"
| "lb_step (P_grow k v h) bs m =
     (case clht_bucket_create m of
        (None, m) \<Rightarrow> (Crashed k v, bs, m)
      | (Some b, m) \<Rightarrow> (P_nkey k v h, bs @ [b], m))"
| "lb_step (P_nkey k v h) bs m = (P_nval k v h, set_key bs (Suc h) 0 k, m)"
| "lb_step (P_nval k v h) bs m = (P_rls k v True, set_val bs (Suc h) 0 v, m)"
| "lb_step (P_rls k v r) bs m = (Answered (Put k v) (RBool r), set_lock bs 0, m)"
| "lb_step (R_look k h j) bs m =
     (if key_at bs h j = k then R_lock k
      else if Suc j < ENTRIES_PER_BUCKET then R_look k h (Suc j) else R_look_link k h, bs, m)"
| "lb_step (R_look_link k h) bs m =
     (if Suc h < length bs then R_look k (Suc h) 0 else Answered (Remove k) (RVal 0), bs, m)"
| "lb_step (R_lock k) bs m =
     (let (old, new) = FAI (lock (hd bs))
      in (if old = 0 then R_scan k 0 0 else R_lock k, set_lock bs new, m))"
| "lb_step (R_scan k h j) bs m =
     (if key_at bs h j = k then R_val k h j
      else if Suc j < ENTRIES_PER_BUCKET then R_scan k h (Suc j) else R_link k h, bs, m)"
| "lb_step (R_link k h) bs m = (if Suc h < length bs then R_scan k (Suc h) 0 else R_rls k 0, bs, m)"
| "lb_step (R_val k h j) bs m = (R_clear k h j (val_at bs h j), bs, m)"
| "lb_step (R_clear k h j w) bs m = (R_rls k w, set_key bs h j 0, m)"
| "lb_step (R_rls k w) bs m = (Answered (Remove k) (RVal w), set_lock bs 0, m)"
| "lb_step (Crashed k v) bs m = (Crashed k v, bs, m)"
| "lb_step (Answered x r) bs m = (Answered x r, bs, m)"

text \<open>The operation a thread is executing.\<close>

fun lb_op :: "lb_local \<Rightarrow> kv_op option" where
  "lb_op Idle = None"
| "lb_op (G_val k h j) = Some (Get k)"
| "lb_op (G_key k h j w) = Some (Get k)"
| "lb_op (G_val2 k h j w) = Some (Get k)"
| "lb_op (G_link k h) = Some (Get k)"
| "lb_op (P_look k v h j) = Some (Put k v)"
| "lb_op (P_look_link k v h) = Some (Put k v)"
| "lb_op (P_lock k v) = Some (Put k v)"
| "lb_op (P_scan k v h j e) = Some (Put k v)"
| "lb_op (P_link k v h e) = Some (Put k v)"
| "lb_op (P_wval k v a b) = Some (Put k v)"
| "lb_op (P_wkey k v a b) = Some (Put k v)"
| "lb_op (P_grow k v h) = Some (Put k v)"
| "lb_op (P_nkey k v h) = Some (Put k v)"
| "lb_op (P_nval k v h) = Some (Put k v)"
| "lb_op (P_rls k v r) = Some (Put k v)"
| "lb_op (R_look k h j) = Some (Remove k)"
| "lb_op (R_look_link k h) = Some (Remove k)"
| "lb_op (R_lock k) = Some (Remove k)"
| "lb_op (R_scan k h j) = Some (Remove k)"
| "lb_op (R_link k h) = Some (Remove k)"
| "lb_op (R_val k h j) = Some (Remove k)"
| "lb_op (R_clear k h j w) = Some (Remove k)"
| "lb_op (R_rls k w) = Some (Remove k)"
| "lb_op (Crashed k v) = None"
| "lb_op (Answered x r) = None"

text \<open>The critical section: from a successful \<open>LOCK_ACQ\<close> to \<open>LOCK_RLS\<close>.\<close>

fun in_cs :: "lb_local \<Rightarrow> bool" where
  "in_cs (P_scan k v h j e) = True"
| "in_cs (P_link k v h e) = True"
| "in_cs (P_wval k v a b) = True"
| "in_cs (P_wkey k v a b) = True"
| "in_cs (P_grow k v h) = True"
| "in_cs (P_nkey k v h) = True"
| "in_cs (P_nval k v h) = True"
| "in_cs (P_rls k v r) = True"
| "in_cs (R_scan k h j) = True"
| "in_cs (R_link k h) = True"
| "in_cs (R_val k h j) = True"
| "in_cs (R_clear k h j w) = True"
| "in_cs (R_rls k w) = True"
| "in_cs (Crashed k v) = True"
| "in_cs _ = False"

text \<open>The key of a new bucket whose value is not written yet.\<close>

fun half_written :: "lb_local \<Rightarrow> u64 option" where
  "half_written (P_nval k v h) = Some k"
| "half_written _ = None"

section \<open>All threads\<close>

text \<open>
  Beside the point it has reached, two flags of a thread watch the run and do not influence it:
  \<open>absent\<close> and \<open>present\<close> say that the key of its call was not in the map, or was in a slot of the
  chain, at some moment since the call began. The map leaves out the key that is half written.
  \<open>tries\<close> counts the fetch-and-increments.
\<close>

record lb_thread =
  at :: lb_local
  absent :: bool
  present :: bool

record lb_config =
  chain :: "u64 bucket list"
  heap :: mem
  threads :: "lb_thread list"
  tries :: nat

definition chain_map_but :: "lb_thread list \<Rightarrow> u64 bucket list \<Rightarrow> kv" where
  "chain_map_but ths bs k =
     (if list_ex (\<lambda>th. half_written (at th) = Some k) ths then None else chain_map bs k)"

definition lb_map :: "lb_config \<Rightarrow> kv" where
  "lb_map c = chain_map_but (threads c) (chain c)"

definition watch :: "kv \<Rightarrow> u64 bucket list \<Rightarrow> lb_thread \<Rightarrow> lb_thread" where
  "watch M bs th =
     (case lb_op (at th) of
        None \<Rightarrow> th
      | Some x \<Rightarrow> th\<lparr>absent := absent th \<or> M (op_key x) = None, present := present th \<or> bucket_exists bs (op_key x)\<rparr>)"

definition lb_call :: "nat \<Rightarrow> kv_op \<Rightarrow> lb_config \<Rightarrow> lb_config" where
  "lb_call t x c = c\<lparr>threads := (threads c)[t :=
     \<lparr>at = lb_start x, absent = (lb_map c (op_key x) = None), present = bucket_exists (chain c) (op_key x)\<rparr>]\<rparr>"

fun locking :: "lb_local \<Rightarrow> bool" where
  "locking (P_lock k v) = True"
| "locking (R_lock k) = True"
| "locking _ = False"

definition lb_run :: "nat \<Rightarrow> lb_config \<Rightarrow> lb_config" where
  "lb_run t c =
     (let l = at (threads c ! t); (l', bs, m) = lb_step l (chain c) (heap c);
          ths = (threads c)[t := (threads c ! t)\<lparr>at := l'\<rparr>]
      in \<lparr>chain = bs, heap = m, threads = map (watch (chain_map_but ths bs) bs) ths,
          tries = tries c + (if locking l then 1 else 0)\<rparr>)"

definition lb_return :: "nat \<Rightarrow> lb_config \<Rightarrow> lb_config" where
  "lb_return t c = c\<lparr>threads := (threads c)[t := (threads c ! t)\<lparr>at := Idle\<rparr>]\<rparr>"

text \<open>
  A step of the system: a thread calls an operation, executes one access of its operation, or goes
  on after it has returned. Keys and values inserted are not 0.
\<close>

inductive lb_conc :: "lb_config \<Rightarrow> lb_config \<Rightarrow> bool" where
  call: "t < length (threads c) \<Longrightarrow> at (threads c ! t) = Idle \<Longrightarrow> op_ok (\<lambda>k. k \<noteq> 0) (\<lambda>v. v \<noteq> 0) x \<Longrightarrow>
    lb_conc c (lb_call t x c)"
| run: "t < length (threads c) \<Longrightarrow> lb_op (at (threads c ! t)) \<noteq> None \<Longrightarrow> lb_conc c (lb_run t c)"
| return: "t < length (threads c) \<Longrightarrow> at (threads c ! t) = Answered x r \<Longrightarrow> lb_conc c (lb_return t c)"

definition lb_init :: "lb_config \<Rightarrow> bool" where
  "lb_init c \<longleftrightarrow> chain c = [empty_bucket] \<and> (\<forall>th\<in>set (threads c). at th = Idle) \<and> tries c = 0"

abbreviation lb_reachable :: "lb_config \<Rightarrow> bool" where
  "lb_reachable \<equiv> reachable lb_init lb_conc"

inductive_cases lb_concE: "lb_conc c c'"

end
