(* ===== verification/Clht_lb_slots.thy ===== *)
theory Clht_lb_slots
  imports Clht_lb_steps
begin

text \<open>
  A chain of buckets slot by slot, for the concurrent model of theory Clht_lb_steps: what the stores do
  to the slots, and the map of a chain as the set of its occupied slots.
\<close>

section \<open>Slots and their updates\<close>

definition slots_ok :: "'l bucket list \<Rightarrow> bool" where
  "slots_ok bs \<longleftrightarrow> bs \<noteq> [] \<and> (\<forall>b\<in>set bs. bucket_ok b) \<and>
     (\<forall>h j h' j'. slot bs h j \<longrightarrow> slot bs h' j' \<longrightarrow> key_at bs h j = key_at bs h' j' \<longrightarrow> key_at bs h j \<noteq> 0 \<longrightarrow>
        h = h' \<and> j = j')"

definition has_key :: "'l bucket list \<Rightarrow> u64 \<Rightarrow> bool" where
  "has_key bs k \<longleftrightarrow> (\<exists>h j. slot bs h j \<and> key_at bs h j = k)"

lemma slots_ok_buckets: "slots_ok bs \<Longrightarrow> \<forall>b\<in>set bs. bucket_ok b"
  by (simp add: slots_ok_def)

lemma slot_unique:
  assumes "slots_ok bs" and "slot bs h j" and "slot bs h' j'" and "key_at bs h j = k" and "key_at bs h' j' = k" and "k \<noteq> 0"
  shows "h = h' \<and> j = j'"
proof -
  from assms(1) have "\<forall>h j h' j'. slot bs h j \<longrightarrow> slot bs h' j' \<longrightarrow> key_at bs h j = key_at bs h' j' \<longrightarrow>
      key_at bs h j \<noteq> 0 \<longrightarrow> h = h' \<and> j = j'" unfolding slots_ok_def by (elim conjE)
  from this [rule_format, of h j h' j'] assms(2-) show ?thesis by simp
qed

lemma slot_bucket: "\<forall>b\<in>set bs. bucket_ok b \<Longrightarrow> h < length bs \<Longrightarrow>
    length (key (bs ! h)) = ENTRIES_PER_BUCKET \<and> length (val (bs ! h)) = ENTRIES_PER_BUCKET"
  by (auto simp: bucket_ok_def)

lemma length_updates [simp]:
  "length (set_key bs a b x) = length bs" "length (set_val bs a b x) = length bs" "length (set_lock bs l) = length bs"
  by (simp_all add: set_key_def set_val_def set_lock_def split: list.split)

lemma at_updates:
  assumes "\<forall>b\<in>set bs. bucket_ok b" and "slot bs h j"
  shows "key_at (set_key bs a b x) h j = (if h = a \<and> j = b then x else key_at bs h j)"
    and "val_at (set_key bs a b x) h j = val_at bs h j"
    and "key_at (set_val bs a b x) h j = key_at bs h j"
    and "val_at (set_val bs a b x) h j = (if h = a \<and> j = b then x else val_at bs h j)"
    and "key_at (set_lock bs l) h j = key_at bs h j" and "val_at (set_lock bs l) h j = val_at bs h j"
  using assms slot_bucket [OF assms(1)]
  by (cases "a = h"; auto simp: key_at_def val_at_def set_key_def set_val_def set_lock_def nth_list_update nth_Cons' split: list.split)+

lemma bucket_created:
  assumes "clht_bucket_create m = (Some b, m')"
  shows "bucket_ok b" and "\<forall>j<ENTRIES_PER_BUCKET. key b ! j = 0"
  using assms by (auto simp: clht_bucket_create_def bucket_ok_def ENTRIES_PER_BUCKET_def numeral_3_eq_3 less_Suc_eq
      split: option.splits prod.splits)

lemma at_grown:
  assumes "\<forall>j<ENTRIES_PER_BUCKET. key b ! j = 0" and "slot (bs @ [b]) h j"
  shows "key_at (bs @ [b]) h j = (if h < length bs then key_at bs h j else 0)"
    and "h < length bs \<Longrightarrow> val_at (bs @ [b]) h j = val_at bs h j"
  using assms by (auto simp: key_at_def val_at_def nth_append less_Suc_eq)

lemma buckets_ok_updates:
  assumes "\<forall>b\<in>set bs. bucket_ok b"
  shows "\<forall>b\<in>set (set_key bs a c x). bucket_ok b" and "\<forall>b\<in>set (set_val bs a c x). bucket_ok b"
    and "\<forall>b\<in>set (set_lock bs l). bucket_ok b"
proof -
  have u: "\<forall>b\<in>set (bs[a := y]). bucket_ok b" if "a < length bs \<Longrightarrow> bucket_ok y" for y
  proof (cases "a < length bs")
    case True
    with that assms show ?thesis by (auto dest!: set_update_subset_insert [THEN subsetD])
  next
    case False
    with assms show ?thesis by (simp add: list_update_beyond)
  qed
  have o: "a < length bs \<Longrightarrow> bucket_ok (bs ! a)" using assms by simp
  show "\<forall>b\<in>set (set_key bs a c x). bucket_ok b" unfolding set_key_def by (rule u) (use o in \<open>simp add: bucket_ok_def\<close>)
  show "\<forall>b\<in>set (set_val bs a c x). bucket_ok b" unfolding set_val_def by (rule u) (use o in \<open>simp add: bucket_ok_def\<close>)
  show "\<forall>b\<in>set (set_lock bs l). bucket_ok b"
    using assms by (auto simp: set_lock_def bucket_ok_def split: list.splits)
qed

text \<open>Which updates keep the keys distinct.\<close>

lemma slots_okI:
  assumes "bs' \<noteq> []" and "\<forall>b\<in>set bs'. bucket_ok b" and "slots_ok bs"
    and "\<And>h j. slot bs' h j \<Longrightarrow> key_at bs' h j \<noteq> 0 \<Longrightarrow>
      (slot bs h j \<and> key_at bs h j = key_at bs' h j) \<or> (h = x \<and> j = y \<and> \<not> has_key bs (key_at bs' x y))"
  shows "slots_ok bs'"
  unfolding slots_ok_def
proof (intro conjI allI impI)
  fix h j h' j'
  assume s: "slot bs' h j" "slot bs' h' j'" and e: "key_at bs' h j = key_at bs' h' j'" "key_at bs' h j \<noteq> 0"
  from assms(4) [OF s(1)] assms(4) [OF s(2)] e slot_unique [OF assms(3)] have "h = h' \<and> j = j'"
    unfolding has_key_def by metis
  then show "h = h'" "j = j'" by simp_all
qed (use assms(1,2) in auto)

lemma slots_ok_updates:
  assumes "slots_ok bs"
  shows "slots_ok (set_val bs a b v)" and "slots_ok (set_lock bs l)" and "slots_ok (set_key bs a b 0)"
    and "\<not> has_key bs k \<Longrightarrow> slots_ok (set_key bs a b k)"
proof -
  note ok = slots_ok_buckets [OF assms]
  have ne: "bs \<noteq> []" using assms by (simp add: slots_ok_def)
  note u = at_updates [OF ok] and bu = buckets_ok_updates [OF ok]
  have nel: "xs \<noteq> []" if "length xs = length bs" for xs :: "'a bucket list" using that ne by auto
  show "slots_ok (set_val bs a b v)" by (rule slots_okI [OF _ bu(2) assms]) (use nel u in auto)
  show "slots_ok (set_lock bs l)" by (rule slots_okI [OF _ bu(3) assms]) (use nel u in auto)
  show "slots_ok (set_key bs a b 0)" by (rule slots_okI [OF _ bu(1) assms]) (use nel u in \<open>auto split: if_splits\<close>)
  show "slots_ok (set_key bs a b k)" if "\<not> has_key bs k"
    by (rule slots_okI [OF _ bu(1) assms, where x = a and y = b]) (use nel u that in \<open>auto split: if_splits\<close>)
qed

lemma slots_ok_grown:
  assumes "slots_ok bs" and "clht_bucket_create m = (Some b, m')"
  shows "slots_ok (bs @ [b])"
proof (rule slots_okI [OF _ _ assms(1)])
  show "\<forall>x\<in>set (bs @ [b]). bucket_ok x" using slots_ok_buckets [OF assms(1)] bucket_created(1) [OF assms(2)] by auto
  fix h j
  assume "slot (bs @ [b]) h j" "key_at (bs @ [b]) h j \<noteq> 0"
  with at_grown [OF bucket_created(2) [OF assms(2)], where bs = bs and h = h and j = j]
  show "(slot bs h j \<and> key_at bs h j = key_at (bs @ [b]) h j) \<or>
    (h = 0 \<and> j = 0 \<and> \<not> has_key bs (key_at (bs @ [b]) 0 0))" by (auto split: if_splits)
qed simp

section \<open>The map of a chain, slot by slot\<close>

lemma bucket_map_slot:
  assumes "bucket_ok b" and "k \<noteq> 0"
    and "\<And>i j. i < ENTRIES_PER_BUCKET \<Longrightarrow> j < ENTRIES_PER_BUCKET \<Longrightarrow> key b ! i = k \<Longrightarrow> key b ! j = k \<Longrightarrow> i = j"
  shows "map_of (bucket_entries b) k = Some v \<longleftrightarrow> (\<exists>j<ENTRIES_PER_BUCKET. key b ! j = k \<and> val b ! j = v)"
proof -
  have e: "(k, w) \<in> set (bucket_entries b) \<longleftrightarrow> (\<exists>j<ENTRIES_PER_BUCKET. key b ! j = k \<and> val b ! j = w)" for w
    using assms(1,2) by (auto simp: bucket_entries_def bucket_ok_def in_set_zip)
  have "map_of (bucket_entries b) k = Some w \<Longrightarrow> (k, w) \<in> set (bucket_entries b)" for w by (rule map_of_SomeD)
  moreover have "map_of (bucket_entries b) k = Some v" if "(k, v) \<in> set (bucket_entries b)"
  proof -
    from that obtain w where w: "map_of (bucket_entries b) k = Some w" using weak_map_of_SomeI by fast
    with map_of_SomeD [OF w] that e assms(3) show ?thesis by metis
  qed
  ultimately show ?thesis using e by blast
qed

lemma slots_ok_Cons:
  assumes "slots_ok (b # bs)"
  shows "bucket_ok b" and "bs \<noteq> [] \<Longrightarrow> slots_ok bs"
    and "i < ENTRIES_PER_BUCKET \<Longrightarrow> j < ENTRIES_PER_BUCKET \<Longrightarrow> key b ! i = k \<Longrightarrow> key b ! j = k \<Longrightarrow> k \<noteq> 0 \<Longrightarrow> i = j"
proof -
  show "bucket_ok b" using assms by (simp add: slots_ok_def)
  have "slot (b # bs) (Suc h) j \<longleftrightarrow> slot bs h j" "key_at (b # bs) (Suc h) j = key_at bs h j" for h j
    by (simp_all add: key_at_def)
  then show "slots_ok bs" if "bs \<noteq> []"
    using that assms unfolding slots_ok_def by (metis list.set_intros(2) nat.inject)
  show "i = j" if "i < ENTRIES_PER_BUCKET" "j < ENTRIES_PER_BUCKET" "key b ! i = k" "key b ! j = k" "k \<noteq> 0"
    using slot_unique [OF assms, of 0 i 0 j k] that by (simp add: key_at_def)
qed

lemma chain_map_slot:
  assumes "slots_ok bs" and "k \<noteq> 0"
  shows "chain_map bs k = Some v \<longleftrightarrow> (\<exists>h j. slot bs h j \<and> key_at bs h j = k \<and> val_at bs h j = v)"
  using assms(1)
proof (induction bs arbitrary: v)
  case Nil
  then show ?case by (simp add: slots_ok_def)
next
  case (Cons b bs)
  note c = slots_ok_Cons [OF Cons.prems]
  have b: "map_of (bucket_entries b) k = Some v \<longleftrightarrow> (\<exists>j<ENTRIES_PER_BUCKET. key b ! j = k \<and> val b ! j = v)" for v
    using bucket_map_slot [OF c(1) assms(2)] c(3) assms(2) by blast
  let ?A = "\<lambda>v. \<exists>j<ENTRIES_PER_BUCKET. key b ! j = k \<and> val b ! j = v"
  let ?B = "\<lambda>v. \<exists>h j. slot bs h j \<and> key_at bs h j = k \<and> val_at bs h j = v"
  have "(\<exists>h j. slot (b # bs) h j \<and> key_at (b # bs) h j = k \<and> val_at (b # bs) h j = v) \<longleftrightarrow> ?A v \<or> ?B v"
  proof
    assume "\<exists>h j. slot (b # bs) h j \<and> key_at (b # bs) h j = k \<and> val_at (b # bs) h j = v"
    then obtain h j where "slot (b # bs) h j" "key_at (b # bs) h j = k" "val_at (b # bs) h j = v" by blast
    then show "?A v \<or> ?B v" by (cases h) (auto simp: key_at_def val_at_def)
  qed (force simp: key_at_def val_at_def)
  moreover have "\<not> ?B v" if "?A w" for v w
  proof
    assume "?B v"
    then obtain h j where "slot (b # bs) (Suc h) j" "key_at (b # bs) (Suc h) j = k" by (auto simp: key_at_def)
    moreover from that obtain i where "slot (b # bs) 0 i" "key_at (b # bs) 0 i = k" by (auto simp: key_at_def)
    ultimately show False using slot_unique [OF Cons.prems] assms(2) by blast
  qed
  moreover have "chain_map bs k = Some v \<longleftrightarrow> ?B v" for v
    using Cons.IH c(2) by (cases "bs = []") (simp_all add: chain_map_def)
  moreover have "chain_map (b # bs) k = (case map_of (bucket_entries b) k of None \<Rightarrow> chain_map bs k | Some w \<Rightarrow> Some w)"
    by (simp add: chain_map_def map_add_def split: option.split)
  ultimately show ?case using b by (cases "map_of (bucket_entries b) k") (auto, metis option.distinct(1))
qed

lemma has_key_iff:
  assumes "slots_ok bs"
  shows "bucket_exists bs k \<longleftrightarrow> has_key bs k"
proof -
  note ok = slots_ok_buckets [OF assms]
  have "(\<exists>b\<in>set bs. k \<in> set (key b)) \<longleftrightarrow> (\<exists>h<length bs. k \<in> set (key (bs ! h)))" by (metis in_set_conv_nth)
  also have "\<dots> \<longleftrightarrow> has_key bs k"
    using slot_bucket [OF ok] unfolding has_key_def key_at_def by (metis in_set_conv_nth)
  finally show ?thesis unfolding bucket_exists_iff [OF ok] .
qed

end
