(* ===== verification/Clht_lb_conc.thy ===== *)
theory Clht_lb_conc
  imports Clht_lb_slots
begin

text \<open>
  Any number of threads on one chain of the lock-based table: what a thread relies on at each point of its
  operation, that its own steps lead to points whose facts hold, what the steps do to the map, and that
  the steps of one thread leave the facts of the others valid. A thread without the lock relies on little:
  its key was absent at some moment, or it is in a slot still to be visited.
\<close>

section \<open>What a thread relies on\<close>

definition later_slot :: "u64 bucket list \<Rightarrow> u64 \<Rightarrow> nat \<Rightarrow> nat \<Rightarrow> bool" where
  "later_slot bs k h j \<longleftrightarrow> (\<exists>h' j'. slot bs h' j' \<and> (h < h' \<or> h = h' \<and> j \<le> j') \<and> key_at bs h' j' = k)"

definition not_before :: "u64 bucket list \<Rightarrow> u64 \<Rightarrow> nat \<Rightarrow> nat \<Rightarrow> bool" where
  "not_before bs k h j \<longleftrightarrow> (\<forall>h' j'. slot bs h' j' \<longrightarrow> h' < h \<or> h' = h \<and> j' < j \<longrightarrow> key_at bs h' j' \<noteq> k)"

definition free_slot :: "u64 bucket list \<Rightarrow> (nat \<times> nat) option \<Rightarrow> bool" where
  "free_slot bs e \<longleftrightarrow> (\<forall>a b. e = Some (a, b) \<longrightarrow> slot bs a b \<and> key_at bs a b = 0)"

text \<open>
  A walk without the lock keeps this: the key was absent at some moment (flag \<open>a\<close>), or it is in a slot
  that the walk has still to visit. A walk under the lock knows that the key is not in the slots
  behind it. An answer 0 of a lookup or a removal means that the key was absent at some moment, an
  answer false of an insertion that it was present (flag \<open>p\<close>).
\<close>

fun relies :: "u64 bucket list \<Rightarrow> bool \<Rightarrow> bool \<Rightarrow> lb_local \<Rightarrow> bool" where
  "relies bs a p Idle = True"
| "relies bs a p (G_val k h j) = (k \<noteq> 0 \<and> slot bs h j \<and> (a \<or> later_slot bs k h j))"
| "relies bs a p (G_key k h j w) = (k \<noteq> 0 \<and> slot bs h j \<and> (a \<or> later_slot bs k h j) \<and>
     (key_at bs h j = k \<longrightarrow> a \<or> val_at bs h j = w))"
| "relies bs a p (G_val2 k h j w) = (k \<noteq> 0 \<and> slot bs h j \<and> (a \<or> key_at bs h j = k \<and> val_at bs h j = w))"
| "relies bs a p (G_link k h) = (k \<noteq> 0 \<and> h < length bs \<and> (a \<or> later_slot bs k (Suc h) 0))"
| "relies bs a p (P_look k v h j) = (k \<noteq> 0 \<and> v \<noteq> 0 \<and> slot bs h j)"
| "relies bs a p (P_look_link k v h) = (k \<noteq> 0 \<and> v \<noteq> 0 \<and> h < length bs)"
| "relies bs a p (P_lock k v) = (k \<noteq> 0 \<and> v \<noteq> 0)"
| "relies bs a p (P_scan k v h j e) = (k \<noteq> 0 \<and> v \<noteq> 0 \<and> slot bs h j \<and> not_before bs k h j \<and> free_slot bs e)"
| "relies bs a p (P_link k v h e) = (k \<noteq> 0 \<and> v \<noteq> 0 \<and> h < length bs \<and> not_before bs k (Suc h) 0 \<and> free_slot bs e)"
| "relies bs a p (P_wval k v x y) = (k \<noteq> 0 \<and> v \<noteq> 0 \<and> slot bs x y \<and> key_at bs x y = 0 \<and> \<not> has_key bs k)"
| "relies bs a p (P_wkey k v x y) = (k \<noteq> 0 \<and> v \<noteq> 0 \<and> slot bs x y \<and> key_at bs x y = 0 \<and> val_at bs x y = v \<and> \<not> has_key bs k)"
| "relies bs a p (P_grow k v h) = (k \<noteq> 0 \<and> v \<noteq> 0 \<and> length bs = Suc h \<and> \<not> has_key bs k)"
| "relies bs a p (P_nkey k v h) = (k \<noteq> 0 \<and> v \<noteq> 0 \<and> slot bs (Suc h) 0 \<and> key_at bs (Suc h) 0 = 0 \<and> \<not> has_key bs k)"
| "relies bs a p (P_nval k v h) = (k \<noteq> 0 \<and> v \<noteq> 0 \<and> slot bs (Suc h) 0 \<and> key_at bs (Suc h) 0 = k)"
| "relies bs a p (P_rls k v r) = (k \<noteq> 0 \<and> (r \<or> p))"
| "relies bs a p (R_look k h j) = (k \<noteq> 0 \<and> slot bs h j \<and> (a \<or> later_slot bs k h j))"
| "relies bs a p (R_look_link k h) = (k \<noteq> 0 \<and> h < length bs \<and> (a \<or> later_slot bs k (Suc h) 0))"
| "relies bs a p (R_lock k) = (k \<noteq> 0)"
| "relies bs a p (R_scan k h j) = (k \<noteq> 0 \<and> slot bs h j \<and> not_before bs k h j)"
| "relies bs a p (R_link k h) = (k \<noteq> 0 \<and> h < length bs \<and> not_before bs k (Suc h) 0)"
| "relies bs a p (R_val k h j) = (k \<noteq> 0 \<and> slot bs h j \<and> key_at bs h j = k)"
| "relies bs a p (R_clear k h j w) = (k \<noteq> 0 \<and> slot bs h j \<and> key_at bs h j = k \<and> val_at bs h j = w)"
| "relies bs a p (R_rls k w) = (k \<noteq> 0 \<and> (w = 0 \<longrightarrow> a))"
| "relies bs a p (Crashed k v) = True"
| "relies bs a p (Answered x r) =
     (case x of Put k v \<Rightarrow> r = RBool False \<longrightarrow> p | Get k \<Rightarrow> r = RVal 0 \<longrightarrow> a | Remove k \<Rightarrow> r = RVal 0 \<longrightarrow> a)"

lemma relies_flags:
  assumes "relies bs a p l" and "a \<Longrightarrow> a'" and "p \<Longrightarrow> p'"
  shows "relies bs a' p' l"
  using assms by (cases l) (auto split: kv_op.splits)

lemma later_slot_next:
  assumes "later_slot bs k h j" and "key_at bs h j \<noteq> k"
  shows "later_slot bs k h (Suc j)"
  using assms unfolding later_slot_def by (metis Suc_leI le_neq_implies_less)

lemma later_slot_bucket:
  assumes "later_slot bs k h j" and "key_at bs h j \<noteq> k" and "\<not> Suc j < ENTRIES_PER_BUCKET"
  shows "later_slot bs k (Suc h) 0"
  using later_slot_next [OF assms(1,2)] assms(3) unfolding later_slot_def
  by (metis Suc_leI le0 le_neq_implies_less linorder_not_less order_le_less_trans)

lemma later_slot_has: "later_slot bs k h j \<Longrightarrow> has_key bs k"
  by (auto simp: later_slot_def has_key_def)

lemma has_later_slot: "has_key bs k \<Longrightarrow> later_slot bs k 0 0"
  by (fastforce simp: later_slot_def has_key_def)

lemma later_slot_end: "\<not> Suc h < length bs \<Longrightarrow> \<not> later_slot bs k (Suc h) 0"
  by (auto simp: later_slot_def)

lemma not_beforeD: "not_before bs k h j \<Longrightarrow> slot bs h' j' \<Longrightarrow> h' < h \<or> h' = h \<and> j' < j \<Longrightarrow> key_at bs h' j' \<noteq> k"
  unfolding not_before_def by blast

lemma not_before_next:
  assumes "not_before bs k h j" and "key_at bs h j \<noteq> k"
  shows "not_before bs k h (Suc j)"
  unfolding not_before_def
proof (intro allI impI)
  fix h' j'
  assume "slot bs h' j'" "h' < h \<or> h' = h \<and> j' < Suc j"
  with not_beforeD [OF assms(1), of h' j'] assms(2) show "key_at bs h' j' \<noteq> k" by (auto simp: less_Suc_eq)
qed

lemma not_before_bucket:
  assumes "not_before bs k h (Suc j)" and "\<not> Suc j < ENTRIES_PER_BUCKET"
  shows "not_before bs k (Suc h) 0"
  unfolding not_before_def
proof (intro allI impI)
  fix h' j'
  assume s: "slot bs h' j'" and l: "h' < Suc h \<or> h' = Suc h \<and> j' < 0"
  with assms(2) have "h' < h \<or> h' = h \<and> j' < Suc j" by auto
  with s show "key_at bs h' j' \<noteq> k" by (rule not_beforeD [OF assms(1)])
qed

lemma not_before_end:
  assumes "not_before bs k (Suc h) 0" and "\<not> Suc h < length bs"
  shows "\<not> has_key bs k"
  using not_beforeD [OF assms(1)] assms(2) unfolding has_key_def by (metis less_trans_Suc linorder_neqE_nat not_less_eq)

lemma not_before_start: "not_before bs k 0 0"
  by (simp add: not_before_def)

section \<open>One step of a thread\<close>

text \<open>What the thread that steps knows of the map \<open>M\<close>.\<close>

definition knows :: "u64 bucket list \<Rightarrow> kv \<Rightarrow> bool \<Rightarrow> bool \<Rightarrow> lb_local \<Rightarrow> bool" where
  "knows bs M a p l \<longleftrightarrow> slots_ok bs \<and> relies bs a p l \<and> (\<forall>k v. M k = Some v \<longrightarrow> v \<noteq> 0) \<and>
     (\<forall>k. M k = None \<or> M k = chain_map bs k) \<and>
     (in_cs l \<longrightarrow> M = (\<lambda>k. if half_written l = Some k then None else chain_map bs k)) \<and>
     (\<forall>x. lb_op l = Some x \<longrightarrow> (a \<or> M (op_key x) \<noteq> None) \<and> (p \<or> \<not> has_key bs (op_key x)))"

lemma chain_map_has: "slots_ok bs \<Longrightarrow> k \<noteq> 0 \<Longrightarrow> chain_map bs k \<noteq> None \<longleftrightarrow> has_key bs k"
  using chain_map_slot [of bs k] unfolding has_key_def by blast

lemma chain_map_at: "slots_ok bs \<Longrightarrow> k \<noteq> 0 \<Longrightarrow> slot bs h j \<Longrightarrow> key_at bs h j = k \<Longrightarrow> chain_map bs k = Some (val_at bs h j)"
  using chain_map_slot [of bs k "val_at bs h j"] by blast

lemma knowsD:
  assumes "knows bs M a p l"
  shows "slots_ok bs" and "relies bs a p l" and "M k = Some v \<Longrightarrow> v \<noteq> 0" and "M k = None \<or> M k = chain_map bs k"
    and "in_cs l \<Longrightarrow> M = (\<lambda>k. if half_written l = Some k then None else chain_map bs k)"
    and "lb_op l = Some x \<Longrightarrow> a \<or> M (op_key x) \<noteq> None" and "lb_op l = Some x \<Longrightarrow> p \<or> \<not> has_key bs (op_key x)"
proof -
  note d = assms [unfolded knows_def]
  note r = d [THEN conjunct2] note v = r [THEN conjunct2] note m = v [THEN conjunct2] note c = m [THEN conjunct2]
  show "slots_ok bs" by (rule d [THEN conjunct1])
  show "relies bs a p l" by (rule r [THEN conjunct1])
  show "M k = Some v \<Longrightarrow> v \<noteq> 0" by (rule v [THEN conjunct1, rule_format])
  show "M k = None \<or> M k = chain_map bs k" by (rule m [THEN conjunct1, rule_format])
  show "in_cs l \<Longrightarrow> M = (\<lambda>k. if half_written l = Some k then None else chain_map bs k)"
    by (rule c [THEN conjunct1, rule_format])
  show "lb_op l = Some x \<Longrightarrow> a \<or> M (op_key x) \<noteq> None" "lb_op l = Some x \<Longrightarrow> p \<or> \<not> has_key bs (op_key x)"
    using c [THEN conjunct2] by blast+
qed

text \<open>When a walk ends without the key, the key was absent; a key that is found has its value.\<close>

lemma knows_absent:
  assumes "knows bs M a p l" and "lb_op l = Some x" and "op_key x = k" and "k \<noteq> 0" and "\<not> has_key bs k"
  shows "a"
  using knowsD(6) [OF assms(1,2)] knowsD(4) [OF assms(1), of k] chain_map_has [OF knowsD(1) [OF assms(1)] assms(4)]
    assms(3,5) by metis

lemma knows_value:
  assumes "knows bs M a p l" and "lb_op l = Some x" and "op_key x = k" and "k \<noteq> 0" and "slot bs h j" and "key_at bs h j = k"
  shows "a \<or> M k = Some (val_at bs h j)" and "a \<or> val_at bs h j \<noteq> 0"
proof -
  show *: "a \<or> M k = Some (val_at bs h j)"
    using knowsD(6) [OF assms(1,2)] knowsD(4) [OF assms(1), of k] chain_map_at [OF knowsD(1) [OF assms(1)] assms(4-6)]
      assms(3) by metis
  show "a \<or> val_at bs h j \<noteq> 0" using * knowsD(3) [OF assms(1)] by blast
qed

lemma knows_present:
  assumes "knows bs M a p l" and "lb_op l = Some x" and "op_key x = k" and "slot bs h j" and "key_at bs h j = k"
  shows "p"
  using knowsD(7) [OF assms(1,2)] assms(3-5) unfolding has_key_def by blast

text \<open>The thread that steps: its chain stays well formed and it reaches a point whose facts hold.\<close>

lemma step_reads:
  assumes "knows bs M a p l" and "lb_step l bs m = (l', bs', m')" and "\<not> in_cs l" and "\<not> locking l"
  shows "bs' = bs \<and> relies bs a p l'"
proof -
  have r: "relies bs a p l" and s: "slots_ok bs" using assms(1) by (simp_all add: knows_def)
  have E: "0 < ENTRIES_PER_BUCKET" by (simp add: ENTRIES_PER_BUCKET_def)
  show ?thesis
  proof (cases l)
    case (G_key k h j w)
    with assms(2) r show ?thesis
      using later_slot_next [of bs k h j] later_slot_bucket [of bs k h j] by auto
  next
    case (G_val2 k h j w)
    have *: "(if val_at bs h j = w then w else 0) = 0 \<Longrightarrow> a"
      using knows_value(2) [OF assms(1), of "Get k" k h j] r G_val2 by (auto split: if_splits)
    with assms(2) G_val2 show ?thesis by auto
  next
    case (G_link k h)
    with assms(2) r E later_slot_end [of h bs k] show ?thesis by auto
  next
    case (P_look k v h j)
    have "key_at bs h j = k \<Longrightarrow> p" using knows_present [OF assms(1), of "Put k v" k h j] r P_look by auto
    with assms(2) r P_look show ?thesis by auto
  next
    case (R_look k h j)
    with assms(2) r show ?thesis
      using later_slot_next [of bs k h j] later_slot_bucket [of bs k h j] by auto
  next
    case (R_look_link k h)
    with assms(2) r E later_slot_end [of h bs k] show ?thesis by auto
  qed (use assms r E in auto)
qed

section \<open>What the writes do to the map\<close>

lemma chain_map_ext:
  assumes "slots_ok bs" and "M 0 = None"
    and "\<And>k v. k \<noteq> 0 \<Longrightarrow> M k = Some v \<longleftrightarrow> (\<exists>h j. slot bs h j \<and> key_at bs h j = k \<and> val_at bs h j = v)"
  shows "chain_map bs = M"
proof
  fix k
  show "chain_map bs k = M k"
  proof (cases "k = 0")
    case False
    have "chain_map bs k = Some v \<longleftrightarrow> M k = Some v" for v
      using chain_map_slot [OF assms(1) False] assms(3) [OF False] by simp
    then show ?thesis by (metis not_None_eq)
  qed (simp add: assms(2) chain_map_0)
qed

definition holds :: "'l bucket list \<Rightarrow> u64 \<Rightarrow> u64 \<Rightarrow> bool" where
  "holds bs k v \<longleftrightarrow> (\<exists>h j. slot bs h j \<and> key_at bs h j = k \<and> val_at bs h j = v)"

lemma holds_cong:
  assumes "length bs' = length bs"
    and "\<And>h j. slot bs h j \<Longrightarrow> key_at bs' h j = k \<and> val_at bs' h j = v \<longleftrightarrow> key_at bs h j = k \<and> val_at bs h j = v"
  shows "holds bs' k v \<longleftrightarrow> holds bs k v"
proof
  assume "holds bs' k v"
  then obtain h j where "slot bs' h j" "key_at bs' h j = k" "val_at bs' h j = v" by (auto simp: holds_def)
  with assms(1) assms(2) [of h j] show "holds bs k v" unfolding holds_def by (intro exI [of _ h] exI [of _ j]) simp
next
  assume "holds bs k v"
  then obtain h j where "slot bs h j" "key_at bs h j = k" "val_at bs h j = v" by (auto simp: holds_def)
  with assms(1) assms(2) [of h j] show "holds bs' k v" unfolding holds_def by (intro exI [of _ h] exI [of _ j]) simp
qed

lemma holds_one:
  assumes "slot bs a b" and "key_at bs a b = k" and "\<And>h j. slot bs h j \<Longrightarrow> key_at bs h j = k \<Longrightarrow> h = a \<and> j = b"
  shows "holds bs k v \<longleftrightarrow> v = val_at bs a b"
  using assms unfolding holds_def by blast

lemmas chain_map_extI = chain_map_ext [folded holds_def]
lemmas chain_map_holds = chain_map_slot [folded holds_def]

lemma chain_map_set_val:
  assumes "slots_ok bs" and "slot bs a b"
  shows "chain_map (set_val bs a b v) = (if key_at bs a b = 0 then chain_map bs else (chain_map bs)(key_at bs a b \<mapsto> v))"
proof (rule chain_map_extI)
  note u = at_updates [OF slots_ok_buckets [OF assms(1)]]
  fix k w :: u64
  assume k: "k \<noteq> 0"
  show "(if key_at bs a b = 0 then chain_map bs else (chain_map bs)(key_at bs a b \<mapsto> v)) k = Some w \<longleftrightarrow>
    holds (set_val bs a b v) k w"
  proof (cases "key_at bs a b = k")
    case True
    have "holds (set_val bs a b v) k w \<longleftrightarrow> w = val_at (set_val bs a b v) a b"
    proof (rule holds_one)
      fix h j
      assume "slot (set_val bs a b v) h j" "key_at (set_val bs a b v) h j = k"
      then have "slot bs h j" "key_at bs h j = k" by (simp_all add: u)
      from slot_unique [OF assms(1) this(1) assms(2) this(2) True k] show "h = a \<and> j = b" .
    qed (use assms(2) u True in simp_all)
    with True k u assms(2) show ?thesis by auto
  next
    case False
    with u have "holds (set_val bs a b v) k w \<longleftrightarrow> holds bs k w" by (intro holds_cong) auto
    with False show ?thesis by (simp add: chain_map_holds [OF assms(1) k])
  qed
qed (use assms slots_ok_updates(1) [OF assms(1)] in \<open>auto simp: chain_map_0\<close>)

lemma chain_map_set_key:
  assumes "slots_ok bs" and "slot bs a b"
  shows "key_at bs a b = 0 \<Longrightarrow> \<not> has_key bs k \<Longrightarrow> k \<noteq> 0 \<Longrightarrow> chain_map (set_key bs a b k) = (chain_map bs)(k \<mapsto> val_at bs a b)"
    and "key_at bs a b = k \<Longrightarrow> k \<noteq> 0 \<Longrightarrow> chain_map (set_key bs a b 0) = (chain_map bs)(k := None)"
proof -
  note u = at_updates [OF slots_ok_buckets [OF assms(1)]]
  show "chain_map (set_key bs a b k) = (chain_map bs)(k \<mapsto> val_at bs a b)"
    if z: "key_at bs a b = 0" and n: "\<not> has_key bs k" and k: "k \<noteq> 0"
  proof (rule chain_map_extI)
    fix k' w :: u64
    assume k': "k' \<noteq> 0"
    show "((chain_map bs)(k \<mapsto> val_at bs a b)) k' = Some w \<longleftrightarrow> holds (set_key bs a b k) k' w"
    proof (cases "k' = k")
      case True
      have "holds (set_key bs a b k) k w \<longleftrightarrow> w = val_at (set_key bs a b k) a b"
        using assms(2) u n by (intro holds_one) (auto simp: has_key_def split: if_splits)
      with True u assms(2) show ?thesis by auto
    next
      case False
      with u z k' have "holds (set_key bs a b k) k' w \<longleftrightarrow> holds bs k' w" by (intro holds_cong) auto
      with False show ?thesis by (simp add: chain_map_holds [OF assms(1) k'])
    qed
  qed (use k slots_ok_updates(4) [OF assms(1) n] in \<open>auto simp: chain_map_0\<close>)
  show "chain_map (set_key bs a b 0) = (chain_map bs)(k := None)" if z: "key_at bs a b = k" and k: "k \<noteq> 0"
  proof (rule chain_map_extI)
    fix k' w :: u64
    assume k': "k' \<noteq> 0"
    show "((chain_map bs)(k := None)) k' = Some w \<longleftrightarrow> holds (set_key bs a b 0) k' w"
    proof (cases "k' = k")
      case True
      have "\<not> holds (set_key bs a b 0) k w"
      proof
        assume "holds (set_key bs a b 0) k w"
        then obtain h j where h: "slot bs h j" "key_at (set_key bs a b 0) h j = k" by (auto simp: holds_def)
        then have "\<not> (h = a \<and> j = b)" "key_at bs h j = k" using u k by (auto split: if_splits)
        with slot_unique [OF assms(1) h(1) assms(2) _ z k] show False by simp
      qed
      with True show ?thesis by simp
    next
      case False
      with u z k' have "holds (set_key bs a b 0) k' w \<longleftrightarrow> holds bs k' w" by (intro holds_cong) auto
      with False show ?thesis by (simp add: chain_map_holds [OF assms(1) k'])
    qed
  qed (use slots_ok_updates(3) [OF assms(1)] in \<open>auto simp: chain_map_0\<close>)
qed

lemma chain_map_grown:
  assumes "slots_ok bs" and "clht_bucket_create m = (Some b, m')"
  shows "chain_map (bs @ [b]) = chain_map bs"
proof (rule chain_map_ext [OF slots_ok_grown [OF assms]])
  note g = at_grown [OF bucket_created(2) [OF assms(2)], where bs = bs]
  fix k v :: u64
  assume k: "k \<noteq> 0"
  show "chain_map bs k = Some v \<longleftrightarrow>
    (\<exists>h j. slot (bs @ [b]) h j \<and> key_at (bs @ [b]) h j = k \<and> val_at (bs @ [b]) h j = v)"
    unfolding chain_map_slot [OF assms(1) k]
  proof
    assume "\<exists>h j. slot bs h j \<and> key_at bs h j = k \<and> val_at bs h j = v"
    then obtain h j where "slot bs h j" "key_at bs h j = k" "val_at bs h j = v" by blast
    with g [of h j] show "\<exists>h j. slot (bs @ [b]) h j \<and> key_at (bs @ [b]) h j = k \<and> val_at (bs @ [b]) h j = v"
      by (intro exI [of _ h] exI [of _ j]) simp
  next
    assume "\<exists>h j. slot (bs @ [b]) h j \<and> key_at (bs @ [b]) h j = k \<and> val_at (bs @ [b]) h j = v"
    then obtain h j where "slot (bs @ [b]) h j" "key_at (bs @ [b]) h j = k" "val_at (bs @ [b]) h j = v" by blast
    with g [of h j] k show "\<exists>h j. slot bs h j \<and> key_at bs h j = k \<and> val_at bs h j = v"
      by (intro exI [of _ h] exI [of _ j]) (simp split: if_splits)
  qed
qed (simp add: chain_map_0)

section \<open>The thread that steps\<close>

definition same_slots :: "u64 bucket list \<Rightarrow> u64 bucket list \<Rightarrow> bool" where
  "same_slots bs bs' \<longleftrightarrow> length bs' = length bs \<and>
     (\<forall>h j. slot bs h j \<longrightarrow> key_at bs' h j = key_at bs h j \<and> val_at bs' h j = val_at bs h j)"

lemma same_slots_lock: "slots_ok bs \<Longrightarrow> same_slots bs (set_lock bs l)"
  by (simp add: same_slots_def at_updates(5,6) [OF slots_ok_buckets])

lemma same_slots_has: "same_slots bs bs' \<Longrightarrow> has_key bs' k = has_key bs k"
  unfolding same_slots_def has_key_def by metis

lemma same_slots_later: "same_slots bs bs' \<Longrightarrow> later_slot bs' k h j = later_slot bs k h j"
  unfolding same_slots_def later_slot_def by metis

lemma same_slots_not_before: "same_slots bs bs' \<Longrightarrow> not_before bs' k h j = not_before bs k h j"
  unfolding same_slots_def not_before_def by metis

lemma same_slots_free: "same_slots bs bs' \<Longrightarrow> free_slot bs' e = free_slot bs e"
  unfolding same_slots_def free_slot_def by metis

lemma relies_same_slots:
  assumes "same_slots bs bs'" and "relies bs a p l"
  shows "relies bs' a p l"
proof -
  note e = same_slots_has [OF assms(1)] same_slots_later [OF assms(1)] same_slots_not_before [OF assms(1)]
    same_slots_free [OF assms(1)]
  have "length bs' = length bs" "\<And>h j. slot bs h j \<Longrightarrow> key_at bs' h j = key_at bs h j \<and> val_at bs' h j = val_at bs h j"
    using assms(1) by (simp_all add: same_slots_def)
  with assms(2) e show ?thesis by (cases l) auto
qed

lemma step_outside:
  assumes "slots_ok bs" and "lb_step l bs m = (l', bs', m')" and "\<not> in_cs l"
  shows "same_slots bs bs'"
proof (cases "locking l")
  case True
  with assms(2) same_slots_lock [OF assms(1)] show ?thesis by (cases l) (auto simp: FAI_def split: if_splits)
next
  case False
  with assms(2,3) have "bs' = bs" by (cases l) auto
  then show ?thesis by (simp add: same_slots_def)
qed

lemma has_key_set_val: "slots_ok bs \<Longrightarrow> has_key (set_val bs a b v) k = has_key bs k"
  using at_updates(3) [OF slots_ok_buckets] unfolding has_key_def by (metis length_updates(2))

lemma has_key_grown:
  assumes "clht_bucket_create m = (Some b, m')" and "k \<noteq> 0"
  shows "has_key (bs @ [b]) k \<longleftrightarrow> has_key bs k"
proof
  assume "has_key (bs @ [b]) k"
  then obtain h j where "slot (bs @ [b]) h j" "key_at (bs @ [b]) h j = k" by (auto simp: has_key_def)
  with at_grown(1) [OF bucket_created(2) [OF assms(1)], where bs = bs and h = h and j = j] assms(2)
  show "has_key bs k" by (auto simp: has_key_def split: if_splits)
next
  assume "has_key bs k"
  then obtain h j where "slot bs h j" "key_at bs h j = k" by (auto simp: has_key_def)
  with at_grown(1) [OF bucket_created(2) [OF assms(1)], where bs = bs and h = h and j = j]
  show "has_key (bs @ [b]) k" unfolding has_key_def by (intro exI [of _ h] exI [of _ j]) simp
qed

lemma slots_ok_first: "slots_ok bs \<Longrightarrow> slot bs 0 0"
  by (auto simp: slots_ok_def ENTRIES_PER_BUCKET_def)

lemma step_locks:
  assumes "knows bs M a p l" and "lb_step l bs m = (l', bs', m')" and "locking l"
  shows "slots_ok bs' \<and> relies bs' a p l'"
proof -
  note s = knowsD(1) [OF assms(1)] and r = knowsD(2) [OF assms(1)]
  note s' = slots_ok_updates(2) [OF s]
  from assms(2,3) r s' slots_ok_first [OF s'] show ?thesis
    by (cases l) (auto simp: FAI_def not_before_start free_slot_def split: if_splits)
qed

lemma step_walks:
  assumes "knows bs M a p l" and "lb_step l bs m = (l', bs', m')"
    and "case l of P_scan k v h j e \<Rightarrow> True | P_link k v h e \<Rightarrow> True | R_scan k h j \<Rightarrow> True | R_link k h \<Rightarrow> True
      | R_val k h j \<Rightarrow> True | _ \<Rightarrow> False"
  shows "slots_ok bs' \<and> relies bs' a p l'"
proof -
  note s = knowsD(1) [OF assms(1)] and r = knowsD(2) [OF assms(1)]
  have E: "0 < ENTRIES_PER_BUCKET" by (simp add: ENTRIES_PER_BUCKET_def)
  show ?thesis
  proof (cases l)
    case (P_scan k v h j e)
    have "key_at bs h j = k \<Longrightarrow> p" using knows_present [OF assms(1), of "Put k v" k h j] r P_scan by auto
    moreover have "not_before bs k (Suc h) 0" if "key_at bs h j \<noteq> k" "\<not> Suc j < ENTRIES_PER_BUCKET"
      using not_before_bucket [OF not_before_next that(2)] that(1) r P_scan by simp
    moreover have "free_slot bs (if e = None \<and> key_at bs h j = 0 then Some (h, j) else e)"
      using r P_scan by (auto simp: free_slot_def)
    ultimately show ?thesis using assms(2) r s P_scan not_before_next [of bs k h j] by auto
  next
    case (P_link k v h e)
    with assms(2) r s E not_before_end [of bs k h] show ?thesis by (auto simp: free_slot_def split: option.splits)
  next
    case (R_scan k h j)
    have "not_before bs k (Suc h) 0" if "key_at bs h j \<noteq> k" "\<not> Suc j < ENTRIES_PER_BUCKET"
      using not_before_bucket [OF not_before_next that(2)] that(1) r R_scan by simp
    with assms(2) r s R_scan not_before_next [of bs k h j] show ?thesis by auto
  next
    case (R_link k h)
    have "a" if "\<not> Suc h < length bs"
      using knows_absent [OF assms(1), of "Remove k" k] not_before_end [OF _ that, of k] r R_link by simp
    with assms(2) r s E R_link show ?thesis by auto
  qed (use assms r s in auto)
qed

lemma step_writes:
  assumes "knows bs M a p l" and "lb_step l bs m = (l', bs', m')"
    and "case l of P_wval k v x y \<Rightarrow> True | P_wkey k v x y \<Rightarrow> True | P_grow k v h \<Rightarrow> True | P_nkey k v h \<Rightarrow> True
      | P_nval k v h \<Rightarrow> True | P_rls k v r \<Rightarrow> True | R_clear k h j w \<Rightarrow> True | R_rls k w \<Rightarrow> True | Crashed k v \<Rightarrow> True | _ \<Rightarrow> False"
  shows "slots_ok bs' \<and> relies bs' a p l'"
proof -
  note s = knowsD(1) [OF assms(1)] and r = knowsD(2) [OF assms(1)]
  note u = at_updates [OF slots_ok_buckets [OF s]]
  show ?thesis
  proof (cases l)
    case (P_wval k v x y)
    with assms(2) r s show ?thesis by (auto simp: slots_ok_updates u has_key_set_val)
  next
    case (P_wkey k v x y)
    with assms(2) r s show ?thesis by (auto simp: slots_ok_updates)
  next
    case (P_grow k v h)
    show ?thesis
    proof (cases "clht_bucket_create m :: u64 bucket option \<times> mem")
      case (Pair o' m1)
      show ?thesis
      proof (cases o')
        case (Some b)
        with Pair have c: "clht_bucket_create m = (Some b, m1)" by simp
        have "slot (bs @ [b]) (Suc h) 0" using r P_grow by (simp add: ENTRIES_PER_BUCKET_def)
        moreover have "key_at (bs @ [b]) (Suc h) 0 = 0"
          using at_grown(1) [OF bucket_created(2) [OF c] calculation] r P_grow by simp
        ultimately show ?thesis
          using assms(2) r P_grow c slots_ok_grown [OF s c] has_key_grown [OF c] by auto
      qed (use assms(2) s P_grow Pair in auto)
    qed
  next
    case (P_nkey k v h)
    with assms(2) r s show ?thesis by (auto simp: slots_ok_updates u)
  next
    case (R_clear k h j w)
    have "w = 0 \<Longrightarrow> a" using knows_value(2) [OF assms(1), of "Remove k" k h j] r R_clear by auto
    with assms(2) r s R_clear show ?thesis by (auto simp: slots_ok_updates)
  qed (use assms r s in \<open>auto simp: slots_ok_updates\<close>)
qed

lemma step_own:
  assumes "knows bs M a p l" and "lb_step l bs m = (l', bs', m')"
  shows "slots_ok bs' \<and> relies bs' a p l'"
proof (cases "in_cs l")
  case True
  with step_walks [OF assms] step_writes [OF assms] show ?thesis by (cases l) auto
next
  case False
  with step_locks [OF assms] step_reads [OF assms] knowsD(1) [OF assms(1)] show ?thesis by blast
qed

text \<open>
  The effect on the map: an insertion takes effect with the store that completes its entry, a removal
  with the store that clears its key; no other step under the lock changes the map.
\<close>

definition lb_effect :: "lb_local \<Rightarrow> kv \<Rightarrow> kv \<Rightarrow> bool" where
  "lb_effect l M M' \<longleftrightarrow>
     (case l of
        P_wkey k v x y \<Rightarrow> kv_step M (Put k v) = (RBool True, M')
      | P_nval k v h \<Rightarrow> kv_step M (Put k v) = (RBool True, M')
      | R_clear k h j w \<Rightarrow> w \<noteq> 0 \<and> kv_step M (Remove k) = (RVal w, M')
      | _ \<Rightarrow> M' = M)"

lemma step_effect:
  assumes "knows bs M a p l" and "lb_step l bs m = (l', bs', m')" and "in_cs l"
  shows "lb_effect l M (\<lambda>k. if half_written l' = Some k then None else chain_map bs' k)"
proof -
  note s = knowsD(1) [OF assms(1)] and r = knowsD(2) [OF assms(1)] and M = knowsD(5) [OF assms(1,3)]
  have absent: "\<not> has_key bs k \<Longrightarrow> k \<noteq> 0 \<Longrightarrow> chain_map bs k = None" for k using chain_map_has [OF s] by blast
  show ?thesis
  proof (cases l)
    case (P_wval k v x y)
    with assms(2) r chain_map_set_val [OF s, of x y v] show ?thesis by (auto simp: lb_effect_def M)
  next
    case (P_wkey k v x y)
    with assms(2) r chain_map_set_key(1) [OF s, of x y k] absent [of k] show ?thesis by (auto simp: lb_effect_def M)
  next
    case (P_grow k v h)
    with assms(2) chain_map_grown [OF s] show ?thesis
      by (auto simp: lb_effect_def M split: option.splits prod.splits)
  next
    case (P_nkey k v h)
    with assms(2) r chain_map_set_key(1) [OF s, of "Suc h" 0 k] absent [of k] show ?thesis
      by (auto simp: lb_effect_def M fun_eq_iff)
  next
    case (P_nval k v h)
    with assms(2) r chain_map_set_val [OF s, of "Suc h" 0 v] show ?thesis by (auto simp: lb_effect_def M)
  next
    case (R_clear k h j w)
    then have k: "k \<noteq> 0" "slot bs h j" "key_at bs h j = k" "val_at bs h j = w" using r by auto
    have v: "chain_map bs k = Some w" using chain_map_at [OF s k(1,2,3)] k(4) by simp
    moreover have "w \<noteq> 0" using knowsD(3) [OF assms(1), of k w] v R_clear by (simp add: M)
    ultimately show ?thesis
      using assms(2) chain_map_set_key(2) [OF s k(2,3,1)] R_clear by (auto simp: lb_effect_def M)
  qed (use assms in \<open>auto simp: lb_effect_def M Let_def split: if_splits option.splits\<close>)
qed

section \<open>The other threads\<close>

text \<open>
  What a step does to a slot that holds \<open>k\<close>: it stays unless \<open>k\<close> disappears from the chain; and a slot
  that newly holds \<open>k\<close>, or whose value changes, does so while \<open>k\<close> is not in the map.
\<close>

definition steady :: "u64 bucket list \<Rightarrow> u64 bucket list \<Rightarrow> kv \<Rightarrow> u64 \<Rightarrow> bool" where
  "steady bs bs' M k \<longleftrightarrow> length bs \<le> length bs' \<and>
     (\<forall>h j. slot bs h j \<longrightarrow> key_at bs h j = k \<longrightarrow> key_at bs' h j = k \<or> \<not> has_key bs' k) \<and>
     (\<forall>h j. slot bs' h j \<longrightarrow> key_at bs' h j = k \<longrightarrow>
        (slot bs h j \<and> key_at bs h j = k \<and> val_at bs' h j = val_at bs h j) \<or> M k = None)"

lemma steady_same: "same_slots bs bs' \<Longrightarrow> steady bs bs' M k"
  unfolding same_slots_def steady_def by (metis order_refl)

lemma steadyD:
  assumes "steady bs bs' M k"
  shows "length bs \<le> length bs'"
    and "slot bs h j \<Longrightarrow> key_at bs h j = k \<Longrightarrow> key_at bs' h j = k \<or> \<not> has_key bs' k"
    and "slot bs' h j \<Longrightarrow> key_at bs' h j = k \<Longrightarrow>
      (slot bs h j \<and> key_at bs h j = k \<and> val_at bs' h j = val_at bs h j) \<or> M k = None"
proof -
  note d = assms [unfolded steady_def]
  show "length bs \<le> length bs'" by (rule d [THEN conjunct1])
  show "key_at bs' h j = k \<or> \<not> has_key bs' k" if "slot bs h j" "key_at bs h j = k"
    by (rule d [THEN conjunct2, THEN conjunct1, rule_format, OF that])
  show "(slot bs h j \<and> key_at bs h j = k \<and> val_at bs' h j = val_at bs h j) \<or> M k = None"
    if "slot bs' h j" "key_at bs' h j = k"
    by (rule d [THEN conjunct2, THEN conjunct2, rule_format, OF that])
qed

lemma steadyI:
  assumes "length bs \<le> length bs'"
    and "\<And>h j. slot bs h j \<Longrightarrow> key_at bs h j = k \<Longrightarrow> key_at bs' h j = k \<or> \<not> has_key bs' k"
    and "\<And>h j. slot bs' h j \<Longrightarrow> key_at bs' h j = k \<Longrightarrow>
      (slot bs h j \<and> key_at bs h j = k \<and> val_at bs' h j = val_at bs h j) \<or> M k = None"
  shows "steady bs bs' M k"
  unfolding steady_def
proof (intro conjI allI impI)
  fix h j
  assume "slot bs h j" "key_at bs h j = k"
  then show "key_at bs' h j = k \<or> \<not> has_key bs' k" by (rule assms(2))
next
  fix h j
  assume "slot bs' h j" "key_at bs' h j = k"
  then show "(slot bs h j \<and> key_at bs h j = k \<and> val_at bs' h j = val_at bs h j) \<or> M k = None" by (rule assms(3))
qed (rule assms(1))

lemma steady_set_val:
  assumes "slots_ok bs" and "key_at bs x y = k \<Longrightarrow> M k = None"
  shows "steady bs (set_val bs x y v) M k"
  using assms(2) by (simp add: steady_def at_updates [OF slots_ok_buckets [OF assms(1)]])

lemma steady_set_key:
  assumes "slots_ok bs" and "key_at bs x y = 0" and "k \<noteq> 0" and "k = k' \<Longrightarrow> M k = None"
  shows "steady bs (set_key bs x y k') M k"
proof -
  have "h = x \<and> j = y \<Longrightarrow> key_at bs h j = k \<Longrightarrow> False" for h j using assms(2,3) by simp
  with assms(4) show ?thesis by (auto simp: steady_def at_updates [OF slots_ok_buckets [OF assms(1)]])
qed

lemma step_steady:
  assumes "knows bs M a p l" and "lb_step l bs m = (l', bs', m')" and "k \<noteq> 0"
  shows "steady bs bs' M k"
proof (cases "in_cs l")
  case False
  from step_outside [OF knowsD(1) [OF assms(1)] assms(2) False] show ?thesis by (rule steady_same)
next
  case True
  note s = knowsD(1) [OF assms(1)] and r = knowsD(2) [OF assms(1)] and M = knowsD(5) [OF assms(1) True]
  note u = at_updates [OF slots_ok_buckets [OF s]]
  have nM: "M k = None" if "\<not> has_key bs k" using chain_map_has [OF s assms(3)] that M by auto
  show ?thesis
  proof (cases l)
    case (P_wval k' v x y)
    with assms(2,3) r steady_set_val [OF s, of x y k M v] show ?thesis by auto
  next
    case (P_wkey k' v x y)
    with assms(2,3) r nM steady_set_key [OF s, of x y k k' M] show ?thesis by auto
  next
    case (P_grow k' v h)
    show ?thesis
    proof (cases "clht_bucket_create m :: u64 bucket option \<times> mem")
      case (Pair o' m1)
      show ?thesis
      proof (cases o')
        case (Some b)
        with Pair have c: "clht_bucket_create m = (Some b, m1)" by simp
        note g = at_grown [OF bucket_created(2) [OF c], where bs = bs]
        have bs': "bs' = bs @ [b]" using assms(2) P_grow c by simp
        have *: "key_at bs' h' j' = key_at bs h' j' \<and> val_at bs' h' j' = val_at bs h' j'" if "slot bs h' j'" for h' j'
          using g [of h' j'] that by (simp add: bs')
        moreover have "slot bs h' j'" if "slot bs' h' j'" "key_at bs' h' j' = k" for h' j'
          using g(1) [of h' j'] that assms(3) by (simp add: bs' split: if_splits)
        ultimately have **: "slot bs h' j' \<and> key_at bs h' j' = k \<and> val_at bs' h' j' = val_at bs h' j'"
          if "slot bs' h' j'" "key_at bs' h' j' = k" for h' j' using that by metis
        show ?thesis
        proof (rule steadyI)
          fix h' j'
          assume "slot bs h' j'" "key_at bs h' j' = k"
          with * [of h' j'] show "key_at bs' h' j' = k \<or> \<not> has_key bs' k" by simp
        next
          fix h' j'
          assume "slot bs' h' j'" "key_at bs' h' j' = k"
          from ** [OF this] show "(slot bs h' j' \<and> key_at bs h' j' = k \<and> val_at bs' h' j' = val_at bs h' j') \<or> M k = None"
            by simp
        qed (simp add: bs')
      qed (use assms(2) P_grow Pair in \<open>auto intro: steady_same simp: same_slots_def\<close>)
    qed
  next
    case (P_nkey k' v h)
    with assms(2,3) r nM steady_set_key [OF s, of "Suc h" 0 k k' M] show ?thesis by auto
  next
    case (P_nval k' v h)
    then have "M k' = None" by (simp add: M)
    with assms(2,3) r P_nval steady_set_val [OF s, of "Suc h" 0 k M v] show ?thesis by auto
  next
    case (R_clear k' h j w)
    then have k': "k' \<noteq> 0" "slot bs h j" "key_at bs h j = k'" using r by auto
    have "\<not> has_key bs' k'"
    proof
      assume "has_key bs' k'"
      then obtain h' j' where h': "slot bs h' j'" "key_at bs' h' j' = k'"
        using assms(2) R_clear by (auto simp: has_key_def)
      then have "\<not> (h' = h \<and> j' = j)" "key_at bs h' j' = k'"
        using u(1) [OF h'(1), of h j 0] assms(2) R_clear k'(1) by (auto split: if_splits)
      with slot_unique [OF s h'(1) k'(2) _ k'(3,1)] show False by simp
    qed
    moreover have "bs' = set_key bs h j 0" using assms(2) R_clear by simp
    ultimately show ?thesis using k' assms(3) by (auto simp: steady_def u)
  qed (use assms s True in \<open>auto intro: steady_same same_slots_lock simp: same_slots_def\<close>)
qed

lemma relies_steady:
  assumes "relies bs a p l" and "\<not> in_cs l" and "lb_op l = Some x" and "steady bs bs' M (op_key x)"
    and "a \<or> M (op_key x) \<noteq> None" and "a \<Longrightarrow> a'" and "\<not> has_key bs' (op_key x) \<Longrightarrow> a'"
  shows "relies bs' a' p l"
proof -
  let ?k = "op_key x"
  have len: "length bs \<le> length bs'"
    and keep: "\<And>h j. slot bs h j \<Longrightarrow> key_at bs h j = ?k \<Longrightarrow> key_at bs' h j = ?k \<or> a'"
    and new: "\<And>h j. slot bs' h j \<Longrightarrow> key_at bs' h j = ?k \<Longrightarrow>
      (slot bs h j \<and> key_at bs h j = ?k \<and> val_at bs' h j = val_at bs h j) \<or> a'"
    using steadyD [OF assms(4)] assms(5-7) by metis+
  have slots: "slot bs h j \<Longrightarrow> slot bs' h j" for h j using len by simp
  have later: "a' \<or> later_slot bs' ?k h j" if "a \<or> later_slot bs ?k h j" for h j
  proof (cases "a \<or> a'")
    case False
    with that obtain h' j' where s: "slot bs h' j'" "h < h' \<or> h = h' \<and> j \<le> j'" "key_at bs h' j' = ?k"
      by (auto simp: later_slot_def)
    with keep [OF s(1,3)] slots [OF s(1)] False show ?thesis unfolding later_slot_def by metis
  qed (use assms(6) in auto)
  show ?thesis
  proof (cases l)
    case (G_key k h j w)
    with assms(3) have k: "k = ?k" by auto
    have "a' \<or> val_at bs' h j = w" if "key_at bs' h j = k"
      using new [of h j] that assms(1,6) G_key slots k by auto
    with assms(1) G_key later [of h j] slots k show ?thesis by auto
  next
    case (G_val2 k h j w)
    with assms(3) have k: "k = ?k" by auto
    have "a' \<or> key_at bs' h j = k \<and> val_at bs' h j = w"
      using new [of h j] keep [of h j] assms(1,6) G_val2 slots k by auto
    with assms(1) G_val2 slots show ?thesis by auto
  next
    case (G_val k h j)
    with assms(1,3) later [of h j] slots show ?thesis by auto
  next
    case (G_link k h)
    with assms(1,3) later [of "Suc h" 0] len show ?thesis by auto
  next
    case (R_look k h j)
    with assms(1,3) later [of h j] slots show ?thesis by auto
  next
    case (R_look_link k h)
    with assms(1,3) later [of "Suc h" 0] len show ?thesis by auto
  qed (use assms(1-3) len in auto)
qed

section \<open>The invariant\<close>

definition lb_inv_conc :: "lb_config \<Rightarrow> bool" where
  "lb_inv_conc c \<longleftrightarrow> slots_ok (chain c) \<and>
     (\<forall>th\<in>set (threads c). relies (chain c) (absent th) (present th) (at th) \<and>
        (\<forall>x. lb_op (at th) = Some x \<longrightarrow>
           (absent th \<or> lb_map c (op_key x) \<noteq> None) \<and> (present th \<or> \<not> has_key (chain c) (op_key x)))) \<and>
     (\<forall>t u. t < length (threads c) \<longrightarrow> u < length (threads c) \<longrightarrow>
        in_cs (at (threads c ! t)) \<longrightarrow> in_cs (at (threads c ! u)) \<longrightarrow> t = u) \<and>
     (lock (hd (chain c)) = 0 \<longleftrightarrow> (\<forall>th\<in>set (threads c). \<not> in_cs (at th))) \<and>
     unat (lock (hd (chain c))) \<le> tries c \<and>
     (\<forall>k v. lb_map c k = Some v \<longrightarrow> v \<noteq> 0)"

lemma half_written_in_cs: "half_written l = Some k \<Longrightarrow> in_cs l"
  by (cases l) auto

lemma chain_map_but_cong:
  assumes "length ths' = length ths" and "\<And>u. u < length ths \<Longrightarrow> half_written (at (ths' ! u)) = half_written (at (ths ! u))"
  shows "chain_map_but ths' bs = chain_map_but ths bs"
proof -
  have "list_ex (\<lambda>th. half_written (at th) = Some k) ths' \<longleftrightarrow> list_ex (\<lambda>th. half_written (at th) = Some k) ths" for k
    unfolding list_ex_length using assms by auto
  then show ?thesis by (simp add: chain_map_but_def fun_eq_iff)
qed

text \<open>The only thread under the lock determines the map.\<close>

lemma chain_map_but_alone:
  assumes "t < length ths" and "\<And>u. u < length ths \<Longrightarrow> u \<noteq> t \<Longrightarrow> \<not> in_cs (at (ths ! u))"
  shows "chain_map_but ths bs = (\<lambda>k. if half_written (at (ths ! t)) = Some k then None else chain_map bs k)"
proof
  fix k
  have "list_ex (\<lambda>th. half_written (at th) = Some k) ths \<longleftrightarrow> half_written (at (ths ! t)) = Some k"
    using assms half_written_in_cs unfolding list_ex_iff by (metis in_set_conv_nth)
  then show "chain_map_but ths bs k = (if half_written (at (ths ! t)) = Some k then None else chain_map bs k)"
    by (simp add: chain_map_but_def)
qed

lemma inv_knows:
  assumes "lb_inv_conc c" and "t < length (threads c)"
  shows "knows (chain c) (lb_map c) (absent (threads c ! t)) (present (threads c ! t)) (at (threads c ! t))"
proof -
  let ?th = "threads c ! t"
  have th: "?th \<in> set (threads c)" using assms(2) by simp
  have "lb_map c = (\<lambda>k. if half_written (at ?th) = Some k then None else chain_map (chain c) k)" if "in_cs (at ?th)"
    unfolding lb_map_def
    by (rule chain_map_but_alone [OF assms(2)]) (use assms that in \<open>auto simp: lb_inv_conc_def\<close>)
  moreover have "lb_map c k = None \<or> lb_map c k = chain_map (chain c) k" for k
    by (simp add: lb_map_def chain_map_but_def)
  ultimately show ?thesis using assms(1) th unfolding knows_def lb_inv_conc_def by blast
qed

end
