(* ===== verification/Clht_lb_inv.thy ===== *)
theory Clht_lb_inv
  imports Clht_lb_conc
begin

text \<open>
  The invariant of the concurrent lock-based chain is kept by every step of every thread.
\<close>

section \<open>A step keeps the invariant\<close>

lemma lock_updates [simp]:
  "lock (hd (set_key bs a b x)) = lock (hd bs)" "lock (hd (set_val bs a b x)) = lock (hd bs)"
  by (cases bs; cases a; simp add: set_key_def set_val_def)+

lemma step_lock:
  assumes "bs \<noteq> []" and "lb_step l bs m = (l', bs', m')"
  shows "in_cs l \<Longrightarrow> if in_cs l' then lock (hd bs') = lock (hd bs) else lock (hd bs') = 0"
    and "locking l \<Longrightarrow> lock (hd bs') = lock (hd bs) + 1 \<and> (in_cs l' \<longleftrightarrow> lock (hd bs) = 0)"
    and "\<not> in_cs l \<Longrightarrow> \<not> locking l \<Longrightarrow> bs' = bs \<and> \<not> in_cs l'"
proof -
  show "if in_cs l' then lock (hd bs') = lock (hd bs) else lock (hd bs') = 0" if "in_cs l"
    using that assms by (cases l) (auto simp: lock_set_lock Let_def split: if_splits option.splits prod.splits)
  show "lock (hd bs') = lock (hd bs) + 1 \<and> (in_cs l' \<longleftrightarrow> lock (hd bs) = 0)" if "locking l"
    using that assms by (cases l) (auto simp: lock_set_lock FAI_def split: if_splits)
  show "bs' = bs \<and> \<not> in_cs l'" if "\<not> in_cs l" "\<not> locking l"
    using that assms by (cases l) (auto split: if_splits)
qed

lemma step_op: "lb_step l bs m = (l', bs', m') \<Longrightarrow> lb_op l = Some x \<Longrightarrow> lb_op l' = Some x \<or> lb_op l' = None"
  by (cases l) (auto simp: FAI_def Let_def split: if_splits option.splits prod.splits)

lemma watch_fields [simp]: "at (watch M bs th) = at th"
  by (simp add: watch_def split: option.split)

lemma watch_flags:
  "absent (watch M bs th) \<longleftrightarrow> absent th \<or> (\<exists>x. lb_op (at th) = Some x \<and> M (op_key x) = None)"
  "present (watch M bs th) \<longleftrightarrow> present th \<or> (\<exists>x. lb_op (at th) = Some x \<and> bucket_exists bs (op_key x))"
  by (auto simp: watch_def split: option.split)

lemma chain_map_but_watch [simp]: "chain_map_but (map (watch M bs) ths) bs' = chain_map_but ths bs'"
  by (simp add: chain_map_but_def fun_eq_iff list_ex_iff)

lemma run_fields:
  assumes "lb_step (at (threads c ! t)) (chain c) (heap c) = (l', bs', m')"
  shows "chain (lb_run t c) = bs'"
    and "lb_map (lb_run t c) = chain_map_but ((threads c)[t := (threads c ! t)\<lparr>at := l'\<rparr>]) bs'"
    and "threads (lb_run t c) = map (watch (lb_map (lb_run t c)) bs') ((threads c)[t := (threads c ! t)\<lparr>at := l'\<rparr>])"
    and "tries (lb_run t c) = tries c + (if locking (at (threads c ! t)) then 1 else 0)"
  using assms by (simp_all add: lb_run_def lb_map_def Let_def)

lemma inv_slots:
  assumes "lb_inv_conc c"
  shows "slots_ok (chain c)" and "chain c \<noteq> []"
proof -
  show "slots_ok (chain c)" using assms unfolding lb_inv_conc_def by (rule conjunct1)
  then show "chain c \<noteq> []" by (simp add: slots_ok_def)
qed

lemma inv_alone:
  assumes "lb_inv_conc c" and "t < length (threads c)" and "in_cs (at (threads c ! t))" and "u < length (threads c)" and "u \<noteq> t"
  shows "\<not> in_cs (at (threads c ! u))"
proof -
  have "\<forall>t u. t < length (threads c) \<longrightarrow> u < length (threads c) \<longrightarrow>
        in_cs (at (threads c ! t)) \<longrightarrow> in_cs (at (threads c ! u)) \<longrightarrow> t = u"
    using assms(1) unfolding lb_inv_conc_def by (elim conjE)
  with assms(2-5) show ?thesis by blast
qed

lemma step_outside_map:
  assumes "bs \<noteq> []" and "lb_step l bs m = (l', bs', m')" and "\<not> in_cs l"
  shows "chain_map bs' = chain_map bs" and "half_written l' = None" and "half_written l = None"
proof -
  show "half_written l = None" using assms(3) half_written_in_cs [of l] by fastforce
  have "chain_map bs' = chain_map bs \<and> half_written l' = None"
  proof (cases "locking l")
    case True
    then show ?thesis using assms(2) by (cases l) (auto simp: FAI_def split: if_splits)
  next
    case False
    from step_lock(3) [OF assms False] half_written_in_cs [of l'] show ?thesis by fastforce
  qed
  then show "chain_map bs' = chain_map bs" "half_written l' = None" by simp_all
qed

lemma run_effect:
  assumes inv: "lb_inv_conc c" and t: "t < length (threads c)"
    and st: "lb_step (at (threads c ! t)) (chain c) (heap c) = (l', bs', m')"
  shows "lb_effect (at (threads c ! t)) (lb_map c) (lb_map (lb_run t c))"
proof (cases "in_cs (at (threads c ! t))")
  case True
  let ?ths = "(threads c)[t := (threads c ! t)\<lparr>at := l'\<rparr>]"
  have "chain_map_but ?ths bs' = (\<lambda>k. if half_written (at (?ths ! t)) = Some k then None else chain_map bs' k)"
    by (rule chain_map_but_alone) (use t inv_alone [OF inv t True] in auto)
  with step_effect [OF inv_knows [OF inv t] st True] t show ?thesis by (simp add: run_fields(2) [OF st])
next
  case False
  note o = step_outside_map [OF inv_slots(2) [OF inv] st False]
  let ?ths = "(threads c)[t := (threads c ! t)\<lparr>at := l'\<rparr>]"
  have "half_written (at (?ths ! u)) = half_written (at (threads c ! u))" if "u < length (threads c)" for u
    using that o(2,3) by (cases "u = t") simp_all
  then have "chain_map_but ?ths bs = chain_map_but (threads c) bs" for bs by (intro chain_map_but_cong) simp_all
  then have "chain_map_but ?ths bs' = chain_map_but (threads c) (chain c)" by (simp add: chain_map_but_def fun_eq_iff o(1))
  then have "lb_map (lb_run t c) = lb_map c" unfolding run_fields(2) [OF st] by (simp add: lb_map_def)
  with False show ?thesis by (cases "at (threads c ! t)") (simp_all add: lb_effect_def)
qed

lemma run_others:
  assumes inv: "lb_inv_conc c" and t: "t < length (threads c)"
    and st: "lb_step (at (threads c ! t)) (chain c) (heap c) = (l', bs', m')"
    and u: "u < length (threads c)" "u \<noteq> t"
    and w: "w = watch (lb_map (lb_run t c)) bs' (threads c ! u)"
  shows "relies bs' (absent w) (present w) (at w)"
proof -
  let ?u = "threads c ! u"
  note kn = inv_knows [OF inv t] and ku = inv_knows [OF inv u(1)]
  note r = knowsD(2) [OF ku]
  have at: "at w = at ?u" by (simp add: w)
  have grow: "absent ?u \<Longrightarrow> absent w" "present ?u \<Longrightarrow> present w" by (simp_all add: w watch_flags)
  show ?thesis
  proof (cases "in_cs (at ?u)")
    case True
    then have "\<not> in_cs (at (threads c ! t))" using inv_alone [OF inv u(1)] t u(2) by metis
    from relies_same_slots [OF step_outside [OF inv_slots(1) [OF inv] st this] r]
    show ?thesis unfolding at by (rule relies_flags) (use grow in auto)
  next
    case False
    show ?thesis
    proof (cases "lb_op (at ?u)")
      case None
      then show ?thesis using r False unfolding at by (cases "at ?u") (auto simp: w watch_def)
    next
      case (Some x)
      have k: "op_key x \<noteq> 0" using r Some by (cases "at ?u") auto
      have gone: "absent w" if "\<not> has_key bs' (op_key x)"
      proof -
        have "chain_map bs' (op_key x) = None" using chain_map_has [OF _ k] step_own [OF kn st] that by blast
        then have "lb_map (lb_run t c) (op_key x) = None" by (simp add: run_fields(2) [OF st] chain_map_but_def)
        with Some show ?thesis unfolding w watch_flags by blast
      qed
      have "relies bs' (absent w) (present ?u) (at ?u)"
        by (rule relies_steady [OF r False Some step_steady [OF kn st k] knowsD(6) [OF ku Some]])
          (use grow gone in auto)
      then show ?thesis unfolding at by (rule relies_flags) (use grow in auto)
    qed
  qed
qed

lemma run_threads:
  assumes inv: "lb_inv_conc c" and t: "t < length (threads c)"
    and st: "lb_step (at (threads c ! t)) (chain c) (heap c) = (l', bs', m')"
    and x: "x \<in> set (threads (lb_run t c))"
  shows "relies bs' (absent x) (present x) (at x)"
    and "lb_op (at x) = Some y \<Longrightarrow>
      (absent x \<or> lb_map (lb_run t c) (op_key y) \<noteq> None) \<and> (present x \<or> \<not> has_key bs' (op_key y))"
proof -
  let ?th = "threads c ! t"
  note own = step_own [OF inv_knows [OF inv t] st]
  from x obtain u where u: "u < length (threads c)"
    "x = watch (lb_map (lb_run t c)) bs' (if u = t then ?th\<lparr>at := l'\<rparr> else threads c ! u)"
    by (auto simp: run_fields(3) [OF st] in_set_conv_nth nth_list_update)
  show "relies bs' (absent x) (present x) (at x)"
  proof (cases "u = t")
    case True
    have "at x = l'" "absent ?th \<Longrightarrow> absent x" "present ?th \<Longrightarrow> present x" using True by (simp_all add: u(2) watch_flags)
    with relies_flags [OF own [THEN conjunct2], of "absent x" "present x"] show ?thesis by simp
  next
    case False
    with run_others [OF inv t st u(1) False] u(2) show ?thesis by simp
  qed
  show "(absent x \<or> lb_map (lb_run t c) (op_key y) \<noteq> None) \<and> (present x \<or> \<not> has_key bs' (op_key y))"
    if y: "lb_op (at x) = Some y"
  proof -
    obtain z where z: "x = watch (lb_map (lb_run t c)) bs' z" using u(2) by blast
    with y have "lb_op (at z) = Some y" by simp
    then show ?thesis using has_key_iff [OF own [THEN conjunct1], of "op_key y"] by (auto simp: z watch_flags)
  qed
qed

lemma inv_lock:
  assumes "lb_inv_conc c"
  shows "lock (hd (chain c)) = 0 \<longleftrightarrow> (\<forall>th\<in>set (threads c). \<not> in_cs (at th))" and "unat (lock (hd (chain c))) \<le> tries c"
    and "lb_map c k = Some v \<Longrightarrow> v \<noteq> 0"
proof -
  note r = assms [unfolded lb_inv_conc_def, THEN conjunct2, THEN conjunct2, THEN conjunct2]
  show "lock (hd (chain c)) = 0 \<longleftrightarrow> (\<forall>th\<in>set (threads c). \<not> in_cs (at th))" by (rule r [THEN conjunct1])
  show "unat (lock (hd (chain c))) \<le> tries c" by (rule r [THEN conjunct2, THEN conjunct1])
  show "lb_map c k = Some v \<Longrightarrow> v \<noteq> 0" by (rule r [THEN conjunct2, THEN conjunct2, rule_format])
qed

text \<open>At most one thread is under the lock after the step, and the lock word says whether there is one.\<close>

lemma run_mutex:
  assumes inv: "lb_inv_conc c" and t: "t < length (threads c)"
    and st: "lb_step (at (threads c ! t)) (chain c) (heap c) = (l', bs', m')"
    and b: "tries (lb_run t c) < 2 ^ 64"
  defines "c' \<equiv> lb_run t c"
  shows "u < length (threads c') \<Longrightarrow> in_cs (at (threads c' ! u)) \<longleftrightarrow> (if u = t then in_cs l' else in_cs (at (threads c ! u)))"
    and "in_cs l' \<Longrightarrow> u < length (threads c) \<Longrightarrow> u \<noteq> t \<Longrightarrow> \<not> in_cs (at (threads c ! u))"
    and "lock (hd bs') = 0 \<longleftrightarrow> \<not> in_cs l' \<and> (\<forall>u<length (threads c). u \<noteq> t \<longrightarrow> \<not> in_cs (at (threads c ! u)))"
    and "unat (lock (hd bs')) \<le> tries c'"
proof -
  let ?l = "at (threads c ! t)" and ?L = "lock (hd (chain c))"
  note sl = step_lock [OF inv_slots(2) [OF inv] st] and il = inv_lock(1,2) [OF inv]
  have free: "?L = 0 \<longleftrightarrow> (\<forall>u<length (threads c). \<not> in_cs (at (threads c ! u)))"
    unfolding il(1) by (metis in_set_conv_nth)
  show "in_cs (at (threads c' ! u)) \<longleftrightarrow> (if u = t then in_cs l' else in_cs (at (threads c ! u)))"
    if "u < length (threads c')"
    using that t by (simp add: c'_def run_fields(3) [OF st])
  have tr: "tries c' = tries c + (if locking ?l then 1 else 0)" by (simp add: c'_def run_fields(4) [OF st])
  have alone: "\<not> in_cs (at (threads c ! u))" if "in_cs ?l" "u < length (threads c)" "u \<noteq> t" for u
    using inv_alone [OF inv t that] .
  have nl: "\<not> locking ?l" if "in_cs ?l" using that by (cases ?l) auto
  consider (cs) "in_cs ?l" | (lk) "locking ?l" "\<not> in_cs ?l" | (out) "\<not> in_cs ?l" "\<not> locking ?l" by blast
  then have *: "(in_cs l' \<longrightarrow> (\<forall>u<length (threads c). u \<noteq> t \<longrightarrow> \<not> in_cs (at (threads c ! u)))) \<and>
    (lock (hd bs') = 0 \<longleftrightarrow> \<not> in_cs l' \<and> (\<forall>u<length (threads c). u \<noteq> t \<longrightarrow> \<not> in_cs (at (threads c ! u)))) \<and>
    unat (lock (hd bs')) \<le> tries c'"
  proof cases
    case cs
    have "?L \<noteq> 0" using free cs t by blast
    with sl(1) [OF cs] alone [OF cs] il(2) nl [OF cs] show ?thesis by (auto simp: tr split: if_splits)
  next
    case lk
    have up: "unat (?L + 1) = Suc (unat ?L)"
      using il(2) b lk(1) by (simp add: c'_def [symmetric] tr unat_word_ariths(1))
    then have "?L + 1 \<noteq> 0" by auto
    with sl(2) [OF lk(1)] free lk(2) il(2) up t show ?thesis by (auto simp: tr lk(1))
  next
    case out
    with sl(3) [OF out] free il(2) t show ?thesis by (auto simp: tr)
  qed
  show "\<not> in_cs (at (threads c ! u))" if "in_cs l'" "u < length (threads c)" "u \<noteq> t" using that * by blast
  show "lock (hd bs') = 0 \<longleftrightarrow> \<not> in_cs l' \<and> (\<forall>u<length (threads c). u \<noteq> t \<longrightarrow> \<not> in_cs (at (threads c ! u)))"
    "unat (lock (hd bs')) \<le> tries c'" using * by blast+
qed

lemma lb_inv_concI:
  assumes "slots_ok (chain c)"
    and "\<And>th. th \<in> set (threads c) \<Longrightarrow> relies (chain c) (absent th) (present th) (at th)"
    and "\<And>th x. th \<in> set (threads c) \<Longrightarrow> lb_op (at th) = Some x \<Longrightarrow>
      (absent th \<or> lb_map c (op_key x) \<noteq> None) \<and> (present th \<or> \<not> has_key (chain c) (op_key x))"
    and "\<And>t u. t < length (threads c) \<Longrightarrow> u < length (threads c) \<Longrightarrow>
      in_cs (at (threads c ! t)) \<Longrightarrow> in_cs (at (threads c ! u)) \<Longrightarrow> t = u"
    and "lock (hd (chain c)) = 0 \<longleftrightarrow> (\<forall>u<length (threads c). \<not> in_cs (at (threads c ! u)))"
    and "unat (lock (hd (chain c))) \<le> tries c"
    and "\<And>k v. lb_map c k = Some v \<Longrightarrow> v \<noteq> 0"
  shows "lb_inv_conc c"
proof -
  have "lock (hd (chain c)) = 0 \<longleftrightarrow> (\<forall>th\<in>set (threads c). \<not> in_cs (at th))"
    unfolding assms(5) by (metis in_set_conv_nth)
  then show ?thesis
    unfolding lb_inv_conc_def using assms(1-4,6,7) by blast
qed

lemma inv_threads:
  assumes "lb_inv_conc c" and "th \<in> set (threads c)"
  shows "relies (chain c) (absent th) (present th) (at th)"
    and "lb_op (at th) = Some x \<Longrightarrow>
      (absent th \<or> lb_map c (op_key x) \<noteq> None) \<and> (present th \<or> \<not> has_key (chain c) (op_key x))"
proof -
  note r = assms(1) [unfolded lb_inv_conc_def, THEN conjunct2, THEN conjunct1, rule_format, OF assms(2)]
  show "relies (chain c) (absent th) (present th) (at th)" by (rule r [THEN conjunct1])
  show "lb_op (at th) = Some x \<Longrightarrow>
      (absent th \<or> lb_map c (op_key x) \<noteq> None) \<and> (present th \<or> \<not> has_key (chain c) (op_key x))"
    by (rule r [THEN conjunct2, rule_format])
qed

lemma effect_values:
  assumes "lb_effect l M M'" and "relies bs a p l" and "\<And>k v. M k = Some v \<Longrightarrow> v \<noteq> 0" and "M' k = Some v"
  shows "v \<noteq> 0"
  using assms(1,2,4) by (cases l) (auto simp: lb_effect_def dest: assms(3) split: if_splits)

lemma run_inv:
  assumes inv: "lb_inv_conc c" and t: "t < length (threads c)" and b: "tries (lb_run t c) < 2 ^ 64"
  shows "lb_inv_conc (lb_run t c)"
proof -
  obtain l' bs' m' where st: "lb_step (at (threads c ! t)) (chain c) (heap c) = (l', bs', m')" by (metis prod_cases3)
  note mu = run_mutex [OF inv t st b] and f = run_fields(1,3) [OF st]
  have len: "length (threads (lb_run t c)) = length (threads c)" by (simp add: f(2))
  show ?thesis
  proof (rule lb_inv_concI)
    show "slots_ok (chain (lb_run t c))" unfolding f(1) by (rule step_own [OF inv_knows [OF inv t] st, THEN conjunct1])
    show "relies (chain (lb_run t c)) (absent th) (present th) (at th)" if "th \<in> set (threads (lb_run t c))" for th
      unfolding f(1) by (rule run_threads(1) [OF inv t st that])
    show "(absent th \<or> lb_map (lb_run t c) (op_key x) \<noteq> None) \<and> (present th \<or> \<not> has_key (chain (lb_run t c)) (op_key x))"
      if "th \<in> set (threads (lb_run t c))" "lb_op (at th) = Some x" for th x
      unfolding f(1) by (rule run_threads(2) [OF inv t st that])
    show "u = w" if "u < length (threads (lb_run t c))" "w < length (threads (lb_run t c))"
      "in_cs (at (threads (lb_run t c) ! u))" "in_cs (at (threads (lb_run t c) ! w))" for u w
      using that mu(1) [OF that(1)] mu(1) [OF that(2)] mu(2) inv_alone [OF inv] unfolding len by metis
    show "lock (hd (chain (lb_run t c))) = 0 \<longleftrightarrow>
        (\<forall>u<length (threads (lb_run t c)). \<not> in_cs (at (threads (lb_run t c) ! u)))"
      unfolding f(1) mu(3) using mu(1) t unfolding len by metis
    show "unat (lock (hd (chain (lb_run t c)))) \<le> tries (lb_run t c)" unfolding f(1) by (rule mu(4))
    show "v \<noteq> 0" if "lb_map (lb_run t c) k = Some v" for k v
      using effect_values [OF run_effect [OF inv t st] inv_threads(1) [OF inv nth_mem [OF t]] _ that] inv_lock(3) [OF inv]
      by blast
  qed
qed

text \<open>A thread that is not under the lock moves to another point that is not.\<close>

lemma swap_inv:
  assumes inv: "lb_inv_conc c" and t: "t < length (threads c)" and "\<not> in_cs (at (threads c ! t))" and "\<not> in_cs (at th)"
    and "relies (chain c) (absent th) (present th) (at th)"
    and "\<And>x. lb_op (at th) = Some x \<Longrightarrow>
      (absent th \<or> lb_map c (op_key x) \<noteq> None) \<and> (present th \<or> \<not> has_key (chain c) (op_key x))"
  shows "lb_inv_conc (c\<lparr>threads := (threads c)[t := th]\<rparr>)"
proof -
  let ?c = "c\<lparr>threads := (threads c)[t := th]\<rparr>"
  have cs: "in_cs (at ((threads c)[t := th] ! u)) \<longleftrightarrow> in_cs (at (threads c ! u))" if "u < length (threads c)" for u
    using that assms(3,4) by (cases "u = t") simp_all
  have hw: "half_written (at ((threads c)[t := th] ! u)) = half_written (at (threads c ! u))" if "u < length (threads c)" for u
  proof -
    have "\<not> in_cs l \<Longrightarrow> half_written l = None" for l using half_written_in_cs [of l] by fastforce
    with assms(3,4) that show ?thesis by (cases "u = t") simp_all
  qed
  have m: "lb_map ?c = lb_map c"
    unfolding lb_map_def by (simp add: chain_map_but_cong [OF _ hw])
  have mem: "z \<in> set (threads c) \<or> z = th" if "z \<in> set (threads ?c)" for z
    using that set_update_subset_insert [of "threads c" t th] by auto
  show ?thesis
  proof (rule lb_inv_concI)
    show "relies (chain ?c) (absent z) (present z) (at z)" if "z \<in> set (threads ?c)" for z
      using mem [OF that] inv_threads(1) [OF inv] assms(5) by auto
    show "(absent z \<or> lb_map ?c (op_key x) \<noteq> None) \<and> (present z \<or> \<not> has_key (chain ?c) (op_key x))"
      if "z \<in> set (threads ?c)" "lb_op (at z) = Some x" for z x
      using mem [OF that(1)] inv_threads(2) [OF inv _ that(2)] assms(6) that(2) unfolding m by auto
    show "u = w" if "u < length (threads ?c)" "w < length (threads ?c)"
      "in_cs (at (threads ?c ! u))" "in_cs (at (threads ?c ! w))" for u w
    proof -
      from that cs have "u < length (threads c)" "w < length (threads c)" "in_cs (at (threads c ! u))" "in_cs (at (threads c ! w))"
        by simp_all
      with inv_alone [OF inv, of u w] show ?thesis by metis
    qed
    show "lock (hd (chain ?c)) = 0 \<longleftrightarrow> (\<forall>u<length (threads ?c). \<not> in_cs (at (threads ?c ! u)))"
      using cs inv_lock(1) [OF inv] by (simp add: all_set_conv_all_nth)
  qed (use inv_slots(1) [OF inv] inv_lock(2,3) [OF inv] m in auto)
qed

lemma call_inv:
  assumes inv: "lb_inv_conc c" and t: "t < length (threads c)" and i: "at (threads c ! t) = Idle"
    and ok: "op_ok (\<lambda>k. k \<noteq> 0) (\<lambda>v. v \<noteq> 0) x"
  shows "lb_inv_conc (lb_call t x c)"
proof -
  note s = inv_slots(1) [OF inv]
  have z: "slot (chain c) 0 0" by (rule slots_ok_first [OF s])
  have later: "lb_map c k = None \<or> later_slot (chain c) k 0 0" if "k \<noteq> 0" for k
  proof (cases "lb_map c k = None")
    case False
    then have "chain_map (chain c) k \<noteq> None" by (auto simp: lb_map_def chain_map_but_def split: if_splits)
    with chain_map_has [OF s that] has_later_slot show ?thesis by blast
  qed simp
  show ?thesis
    unfolding lb_call_def
  proof (rule swap_inv [OF inv t])
    show "\<not> in_cs (at \<lparr>at = lb_start x, absent = lb_map c (op_key x) = None, present = bucket_exists (chain c) (op_key x)\<rparr>)"
      by (cases x) simp_all
    show "relies (chain c) (absent \<lparr>at = lb_start x, absent = lb_map c (op_key x) = None, present = bucket_exists (chain c) (op_key x)\<rparr>)
      (present \<lparr>at = lb_start x, absent = lb_map c (op_key x) = None, present = bucket_exists (chain c) (op_key x)\<rparr>)
      (at \<lparr>at = lb_start x, absent = lb_map c (op_key x) = None, present = bucket_exists (chain c) (op_key x)\<rparr>)"
      using ok later z by (cases x) auto
  next
    fix y
    assume "lb_op (at \<lparr>at = lb_start x, absent = lb_map c (op_key x) = None, present = bucket_exists (chain c) (op_key x)\<rparr>) = Some y"
    then have "y = x" by (cases x) auto
    then show "(absent \<lparr>at = lb_start x, absent = lb_map c (op_key x) = None, present = bucket_exists (chain c) (op_key x)\<rparr> \<or>
        lb_map c (op_key y) \<noteq> None) \<and>
      (present \<lparr>at = lb_start x, absent = lb_map c (op_key x) = None, present = bucket_exists (chain c) (op_key x)\<rparr> \<or>
        \<not> has_key (chain c) (op_key y))" using has_key_iff [OF s] by auto
  qed (simp add: i)
qed

lemma return_inv:
  assumes "lb_inv_conc c" and "t < length (threads c)" and "at (threads c ! t) = Answered x r"
  shows "lb_inv_conc (lb_return t c)"
  unfolding lb_return_def by (rule swap_inv [OF assms(1,2)]) (simp_all add: assms(3))

lemma init_inv:
  assumes "lb_init c"
  shows "lb_inv_conc c"
proof -
  from assms have c: "chain c = [empty_bucket]" and th: "\<And>x. x \<in> set (threads c) \<Longrightarrow> at x = Idle" and "tries c = 0"
    by (simp_all add: lb_init_def)
  have k: "key_at (chain c) h j = 0" if "slot (chain c) h j" for h j
    using that by (simp add: c key_at_def empty_bucket_def)
  have s: "slots_ok (chain c)"
    using k by (simp add: slots_ok_def c bucket_ok_def empty_bucket_def)
  have "\<not> has_key (chain c) k" if "k \<noteq> 0" for k using that \<open>\<And>h j. slot (chain c) h j \<Longrightarrow> key_at (chain c) h j = 0\<close>
    by (auto simp: has_key_def)
  then have m: "lb_map c k = None" for k
    using chain_map_has [OF s, of k] chain_map_0 [of "chain c"] by (cases "k = 0") (auto simp: lb_map_def chain_map_but_def)
  have idle: "at (threads c ! u) = Idle" if "u < length (threads c)" for u using th that by simp
  show ?thesis
    by (rule lb_inv_concI) (use s th idle m c in \<open>auto simp: empty_bucket_def\<close>)
qed

interpretation lb_sys: step_system lb_init lb_conc lb_inv_conc "\<lambda>c. tries c < 2 ^ 64"
proof
  show "lb_inv_conc c" if "lb_init c" for c using that by (rule init_inv)
  show "lb_inv_conc c'" if "lb_inv_conc c" "lb_conc c c'" "tries c' < 2 ^ 64" for c c'
    using that(2) by cases (use that call_inv run_inv return_inv in blast)+
  show "tries c < 2 ^ 64" if "lb_conc c c'" "tries c' < 2 ^ 64" for c c'
    using that by cases (auto simp: lb_call_def lb_return_def lb_run_def Let_def split: prod.splits if_splits)
qed

end
