(* ===== verification/Clht_lb_runs.thy ===== *)
theory Clht_lb_runs
  imports Clht_lb_inv
begin

text \<open>
  The properties of the concurrent lock-based chain: mutual exclusion, atomic updates, what the answers
  mean, a lookup that answers an uninitialised value, and the agreement of the steps of a single thread
  with the sequential functions of theory Clht_lb.
\<close>

section \<open>Properties\<close>

text \<open>
  C4. Mutual exclusion on a chain of the lock-based table: in every reachable state at most one thread
  is between \<open>LOCK_ACQ\<close> and \<open>LOCK_RLS\<close>, the lock word is 0 exactly when none is, no key is in two
  slots, and no key of the map has the value 0. The lock word counts failed attempts, so the bound on
  their number keeps it from wrapping to 0.
\<close>

theorem clht_lb_mutual_exclusion:
  assumes "lb_reachable c" and "tries c < 2 ^ 64"
  shows "(\<forall>t u. t < length (threads c) \<longrightarrow> u < length (threads c) \<longrightarrow>
      in_cs (at (threads c ! t)) \<longrightarrow> in_cs (at (threads c ! u)) \<longrightarrow> t = u) \<and>
    (lock (hd (chain c)) = 0 \<longleftrightarrow> (\<forall>th\<in>set (threads c). \<not> in_cs (at th))) \<and>
    slots_ok (chain c) \<and> (\<forall>k. lb_map c k \<noteq> Some 0)"
  using lb_sys.reachable_inv [OF assms] inv_lock(3) [of c] unfolding lb_inv_conc_def by blast

text \<open>
  C3. The updates are atomic: the step that completes the entry of an insertion is the insertion of
  the abstract map, with the answer true; the step that clears the key of a removal is the removal of
  the abstract map, with the value that the call will answer; no other step of any thread changes the
  map.
\<close>

theorem clht_lb_updates_atomic:
  assumes "lb_reachable c" and "t < length (threads c)" and "lb_op (at (threads c ! t)) \<noteq> None"
    and "tries (lb_run t c) < 2 ^ 64"
  shows "lb_effect (at (threads c ! t)) (lb_map c) (lb_map (lb_run t c))"
proof -
  obtain l' bs' m' where st: "lb_step (at (threads c ! t)) (chain c) (heap c) = (l', bs', m')" by (metis prod_cases3)
  have "lb_inv_conc c"
    by (rule lb_sys.reachable_step_inv(1) [OF assms(1) lb_conc.run [OF assms(2,3)] assms(4)])
  from run_effect [OF this assms(2) st] show ?thesis .
qed

text \<open>
  C6. The negative answers are right: when a lookup or a removal answers 0, its key was absent from the
  map at some moment of the call; when an insertion answers false, its key was in the chain at some
  moment of the call.
\<close>

theorem clht_lb_negative_answers_sound:
  assumes "lb_reachable c" and "tries c < 2 ^ 64" and "t < length (threads c)" and "at (threads c ! t) = Answered x r"
  shows "case x of
      Get k \<Rightarrow> r = RVal 0 \<longrightarrow> absent (threads c ! t)
    | Remove k \<Rightarrow> r = RVal 0 \<longrightarrow> absent (threads c ! t)
    | Put k v \<Rightarrow> r = RBool False \<longrightarrow> present (threads c ! t)"
  using inv_threads(1) [OF lb_sys.reachable_inv [OF assms(1,2)] nth_mem [OF assms(3)]] assms(4)
  by (auto split: kv_op.splits)

text \<open>
  C5. A lookup whose key stays in the map during the whole call answers the value that the key has when
  the lookup ends, whatever the other threads do to the chain.
\<close>

theorem clht_lb_get_stable_key:
  assumes "lb_reachable c" and "t < length (threads c)" and "tries (lb_run t c) < 2 ^ 64"
    and "lb_op (at (threads c ! t)) = Some (Get k)"
    and "at (threads (lb_run t c) ! t) = Answered (Get k) (RVal w)" and "\<not> absent (threads c ! t)"
  shows "lb_map c k = Some w"
proof -
  let ?l = "at (threads c ! t)"
  have op: "lb_op ?l \<noteq> None" using assms(4) by simp
  have inv: "lb_inv_conc c"
    by (rule lb_sys.reachable_step_inv(1) [OF assms(1) lb_conc.run [OF assms(2) op] assms(3)])
  note kn = inv_knows [OF inv assms(2)]
  note r = knowsD(2) [OF kn]
  obtain l' bs' m' where st: "lb_step ?l (chain c) (heap c) = (l', bs', m')" by (metis prod_cases3)
  have a: "l' = Answered (Get k) (RVal w)" using assms(2,5) by (simp add: run_fields(3) [OF st])
  show ?thesis
  proof (cases ?l)
    case (G_val2 k' h j w')
    with assms(4,6) r have "k' = k" "k \<noteq> 0" "slot (chain c) h j" "key_at (chain c) h j = k" "val_at (chain c) h j = w'"
      by auto
    with knows_value(1) [OF kn assms(4), of k h j] assms(6) st a G_val2 show ?thesis by auto
  next
    case (G_link k' h)
    with st a later_slot_end [of h "chain c" k'] r assms(6) show ?thesis by (auto split: if_splits)
  qed (use st a assms(4) in \<open>auto split: if_splits\<close>)
qed

section \<open>A lookup that answers what was never stored\<close>

datatype lb_action = ACall nat kv_op | ARun nat

fun lb_act :: "lb_action \<Rightarrow> lb_config \<Rightarrow> lb_config option" where
  "lb_act (ACall t x) c =
     (if t < length (threads c) \<and> at (threads c ! t) \<in> {Idle} \<and> op_ok (\<lambda>k. k \<noteq> 0) (\<lambda>v. v \<noteq> 0) x
      then Some (lb_call t x c) else None)"
| "lb_act (ARun t) c =
     (if t < length (threads c)
      then (case at (threads c ! t) of
              Answered x r \<Rightarrow> Some (lb_return t c)
            | l \<Rightarrow> if lb_op l = None then None else Some (lb_run t c))
      else None)"

lemma lb_act_step: "lb_act a c = Some c' \<Longrightarrow> lb_conc c c'"
  by (cases a) (auto intro: lb_conc.intros split: if_splits lb_local.splits)

definition lb_start_config :: "lb_config" where
  "lb_start_config = \<lparr>chain = [empty_bucket], heap = example_mem,
     threads = replicate 2 \<lparr>at = Idle, absent = False, present = False\<rparr>, tries = 0\<rparr>"

definition wrong_lookup :: "lb_action list" where
  "wrong_lookup =
     ACall 0 (Put 1 1) # replicate 13 (ARun 0) @ ACall 0 (Put 2 2) # replicate 13 (ARun 0) @
     ACall 0 (Put 3 3) # replicate 13 (ARun 0) @ ACall 0 (Put 9 5) # replicate 11 (ARun 0) @
     ACall 1 (Get 9) # replicate 10 (ARun 1) @ replicate 2 (ARun 0)"

lemma wrong_lookup_run:
  "case schedule_run lb_act wrong_lookup lb_start_config of
     None \<Rightarrow> False
   | Some cs \<Rightarrow> at (threads (last cs) ! 1) = Answered (Get 9) (RVal 7) \<and> list_all (\<lambda>c. lb_map c 9 \<noteq> Some 7) cs \<and>
       lb_map (last cs) 9 = Some 5"
  by code_simp

section \<open>A thread on its own\<close>

text \<open>
  With no other thread the steps add up to the functions of theory Clht_lb: the two models of the source
  agree.
\<close>

inductive lb_solo :: "lb_local \<times> u64 bucket list \<times> mem \<Rightarrow> lb_local \<times> u64 bucket list \<times> mem \<Rightarrow> bool" where
  stop: "lb_solo x x"
| step: "lb_solo (lb_step l bs m) y \<Longrightarrow> lb_solo (l, bs, m) y"

lemma slots_012: "[0..<ENTRIES_PER_BUCKET] = [0, 1, 2]"
  by (simp add: ENTRIES_PER_BUCKET_def upt_rec)

lemma E3: "ENTRIES_PER_BUCKET = 3"
  by (simp add: ENTRIES_PER_BUCKET_def)

text \<open>A loop over the slots of a bucket that looks for a key: at \<open>P j\<close> it looks at slot \<open>j\<close>.\<close>

lemma bucket_walk:
  assumes P: "\<And>j. lb_solo (if key b ! j = k then H j else if Suc j < ENTRIES_PER_BUCKET then P (Suc j) else Q, bs, m) y \<Longrightarrow>
      lb_solo (P j, bs, m) y"
    and y: "lb_solo (case find_key b k of Some j \<Rightarrow> H j | None \<Rightarrow> Q, bs, m) y"
  shows "lb_solo (P 0, bs, m) y"
proof -
  have f: "find_key b k = (if key b ! 0 = k then Some 0 else if key b ! 1 = k then Some 1 else if key b ! 2 = k then Some 2 else None)"
    by (simp add: find_key_def slots_012)
  have 2: "lb_solo (P 2, bs, m) y" if "key b ! 0 \<noteq> k" "key b ! 1 \<noteq> k"
    using y that P [of 2] by (simp add: f E3 split: if_splits)
  have 1: "lb_solo (P 1, bs, m) y" if "key b ! 0 \<noteq> k"
    using y that 2 P [of 1] by (simp add: f E3 numeral_2_eq_2 split: if_splits)
  show ?thesis using y 1 P [of 0] by (simp add: f E3 split: if_splits)
qed

lemma chain_at: "h < length bs \<Longrightarrow> drop h bs = bs ! h # drop (Suc h) bs"
  by (simp add: Cons_nth_drop_Suc)

lemma get_solo:
  assumes "h < length bs"
  shows "lb_solo (G_val k h 0, bs, m) (Answered (Get k) (RVal (chain_get (drop h bs) k)), bs, m)"
  using assms
proof (induction "length bs - h" arbitrary: h)
  case (Suc n)
  let ?y = "(Answered (Get k) (RVal (chain_get (drop h bs) k)), bs, m)"
  show ?case
  proof (rule bucket_walk [where b = "bs ! h" and k = k and H = "\<lambda>j. G_val2 k h j (val_at bs h j)" and Q = "G_link k h"])
    fix j
    assume "lb_solo (if key (bs ! h) ! j = k then G_val2 k h j (val_at bs h j)
      else if Suc j < ENTRIES_PER_BUCKET then G_val k h (Suc j) else G_link k h, bs, m) ?y"
    then have "lb_solo (G_key k h j (val_at bs h j), bs, m) ?y" by (intro lb_solo.step) (simp add: key_at_def)
    then show "lb_solo (G_val k h j, bs, m) ?y" by (intro lb_solo.step) simp
  next
    have "lb_solo (G_link k h, bs, m) ?y" if "find_key (bs ! h) k = None"
      using Suc.hyps(1) [of "Suc h"] Suc.hyps(2) that
      by (intro lb_solo.step) (auto simp: chain_at [OF Suc.prems] intro: lb_solo.stop)
    moreover have "lb_solo (G_val2 k h j (val_at bs h j), bs, m) ?y" if "find_key (bs ! h) k = Some j" for j
      using that by (intro lb_solo.step) (simp add: chain_at [OF Suc.prems] val_at_def lb_solo.stop)
    ultimately show "lb_solo (case find_key (bs ! h) k of Some j \<Rightarrow> G_val2 k h j (val_at bs h j) | None \<Rightarrow> G_link k h, bs, m) ?y"
      by (simp split: option.split)
  qed
qed simp

lemma look_put_solo:
  assumes "h < length bs"
    and "lb_solo (if bucket_exists (drop h bs) k then Answered (Put k v) (RBool False) else P_lock k v, bs, m) y"
  shows "lb_solo (P_look k v h 0, bs, m) y"
  using assms
proof (induction "length bs - h" arbitrary: h)
  case (Suc n)
  show ?case
  proof (rule bucket_walk [where b = "bs ! h" and k = k and H = "\<lambda>j. Answered (Put k v) (RBool False)" and Q = "P_look_link k v h"])
    fix j
    assume "lb_solo (if key (bs ! h) ! j = k then Answered (Put k v) (RBool False)
      else if Suc j < ENTRIES_PER_BUCKET then P_look k v h (Suc j) else P_look_link k v h, bs, m) y"
    then show "lb_solo (P_look k v h j, bs, m) y" by (intro lb_solo.step) (simp add: key_at_def)
  next
    have "lb_solo (P_look_link k v h, bs, m) y" if "find_key (bs ! h) k = None"
      using Suc.hyps(1) [of "Suc h"] Suc.hyps(2) Suc.prems(2) that
      by (intro lb_solo.step) (auto simp: chain_at [OF Suc.prems(1)])
    with Suc.prems(2) show "lb_solo (case find_key (bs ! h) k of Some j \<Rightarrow> Answered (Put k v) (RBool False) | None \<Rightarrow> P_look_link k v h, bs, m) y"
      by (auto simp: chain_at [OF Suc.prems(1)] split: option.split)
  qed
qed simp

lemma look_remove_solo:
  assumes "h < length bs"
    and "lb_solo (if bucket_exists (drop h bs) k then R_lock k else Answered (Remove k) (RVal 0), bs, m) y"
  shows "lb_solo (R_look k h 0, bs, m) y"
  using assms
proof (induction "length bs - h" arbitrary: h)
  case (Suc n)
  show ?case
  proof (rule bucket_walk [where b = "bs ! h" and k = k and H = "\<lambda>j. R_lock k" and Q = "R_look_link k h"])
    fix j
    assume "lb_solo (if key (bs ! h) ! j = k then R_lock k
      else if Suc j < ENTRIES_PER_BUCKET then R_look k h (Suc j) else R_look_link k h, bs, m) y"
    then show "lb_solo (R_look k h j, bs, m) y" by (intro lb_solo.step) (simp add: key_at_def)
  next
    have "lb_solo (R_look_link k h, bs, m) y" if "find_key (bs ! h) k = None"
      using Suc.hyps(1) [of "Suc h"] Suc.hyps(2) Suc.prems(2) that
      by (intro lb_solo.step) (auto simp: chain_at [OF Suc.prems(1)])
    with Suc.prems(2) show "lb_solo (case find_key (bs ! h) k of Some j \<Rightarrow> R_lock k | None \<Rightarrow> R_look_link k h, bs, m) y"
      by (auto simp: chain_at [OF Suc.prems(1)] split: option.split)
  qed
qed simp

lemma scan_remove_solo:
  assumes "h < length bs"
    and "case chain_remove (drop h bs) k of None \<Rightarrow> lb_solo (R_rls k 0, bs, m) y
      | Some (w, ds) \<Rightarrow> lb_solo (R_rls k w, take h bs @ ds, m) y"
  shows "lb_solo (R_scan k h 0, bs, m) y"
  using assms
proof (induction "length bs - h" arbitrary: h)
  case (Suc n)
  have t: "take (Suc h) bs = take h bs @ [bs ! h]" using Suc.prems by (simp add: take_Suc_conv_app_nth)
  show ?case
  proof (rule bucket_walk [where b = "bs ! h" and k = k and H = "\<lambda>j. R_val k h j" and Q = "R_link k h"])
    fix j
    assume "lb_solo (if key (bs ! h) ! j = k then R_val k h j
      else if Suc j < ENTRIES_PER_BUCKET then R_scan k h (Suc j) else R_link k h, bs, m) y"
    then show "lb_solo (R_scan k h j, bs, m) y" by (intro lb_solo.step) (simp add: key_at_def)
  next
    have "lb_solo (R_link k h, bs, m) y" if "find_key (bs ! h) k = None"
    proof (cases "Suc h < length bs")
      case True
      have "lb_solo (R_scan k (Suc h) 0, bs, m) y"
        by (rule Suc.hyps(1)) (use Suc.hyps(2) True Suc.prems(2) that in \<open>auto simp: chain_at [OF Suc.prems(1)] t split: option.splits\<close>)
      with True show ?thesis by (intro lb_solo.step) simp
    next
      case False
      with Suc.prems(2) that show ?thesis by (intro lb_solo.step) (simp add: chain_at [OF Suc.prems(1)])
    qed
    moreover have "lb_solo (R_val k h j, bs, m) y" if "find_key (bs ! h) k = Some j" for j
    proof -
      have "set_key bs h j 0 = take h bs @ (bs ! h)\<lparr>key := (key (bs ! h))[j := 0]\<rparr> # drop (Suc h) bs"
        using Suc.prems(1) by (simp add: set_key_def upd_conv_take_nth_drop)
      with Suc.prems(2) that have "lb_solo (R_clear k h j (val_at bs h j), bs, m) y"
        by (intro lb_solo.step) (simp add: chain_at [OF Suc.prems(1)] val_at_def)
      then show ?thesis by (intro lb_solo.step) simp
    qed
    ultimately show "lb_solo (case find_key (bs ! h) k of Some j \<Rightarrow> R_val k h j | None \<Rightarrow> R_link k h, bs, m) y"
      by (simp split: option.split)
  qed
qed simp

definition put_target :: "u64 \<Rightarrow> u64 \<Rightarrow> nat \<Rightarrow> unit + (nat \<times> nat) option \<Rightarrow> lb_local" where
  "put_target k v h r = (case r of Inl _ \<Rightarrow> P_rls k v False | Inr None \<Rightarrow> P_grow k v h | Inr (Some (a, b)) \<Rightarrow> P_wval k v a b)"

lemma scan_bucket_solo:
  assumes "lb_solo (case put_scan (bs ! h) k h [0..<ENTRIES_PER_BUCKET] e of Inl _ \<Rightarrow> P_rls k v False | Inr e' \<Rightarrow> P_link k v h e', bs, m) y"
  shows "lb_solo (P_scan k v h 0 e, bs, m) y"
proof -
  have P: "lb_solo (P_scan k v h j e, bs, m) y"
    if "lb_solo (if key (bs ! h) ! j = k then P_rls k v False
      else let e = (if e = None \<and> key (bs ! h) ! j = 0 then Some (h, j) else e)
           in if Suc j < ENTRIES_PER_BUCKET then P_scan k v h (Suc j) e else P_link k v h e, bs, m) y" for j e
    using that by (intro lb_solo.step) (simp only: lb_step.simps key_at_def)
  let ?res = "\<lambda>js e. lb_solo (case put_scan (bs ! h) k h js e of Inl _ \<Rightarrow> P_rls k v False | Inr e' \<Rightarrow> P_link k v h e', bs, m) y"
  have 2: "lb_solo (P_scan k v h 2 e, bs, m) y" if "?res [2] e" for e
    using that by (intro P) (auto simp: E3 Let_def split: if_splits)
  have 1: "lb_solo (P_scan k v h 1 e, bs, m) y" if "?res [1, 2] e" for e
    using that 2 by (intro P) (auto simp: E3 Let_def numeral_2_eq_2 split: if_splits)
  show ?thesis
    using assms 1 unfolding slots_012 by (intro P) (auto simp: E3 Let_def split: if_splits)
qed

lemma scan_put_solo:
  assumes "h < length bs" and "lb_solo (put_target k v (length bs - 1) (put_walk (drop h bs) k h e), bs, m) y"
  shows "lb_solo (P_scan k v h 0 e, bs, m) y"
  using assms
proof (induction "length bs - h" arbitrary: h e)
  case (Suc n)
  have "lb_solo (P_link k v h e', bs, m) y"
    if "put_scan (bs ! h) k h [0..<ENTRIES_PER_BUCKET] e = Inr e'" for e'
  proof (cases "Suc h < length bs")
    case True
    have "lb_solo (P_scan k v (Suc h) 0 e', bs, m) y"
      by (rule Suc.hyps(1)) (use Suc.hyps(2) True Suc.prems(2) that in \<open>auto simp: chain_at [OF Suc.prems(1)]\<close>)
    with True show ?thesis by (intro lb_solo.step) simp
  next
    case False
    then have "length bs - 1 = h" "put_walk (drop h bs) k h e = Inr e'"
      using Suc.prems(1) that by (auto simp: chain_at [OF Suc.prems(1)])
    with Suc.prems(2) have "lb_solo (put_target k v h (Inr e'), bs, m) y" by simp
    with False show ?thesis by (intro lb_solo.step) (auto simp: put_target_def split: option.splits)
  qed
  moreover have "lb_solo (P_rls k v False, bs, m) y" if "put_scan (bs ! h) k h [0..<ENTRIES_PER_BUCKET] e = Inl u" for u
    using Suc.prems(2) that by (simp add: chain_at [OF Suc.prems(1)] put_target_def)
  ultimately show ?case by (intro scan_bucket_solo) (simp split: sum.split)
qed simp

lemma lock_solo:
  assumes "lock (hd bs) = 0"
  shows "lb_solo (P_scan k v 0 0 None, LOCK_ACQ_lb bs, m) y \<Longrightarrow> lb_solo (P_lock k v, bs, m) y"
    and "lb_solo (R_scan k 0 0, LOCK_ACQ_lb bs, m) y \<Longrightarrow> lb_solo (R_lock k, bs, m) y"
  using assms by (auto simp: FAI_def LOCK_ACQ_lb_def lock_acq_fai_result intro!: lb_solo.step)

lemma rls_solo:
  "lb_solo (P_rls k v r, bs, m) (Answered (Put k v) (RBool r), LOCK_RLS_lb bs, m)"
  "lb_solo (R_rls k w, bs, m) (Answered (Remove k) (RVal w), LOCK_RLS_lb bs, m)"
  by (rule lb_solo.step, simp add: LOCK_RLS_lb_def lb_solo.stop)+

lemma set_val_key: "h < length bs \<Longrightarrow> set_key (set_val bs h j v) h j k = write_slot bs h j k v"
  and set_key_val: "h < length bs \<Longrightarrow> set_val (set_key bs h j k) h j v = write_slot bs h j k v"
  by (cases "bs ! h"; simp add: set_key_def set_val_def write_slot_def Let_def)+

lemma insert_solo:
  assumes "bs \<noteq> []" and "\<forall>b\<in>set bs. bucket_ok b" and "chain_insert bs k v m = Done (r, ds, m')"
  shows "lb_solo (P_scan k v 0 0 None, bs, m) (Answered (Put k v) (RBool r), LOCK_RLS_lb ds, m')"
proof (rule scan_put_solo)
  let ?y = "(Answered (Put k v) (RBool r), LOCK_RLS_lb ds, m')"
  show "0 < length bs" using assms(1) by simp
  have "lb_solo (put_target k v (length bs - 1) (put_walk bs k 0 None), bs, m) ?y"
  proof (cases "put_walk bs k 0 None")
    case (Inl u)
    with assms(3) rls_solo(1) show ?thesis by (auto simp: chain_insert_def put_target_def)
  next
    case (Inr e)
    show ?thesis
    proof (cases e)
      case None
      with assms(3) Inr obtain b where b: "clht_bucket_create m = (Some b, m')" "r" "ds = write_slot (bs @ [b]) (length bs) 0 k v"
        by (auto simp: chain_insert_def split: option.splits prod.splits)
      have S: "Suc (length bs - Suc 0) = length bs" using assms(1) by simp
      have "lb_solo (P_rls k v True, ds, m') ?y" using rls_solo(1) b(2) by simp
      then have "lb_solo (P_nval k v (length bs - 1), set_key (bs @ [b]) (length bs) 0 k, m') ?y"
        by (intro lb_solo.step) (simp add: S set_key_val b(3))
      then have "lb_solo (P_nkey k v (length bs - 1), bs @ [b], m') ?y" by (intro lb_solo.step) (simp add: S)
      then show ?thesis using Inr None b(1) by (auto simp: put_target_def intro: lb_solo.step)
    next
      case (Some p)
      obtain a j where p: "p = (a, j)" by (cases p)
      have "chain_empty bs 0 = Some (a, j)"
        using Inr Some p assms(2) by (auto simp: put_walk_result split: if_splits)
      then have a: "a < length bs" using chain_empty_Some by fastforce
      have "r" "ds = write_slot bs a j k v" "m' = m" using assms(3) Inr Some p by (auto simp: chain_insert_def)
      with rls_solo(1) [of k v r ds m] have "lb_solo (P_wkey k v a j, set_val bs a j v, m) ?y"
        by (intro lb_solo.step) (simp add: set_val_key [OF a])
      then show ?thesis using Inr Some p by (auto simp: put_target_def intro: lb_solo.step)
    qed
  qed
  then show "lb_solo (put_target k v (length bs - 1) (put_walk (drop 0 bs) k 0 None), bs, m) ?y" by simp
qed

text \<open>
  C8. A thread that runs alone performs the sequential functions: on a well-formed chain whose lock is
  free, the steps of a call lead to the result, the chain and the memory of the function.
\<close>

theorem clht_lb_solo_run:
  assumes "chain_inv_lb bs"
  shows "lb_solo (lb_start (Get k), bs, m) (Answered (Get k) (RVal (chain_get bs k)), bs, m) \<and>
    (\<forall>r bs' m'. put_chain_lb bs k v m = Done (r, bs', m') \<longrightarrow>
       lb_solo (lb_start (Put k v), bs, m) (Answered (Put k v) (RBool r), bs', m')) \<and>
    (\<forall>r bs'. remove_chain_lb bs k = Done (r, bs') \<longrightarrow>
       lb_solo (lb_start (Remove k), bs, m) (Answered (Remove k) (RVal r), bs', m))"
proof (intro conjI allI impI)
  have b: "0 < length bs" "bs \<noteq> []" "\<forall>b\<in>set bs. bucket_ok b" and l: "lock (hd bs) = 0"
    using assms by (auto simp: chain_inv_lb_def chain_inv_def chain_ok_def)
  have a: "LOCK_ACQ_lb bs \<noteq> []" "\<forall>b\<in>set (LOCK_ACQ_lb bs). bucket_ok b" "0 < length (LOCK_ACQ_lb bs)"
    using b by (simp_all add: LOCK_ACQ_lb_def)
  show "lb_solo (lb_start (Get k), bs, m) (Answered (Get k) (RVal (chain_get bs k)), bs, m)"
    using get_solo [OF b(1)] by simp
  show "lb_solo (lb_start (Put k v), bs, m) (Answered (Put k v) (RBool r), bs', m')"
    if "put_chain_lb bs k v m = Done (r, bs', m')" for r bs' m'
  proof -
    have "lb_solo (P_look k v 0 0, bs, m) (Answered (Put k v) (RBool r), bs', m')"
    proof (rule look_put_solo [OF b(1)])
      show "lb_solo (if bucket_exists (drop 0 bs) k then Answered (Put k v) (RBool False) else P_lock k v, bs, m)
        (Answered (Put k v) (RBool r), bs', m')"
        using that insert_solo [OF a(1,2), of k v m r] lock_solo(1) [OF l]
        by (auto simp: put_chain_lb_def bind_outcome_Done_iff lb_solo.stop split: if_splits)
    qed
    then show ?thesis by simp
  qed
  show "lb_solo (lb_start (Remove k), bs, m) (Answered (Remove k) (RVal r), bs', m)"
    if "remove_chain_lb bs k = Done (r, bs')" for r bs'
  proof -
    have "lb_solo (R_scan k 0 0, LOCK_ACQ_lb bs, m) (Answered (Remove k) (RVal r), bs', m)" if "bucket_exists bs k"
      by (rule scan_remove_solo [OF a(3)])
        (use that \<open>remove_chain_lb bs k = Done (r, bs')\<close> rls_solo(2) in
          \<open>auto simp: remove_chain_lb_def Let_def split: option.splits\<close>)
    with that lock_solo(2) [OF l] have "lb_solo (R_look k 0 0, bs, m) (Answered (Remove k) (RVal r), bs', m)"
      by (intro look_remove_solo [OF b(1)]) (auto simp: remove_chain_lb_def lb_solo.stop split: if_splits)
    then show ?thesis by simp
  qed
qed

section \<open>Witnesses\<close>

lemma lb_trace_reachable:
  assumes "case schedule_run lb_act as lb_start_config of None \<Rightarrow> False | Some cs \<Rightarrow> P cs"
  obtains cs where "cs \<noteq> []" and "lb_init (hd cs)" and "successively lb_conc cs" and "lb_reachable (last cs)" and "P cs"
proof -
  from assms obtain cs where cs: "schedule_run lb_act as lb_start_config = Some cs" "P cs" by (auto split: option.splits)
  have i: "lb_init lb_start_config" by (simp add: lb_init_def lb_start_config_def)
  note s = schedule_run_steps [OF lb_act_step cs(1)]
  have "lb_reachable (hd cs)" using s i by (auto intro: reachable.start)
  from reachable_successively [OF this] s i cs(2) show thesis by (intro that) auto
qed

text \<open>
  C7. There is a run in which a lookup answers a value that nobody has stored. Three keys fill a bucket; an
  insertion of key 9 with value 5 links a new bucket, writes its key, and has not written its value
  when a lookup of 9 reads what the allocator left there, 7. At no moment of the run does the map have
  7 under key 9; when the insertion has ended it has 5.
\<close>

theorem clht_lb_get_uninitialised:
  "\<exists>cs. cs \<noteq> [] \<and> lb_init (hd cs) \<and> successively lb_conc cs \<and>
     at (threads (last cs) ! 1) = Answered (Get 9) (RVal 7) \<and> list_all (\<lambda>c. lb_map c 9 \<noteq> Some 7) cs \<and>
     lb_map (last cs) 9 = Some 5"
  by (rule lb_trace_reachable [OF wrong_lookup_run]) blast

theorem clht_lb_mutual_exclusion_witness:
  "\<exists>c::lb_config. in_cs (at (threads c ! 0)) \<and> \<not> in_cs (at (threads c ! 1)) \<and> lock (hd (chain c)) \<noteq> 0"
proof -
  have "case schedule_run lb_act (ACall 0 (Put 1 1) # replicate 6 (ARun 0) @ ACall 1 (Put 2 2) # replicate 7 (ARun 1)) lb_start_config of
    None \<Rightarrow> False | Some cs \<Rightarrow> tries (last cs) < 100 \<and> in_cs (at (threads (last cs) ! 0)) \<and> length (threads (last cs)) = 2"
    by code_simp
  from lb_trace_reachable [OF this] obtain c :: lb_config where
    c: "lb_reachable c" "tries c < 100" "in_cs (at (threads c ! 0))" "length (threads c) = 2" by metis
  then have "tries c < 2 ^ 64" by simp
  note m = clht_lb_mutual_exclusion [OF c(1) this]
  from m c(3,4) have "in_cs (at (threads c ! 1)) \<Longrightarrow> 0 = (1::nat)" by (metis one_less_numeral_iff semiring_norm(76) zero_less_numeral)
  moreover have "threads c ! 0 \<in> set (threads c)" using c(4) by simp
  ultimately show ?thesis using m c(3) by (intro exI [of _ c]) auto
qed

theorem clht_lb_updates_atomic_witness:
  "\<exists>c::lb_config. lb_map c 1 = None \<and> lb_map (lb_run 0 c) = (lb_map c)(1 \<mapsto> 8)"
proof -
  have "case schedule_run lb_act (ACall 0 (Put 1 8) # replicate 10 (ARun 0)) lb_start_config of
    None \<Rightarrow> False | Some cs \<Rightarrow> tries (lb_run 0 (last cs)) < 100 \<and> at (threads (last cs) ! 0) = P_wkey 1 8 0 0 \<and> length (threads (last cs)) = 2"
    by code_simp
  from lb_trace_reachable [OF this] obtain c :: lb_config where
    c: "lb_reachable c" "tries (lb_run 0 c) < 100" "at (threads c ! 0) = P_wkey 1 8 0 0" "length (threads c) = 2" by metis
  then have "lb_effect (P_wkey 1 8 0 0) (lb_map c) (lb_map (lb_run 0 c))"
    using clht_lb_updates_atomic [of c 0] by simp
  then show ?thesis by (intro exI [of _ c]) (auto simp: lb_effect_def split: if_splits)
qed

theorem clht_lb_negative_answers_sound_witness:
  "\<exists>c::lb_config. at (threads c ! 1) = Answered (Get 3) (RVal 0) \<and> absent (threads c ! 1)"
proof -
  have "case schedule_run lb_act (ACall 1 (Get 3) # replicate 7 (ARun 1)) lb_start_config of
    None \<Rightarrow> False | Some cs \<Rightarrow> tries (last cs) < 100 \<and> at (threads (last cs) ! 1) = Answered (Get 3) (RVal 0) \<and> length (threads (last cs)) = 2"
    by code_simp
  from lb_trace_reachable [OF this] obtain c :: lb_config where
    c: "lb_reachable c" "tries c < 100" "at (threads c ! 1) = Answered (Get 3) (RVal 0)" "length (threads c) = 2" by metis
  then have "absent (threads c ! 1)" using clht_lb_negative_answers_sound [of c 1 "Get 3" "RVal 0"] by simp
  with c(3) show ?thesis by blast
qed

theorem clht_lb_get_stable_key_witness:
  "\<exists>c::lb_config. at (threads c ! 1) = G_val2 1 0 0 8 \<and> lb_map c 1 = Some 8"
proof -
  have "case schedule_run lb_act (ACall 0 (Put 1 8) # replicate 11 (ARun 0) @ ACall 1 (Get 1) # replicate 2 (ARun 1)) lb_start_config of
    None \<Rightarrow> False | Some cs \<Rightarrow> tries (lb_run 1 (last cs)) < 100 \<and> at (threads (last cs) ! 1) = G_val2 1 0 0 8 \<and>
      at (threads (lb_run 1 (last cs)) ! 1) = Answered (Get 1) (RVal 8) \<and> \<not> absent (threads (last cs) ! 1) \<and> length (threads (last cs)) = 2"
    by code_simp
  from lb_trace_reachable [OF this] obtain c :: lb_config where
    c: "lb_reachable c" "tries (lb_run 1 c) < 100" "at (threads c ! 1) = G_val2 1 0 0 8"
      "at (threads (lb_run 1 c) ! 1) = Answered (Get 1) (RVal 8)" "\<not> absent (threads c ! 1)" "length (threads c) = 2" by metis
  then have "lb_map c 1 = Some 8" using clht_lb_get_stable_key [of c 1 1 8] by simp
  with c(3) show ?thesis by blast
qed

theorem clht_lb_solo_run_witness:
  "\<exists>bs' m'. lb_solo (lb_start (Put 7 70), [empty_bucket], example_mem) (Answered (Put 7 70) (RBool True), bs', m')"
proof -
  have "case put_chain_lb [empty_bucket] 7 70 example_mem of Done (r, bs', m') \<Rightarrow> r | _ \<Rightarrow> False" by code_simp
  then obtain bs' m' where r: "put_chain_lb [empty_bucket] 7 70 example_mem = Done (True, bs', m')"
    by (auto split: outcome.splits)
  have "chain_inv_lb [empty_bucket]"
    by (simp add: chain_inv_lb_def chain_inv_def chain_ok_def bucket_ok_def bucket_entries_def empty_bucket_def E3)
  with clht_lb_solo_run [of "[empty_bucket]" 7 example_mem 70] r show ?thesis by blast
qed

end
