(* ===== verification/Clht_lb_packed.thy ===== *)
theory Clht_lb_packed
  imports Kv_store Clht_hash Atomic_ops
begin

text \<open>
  \<open>CLHT-LB-PACKED\<close> (\<open>src/src/clht/src/clht_lb_packed.c\<close>, \<open>include/clht_lb_packed.h\<close>): a bucket
  counts its entries in \<open>last\<close> and keeps them in the first slots; a removal moves the last
  entry of the chain into the hole. \<open>READ_ONLY_FAIL\<close> is defined; the lock is a test-and-set
  byte. A chain is the list of its buckets, as in theory Chain. \<open>last\<close> never leaves the range
  0 to 3 (part of the invariant), so it is a natural number here.
\<close>

unbundle bit_operations_syntax

section \<open>State\<close>

definition ENTRIES_packed :: nat where
  "ENTRIES_packed = 3"

record bucket_packed =
  plock :: u8
  plast :: nat
  pkey :: "u64 list"
  pval :: "u64 list"

type_synonym chain_packed = "bucket_packed list"

record hashtable_packed =
  num_buckets_packed :: u64
  table_packed :: "chain_packed list"

record clht_packed =
  ht_packed :: hashtable_packed

definition clht_bucket_create_packed :: "mem \<Rightarrow> bucket_packed option \<times> mem" where
  "clht_bucket_create_packed m =
     (case memalign m of
        (None, m') \<Rightarrow> (None, m')
      | (Some (g0, g1, g2), m') \<Rightarrow>
          (Some \<lparr>plock = 0, plast = 0, pkey = replicate ENTRIES_packed 0, pval = [g0, g1, g2]\<rparr>, m'))"

definition empty_bucket_packed :: bucket_packed where
  "empty_bucket_packed = \<lparr>plock = 0, plast = 0, pkey = replicate ENTRIES_packed 0,
     pval = replicate ENTRIES_packed 0\<rparr>"

definition clht_hashtable_create_packed :: "u32 \<Rightarrow> mem \<Rightarrow> hashtable_packed option \<times> mem" where
  "clht_hashtable_create_packed num_buckets m =
     (if num_buckets = 0 then (None, m)
      else case memalign m of
        (None, m1) \<Rightarrow> (None, m1)
      | (Some _, m1) \<Rightarrow>
          (case memalign m1 of
             (None, m2) \<Rightarrow> (None, mfree m2)
           | (Some _, m2) \<Rightarrow>
               (Some \<lparr>num_buckets_packed = ucast num_buckets,
                      table_packed = replicate (unat num_buckets) [empty_bucket_packed]\<rparr>, m2)))"

definition clht_create_packed :: "u32 \<Rightarrow> mem \<Rightarrow> clht_packed option \<times> mem" where
  "clht_create_packed num_buckets m =
     (case memalign m of
        (None, m1) \<Rightarrow> (None, m1)
      | (Some _, m1) \<Rightarrow>
          (case clht_hashtable_create_packed num_buckets m1 of
             (None, m2) \<Rightarrow> (None, mfree m2)
           | (Some t, m2) \<Rightarrow> (Some \<lparr>ht_packed = t\<rparr>, m2)))"

definition clht_hash_packed :: "hashtable_packed \<Rightarrow> u64 \<Rightarrow> u32" where
  "clht_hash_packed hashtable k = ucast (k AND (num_buckets_packed hashtable - 1))"

section \<open>Locks\<close>

text \<open>\<open>while (TAS_U8(lock)) _mm_pause()\<close>: with no other thread, a held lock is waited for for ever.\<close>

definition set_plock :: "chain_packed \<Rightarrow> u8 \<Rightarrow> chain_packed" where
  "set_plock bs l = (case bs of [] \<Rightarrow> [] | b # bs' \<Rightarrow> b\<lparr>plock := l\<rparr> # bs')"

definition LOCK_ACQ_packed :: "chain_packed \<Rightarrow> chain_packed outcome" where
  "LOCK_ACQ_packed bs =
     (let (old, new) = TAS_U8 (plock (hd bs))
      in if old = 0 then Done (set_plock bs new) else Spins)"

definition LOCK_RLS_packed :: "chain_packed \<Rightarrow> chain_packed" where
  "LOCK_RLS_packed bs = set_plock bs 0"

section \<open>Operations\<close>

text \<open>
  \<open>clht_get\<close> and \<open>bucket_exists\<close> look at the counted slots from the last one down, and leave
  the chain at the first bucket that is not full.
\<close>

definition find_down :: "bucket_packed \<Rightarrow> u64 \<Rightarrow> nat option" where
  "find_down b k = List.find (\<lambda>j. pkey b ! j = k) (rev [0..<plast b])"

fun chain_get_packed :: "chain_packed \<Rightarrow> u64 \<Rightarrow> u64" where
  "chain_get_packed [] k = 0"
| "chain_get_packed (b # bs) k =
     (case find_down b k of
        Some j \<Rightarrow> (let v = pval b ! j in if pval b ! j = v then v else 0)
      | None \<Rightarrow> (if plast b < ENTRIES_packed then 0 else chain_get_packed bs k))"

definition clht_get_packed :: "hashtable_packed \<Rightarrow> u64 \<Rightarrow> u64" where
  "clht_get_packed hashtable k =
     (let bin = unat (clht_hash_packed hashtable k) in chain_get_packed (table_packed hashtable ! bin) k)"

fun bucket_exists_packed :: "chain_packed \<Rightarrow> u64 \<Rightarrow> bool" where
  "bucket_exists_packed [] k = False"
| "bucket_exists_packed (b # bs) k =
     (if find_down b k \<noteq> None then True
      else if plast b < ENTRIES_packed then False else bucket_exists_packed bs k)"

text \<open>
  The loop of \<open>clht_put\<close>: the key among the counted slots ends it; the first bucket with room
  takes the entry; a full last bucket gets a successor.
\<close>

definition find_up :: "bucket_packed \<Rightarrow> u64 \<Rightarrow> nat option" where
  "find_up b k = List.find (\<lambda>j. pkey b ! j = k) [0..<plast b]"

definition push_packed :: "bucket_packed \<Rightarrow> nat \<Rightarrow> u64 \<Rightarrow> u64 \<Rightarrow> bucket_packed" where
  "push_packed b j k v =
     b\<lparr>pval := (pval b)[j := v], pkey := (pkey b)[j := k], plast := plast b + 1\<rparr>"

fun put_loop_packed ::
  "chain_packed \<Rightarrow> u64 \<Rightarrow> u64 \<Rightarrow> mem \<Rightarrow> (bool \<times> chain_packed \<times> mem) outcome" where
  "put_loop_packed [] k v m = Faults"
| "put_loop_packed (b # bs) k v m =
     (if find_up b k \<noteq> None then Done (False, b # bs, m)
      else if plast b < ENTRIES_packed then Done (True, push_packed b (plast b) k v # bs, m)
      else if bs = [] then
        (case clht_bucket_create_packed m of
           (None, m') \<Rightarrow> Faults
         | (Some c, m') \<Rightarrow> Done (True, [b, push_packed c 0 k v], m'))
      else bind_outcome (put_loop_packed bs k v m) (\<lambda>(r, bs', m'). Done (r, b # bs', m')))"

definition put_chain_packed ::
  "chain_packed \<Rightarrow> u64 \<Rightarrow> u64 \<Rightarrow> mem \<Rightarrow> (bool \<times> chain_packed \<times> mem) outcome" where
  "put_chain_packed bs k v m =
     (if bucket_exists_packed bs k then Done (False, bs, m)
      else bind_outcome (LOCK_ACQ_packed bs)
        (\<lambda>bs. bind_outcome (put_loop_packed bs k v m)
           (\<lambda>(r, bs', m'). Done (r, LOCK_RLS_packed bs', m'))))"

definition clht_put_packed :: "clht_packed \<Rightarrow> u64 \<Rightarrow> u64 \<Rightarrow> mem \<Rightarrow> (bool \<times> clht_packed \<times> mem) outcome" where
  "clht_put_packed h k v m =
     (let hashtable = ht_packed h; bin = unat (clht_hash_packed hashtable k)
      in bind_outcome (put_chain_packed (table_packed hashtable ! bin) k v m)
           (\<lambda>(r, bs, m'). Done (r,
              h\<lparr>ht_packed := hashtable\<lparr>table_packed := (table_packed hashtable)[bin := bs]\<rparr>\<rparr>, m')))"

text \<open>
  \<open>clht_remove\<close>: where the key is (bucket \<open>h\<close> of the chain, slot \<open>j\<close>); the last bucket that
  holds an entry (\<open>blast\<close>); then the four writes that move the last entry into the hole. The
  \<open>assert(blast_last != 0)\<close> of the source is kept.
\<close>

fun find_slot_packed :: "chain_packed \<Rightarrow> u64 \<Rightarrow> nat \<Rightarrow> (nat \<times> nat) option" where
  "find_slot_packed [] k h = None"
| "find_slot_packed (b # bs) k h =
     (case find_up b k of
        Some j \<Rightarrow> Some (h, j)
      | None \<Rightarrow> (if plast b < ENTRIES_packed then None else find_slot_packed bs k (Suc h)))"

fun blast_packed :: "chain_packed \<Rightarrow> nat \<Rightarrow> nat" where
  "blast_packed (b # c # bs) h = (if plast c \<noteq> 0 then blast_packed (c # bs) (Suc h) else h)"
| "blast_packed bs h = h"

definition upd_packed :: "chain_packed \<Rightarrow> nat \<Rightarrow> (bucket_packed \<Rightarrow> bucket_packed) \<Rightarrow> chain_packed" where
  "upd_packed bs h f = bs[h := f (bs ! h)]"

definition remove_slot_packed :: "chain_packed \<Rightarrow> nat \<Rightarrow> nat \<Rightarrow> (u64 \<times> chain_packed) outcome" where
  "remove_slot_packed bs h j =
     (let v = pval (bs ! h) ! j;
          l = blast_packed (drop h bs) h;
          bs = upd_packed bs h (\<lambda>b. b\<lparr>pkey := (pkey b)[j := 0]\<rparr>);
          blast_last = plast (bs ! l)
      in if blast_last = 0 then Faults
         else let w = pval (bs ! l) ! (blast_last - 1);
                  bs = upd_packed bs h (\<lambda>b. b\<lparr>pval := (pval b)[j := w]\<rparr>);
                  q = pkey (bs ! l) ! (blast_last - 1);
                  bs = upd_packed bs h (\<lambda>b. b\<lparr>pkey := (pkey b)[j := q]\<rparr>);
                  bs = upd_packed bs l (\<lambda>b. b\<lparr>plast := plast b - 1\<rparr>)
              in Done (v, bs))"

definition remove_chain_packed :: "chain_packed \<Rightarrow> u64 \<Rightarrow> (u64 \<times> chain_packed) outcome" where
  "remove_chain_packed bs k =
     (if \<not> bucket_exists_packed bs k then Done (0, bs)
      else bind_outcome (LOCK_ACQ_packed bs)
        (\<lambda>bs. case find_slot_packed bs k 0 of
                 Some (h, j) \<Rightarrow>
                   bind_outcome (remove_slot_packed bs h j)
                     (\<lambda>(v, bs'). Done (v, LOCK_RLS_packed bs'))
               | None \<Rightarrow> Done (0, LOCK_RLS_packed bs)))"

definition clht_remove_packed :: "clht_packed \<Rightarrow> u64 \<Rightarrow> (u64 \<times> clht_packed) outcome" where
  "clht_remove_packed h k =
     (let hashtable = ht_packed h; bin = unat (clht_hash_packed hashtable k)
      in bind_outcome (remove_chain_packed (table_packed hashtable ! bin) k)
           (\<lambda>(r, bs). Done (r,
              h\<lparr>ht_packed := hashtable\<lparr>table_packed := (table_packed hashtable)[bin := bs]\<rparr>\<rparr>)))"

definition clht_destroy_packed :: "hashtable_packed \<Rightarrow> mem \<Rightarrow> mem" where
  "clht_destroy_packed hashtable m = mfree (mfree m)"

fun chain_size_packed :: "chain_packed \<Rightarrow> nat" where
  "chain_size_packed [] = 0"
| "chain_size_packed (b # bs) =
     plast b + (if plast b < ENTRIES_packed then 0 else chain_size_packed bs)"

text \<open>The \<open>size_t\<close> counter is returned as a \<open>uint32_t\<close>.\<close>

definition clht_size_packed :: "hashtable_packed \<Rightarrow> u32" where
  "clht_size_packed hashtable =
     ucast (of_nat (\<Sum>bin\<leftarrow>[0..<unat (num_buckets_packed hashtable)].
       chain_size_packed (table_packed hashtable ! bin)) :: u64)"

section \<open>Invariant and abstraction\<close>

text \<open>
  The entries are the counted slots. The chain is packed: a bucket that is not full is
  followed by empty buckets only.
\<close>

definition entries_packed :: "bucket_packed \<Rightarrow> (u64 \<times> u64) list" where
  "entries_packed b = take (plast b) (zip (pkey b) (pval b))"

definition bucket_ok_packed :: "bucket_packed \<Rightarrow> bool" where
  "bucket_ok_packed b \<longleftrightarrow> length (pkey b) = ENTRIES_packed \<and> length (pval b) = ENTRIES_packed \<and>
     plast b \<le> ENTRIES_packed"

fun packed :: "chain_packed \<Rightarrow> bool" where
  "packed [] = True"
| "packed (b # bs) = ((plast b < ENTRIES_packed \<longrightarrow> (\<forall>c\<in>set bs. plast c = 0)) \<and> packed bs)"

definition all_entries_packed :: "chain_packed \<Rightarrow> (u64 \<times> u64) list" where
  "all_entries_packed bs = concat (map entries_packed bs)"

definition chain_map_packed :: "chain_packed \<Rightarrow> kv" where
  "chain_map_packed bs = map_of (all_entries_packed bs)"

definition chain_ok_packed :: "chain_packed \<Rightarrow> bool" where
  "chain_ok_packed bs \<longleftrightarrow> bs \<noteq> [] \<and> (\<forall>b\<in>set bs. bucket_ok_packed b) \<and> packed bs \<and>
     distinct (map fst (all_entries_packed bs))"

definition chain_inv_packed :: "chain_packed \<Rightarrow> bool" where
  "chain_inv_packed bs \<longleftrightarrow> chain_ok_packed bs \<and> plock (hd bs) = 0"

definition shape_packed :: "clht_packed \<Rightarrow> bool" where
  "shape_packed h \<longleftrightarrow>
     (let t = ht_packed h in num_buckets_packed t \<noteq> 0 \<and> unat (num_buckets_packed t) < 2 ^ 32 \<and>
        length (table_packed t) = unat (num_buckets_packed t))"

definition bin_packed :: "clht_packed \<Rightarrow> u64 \<Rightarrow> nat" where
  "bin_packed h k = unat (clht_hash_packed (ht_packed h) k)"

definition inv_packed :: "clht_packed \<Rightarrow> bool" where
  "inv_packed h \<longleftrightarrow>
     shape_packed h \<and> chains_inv chain_inv_packed chain_map_packed (bin_packed h) (table_packed (ht_packed h))"

definition map_packed :: "clht_packed \<Rightarrow> kv" where
  "map_packed h = chains_map chain_map_packed (bin_packed h) (table_packed (ht_packed h))"

lemma all_entries_packed_simps [simp]:
  "all_entries_packed [] = []"
  "all_entries_packed (b # bs) = entries_packed b @ all_entries_packed bs"
  "all_entries_packed (as @ bs) = all_entries_packed as @ all_entries_packed bs"
  by (simp_all add: all_entries_packed_def)

lemma entries_packed_nth:
  "bucket_ok_packed b \<Longrightarrow> length (entries_packed b) = plast b"
  "bucket_ok_packed b \<Longrightarrow> j < plast b \<Longrightarrow> entries_packed b ! j = (pkey b ! j, pval b ! j)"
  by (auto simp: entries_packed_def bucket_ok_packed_def)

lemma in_entries_packed:
  "bucket_ok_packed b \<Longrightarrow> k \<in> fst ` set (entries_packed b) \<longleftrightarrow> (\<exists>j<plast b. pkey b ! j = k)"
  by (force simp: in_set_conv_nth entries_packed_nth image_iff)

lemma find_down_iff:
  "bucket_ok_packed b \<Longrightarrow> find_down b k = None \<longleftrightarrow> k \<notin> fst ` set (entries_packed b)"
  by (auto simp: find_down_def find_None_iff in_entries_packed)

lemma find_up_iff:
  "bucket_ok_packed b \<Longrightarrow> find_up b k = None \<longleftrightarrow> k \<notin> fst ` set (entries_packed b)"
  by (auto simp: find_up_def find_None_iff in_entries_packed)

lemma find_down_index: "find_down b k = Some j \<Longrightarrow> j < plast b \<and> pkey b ! j = k"
  by (auto simp: find_down_def find_Some_iff rev_nth)

lemma find_down_Some:
  assumes "bucket_ok_packed b" and "find_down b k = Some j"
  shows "(k, pval b ! j) \<in> set (entries_packed b)"
proof -
  from find_down_index [OF assms(2)] have j: "j < plast b" "pkey b ! j = k" by auto
  then have "entries_packed b ! j \<in> set (entries_packed b)"
    by (intro nth_mem) (simp add: entries_packed_nth [OF assms(1)])
  with j show ?thesis by (simp add: entries_packed_nth [OF assms(1)])
qed

lemma find_up_Some: "find_up b k = Some j \<Longrightarrow> j < plast b \<and> pkey b ! j = k"
  by (auto simp: find_up_def find_Some_iff)

lemma rest_empty:
  "\<forall>c\<in>set bs. plast c = 0 \<Longrightarrow> all_entries_packed bs = []"
  by (induction bs) (auto simp: entries_packed_def)

lemma packed_rest: "packed (b # bs) \<Longrightarrow> plast b < ENTRIES_packed \<Longrightarrow> all_entries_packed bs = []"
  by (simp add: rest_empty)

lemma chain_get_packed_map:
  assumes "\<forall>b\<in>set bs. bucket_ok_packed b" and "packed bs" and "distinct (map fst (all_entries_packed bs))"
  shows "chain_get_packed bs k = val_or_0 (chain_map_packed bs k)"
  using assms
proof (induction bs)
  case Nil
  then show ?case by (simp add: chain_map_packed_def)
next
  case (Cons b bs)
  show ?case
  proof (cases "find_down b k")
    case None
    with Cons.prems have "map_of (entries_packed b) k = None"
      by (simp add: find_down_iff map_of_eq_None_iff)
    with None Cons show ?thesis
      by (auto simp: chain_map_packed_def map_add_def rest_empty)
  next
    case (Some j)
    with Cons.prems have e: "(k, pval b ! j) \<in> set (all_entries_packed (b # bs))"
      using find_down_Some [of b k j] by simp
    have "map_of (all_entries_packed (b # bs)) k = Some (pval b ! j)"
      by (rule map_of_is_SomeI [OF Cons.prems(3) e])
    with Some show ?thesis by (simp add: chain_map_packed_def)
  qed
qed

lemma bucket_exists_packed_iff:
  assumes "\<forall>b\<in>set bs. bucket_ok_packed b" and "packed bs"
  shows "bucket_exists_packed bs k \<longleftrightarrow> chain_map_packed bs k \<noteq> None"
  using assms
  by (induction bs)
    (auto simp: chain_map_packed_def map_of_eq_None_iff find_down_iff rest_empty image_Un split: if_splits)

section \<open>Insertion\<close>

lemma mset_take_Suc:
  "n < length xs \<Longrightarrow> mset (take (Suc n) xs) = add_mset (xs ! n) (mset (take n xs))"
  by (simp add: take_Suc_conv_app_nth)

lemma push_packed_ok:
  assumes "bucket_ok_packed b" and "plast b < ENTRIES_packed"
  shows "bucket_ok_packed (push_packed b (plast b) k v)"
    and "mset (entries_packed (push_packed b (plast b) k v)) = add_mset (k, v) (mset (entries_packed b))"
    and "plock (push_packed b (plast b) k v) = plock b"
  using assms mset_take_Suc [of "plast b" "(zip (pkey b) (pval b))[plast b := (k, v)]"]
  by (simp_all add: push_packed_def bucket_ok_packed_def entries_packed_def update_zip take_zip)

lemma fresh_packed:
  assumes "clht_bucket_create_packed m = (Some c, m')"
  shows "bucket_ok_packed c" and "entries_packed c = []" and "plast c = 0"
  using assms
  by (auto simp: clht_bucket_create_packed_def bucket_ok_packed_def entries_packed_def ENTRIES_packed_def
      split: prod.splits option.splits)

lemma map_None_packed:
  "chain_map_packed bs k = None \<longleftrightarrow> k \<notin> fst ` set (all_entries_packed bs)"
  by (simp add: chain_map_packed_def map_of_eq_None_iff)

lemma put_loop_packed_law:
  assumes "\<forall>b\<in>set bs. bucket_ok_packed b" and "packed bs"
    and "put_loop_packed bs k v m = Done (r, bs', m')"
  shows "r = (chain_map_packed bs k = None) \<and> (\<forall>b\<in>set bs'. bucket_ok_packed b) \<and> packed bs' \<and>
    bs' \<noteq> [] \<and> plock (hd bs') = plock (hd bs) \<and>
    (if r then mset (all_entries_packed bs') = add_mset (k, v) (mset (all_entries_packed bs))
     else bs' = bs)"
  using assms
proof (induction bs arbitrary: bs' m)
  case Nil
  then show ?case by simp
next
  case (Cons b bs)
  from Cons.prems(1) have ok: "bucket_ok_packed b" and oks: "\<forall>b\<in>set bs. bucket_ok_packed b" by auto
  consider (found) "find_up b k \<noteq> None"
    | (room) "find_up b k = None" "plast b < ENTRIES_packed"
    | (last) "find_up b k = None" "\<not> plast b < ENTRIES_packed" "bs = []"
    | (nxt) "find_up b k = None" "\<not> plast b < ENTRIES_packed" "bs \<noteq> []" by blast
  then show ?case
  proof cases
    case found
    with Cons.prems(3) have "r = False" "bs' = b # bs" by auto
    with found ok Cons.prems(1,2) show ?thesis by (auto simp: map_None_packed find_up_iff)
  next
    case room
    with Cons.prems(2) have "all_entries_packed bs = []" by (simp add: rest_empty)
    with room ok Cons.prems push_packed_ok [OF ok room(2), of k v] show ?thesis
      by (auto simp: map_None_packed find_up_iff push_packed_def)
  next
    case last
    with Cons.prems(3) obtain c where c: "clht_bucket_create_packed m = (Some c, m')"
      and r: "r" "bs' = [b, push_packed c 0 k v]" by (auto split: prod.splits option.splits)
    note fc = fresh_packed [OF c]
    from fc last push_packed_ok [OF fc(1), of k v] ok Cons.prems(2) show ?thesis
      by (simp add: r map_None_packed find_up_iff ENTRIES_packed_def)
  next
    case nxt
    with Cons.prems(3) obtain cs where cs: "put_loop_packed bs k v m = Done (r, cs, m')"
      and bs': "bs' = b # cs" by (auto simp: bind_outcome_Done_iff)
    from Cons.IH [OF oks _ cs] Cons.prems(2) nxt ok show ?thesis
      by (auto simp: bs' map_None_packed find_up_iff image_Un split: if_splits)
  qed
qed

lemma put_loop_packed_total:
  assumes "ready (Suc n) m" and "bs \<noteq> []"
  shows "\<exists>r bs' m'. put_loop_packed bs k v m = Done (r, bs', m') \<and> ready n m'"
  using assms(2)
proof (induction bs)
  case (Cons b bs)
  from ready_Suc_memalign [OF assms(1)] obtain g m1 where
    g: "memalign m = (Some g, m1)" "ready n m1" by blast
  then obtain c where c: "clht_bucket_create_packed m = (Some c, m1)"
    by (cases g) (auto simp: clht_bucket_create_packed_def)
  show ?case
  proof (cases "bs = []")
    case True
    with c g assms(1) show ?thesis by (auto dest: ready_SucD)
  next
    case False
    with Cons.IH assms(1) show ?thesis by (auto dest: ready_SucD)
  qed
qed simp

section \<open>Removal\<close>

lemma packed_nth:
  "packed bs \<longleftrightarrow> (\<forall>i j. i < j \<longrightarrow> j < length bs \<longrightarrow> plast (bs ! i) < ENTRIES_packed \<longrightarrow> plast (bs ! j) = 0)"
proof (induction bs)
  case Nil
  then show ?case by simp
next
  case (Cons b bs)
  show ?case
  proof
    assume p: "packed (b # bs)"
    show "\<forall>i j. i < j \<longrightarrow> j < length (b # bs) \<longrightarrow> plast ((b # bs) ! i) < ENTRIES_packed \<longrightarrow>
        plast ((b # bs) ! j) = 0"
    proof (intro allI impI)
      fix i j
      assume a: "i < j" "j < length (b # bs)" "plast ((b # bs) ! i) < ENTRIES_packed"
      then obtain j' where j: "j = Suc j'" by (cases j) auto
      show "plast ((b # bs) ! j) = 0"
        using a p Cons.IH by (cases i) (auto simp: j)
    qed
  next
    assume q: "\<forall>i j. i < j \<longrightarrow> j < length (b # bs) \<longrightarrow> plast ((b # bs) ! i) < ENTRIES_packed \<longrightarrow>
        plast ((b # bs) ! j) = 0"
    have "plast c = 0" if "plast b < ENTRIES_packed" "c \<in> set bs" for c
    proof -
      from that(2) obtain j where "j < length bs" "c = bs ! j" by (auto simp: in_set_conv_nth)
      with q [rule_format, of 0 "Suc j"] that(1) show ?thesis by simp
    qed
    moreover have "packed bs"
      unfolding Cons.IH
    proof (intro allI impI)
      fix i j
      assume "i < j" "j < length bs" "plast (bs ! i) < ENTRIES_packed"
      with q [rule_format, of "Suc i" "Suc j"] show "plast (bs ! j) = 0" by simp
    qed
    ultimately show "packed (b # bs)" by simp
  qed
qed

lemma find_slot_packed_Some:
  assumes "find_slot_packed bs k h = Some (h', j)"
  shows "h \<le> h' \<and> h' < h + length bs \<and> j < plast (bs ! (h' - h)) \<and> pkey (bs ! (h' - h)) ! j = k"
  using assms
proof (induction bs arbitrary: h)
  case Nil
  then show ?case by simp
next
  case (Cons b bs)
  show ?case
  proof (cases "find_up b k")
    case None
    with Cons.prems have "find_slot_packed bs k (Suc h) = Some (h', j)" by (simp split: if_splits)
    from Cons.IH [OF this] show ?thesis by (auto simp: nth_Cons')
  next
    case (Some i)
    with Cons.prems find_up_Some [OF Some] show ?thesis by simp
  qed
qed

lemma find_slot_packed_None:
  assumes "\<forall>b\<in>set bs. bucket_ok_packed b" and "packed bs" and "find_slot_packed bs k h = None"
  shows "chain_map_packed bs k = None"
  using assms
  by (induction bs arbitrary: h)
    (auto simp: map_None_packed find_up_iff rest_empty split: option.splits if_splits)

lemma blast_packed_spec:
  "bs \<noteq> [] \<Longrightarrow> h \<le> blast_packed bs h \<and> blast_packed bs h < h + length bs \<and>
     (blast_packed bs h \<noteq> h \<longrightarrow> plast (bs ! (blast_packed bs h - h)) \<noteq> 0) \<and>
     (Suc (blast_packed bs h) < h + length bs \<longrightarrow> plast (bs ! (Suc (blast_packed bs h) - h)) = 0)"
proof (induction bs h rule: blast_packed.induct)
  case (1 b c bs h)
  show ?case
  proof (cases "plast c \<noteq> 0")
    case True
    with 1 show ?thesis by (auto simp: nth_Cons' Suc_diff_le)
  next
    case False
    then show ?thesis by simp
  qed
qed auto

lemma all_entries_update:
  assumes "h < length bs"
  shows "mset (all_entries_packed (bs[h := b])) + mset (entries_packed (bs ! h)) =
    mset (all_entries_packed bs) + mset (entries_packed b)"
proof -
  have "all_entries_packed bs = all_entries_packed (take h bs @ bs ! h # drop (Suc h) bs)"
    using assms by (simp add: id_take_nth_drop [symmetric])
  with assms show ?thesis by (simp add: upd_conv_take_nth_drop)
qed

lemma mset_take_update:
  assumes "j < n" and "n \<le> length xs"
  shows "add_mset (xs ! j) (mset (take n (xs[j := x]))) = add_mset x (mset (take n xs))"
  using assms by (simp add: take_update_swap mset_update)
    (metis add_mset_add_single insert_DiffM nth_mem_mset length_take min.absorb2 nth_take)

text \<open>
  What the four writes of a removal leave behind: bucket \<open>h\<close> with the last entry of bucket
  \<open>l\<close> in slot \<open>j\<close>, and bucket \<open>l\<close> with one entry less.
\<close>

definition hole_packed :: "chain_packed \<Rightarrow> nat \<Rightarrow> nat \<Rightarrow> nat \<Rightarrow> bucket_packed" where
  "hole_packed bs h j l =
     (let n = plast (bs ! l) - 1;
          q = (if l = h then (pkey (bs ! h))[j := 0] ! n else pkey (bs ! l) ! n)
      in (bs ! h)\<lparr>pval := (pval (bs ! h))[j := pval (bs ! l) ! n], pkey := (pkey (bs ! h))[j := q]\<rparr>)"

definition removed_packed :: "chain_packed \<Rightarrow> nat \<Rightarrow> nat \<Rightarrow> nat \<Rightarrow> chain_packed" where
  "removed_packed bs h j l =
     (let bs1 = bs[h := hole_packed bs h j l]
      in bs1[l := (bs1 ! l)\<lparr>plast := plast (bs ! l) - 1\<rparr>])"

definition removal_at :: "chain_packed \<Rightarrow> nat \<Rightarrow> nat \<Rightarrow> nat \<Rightarrow> bool" where
  "removal_at bs h j l \<longleftrightarrow> (\<forall>b\<in>set bs. bucket_ok_packed b) \<and> packed bs \<and> h < length bs \<and>
     j < plast (bs ! h) \<and> h \<le> l \<and> l < length bs \<and> plast (bs ! l) \<noteq> 0 \<and>
     (\<forall>i. l < i \<longrightarrow> i < length bs \<longrightarrow> plast (bs ! i) = 0)"

lemma blast_removal_at:
  assumes "\<forall>b\<in>set bs. bucket_ok_packed b" and pk: "packed bs"
    and h: "h < length bs" and j: "j < plast (bs ! h)"
  shows "removal_at bs h j (blast_packed (drop h bs) h)"
proof -
  define l where "l = blast_packed (drop h bs) h"
  have dne: "drop h bs \<noteq> []" using h by simp
  from blast_packed_spec [OF dne, of h] h
  have l: "h \<le> l" "l < length bs" "l \<noteq> h \<longrightarrow> plast (bs ! l) \<noteq> 0"
    "Suc l < length bs \<longrightarrow> plast (bs ! Suc l) = 0"
    by (auto simp: l_def [symmetric])
  have "plast (bs ! l) \<noteq> 0" using l(3) j by (cases "l = h") auto
  moreover have "plast (bs ! i) = 0" if "l < i" "i < length bs" for i
  proof (cases "Suc l = i")
    case True
    with l(4) that show ?thesis by simp
  next
    case False
    with that have "Suc l < i" "Suc l < length bs" by simp_all
    with l(4) pk that(2) show ?thesis by (auto simp: packed_nth ENTRIES_packed_def)
  qed
  ultimately show ?thesis using assms l by (simp add: removal_at_def l_def [symmetric])
qed

lemma remove_slot_packed_eq:
  assumes "removal_at bs h j (blast_packed (drop h bs) h)"
  shows "remove_slot_packed bs h j =
    Done (pval (bs ! h) ! j, removed_packed bs h j (blast_packed (drop h bs) h))"
  using assms
  by (cases "blast_packed (drop h bs) h = h")
    (simp_all add: removal_at_def remove_slot_packed_def Let_def upd_packed_def removed_packed_def
      hole_packed_def)

lemma removed_packed_frame:
  assumes "removal_at bs h j l"
  shows "length (removed_packed bs h j l) = length bs"
    and "map plock (removed_packed bs h j l) = map plock bs"
    and "\<forall>b\<in>set (removed_packed bs h j l). bucket_ok_packed b"
    and "\<And>i. i < length bs \<Longrightarrow>
      plast (removed_packed bs h j l ! i) = (if i = l then plast (bs ! l) - 1 else plast (bs ! i))"
proof -
  let ?bs = "removed_packed bs h j l"
  show len: "length ?bs = length bs" by (simp add: removed_packed_def Let_def)
  show "map plock ?bs = map plock bs"
    using assms by (intro nth_equalityI)
      (auto simp: removal_at_def removed_packed_def Let_def hole_packed_def nth_list_update)
  have "bucket_ok_packed (?bs ! i)" if "i < length bs" for i
  proof -
    have "bucket_ok_packed (bs ! i)" "bucket_ok_packed (bs ! h)" "bucket_ok_packed (bs ! l)"
      "h < length bs" "l < length bs"
      using assms that by (auto simp: removal_at_def)
    with that show ?thesis
      by (auto simp: removed_packed_def Let_def hole_packed_def nth_list_update bucket_ok_packed_def)
  qed
  then show "\<forall>b\<in>set ?bs. bucket_ok_packed b" by (simp add: all_set_conv_all_nth len)
  show "\<And>i. i < length bs \<Longrightarrow> plast (?bs ! i) = (if i = l then plast (bs ! l) - 1 else plast (bs ! i))"
    using assms by (auto simp: removal_at_def removed_packed_def Let_def hole_packed_def nth_list_update)
qed

lemma removed_packed_packed:
  assumes "removal_at bs h j l"
  shows "packed (removed_packed bs h j l)"
  unfolding packed_nth removed_packed_frame(1) [OF assms]
proof (intro allI impI)
  fix i i'
  assume a: "i < i'" "i' < length bs" "plast (removed_packed bs h j l ! i) < ENTRIES_packed"
  note p = removed_packed_frame(4) [OF assms]
  show "plast (removed_packed bs h j l ! i') = 0"
  proof (cases "i < l")
    case True
    with a have "plast (bs ! i) < ENTRIES_packed" by (simp add: p)
    with assms True show ?thesis by (auto simp: removal_at_def packed_nth)
  next
    case False
    with a(1) have "l < i'" by simp
    with assms a(2) show ?thesis by (auto simp: p removal_at_def)
  qed
qed

text \<open>The entry that moves is the last one of bucket \<open>l\<close>.\<close>

lemma last_entry_packed:
  assumes "bucket_ok_packed b" and "plast b \<noteq> 0"
  shows "mset (entries_packed b) =
    add_mset (zip (pkey b) (pval b) ! (plast b - 1)) (mset (take (plast b - 1) (zip (pkey b) (pval b))))"
  using assms mset_take_Suc [of "plast b - 1" "zip (pkey b) (pval b)"]
  by (cases "plast b") (simp_all add: entries_packed_def bucket_ok_packed_def)

lemma removed_mset_same_bucket:
  assumes "removal_at bs h j h"
  shows "mset (all_entries_packed bs) =
    add_mset (pkey (bs ! h) ! j, pval (bs ! h) ! j) (mset (all_entries_packed (removed_packed bs h j h)))"
proof -
  define b where "b = bs ! h"
  define n where "n = plast b - 1"
  define Z where "Z = zip (pkey b) (pval b)"
  define x where "x = ((pkey b)[j := 0] ! n, pval b ! n)"
  from assms have ok: "bucket_ok_packed b" and h: "h < length bs" and j: "j < plast b"
    by (auto simp: removal_at_def b_def)
  then have n: "n < length Z" "j \<le> n" "j < length Z" "Z ! j = (pkey b ! j, pval b ! j)"
    by (auto simp: n_def Z_def bucket_ok_packed_def)
  let ?B = "hole_packed bs h j h\<lparr>plast := n\<rparr>"
  have e': "entries_packed ?B = take n (Z[j := x])"
    by (simp add: entries_packed_def hole_packed_def Let_def Z_def x_def update_zip b_def n_def)
  have "mset (entries_packed b) = add_mset (Z ! j) (mset (take n (Z[j := x])))"
  proof (cases "j = n")
    case True
    with last_entry_packed [OF ok] j show ?thesis by (simp add: Z_def n_def)
  next
    case False
    with n(2) have jn: "j < n" by simp
    with n ok have "x = Z ! n" by (simp add: x_def Z_def bucket_ok_packed_def)
    with mset_take_update [OF jn, of Z x] last_entry_packed [OF ok] j n(1) show ?thesis
      by (simp add: Z_def n_def)
  qed
  moreover have "removed_packed bs h j h = bs[h := ?B]"
    using h by (simp add: removed_packed_def Let_def n_def b_def)
  ultimately show ?thesis
    using all_entries_update [OF h, of ?B] n(4) by (simp add: e' b_def)
qed

lemma removed_mset_other_bucket:
  assumes "removal_at bs h j l" and "l \<noteq> h"
  shows "mset (all_entries_packed bs) =
    add_mset (pkey (bs ! h) ! j, pval (bs ! h) ! j) (mset (all_entries_packed (removed_packed bs h j l)))"
proof -
  define n where "n = plast (bs ! l) - 1"
  define x where "x = (pkey (bs ! l) ! n, pval (bs ! l) ! n)"
  let ?e = "(pkey (bs ! h) ! j, pval (bs ! h) ! j)" and ?B = "hole_packed bs h j l"
  let ?Zl = "zip (pkey (bs ! l)) (pval (bs ! l))" and ?Zh = "zip (pkey (bs ! h)) (pval (bs ! h))"
  from assms have ok: "bucket_ok_packed (bs ! h)" "bucket_ok_packed (bs ! l)" and h: "h < length bs"
    and l: "l < length bs" and j: "j < plast (bs ! h)" and pl: "plast (bs ! l) \<noteq> 0"
    by (auto simp: removal_at_def)
  have "n < ENTRIES_packed" using ok(2) pl unfolding n_def bucket_ok_packed_def by linarith
  then have x: "x = ?Zl ! n" using ok(2) by (simp add: x_def bucket_ok_packed_def)
  have 1: "mset (all_entries_packed (bs[h := ?B])) + mset (entries_packed (bs ! h)) =
      mset (all_entries_packed bs) + mset (entries_packed ?B)"
    by (rule all_entries_update [OF h])
  have 2: "mset (all_entries_packed (removed_packed bs h j l)) + mset (entries_packed (bs ! l)) =
      mset (all_entries_packed (bs[h := ?B])) + mset (take n ?Zl)"
    using all_entries_update [of l "bs[h := ?B]" "(bs ! l)\<lparr>plast := n\<rparr>"] l assms(2)
    by (simp add: removed_packed_def Let_def entries_packed_def n_def)
  have 3: "mset (entries_packed (bs ! l)) = add_mset x (mset (take n ?Zl))"
    using last_entry_packed [OF ok(2) pl] by (simp add: x n_def)
  have 4: "add_mset ?e (mset (entries_packed ?B)) = add_mset x (mset (entries_packed (bs ! h)))"
    using mset_take_update [of j "plast (bs ! h)" ?Zh x] j ok(1) assms(2)
    by (simp add: entries_packed_def hole_packed_def Let_def bucket_ok_packed_def update_zip x_def n_def)
  let ?R = "mset (all_entries_packed (removed_packed bs h j l))" and ?M = "mset (all_entries_packed bs)"
    and ?Eh = "mset (entries_packed (bs ! h))"
  from 2 3 have 5: "mset (all_entries_packed (bs[h := ?B])) = add_mset x ?R" by simp
  have "?M + add_mset x ?Eh = ?M + add_mset ?e (mset (entries_packed ?B))" by (simp only: 4)
  also have "\<dots> = add_mset ?e (add_mset x ?R + ?Eh)" using 1 by (simp add: 5)
  also have "\<dots> = add_mset ?e ?R + add_mset x ?Eh" by simp
  finally show ?thesis by (rule add_right_imp_eq)
qed

text \<open>The removal of slot \<open>j\<close> of bucket \<open>h\<close> takes exactly its entry out of the chain.\<close>

lemma remove_slot_packed_law:
  assumes "\<forall>b\<in>set bs. bucket_ok_packed b" and "packed bs" and "h < length bs" and "j < plast (bs ! h)"
  shows "\<exists>bs'. remove_slot_packed bs h j = Done (pval (bs ! h) ! j, bs') \<and>
    (\<forall>b\<in>set bs'. bucket_ok_packed b) \<and> packed bs' \<and> map plock bs' = map plock bs \<and>
    mset (all_entries_packed bs) =
      add_mset (pkey (bs ! h) ! j, pval (bs ! h) ! j) (mset (all_entries_packed bs'))"
proof -
  note at = blast_removal_at [OF assms]
  then show ?thesis
    using remove_slot_packed_eq [OF at] removed_packed_frame(2,3) [OF at]
      removed_packed_packed [OF at] removed_mset_same_bucket removed_mset_other_bucket [OF at]
    by (cases "blast_packed (drop h bs) h = h") auto
qed

section \<open>One chain\<close>

lemma set_plock_simps [simp]:
  "all_entries_packed (set_plock bs l) = all_entries_packed bs"
  "chain_map_packed (set_plock bs l) = chain_map_packed bs"
  "(\<forall>b\<in>set (set_plock bs l). bucket_ok_packed b) = (\<forall>b\<in>set bs. bucket_ok_packed b)"
  "packed (set_plock bs l) = packed bs"
  "set_plock bs l = [] \<longleftrightarrow> bs = []"
  by (cases bs; simp add: set_plock_def entries_packed_def chain_map_packed_def bucket_ok_packed_def; fail)+

lemma set_plock_ok [simp]: "chain_ok_packed (set_plock bs l) = chain_ok_packed bs"
  by (simp add: chain_ok_packed_def)

lemma acquired_packed:
  "chain_inv_packed bs \<Longrightarrow> LOCK_ACQ_packed bs = Done (set_plock bs 255)"
  by (simp add: LOCK_ACQ_packed_def TAS_U8_def SWAP_def chain_inv_packed_def)

lemma released_packed:
  "chain_ok_packed bs \<Longrightarrow> chain_inv_packed (LOCK_RLS_packed bs)"
  by (cases bs) (auto simp: LOCK_RLS_packed_def chain_inv_packed_def set_plock_def chain_ok_packed_def
      bucket_ok_packed_def entries_packed_def)

lemma released_packed_map [simp]: "chain_map_packed (LOCK_RLS_packed bs) = chain_map_packed bs"
  by (simp add: LOCK_RLS_packed_def)

lemma chain_exists_packed:
  "chain_inv_packed bs \<Longrightarrow> bucket_exists_packed bs k \<longleftrightarrow> chain_map_packed bs k \<noteq> None"
  by (simp add: bucket_exists_packed_iff chain_inv_packed_def chain_ok_packed_def)

lemma put_chain_packed_law:
  assumes "chain_inv_packed bs" and "put_chain_packed bs k v m = Done (r, bs', m')"
  shows "chain_inv_packed bs' \<and> r = (chain_map_packed bs k = None) \<and>
    chain_map_packed bs' = (if r then (chain_map_packed bs)(k \<mapsto> v) else chain_map_packed bs)"
proof (cases "bucket_exists_packed bs k")
  case True
  with assms chain_exists_packed [OF assms(1), of k] show ?thesis by (auto simp: put_chain_packed_def)
next
  case False
  define cs where "cs = set_plock bs 255"
  have cs: "chain_ok_packed cs" "chain_map_packed cs = chain_map_packed bs"
    using assms(1) by (auto simp: cs_def chain_inv_packed_def)
  from assms False obtain ds where ds: "put_loop_packed cs k v m = Done (r, ds, m')"
    and bs': "bs' = LOCK_RLS_packed ds"
    by (auto simp: put_chain_packed_def bind_outcome_Done_iff acquired_packed cs_def)
  from put_loop_packed_law [OF _ _ ds] cs(1)
  have 1: "r = (chain_map_packed cs k = None)" "\<forall>b\<in>set ds. bucket_ok_packed b" "packed ds" "ds \<noteq> []"
    "if r then mset (all_entries_packed ds) = add_mset (k, v) (mset (all_entries_packed cs)) else ds = cs"
    by (auto simp: chain_ok_packed_def)
  have d: "distinct (map fst (all_entries_packed cs))" using cs(1) by (simp add: chain_ok_packed_def)
  have "chain_ok_packed ds \<and>
      chain_map_packed ds = (if r then (chain_map_packed cs)(k \<mapsto> v) else chain_map_packed cs)"
    using 1 cs(1) map_of_add_entry [of "all_entries_packed ds" k v "all_entries_packed cs", OF _ d]
    by (auto simp: chain_ok_packed_def chain_map_packed_def map_of_eq_None_iff split: if_splits)
  with 1(1) cs(2) released_packed [of ds] show ?thesis by (simp add: bs')
qed

lemma put_chain_packed_total:
  assumes "chain_inv_packed bs" and "ready (Suc n) m"
  shows "\<exists>r bs' m'. put_chain_packed bs k v m = Done (r, bs', m') \<and> ready n m'"
proof -
  have "set_plock bs 255 \<noteq> []" using assms(1) by (simp add: chain_inv_packed_def chain_ok_packed_def)
  from put_loop_packed_total [OF assms(2) this, of k v] assms show ?thesis
    by (auto simp: put_chain_packed_def acquired_packed dest: ready_SucD)
qed

lemma remove_chain_packed_law:
  assumes "chain_inv_packed bs"
  shows "\<exists>bs'. remove_chain_packed bs k = Done (val_or_0 (chain_map_packed bs k), bs') \<and>
    chain_inv_packed bs' \<and> chain_map_packed bs' = (chain_map_packed bs)(k := None)"
proof (cases "bucket_exists_packed bs k")
  case False
  with assms chain_exists_packed [OF assms, of k] show ?thesis by (auto simp: remove_chain_packed_def)
next
  case True
  define cs where "cs = set_plock bs 255"
  have cs: "\<forall>b\<in>set cs. bucket_ok_packed b" "packed cs" "chain_map_packed cs = chain_map_packed bs"
    "distinct (map fst (all_entries_packed cs))" "cs \<noteq> []"
    using assms by (auto simp: cs_def chain_inv_packed_def chain_ok_packed_def)
  have some: "chain_map_packed cs k \<noteq> None" using True assms cs(3) by (simp add: chain_exists_packed)
  then obtain h j where hj: "find_slot_packed cs k 0 = Some (h, j)"
    using find_slot_packed_None [OF cs(1,2), of k 0] by (cases "find_slot_packed cs k 0") auto
  from find_slot_packed_Some [OF hj] have at: "h < length cs" "j < plast (cs ! h)" "pkey (cs ! h) ! j = k"
    by auto
  from remove_slot_packed_law [OF cs(1,2) at(1,2)] obtain ds where
    ds: "remove_slot_packed cs h j = Done (pval (cs ! h) ! j, ds)" "\<forall>b\<in>set ds. bucket_ok_packed b"
      "packed ds" "map plock ds = map plock cs"
      "mset (all_entries_packed cs) = add_mset (k, pval (cs ! h) ! j) (mset (all_entries_packed ds))"
    by (auto simp: at(3))
  note m = map_of_del_entry [OF ds(5) cs(4)]
  have "ds \<noteq> []" using ds(4) cs(5) by auto
  then have ok: "chain_ok_packed ds" using ds m(2) by (simp add: chain_ok_packed_def)
  have "chain_map_packed cs k = Some (pval (cs ! h) ! j)"
    "chain_map_packed ds = (chain_map_packed cs)(k := None)"
    using m by (simp_all add: chain_map_packed_def)
  then have k: "chain_map_packed bs k = Some (pval (cs ! h) ! j)"
    and d: "chain_map_packed ds = (chain_map_packed bs)(k := None)"
    by (simp_all add: cs(3))
  have "remove_chain_packed bs k = Done (pval (cs ! h) ! j, LOCK_RLS_packed ds)"
    using True hj ds(1) by (simp add: remove_chain_packed_def acquired_packed [OF assms] cs_def [symmetric])
  with released_packed [OF ok] k d show ?thesis by simp
qed

interpretation packed_chain: kv_total chain_inv_packed chain_map_packed chain_get_packed
  put_chain_packed remove_chain_packed "\<lambda>_. True" "\<lambda>_. True"
proof unfold_locales
  fix bs :: chain_packed and k :: u64
  assume "chain_inv_packed bs"
  then show "chain_get_packed bs k = val_or_0 (chain_map_packed bs k)"
    by (simp add: chain_get_packed_map chain_inv_packed_def chain_ok_packed_def)
qed (use put_chain_packed_law put_chain_packed_total remove_chain_packed_law in blast)+

section \<open>The table\<close>

interpretation packed: hashed_total chain_inv_packed chain_map_packed chain_get_packed
  put_chain_packed remove_chain_packed "\<lambda>_. True" "\<lambda>_. True"
  shape_packed "\<lambda>h. table_packed (ht_packed h)" bin_packed
  "\<lambda>h. clht_get_packed (ht_packed h)" clht_put_packed clht_remove_packed
proof unfold_locales
  fix h :: clht_packed and k :: u64
  assume "shape_packed h"
  then show "bin_packed h k < length (table_packed (ht_packed h))"
    using mask_bin_less [of "num_buckets_packed (ht_packed h)" k]
    by (simp add: shape_packed_def Let_def bin_packed_def clht_hash_packed_def mask_bin_def)
qed (auto simp: bind_outcome_Done_iff bin_packed_def clht_hash_packed_def shape_packed_def Let_def
    clht_get_packed_def clht_put_packed_def clht_remove_packed_def fun_eq_iff)

lemma inv_packed_eq: "inv_packed = packed.tinv" and map_packed_eq: "map_packed = packed.tmap"
  by (simp_all add: fun_eq_iff inv_packed_def map_packed_def packed.tinv_def packed.tmap_def)

text \<open>
  C24. The packed table refines the abstract map: any run of lookups, insertions and removals
  returns (given one block of memory per operation), with the map's answers and content, and
  the chains stay packed. Empty slots are known by the counter, so no key is reserved.
\<close>

theorem clht_packed_refines_map:
  assumes "inv_packed h" and "ready (length xs) m"
  shows "\<exists>rs h' m'. table_run (\<lambda>h. clht_get_packed (ht_packed h)) clht_put_packed clht_remove_packed (h, m) xs =
      Done (rs, h', m') \<and> inv_packed h' \<and> kv_run (map_packed h) xs = (rs, map_packed h')"
  using packed.table_total.run_total_refines [of h xs m] assms
  by (simp add: op_ok_any inv_packed_eq map_packed_eq)

section \<open>Creation and size\<close>

lemma empty_bucket_packed_facts:
  "chain_inv_packed [empty_bucket_packed]" "chain_map_packed [empty_bucket_packed] = Map.empty"
  by (simp_all add: chain_inv_packed_def chain_ok_packed_def empty_bucket_packed_def bucket_ok_packed_def
      chain_map_packed_def entries_packed_def)

lemma created_packed:
  fixes n :: u32
  assumes "n \<noteq> 0" and "num_buckets_packed (ht_packed h) = ucast n"
    and "table_packed (ht_packed h) = replicate (unat n) [empty_bucket_packed]"
  shows "inv_packed h \<and> map_packed h = Map.empty"
proof -
  have sh: "shape_packed h"
    using assms unat_bound [of n] unat_ucast_u32 [of n]
    by (auto simp: shape_packed_def Let_def unat_eq_zero [symmetric])
  have less: "bin_packed h k < unat n" for k
    using packed.hash_less [OF sh, of k] assms(3) by simp
  then show ?thesis
    using sh assms(3) empty_bucket_packed_facts
    by (auto simp: inv_packed_def map_packed_def chains_inv_def chains_map_def fun_eq_iff)
qed

text \<open>
  \<open>clht_create\<close> returns NULL exactly when the bucket count is 0 or one of the two nested
  requests for memory fails, and then gives every block back; otherwise the table is well
  formed and empty.
\<close>

theorem clht_create_packed_correct:
  "case clht_create_packed n m of
     (None, m') \<Rightarrow> live m' = live m \<and> (n = 0 \<or> \<not> ready 3 m)
   | (Some h, m') \<Rightarrow> live m' = live m + 3 \<and> n \<noteq> 0 \<and> inv_packed h \<and> map_packed h = Map.empty"
  using created_packed [of n]
  by (auto simp: clht_create_packed_def clht_hashtable_create_packed_def memalign_def mfree_def ready_def
      split: prod.splits option.splits list.splits if_splits)

lemma chain_size_packed_length:
  "\<forall>b\<in>set bs. bucket_ok_packed b \<Longrightarrow> packed bs \<Longrightarrow> chain_size_packed bs = length (all_entries_packed bs)"
  by (induction bs) (auto simp: entries_packed_nth rest_empty)

lemma chain_size_packed_card:
  "chain_inv_packed bs \<Longrightarrow> chain_size_packed bs = card (dom (chain_map_packed bs))"
  by (simp add: chain_inv_packed_def chain_ok_packed_def chain_size_packed_length chain_map_packed_def
      card_dom_map_of)

text \<open>
  \<open>clht_size\<close> adds up the counters \<open>last\<close> and leaves a chain at its first bucket with
  room. In a well-formed table the result is the number of keys that the table maps, modulo
  \<open>2 ^ 32\<close> because the function returns a \<open>uint32_t\<close>.
\<close>

theorem clht_size_packed_correct:
  assumes "inv_packed h"
  shows "unat (clht_size_packed (ht_packed h)) = card (dom (map_packed h)) mod 2 ^ 32"
proof -
  let ?t = "table_packed (ht_packed h)"
  from assms have sh: "shape_packed h" and ci: "chains_inv chain_inv_packed chain_map_packed (bin_packed h) ?t"
    by (auto simp: inv_packed_def)
  have "clht_size_packed (ht_packed h) = ucast (of_nat (\<Sum>bs\<leftarrow>?t. chain_size_packed bs) :: u64)"
    using sh by (simp add: clht_size_packed_def shape_packed_def Let_def map_index_eq
        flip: map_index_eq [of chain_size_packed ?t])
  also have "(\<Sum>bs\<leftarrow>?t. chain_size_packed bs) = (\<Sum>bs\<leftarrow>?t. card (dom (chain_map_packed bs)))"
    by (rule arg_cong [where f = sum_list], rule map_cong)
      (use ci chain_size_packed_card in \<open>auto simp: chains_inv_def in_set_conv_nth\<close>)
  also have "\<dots> = card (dom (map_packed h))"
    unfolding map_packed_def using ci
    by (rule chains_card [symmetric])
      (use packed.hash_less [OF sh] in \<open>auto simp: chain_map_packed_def finite_dom_map_of\<close>)
  finally show ?thesis by (simp add: unat_ucast_of_nat_u32)
qed

section \<open>Witnesses\<close>

definition example_packed :: clht_packed where
  "example_packed = \<lparr>ht_packed = \<lparr>num_buckets_packed = 1, table_packed = [[empty_bucket_packed]]\<rparr>\<rparr>"

lemma example_packed_inv: "inv_packed example_packed" "map_packed example_packed = Map.empty"
  using created_packed [of 1 example_packed] by (simp_all add: example_packed_def)

theorem clht_packed_refines_map_witness:
  "\<exists>rs h' m'. table_run (\<lambda>h. clht_get_packed (ht_packed h)) clht_put_packed clht_remove_packed
      (example_packed, example_mem) [Put 5 50, Put 7 70, Get 5, Remove 5, Get 7] = Done (rs, h', m') \<and>
    inv_packed h' \<and>
    kv_run (map_packed example_packed) [Put 5 50, Put 7 70, Get 5, Remove 5, Get 7] = (rs, map_packed h')"
  by (rule clht_packed_refines_map) (simp_all add: example_packed_inv example_mem_ready)

theorem clht_create_packed_correct_witness:
  "case clht_create_packed 2 example_mem of
     (None, m') \<Rightarrow> live m' = live example_mem \<and> ((2::u32) = 0 \<or> \<not> ready 3 example_mem)
   | (Some h, m') \<Rightarrow> live m' = live example_mem + 3 \<and> (2::u32) \<noteq> 0 \<and> inv_packed h \<and> map_packed h = Map.empty"
  by (rule clht_create_packed_correct)

theorem clht_size_packed_correct_witness:
  "unat (clht_size_packed (ht_packed example_packed)) = card (dom (map_packed example_packed)) mod 2 ^ 32"
  by (rule clht_size_packed_correct) (rule example_packed_inv)

end
