(* ===== verification/Snapshot.thy ===== *)
theory Snapshot
  imports Prelude
begin

text \<open>
  The snapshot word of the lock-free tables (\<open>src/src/clht/include/clht_lf.h\<close>): a union of a
  \<open>uint64_t\<close> with a \<open>uint32_t\<close> version and three bytes that say which slots are in use. On
  the little-endian machines the code runs on, the version is the low half of the word and
  byte \<open>4 + i\<close> belongs to slot \<open>i\<close>; byte 7 is padding.
\<close>

unbundle bit_operations_syntax

definition KEY_BUCKT :: nat where
  "KEY_BUCKT = 3"

definition snap_version :: "u64 \<Rightarrow> u32" where
  "snap_version s = ucast s"

definition snap_map :: "u64 \<Rightarrow> nat \<Rightarrow> u8" where
  "snap_map s i = ucast (drop_bit (32 + 8 * i) s)"

definition snap_set_map :: "u64 \<Rightarrow> nat \<Rightarrow> u8 \<Rightarrow> u64" where
  "snap_set_map s i v =
     (s AND NOT (push_bit (32 + 8 * i) 255)) OR push_bit (32 + 8 * i) (ucast v)"

definition snap_set_version :: "u64 \<Rightarrow> u32 \<Rightarrow> u64" where
  "snap_set_version s n = (s AND NOT 4294967295) OR ucast n"

definition snap_set_map_and_inc_version :: "u64 \<Rightarrow> nat \<Rightarrow> u8 \<Rightarrow> u64" where
  "snap_set_map_and_inc_version s i v =
     (let s1 = snap_set_map s i v in snap_set_version s1 (snap_version s1 + 1))"

lemma bit_255: "bit (255 :: int) n \<longleftrightarrow> n < 8"
proof -
  have "(255 :: int) = mask 8" by (simp add: mask_eq_exp_minus_1)
  then show ?thesis by (simp only: bit_mask_iff) simp
qed

lemma bit_low_half: "bit (4294967295 :: int) n \<longleftrightarrow> n < 32"
proof -
  have "(4294967295 :: int) = mask 32" by (simp add: mask_eq_exp_minus_1)
  then show ?thesis by (simp only: bit_mask_iff) simp
qed

lemma bit_snap_map: "i < 4 \<Longrightarrow> bit (snap_map s i) n \<longleftrightarrow> n < 8 \<and> bit s (32 + 8 * i + n)"
  by (auto simp: snap_map_def bit_simps)

lemma bit_snap_version: "bit (snap_version s) n \<longleftrightarrow> n < 32 \<and> bit s n"
  by (auto simp: snap_version_def bit_simps)

lemma bit_snap_set_map:
  "i < 4 \<Longrightarrow> bit (snap_set_map s i v) n \<longleftrightarrow>
     (if 32 + 8 * i \<le> n \<and> n < 40 + 8 * i then bit v (n - (32 + 8 * i)) else bit s n)"
  by (auto simp: snap_set_map_def bit_simps bit_255 dest: bit_imp_le_length)

lemma bit_snap_set_version:
  "bit (snap_set_version s v) n \<longleftrightarrow> (if n < 32 then bit v n else bit s n)"
  by (auto simp: snap_set_version_def bit_simps bit_low_half dest: bit_imp_le_length)

lemma snap_map_set_map [simp]:
  assumes "i < 4" and "j < 4"
  shows "snap_map (snap_set_map s i v) j = (if j = i then v else snap_map s j)"
proof (rule bit_eqI)
  fix n
  assume n: "possible_bit TYPE(8 word) n"
  then have "n < 8" by (simp add: possible_bit_word)
  show "bit (snap_map (snap_set_map s i v) j) n = bit (if j = i then v else snap_map s j) n"
    using assms \<open>n < 8\<close> by (cases "j = i") (auto simp: bit_snap_map bit_snap_set_map)
qed

lemma snap_version_set_map [simp]: "i < 4 \<Longrightarrow> snap_version (snap_set_map s i v) = snap_version s"
  by (rule bit_eqI) (auto simp: bit_snap_version bit_snap_set_map)

lemma snap_version_set_version [simp]: "snap_version (snap_set_version s n) = n"
  by (rule bit_eqI) (auto simp: bit_snap_version bit_snap_set_version possible_bit_word)

lemma snap_map_set_version [simp]: "j < 4 \<Longrightarrow> snap_map (snap_set_version s n) j = snap_map s j"
  by (rule bit_eqI) (auto simp: bit_snap_map bit_snap_set_version)

lemma snap_inc [simp]:
  assumes "i < 4"
  shows "snap_version (snap_set_map_and_inc_version s i v) = snap_version s + 1"
    and "j < 4 \<Longrightarrow> snap_map (snap_set_map_and_inc_version s i v) j = (if j = i then v else snap_map s j)"
  using assms by (simp_all add: snap_set_map_and_inc_version_def Let_def)

lemma snap_eqI:
  assumes "snap_version s = snap_version t" and "\<And>i. i < 4 \<Longrightarrow> snap_map s i = snap_map t i"
  shows "s = t"
proof (rule bit_eqI)
  fix n
  assume "possible_bit TYPE(64 word) n"
  then have n: "n < 64" by (simp add: possible_bit_word)
  show "bit s n = bit t n"
  proof (cases "n < 32")
    case True
    with arg_cong [OF assms(1), of "\<lambda>w. bit w n"] show ?thesis by (simp add: bit_snap_version)
  next
    case False
    define i where "i = (n - 32) div 8"
    define r where "r = (n - 32) mod 8"
    have r: "r < 8" "n = 32 + 8 * i + r" and i: "i < 4" using False n by (auto simp: i_def r_def)
    from arg_cong [OF assms(2) [OF i], of "\<lambda>w. bit w r"] r i show ?thesis by (simp add: bit_snap_map)
  qed
qed

lemma snap_set_map_same: "i < 4 \<Longrightarrow> snap_map s i = v \<Longrightarrow> snap_set_map s i v = s"
  by (rule snap_eqI) auto

lemma snap_set_map_twice: "i < 4 \<Longrightarrow> snap_set_map (snap_set_map s i v) i w = snap_set_map s i w"
  by (rule snap_eqI) auto

lemma snap_zero [simp]: "snap_version 0 = 0" "snap_map 0 i = 0"
  by (simp_all add: snap_version_def snap_map_def)

end
