(* ===== verification/Slots.thy ===== *)
theory Slots
  imports Snapshot Kv_store
begin

text \<open>
  The \<open>KEY_BUCKT\<close> slots of a lock-free bucket as a map, whatever the map codes of the variant:
  \<open>V\<close> says which slots count as stored, \<open>ks\<close> and \<open>vs\<close> are the key and value cells. The
  lemmas say what the map becomes when a slot starts or stops to count.
\<close>

definition slot_entries :: "(nat \<Rightarrow> bool) \<Rightarrow> u64 list \<Rightarrow> u64 list \<Rightarrow> (u64 \<times> u64) list" where
  "slot_entries V ks vs = map (\<lambda>i. (ks ! i, vs ! i)) (filter V [0..<KEY_BUCKT])"

definition slots_map :: "(nat \<Rightarrow> bool) \<Rightarrow> u64 list \<Rightarrow> u64 list \<Rightarrow> kv" where
  "slots_map V ks vs = map_of (slot_entries V ks vs)"

text \<open>No slot from \<open>KEY_BUCKT\<close> on counts, and the keys of those that count are distinct.\<close>

definition slots_ok :: "(nat \<Rightarrow> bool) \<Rightarrow> u64 list \<Rightarrow> bool" where
  "slots_ok V ks \<longleftrightarrow> (\<forall>i. V i \<longrightarrow> i < KEY_BUCKT) \<and> (\<forall>i j. V i \<longrightarrow> V j \<longrightarrow> ks ! i = ks ! j \<longrightarrow> i = j)"

lemma slots_okD: "slots_ok V ks \<Longrightarrow> V i \<Longrightarrow> V j \<Longrightarrow> ks ! i = ks ! j \<Longrightarrow> i = j"
  by (simp add: slots_ok_def)

lemma slots_ok_less: "slots_ok V ks \<Longrightarrow> V i \<Longrightarrow> i < KEY_BUCKT"
  by (simp add: slots_ok_def)

lemma distinct_slot_entries: "slots_ok V ks \<Longrightarrow> distinct (map fst (slot_entries V ks vs))"
  by (auto simp: slot_entries_def distinct_map inj_on_def slots_ok_def comp_def)

lemma slots_map_Some:
  assumes "slots_ok V ks"
  shows "slots_map V ks vs k = Some v \<longleftrightarrow> (\<exists>i. V i \<and> ks ! i = k \<and> vs ! i = v)"
  unfolding slots_map_def map_of_eq_Some_iff [OF distinct_slot_entries [OF assms]]
  using slots_ok_less [OF assms] by (auto simp: slot_entries_def)

lemma slots_map_None:
  assumes "\<And>i. V i \<Longrightarrow> i < KEY_BUCKT"
  shows "slots_map V ks vs k = None \<longleftrightarrow> (\<forall>i. V i \<longrightarrow> ks ! i \<noteq> k)"
  using assms by (auto simp: slots_map_def slot_entries_def map_of_eq_None_iff image_image image_iff)

lemma kv_eqI: "(\<And>k v. m k = Some v \<longleftrightarrow> m' k = Some v) \<Longrightarrow> m = (m' :: kv)"
  by (rule ext) (metis not_Some_eq)

lemma slots_map_same:
  assumes "\<And>i. V' i = V i" and "\<And>i. V i \<Longrightarrow> ks' ! i = ks ! i \<and> vs' ! i = vs ! i"
  shows "slots_map V' ks' vs' = slots_map V ks vs"
proof -
  have "V' = V" using assms(1) by (simp add: fun_eq_iff)
  with assms(2) have "slot_entries V' ks' vs' = slot_entries V ks vs" by (simp add: slot_entries_def)
  then show ?thesis by (simp add: slots_map_def)
qed

lemma slots_map_insert:
  assumes ok: "slots_ok V ks" "slots_ok V' ks'"
    and V: "\<And>i. V' i \<longleftrightarrow> V i \<or> i = e" "\<not> V e"
    and same: "\<And>i. V i \<Longrightarrow> ks' ! i = ks ! i \<and> vs' ! i = vs ! i"
    and new: "\<And>i. V i \<Longrightarrow> ks ! i \<noteq> ks' ! e"
  shows "slots_map V ks vs (ks' ! e) = None \<and>
    slots_map V' ks' vs' = (slots_map V ks vs)(ks' ! e \<mapsto> vs' ! e)"
proof
  show "slots_map V ks vs (ks' ! e) = None" using new slots_map_None [of V] slots_ok_less [OF ok(1)] by simp
  show "slots_map V' ks' vs' = (slots_map V ks vs)(ks' ! e \<mapsto> vs' ! e)"
    by (rule kv_eqI) (use same new in \<open>auto simp: slots_map_Some [OF ok(1)] slots_map_Some [OF ok(2)] V(1)\<close>)
qed

lemma slots_map_remove:
  assumes ok: "slots_ok V ks" and V: "\<And>j. V' j \<longleftrightarrow> V j \<and> j \<noteq> i" "V i"
  shows "slots_map V ks vs (ks ! i) = Some (vs ! i) \<and>
    slots_map V' ks vs = (slots_map V ks vs)(ks ! i := None)"
proof
  have ok': "slots_ok V' ks" using ok by (auto simp: slots_ok_def V(1))
  show "slots_map V ks vs (ks ! i) = Some (vs ! i)" using V(2) by (auto simp: slots_map_Some [OF ok])
  show "slots_map V' ks vs = (slots_map V ks vs)(ks ! i := None)"
  proof (rule kv_eqI)
    fix k w
    show "slots_map V' ks vs k = Some w \<longleftrightarrow> ((slots_map V ks vs)(ks ! i := None)) k = Some w"
    proof (cases "k = ks ! i")
      case True
      then show ?thesis using slots_okD [OF ok _ V(2)] by (auto simp: slots_map_Some [OF ok'] V(1))
    next
      case False
      then have "j \<noteq> i" if "ks ! j = k" for j using that by auto
      with False show ?thesis
        unfolding slots_map_Some [OF ok'] fun_upd_other [OF False] slots_map_Some [OF ok] V(1) by blast
    qed
  qed
qed

text \<open>The first slot that counts and holds the key.\<close>

lemma slots_find:
  assumes "slots_ok V ks"
  shows "slots_map V ks vs k =
    map_option (\<lambda>i. vs ! i) (List.find (\<lambda>i. V i \<and> ks ! i = k) [0..<KEY_BUCKT])"
proof (cases "List.find (\<lambda>i. V i \<and> ks ! i = k) [0..<KEY_BUCKT]")
  case None
  then have "\<forall>i. V i \<longrightarrow> ks ! i \<noteq> k" using slots_ok_less [OF assms] by (auto simp: find_None_iff)
  with None show ?thesis using slots_map_None [of V] slots_ok_less [OF assms] by simp
next
  case (Some i)
  then have "V i \<and> ks ! i = k" by (auto simp: find_Some_iff)
  with Some show ?thesis by (auto simp: slots_map_Some [OF assms])
qed

section \<open>Counting\<close>

text \<open>Key 0 may be stored but is not counted.\<close>

definition nonzero_keys :: "kv \<Rightarrow> kv" where
  "nonzero_keys m = (\<lambda>k. if k = 0 then None else m k)"

lemma slots_size:
  assumes "slots_ok V ks"
  shows "length (filter (\<lambda>i. ks ! i \<noteq> 0 \<and> V i) [0..<KEY_BUCKT]) = card (dom (nonzero_keys (slots_map V ks vs)))"
proof -
  let ?is = "filter (\<lambda>i. ks ! i \<noteq> 0 \<and> V i) [0..<KEY_BUCKT]"
  have "inj_on (\<lambda>i. ks ! i) (set ?is)" using slots_okD [OF assms] by (auto simp: inj_on_def)
  then have "card ((\<lambda>i. ks ! i) ` set ?is) = length ?is"
    by (simp only: card_image) (rule distinct_card, simp)
  moreover have "dom (nonzero_keys (slots_map V ks vs)) = (\<lambda>i. ks ! i) ` set ?is"
    by (auto simp: dom_def nonzero_keys_def slots_map_Some [OF assms] dest: slots_ok_less [OF assms])
  ultimately show ?thesis by simp
qed

lemma slots_card:
  assumes "slots_ok V ks"
  shows "card (dom (slots_map V ks vs)) = length (filter V [0..<KEY_BUCKT])"
proof -
  let ?is = "filter V [0..<KEY_BUCKT]"
  have "inj_on (\<lambda>i. ks ! i) (set ?is)" using slots_okD [OF assms] by (auto simp: inj_on_def)
  then have "card ((\<lambda>i. ks ! i) ` set ?is) = length ?is"
    by (simp only: card_image) (rule distinct_card, simp)
  moreover have "dom (slots_map V ks vs) = (\<lambda>i. ks ! i) ` set ?is"
    by (auto simp: dom_def slots_map_Some [OF assms] dest: slots_ok_less [OF assms])
  ultimately show ?thesis by simp
qed

text \<open>Every slot counts exactly when the map has \<open>KEY_BUCKT\<close> keys.\<close>

lemma slots_full:
  assumes "slots_ok V ks"
  shows "KEY_BUCKT \<le> card (dom (slots_map V ks vs)) \<longleftrightarrow> (\<forall>i<KEY_BUCKT. V i)"
proof -
  have "length (filter V [0..<KEY_BUCKT]) < length [0..<KEY_BUCKT] \<longleftrightarrow> (\<exists>i\<in>set [0..<KEY_BUCKT]. \<not> V i)"
    by (metis filter_True length_filter_less order_less_irrefl)
  then show ?thesis unfolding slots_card [OF assms] by auto
qed

lemma finite_slots_map: "finite (dom (slots_map V ks vs))"
  by (simp add: slots_map_def finite_dom_map_of)

text \<open>A count bucket by bucket, kept in a 64-bit word, is the number of keys other than 0 of the table.\<close>

lemma chains_size:
  assumes ci: "chains_inv binv bmap h bs" and less: "\<And>k. h k < length bs"
    and size: "\<And>b. binv b \<Longrightarrow> size_of b = card (dom (nonzero_keys (bmap b)))"
    and fin: "\<And>b. finite (dom (bmap b))"
  shows "unat (of_nat (\<Sum>b\<leftarrow>bs. size_of b) :: u64) = card (dom (nonzero_keys (chains_map bmap h bs)))"
proof -
  let ?bm = "\<lambda>b. nonzero_keys (bmap b)"
  have sub: "dom (?bm b) \<subseteq> dom (bmap b)" for b by (auto simp: nonzero_keys_def dom_def split: if_splits)
  have "(\<Sum>b\<leftarrow>bs. size_of b) = (\<Sum>b\<leftarrow>bs. card (dom (?bm b)))"
    by (rule arg_cong [where f = sum_list], rule map_cong)
      (use ci size in \<open>auto simp: chains_inv_def in_set_conv_nth\<close>)
  also have "\<dots> = card (dom (chains_map ?bm h bs))"
  proof (rule chains_card [symmetric, OF _ less])
    show "chains_inv binv ?bm h bs" using ci sub unfolding chains_inv_def by blast
    show "finite (dom (?bm b))" for b using sub fin by (rule finite_subset)
  qed
  also have "chains_map ?bm h bs = nonzero_keys (chains_map bmap h bs)"
    by (auto simp: chains_map_def nonzero_keys_def)
  finally show ?thesis
    using card_nonzero_u64 [of "dom (nonzero_keys (chains_map bmap h bs))"]
    by (simp add: unat_of_nat_u64 nonzero_keys_def dom_def)
qed

end
