(* ===== verification/Bounded_store.thy ===== *)
theory Bounded_store
  imports Kv_store
begin

text \<open>
  Tables whose chains cannot grow: an insertion of an absent key into a full bucket retries for
  ever. \<open>bounded_store\<close> says exactly which runs return: those in which every insertion fits, as
  decided on the abstract map. \<open>bounded_hash\<close> derives it for a table from one bucket with room
  for \<open>cap\<close> entries.
\<close>

fun fits_run :: "(kv \<Rightarrow> u64 \<Rightarrow> bool) \<Rightarrow> kv \<Rightarrow> kv_op list \<Rightarrow> bool" where
  "fits_run fits M [] = True"
| "fits_run fits M (x # xs) =
     ((case x of Put k v \<Rightarrow> M k \<noteq> None \<or> fits M k | _ \<Rightarrow> True) \<and> fits_run fits (snd (kv_step M x)) xs)"

locale bounded_store = kv_store +
  fixes fits :: "kv \<Rightarrow> u64 \<Rightarrow> bool"
  assumes put_returns: "inv t \<Longrightarrow> kok k \<Longrightarrow> vok v \<Longrightarrow> absm t k \<noteq> None \<or> fits (absm t) k \<Longrightarrow>
       \<exists>r t' m'. put t k v m = Done (r, t', m')"
    and put_spins: "inv t \<Longrightarrow> kok k \<Longrightarrow> vok v \<Longrightarrow> absm t k = None \<Longrightarrow> \<not> fits (absm t) k \<Longrightarrow>
       put t k v m = Spins"
begin

lemma step_returns:
  assumes "inv t" and "op_ok kok vok x" and "case x of Put k v \<Rightarrow> absm t k \<noteq> None \<or> fits (absm t) k | _ \<Rightarrow> True"
  shows "\<exists>r t' m'. table_step get put rem (t, m) x = Done (r, t', m')"
proof (cases x)
  case (Put k v)
  with assms put_returns [of t k v m] show ?thesis by auto
next
  case (Remove k)
  with assms rem_law [of t k] show ?thesis by auto
qed simp

lemma step_spins:
  assumes "inv t" and "op_ok kok vok x" and "\<not> (case x of Put k v \<Rightarrow> absm t k \<noteq> None \<or> fits (absm t) k | _ \<Rightarrow> True)"
  shows "table_step get put rem (t, m) x = Spins"
  using assms put_spins by (cases x) auto

text \<open>A run in which every insertion fits returns the map's answers; any other run gets stuck.\<close>

lemma run_outcome:
  assumes "inv t" and "\<forall>x\<in>set xs. op_ok kok vok x"
  shows "if fits_run fits (absm t) xs
    then \<exists>rs t' m'. table_run get put rem (t, m) xs = Done (rs, t', m') \<and> inv t' \<and>
      kv_run (absm t) xs = (rs, absm t')
    else table_run get put rem (t, m) xs = Spins"
  using assms
proof (induction xs arbitrary: t m)
  case (Cons x xs)
  show ?case
  proof (cases "case x of Put k v \<Rightarrow> absm t k \<noteq> None \<or> fits (absm t) k | _ \<Rightarrow> True")
    case True
    with Cons.prems step_returns [of t x m] obtain r t1 m1 where
      s: "table_step get put rem (t, m) x = Done (r, t1, m1)" by auto
    from step_refines [OF Cons.prems(1) _ s] Cons.prems(2)
    have t1: "inv t1" "kv_step (absm t) x = (r, absm t1)" by auto
    with Cons.IH [of t1 m1] Cons.prems(2) True s show ?thesis by (auto split: if_splits)
  next
    case False
    with step_spins [OF Cons.prems(1) _ False] Cons.prems(2) show ?thesis by simp
  qed
qed simp

end

text \<open>A key fits in a table when the bucket it hashes to holds fewer than \<open>cap\<close> keys.\<close>

definition bin_has_room :: "nat \<Rightarrow> (u64 \<Rightarrow> nat) \<Rightarrow> kv \<Rightarrow> u64 \<Rightarrow> bool" where
  "bin_has_room cap h M k \<longleftrightarrow> card {k' \<in> dom M. h k' = h k} < cap"

locale bounded_hash = hashed_store +
  fixes cap :: nat and store
  assumes bput_returns: "binv b \<Longrightarrow> kok k \<Longrightarrow> vok v \<Longrightarrow> bmap b k \<noteq> None \<or> card (dom (bmap b)) < cap \<Longrightarrow>
       \<exists>r b' m'. bput b k v m = Done (r, b', m')"
    and bput_spins: "binv b \<Longrightarrow> kok k \<Longrightarrow> vok v \<Longrightarrow> bmap b k = None \<Longrightarrow> cap \<le> card (dom (bmap b)) \<Longrightarrow>
       bput b k v m = Spins"
    and put_outcome: "shape t \<Longrightarrow> put t k v m =
       bind_outcome (bput (chains t ! hash t k) k v m)
         (\<lambda>(r, b, m'). Done (r, store t ((chains t)[hash t k := b]), m'))"
begin

lemma rem_hash:
  assumes "tinv t" and "kok k" and "rem t k = Done (w, t')"
  shows "hash t' = hash t"
proof -
  from chain.rem_law [OF tinv_chain [OF assms(1)] assms(2)] obtain b where
    b: "brem (chains t ! hash t k) k = Done (val_or_0 (bmap (chains t ! hash t k) k), b)" by blast
  from rem_step [OF _ b] assms(1,3) show ?thesis by (auto simp: tinv_def)
qed

lemma bin_keys:
  assumes "tinv t"
  shows "{k' \<in> dom (tmap t). hash t k' = hash t k} = dom (bmap (chains t ! hash t k))"
proof -
  have "hash t k' = hash t k" if "k' \<in> dom (bmap (chains t ! hash t k))" for k'
    using assms that hash_less unfolding tinv_def by (blast intro: chains_inv_dom)
  then show ?thesis by (auto simp: tmap_at dom_def)
qed

sublocale bounded: bounded_store "\<lambda>t. tinv t \<and> hash t = H" tmap get put rem kok vok "bin_has_room cap H" for H
proof unfold_locales
  fix t t' k v m m' r
  assume t: "tinv t \<and> hash t = H" and k: "kok k"
  show "get t k = val_or_0 (tmap t k)" using t k table_get_law by simp
  show "\<exists>t'. rem t k = Done (val_or_0 (tmap t k), t') \<and> (tinv t' \<and> hash t' = H) \<and> tmap t' = (tmap t)(k := None)"
    using table_rem_law [of t k] rem_hash [of t k] t k by metis
  assume v: "vok v"
  have room: "card (dom (bmap (chains t ! hash t k))) < cap \<longleftrightarrow> bin_has_room cap H (tmap t) k"
    using bin_keys [of t k] t by (simp add: bin_has_room_def)
  have sh: "shape t" using t by (simp add: tinv_def)
  { assume p: "put t k v m = Done (r, t', m')"
    show "(tinv t' \<and> hash t' = H) \<and> r = (tmap t k = None) \<and> tmap t' = (if r then (tmap t)(k \<mapsto> v) else tmap t)"
      using table_put_law [OF _ k v p] put_step [OF sh p] t by simp }
  { assume "tmap t k \<noteq> None \<or> bin_has_room cap H (tmap t) k"
    with bput_returns [OF tinv_chain [of t k] k v] t room obtain r b m' where
      "bput (chains t ! hash t k) k v m = Done (r, b, m')" by (metis tmap_at)
    then show "\<exists>r t' m'. put t k v m = Done (r, t', m')" by (simp add: put_outcome [OF sh]) }
  { assume "tmap t k = None" "\<not> bin_has_room cap H (tmap t) k"
    with bput_spins [OF tinv_chain [of t k] k v] t room show "put t k v m = Spins"
      by (simp add: put_outcome [OF sh] tmap_at) }
qed

end

end
