(* ===== verification/Clht_lf.thy ===== *)
theory Clht_lf
  imports Slots Bounded_store Clht_hash Atomic_ops
begin

text \<open>
  \<open>CLHT-LF\<close> (\<open>src/src/clht/src/clht_lf.c\<close>, \<open>include/clht_lf.h\<close>) as one thread sees it when no
  other runs: a bucket has three slots and no successor, and its snapshot word says which slots
  are valid. A failed compare-and-swap and a full bucket lead back to \<open>retry\<close> with nothing
  changed, so a call that gets there runs for ever (\<open>Spins\<close>). Theory Clht_lf_steps
  models the same functions one memory access at a time.
\<close>

section \<open>State\<close>

definition MAP_INVLD :: u8 where
  "MAP_INVLD = 0"

definition MAP_VALID :: u8 where
  "MAP_VALID = 1"

definition MAP_INSRT :: u8 where
  "MAP_INSRT = 2"

lemmas map_codes = MAP_INVLD_def MAP_VALID_def MAP_INSRT_def

record bucket_lf =
  snapshot_lf :: u64
  key_lf :: "u64 list"
  val_lf :: "u64 list"

record hashtable_lf =
  num_buckets_lf :: u64
  hash_lf :: u64
  table_lf :: "bucket_lf list"

text \<open>The field \<open>ht\<close> may be NULL: \<open>clht_create\<close> does not look at what it stores there.\<close>

record clht_lf =
  ht_lf :: "hashtable_lf option"

definition clht_bucket_create_lf :: "mem \<Rightarrow> bucket_lf option \<times> mem" where
  "clht_bucket_create_lf m =
     (case memalign m of
        (None, m') \<Rightarrow> (None, m')
      | (Some (g0, g1, g2), m') \<Rightarrow>
          (Some \<lparr>snapshot_lf = 0, key_lf = replicate KEY_BUCKT 0, val_lf = [g0, g1, g2]\<rparr>, m'))"

definition empty_bucket_lf :: bucket_lf where
  "empty_bucket_lf = \<lparr>snapshot_lf = 0, key_lf = replicate KEY_BUCKT 0, val_lf = replicate KEY_BUCKT 0\<rparr>"

definition clht_hashtable_create_lf :: "u32 \<Rightarrow> mem \<Rightarrow> hashtable_lf option \<times> mem" where
  "clht_hashtable_create_lf num_buckets m =
     (if num_buckets = 0 then (None, m)
      else case memalign m of
        (None, m1) \<Rightarrow> (None, m1)
      | (Some _, m1) \<Rightarrow>
          (case memalign m1 of
             (None, m2) \<Rightarrow> (None, mfree m2)
           | (Some _, m2) \<Rightarrow>
               (Some \<lparr>num_buckets_lf = ucast num_buckets, hash_lf = ucast (num_buckets - 1),
                      table_lf = replicate (unat num_buckets) empty_bucket_lf\<rparr>, m2)))"

definition clht_create_lf :: "u32 \<Rightarrow> mem \<Rightarrow> clht_lf option \<times> mem" where
  "clht_create_lf num_buckets m =
     (case memalign m of
        (None, m1) \<Rightarrow> (None, m1)
      | (Some _, m1) \<Rightarrow>
          (let (t, m2) = clht_hashtable_create_lf num_buckets m1 in (Some \<lparr>ht_lf = t\<rparr>, m2)))"

definition clht_hash_lf :: "hashtable_lf \<Rightarrow> u64 \<Rightarrow> u32" where
  "clht_hash_lf hashtable k = ucast (k AND hash_lf hashtable)"

section \<open>Looking for a free slot\<close>

text \<open>The four helpers of \<open>clht_lf.h\<close>; the result \<open>-1\<close> is \<open>None\<close>.\<close>

definition snap_get_empty_index :: "u64 \<Rightarrow> nat option" where
  "snap_get_empty_index s = List.find (\<lambda>i. snap_map s i = MAP_INVLD) [0..<KEY_BUCKT]"

definition keys_get_empty_index :: "u64 list \<Rightarrow> nat option" where
  "keys_get_empty_index keys = List.find (\<lambda>i. keys ! i = 0) [0..<KEY_BUCKT]"

definition buck_get_empty_index :: "bucket_lf \<Rightarrow> u64 \<Rightarrow> nat option" where
  "buck_get_empty_index b s =
     List.find (\<lambda>i. key_lf b ! i = 0 \<and> snap_map s i \<noteq> MAP_INSRT) [0..<KEY_BUCKT]"

definition vals_get_empty_index :: "u64 list \<Rightarrow> u64 \<Rightarrow> nat option" where
  "vals_get_empty_index vals s =
     List.find (\<lambda>i. vals ! i = 0 \<and> snap_map s i \<noteq> MAP_INSRT) [0..<KEY_BUCKT]"

section \<open>Operations\<close>

fun search_lf :: "bucket_lf \<Rightarrow> u64 \<Rightarrow> nat list \<Rightarrow> u64" where
  "search_lf b k [] = 0"
| "search_lf b k (i # is) =
     (let v = val_lf b ! i
      in if snap_map (snapshot_lf b) i = MAP_VALID \<and> key_lf b ! i = k
         then (if val_lf b ! i = v then v else 0)
         else search_lf b k is)"

definition clht_bucket_search_lf :: "bucket_lf \<Rightarrow> u64 \<Rightarrow> u64" where
  "clht_bucket_search_lf b k = search_lf b k [0..<KEY_BUCKT]"

definition clht_get_lf :: "hashtable_lf \<Rightarrow> u64 \<Rightarrow> u64" where
  "clht_get_lf hashtable k =
     (let bin = unat (clht_hash_lf hashtable k) in clht_bucket_search_lf (table_lf hashtable ! bin) k)"

definition put_bucket_lf :: "bucket_lf \<Rightarrow> u64 \<Rightarrow> u64 \<Rightarrow> (bool \<times> bucket_lf) outcome" where
  "put_bucket_lf b k v =
     (let s = snapshot_lf b
      in if clht_bucket_search_lf b k \<noteq> 0 then Done (False, b)
         else case snap_get_empty_index s of
           None \<Rightarrow> Spins
         | Some e \<Rightarrow>
             (let s1 = snap_set_map s e MAP_INSRT;
                  (old, new) = CAS (snapshot_lf b) s s1;
                  b = b\<lparr>snapshot_lf := new\<rparr>
              in if old \<noteq> s then Spins
                 else (let b = b\<lparr>val_lf := (val_lf b)[e := v]\<rparr>;
                           b = b\<lparr>key_lf := (key_lf b)[e := k]\<rparr>;
                           s2 = snap_set_map_and_inc_version s1 e MAP_VALID;
                           (old, new) = CAS (snapshot_lf b) s1 s2;
                           b = b\<lparr>snapshot_lf := new\<rparr>
                       in if old \<noteq> s1 then Spins else Done (True, b))))"

definition clht_put_lf :: "clht_lf \<Rightarrow> u64 \<Rightarrow> u64 \<Rightarrow> (bool \<times> clht_lf) outcome" where
  "clht_put_lf h k v =
     (case ht_lf h of
        None \<Rightarrow> Faults
      | Some hashtable \<Rightarrow>
          (let bin = unat (clht_hash_lf hashtable k)
           in bind_outcome (put_bucket_lf (table_lf hashtable ! bin) k v)
                (\<lambda>(r, b). Done (r,
                   h\<lparr>ht_lf := Some (hashtable\<lparr>table_lf := (table_lf hashtable)[bin := b]\<rparr>)\<rparr>))))"

fun remove_loop_lf :: "bucket_lf \<Rightarrow> u64 \<Rightarrow> u64 \<Rightarrow> nat list \<Rightarrow> (u64 \<times> bucket_lf) outcome" where
  "remove_loop_lf b s k [] = Done (0, b)"
| "remove_loop_lf b s k (i # is) =
     (if key_lf b ! i = k \<and> snap_map s i = MAP_VALID then
        (let removed = val_lf b ! i;
             s1 = snap_set_map s i MAP_INVLD;
             (old, new) = CAS (snapshot_lf b) s s1;
             b = b\<lparr>snapshot_lf := new\<rparr>
         in if old = s then Done (removed, b) else Spins)
      else remove_loop_lf b s k is)"

definition remove_bucket_lf :: "bucket_lf \<Rightarrow> u64 \<Rightarrow> (u64 \<times> bucket_lf) outcome" where
  "remove_bucket_lf b k = (let s = snapshot_lf b in remove_loop_lf b s k [0..<KEY_BUCKT])"

definition clht_remove_lf :: "clht_lf \<Rightarrow> u64 \<Rightarrow> (u64 \<times> clht_lf) outcome" where
  "clht_remove_lf h k =
     (case ht_lf h of
        None \<Rightarrow> Faults
      | Some hashtable \<Rightarrow>
          (let bin = unat (clht_hash_lf hashtable k)
           in bind_outcome (remove_bucket_lf (table_lf hashtable ! bin) k)
                (\<lambda>(r, b). Done (r,
                   h\<lparr>ht_lf := Some (hashtable\<lparr>table_lf := (table_lf hashtable)[bin := b]\<rparr>)\<rparr>))))"

definition bucket_size_lf :: "bucket_lf \<Rightarrow> nat" where
  "bucket_size_lf b =
     length (filter (\<lambda>i. key_lf b ! i \<noteq> 0 \<and> snap_map (snapshot_lf b) i = MAP_VALID) [0..<KEY_BUCKT])"

definition clht_size_lf :: "hashtable_lf \<Rightarrow> u64" where
  "clht_size_lf hashtable =
     (let num_buckets = (ucast (num_buckets_lf hashtable) :: u32)
      in of_nat (\<Sum>bin\<leftarrow>[0..<unat num_buckets]. bucket_size_lf (table_lf hashtable ! bin)))"

text \<open>
  \<open>clht_print\<close>: what is printed is a list of entries. The inner loop runs while the bucket
  pointer is not NULL and never changes the pointer.
\<close>

definition printed_lf :: "bucket_lf \<Rightarrow> (u64 \<times> u64) list" where
  "printed_lf b = filter (\<lambda>(k, v). k \<noteq> 0) (zip (key_lf b) (val_lf b))"

partial_function (option) print_bucket_lf ::
  "bucket_lf option \<Rightarrow> (u64 \<times> u64) list \<Rightarrow> (u64 \<times> u64) list option" where
  "print_bucket_lf bucket out =
     (case bucket of
        None \<Rightarrow> Some out
      | Some b \<Rightarrow> print_bucket_lf bucket (out @ printed_lf b))"

fun clht_print_lf :: "bucket_lf list \<Rightarrow> (u64 \<times> u64) list option" where
  "clht_print_lf [] = Some []"
| "clht_print_lf (b # bs) =
     Option.bind (print_bucket_lf (Some b) []) (\<lambda>out. map_option ((@) out) (clht_print_lf bs))"

section \<open>What a bucket stores\<close>

definition valid_lf :: "bucket_lf \<Rightarrow> nat \<Rightarrow> bool" where
  "valid_lf b i \<longleftrightarrow> i < KEY_BUCKT \<and> snap_map (snapshot_lf b) i = MAP_VALID"

definition entries_lf :: "bucket_lf \<Rightarrow> (u64 \<times> u64) list" where
  "entries_lf b = map (\<lambda>i. (key_lf b ! i, val_lf b ! i)) (filter (valid_lf b) [0..<KEY_BUCKT])"

definition bucket_map_lf :: "bucket_lf \<Rightarrow> kv" where
  "bucket_map_lf b = map_of (entries_lf b)"

text \<open>A bucket at rest: no slot is being filled, the valid keys are distinct, no value is 0.\<close>

definition distinct_keys_lf :: "bucket_lf \<Rightarrow> bool" where
  "distinct_keys_lf b \<longleftrightarrow>
     (\<forall>i<KEY_BUCKT. \<forall>j<KEY_BUCKT. valid_lf b i \<longrightarrow> valid_lf b j \<longrightarrow> key_lf b ! i = key_lf b ! j \<longrightarrow> i = j)"

definition bucket_inv_lf :: "bucket_lf \<Rightarrow> bool" where
  "bucket_inv_lf b \<longleftrightarrow> length (key_lf b) = KEY_BUCKT \<and> length (val_lf b) = KEY_BUCKT \<and>
     (\<forall>i<KEY_BUCKT. snap_map (snapshot_lf b) i \<in> {MAP_INVLD, MAP_VALID}) \<and>
     (\<forall>i<KEY_BUCKT. valid_lf b i \<longrightarrow> val_lf b ! i \<noteq> 0) \<and> distinct_keys_lf b"

lemma valid_lf_less: "valid_lf b i \<Longrightarrow> i < KEY_BUCKT"
  by (simp add: valid_lf_def)

lemma KEY_BUCKT_less: "i < KEY_BUCKT \<Longrightarrow> i < 4"
  by (simp add: KEY_BUCKT_def)

lemma distinct_keysD:
  "distinct_keys_lf b \<Longrightarrow> valid_lf b i \<Longrightarrow> valid_lf b j \<Longrightarrow> key_lf b ! i = key_lf b ! j \<Longrightarrow> i = j"
  by (simp add: distinct_keys_lf_def valid_lf_less)

lemma bucket_map_slots: "bucket_map_lf b = slots_map (valid_lf b) (key_lf b) (val_lf b)"
  by (simp add: bucket_map_lf_def entries_lf_def slots_map_def slot_entries_def)

lemma distinct_keys_slots: "distinct_keys_lf b \<longleftrightarrow> slots_ok (valid_lf b) (key_lf b)"
  by (auto simp: distinct_keys_lf_def slots_ok_def valid_lf_def)

lemmas bucket_slots = bucket_map_slots distinct_keys_slots

lemma distinct_entries_lf: "distinct_keys_lf b \<Longrightarrow> distinct (map fst (entries_lf b))"
  using distinct_slot_entries by (simp add: distinct_keys_slots entries_lf_def slot_entries_def)

lemma bucket_map_lf_Some:
  "distinct_keys_lf b \<Longrightarrow>
    bucket_map_lf b k = Some v \<longleftrightarrow> (\<exists>i. valid_lf b i \<and> key_lf b ! i = k \<and> val_lf b ! i = v)"
  by (simp add: bucket_slots slots_map_Some)

lemma bucket_map_lf_None: "bucket_map_lf b k = None \<longleftrightarrow> (\<forall>i. valid_lf b i \<longrightarrow> key_lf b ! i \<noteq> k)"
  unfolding bucket_map_slots by (rule slots_map_None) (rule valid_lf_less)

text \<open>How the map changes when a slot becomes valid or stops being valid.\<close>

lemma map_same:
  assumes "\<And>i. valid_lf b' i = valid_lf b i"
    and "\<And>i. valid_lf b i \<Longrightarrow> key_lf b' ! i = key_lf b ! i \<and> val_lf b' ! i = val_lf b ! i"
  shows "bucket_map_lf b' = bucket_map_lf b"
  using slots_map_same [of "valid_lf b'" "valid_lf b"] assms by (simp add: bucket_map_slots)

lemma map_insert:
  assumes d: "distinct_keys_lf b" "distinct_keys_lf b'"
    and v: "\<And>i. valid_lf b' i \<longleftrightarrow> valid_lf b i \<or> i = e" "\<not> valid_lf b e"
    and same: "\<And>i. valid_lf b i \<Longrightarrow> key_lf b' ! i = key_lf b ! i \<and> val_lf b' ! i = val_lf b ! i"
    and new: "\<And>i. valid_lf b i \<Longrightarrow> key_lf b ! i \<noteq> key_lf b' ! e"
  shows "bucket_map_lf b (key_lf b' ! e) = None \<and>
    bucket_map_lf b' = (bucket_map_lf b)(key_lf b' ! e \<mapsto> val_lf b' ! e)"
  unfolding bucket_map_slots
  using d by (intro slots_map_insert v same new) (simp_all add: distinct_keys_slots)

lemma map_remove:
  assumes d: "distinct_keys_lf b"
    and v: "\<And>j. valid_lf b' j \<longleftrightarrow> valid_lf b j \<and> j \<noteq> i" "valid_lf b i"
    and same: "key_lf b' = key_lf b" "val_lf b' = val_lf b"
  shows "bucket_map_lf b (key_lf b ! i) = Some (val_lf b ! i) \<and>
    bucket_map_lf b' = (bucket_map_lf b)(key_lf b ! i := None)"
  unfolding bucket_map_slots same
  using d by (intro slots_map_remove v) (simp_all add: distinct_keys_slots)

section \<open>Lookup\<close>

lemma search_lf_find:
  "set is \<subseteq> {..<KEY_BUCKT} \<Longrightarrow> search_lf b k is =
    (case List.find (\<lambda>i. valid_lf b i \<and> key_lf b ! i = k) is of None \<Rightarrow> 0 | Some i \<Rightarrow> val_lf b ! i)"
  by (induction "is") (auto simp: valid_lf_def)

lemma search_lf_map:
  assumes "bucket_inv_lf b"
  shows "clht_bucket_search_lf b k = val_or_0 (bucket_map_lf b k)"
proof -
  let ?P = "\<lambda>i. valid_lf b i \<and> key_lf b ! i = k"
  have s: "clht_bucket_search_lf b k =
      (case List.find ?P [0..<KEY_BUCKT] of None \<Rightarrow> 0 | Some i \<Rightarrow> val_lf b ! i)"
    unfolding clht_bucket_search_lf_def by (rule search_lf_find) auto
  have d: "distinct_keys_lf b" using assms by (simp add: bucket_inv_lf_def)
  show ?thesis
  proof (cases "List.find ?P [0..<KEY_BUCKT]")
    case None
    then have "bucket_map_lf b k = None"
      by (auto simp: find_None_iff bucket_map_lf_None dest: valid_lf_less)
    with None s show ?thesis by simp
  next
    case (Some i)
    then have "valid_lf b i \<and> key_lf b ! i = k" by (auto simp: find_Some_iff)
    then have "bucket_map_lf b k = Some (val_lf b ! i)" by (auto simp: bucket_map_lf_Some [OF d])
    with Some s show ?thesis by simp
  qed
qed

lemma search_lf_0_iff:
  assumes "bucket_inv_lf b"
  shows "clht_bucket_search_lf b k = 0 \<longleftrightarrow> bucket_map_lf b k = None"
proof (cases "bucket_map_lf b k")
  case None
  with assms show ?thesis by (simp add: search_lf_map)
next
  case (Some v)
  with assms have "v \<noteq> 0"
    by (auto simp: bucket_map_lf_Some bucket_inv_lf_def valid_lf_def)
  with Some assms show ?thesis by (simp add: search_lf_map)
qed

section \<open>Insertion\<close>

definition full_lf :: "bucket_lf \<Rightarrow> bool" where
  "full_lf b \<longleftrightarrow> (\<forall>i<KEY_BUCKT. snap_map (snapshot_lf b) i \<noteq> MAP_INVLD)"

lemma snap_empty_Some:
  "snap_get_empty_index s = Some e \<Longrightarrow> e < KEY_BUCKT \<and> snap_map s e = MAP_INVLD"
  by (auto simp: snap_get_empty_index_def find_Some_iff)

lemma snap_empty_None:
  "snap_get_empty_index s = None \<longleftrightarrow> (\<forall>i<KEY_BUCKT. snap_map s i \<noteq> MAP_INVLD)"
  by (auto simp: snap_get_empty_index_def find_None_iff)

text \<open>The bucket after a successful insertion into slot \<open>e\<close>.\<close>

definition inserted_lf :: "bucket_lf \<Rightarrow> nat \<Rightarrow> u64 \<Rightarrow> u64 \<Rightarrow> bucket_lf" where
  "inserted_lf b e k v =
     \<lparr>snapshot_lf = snap_set_map_and_inc_version (snapshot_lf b) e MAP_VALID,
      key_lf = (key_lf b)[e := k], val_lf = (val_lf b)[e := v]\<rparr>"

lemma put_bucket_lf_eq:
  "put_bucket_lf b k v =
     (if clht_bucket_search_lf b k \<noteq> 0 then Done (False, b)
      else case snap_get_empty_index (snapshot_lf b) of
        None \<Rightarrow> Spins | Some e \<Rightarrow> Done (True, inserted_lf b e k v))"
  by (auto simp: put_bucket_lf_def CAS_def Let_def inserted_lf_def snap_set_map_and_inc_version_def
      snap_set_map_twice dest!: snap_empty_Some dest: KEY_BUCKT_less split: option.splits)

text \<open>A free slot that was filled and made valid, whatever happened to the version of the snapshot.\<close>

lemma filled_lf_law:
  assumes inv: "bucket_inv_lf b" and e: "e < KEY_BUCKT" "snap_map (snapshot_lf b) e = MAP_INVLD"
    and v: "v \<noteq> 0" and none: "bucket_map_lf b k = None"
    and b': "key_lf b' = (key_lf b)[e := k]" "val_lf b' = (val_lf b)[e := v]"
      "\<And>i. i < KEY_BUCKT \<Longrightarrow> snap_map (snapshot_lf b') i = (if i = e then MAP_VALID else snap_map (snapshot_lf b) i)"
  shows "bucket_inv_lf b'" and "bucket_map_lf b' = (bucket_map_lf b)(k \<mapsto> v)" and "valid_lf b' i \<longleftrightarrow> valid_lf b i \<or> i = e"
proof -
  have len: "length (key_lf b) = KEY_BUCKT" "length (val_lf b) = KEY_BUCKT"
    and d: "distinct_keys_lf b" using inv by (auto simp: bucket_inv_lf_def)
  have slot: "key_lf b' ! i = (if i = e then k else key_lf b ! i)"
    "val_lf b' ! i = (if i = e then v else val_lf b ! i)"
    "snap_map (snapshot_lf b') i = (if i = e then MAP_VALID else snap_map (snapshot_lf b) i)"
    if "i < KEY_BUCKT" for i
    using that e(1) len by (auto simp: b')
  have valid: "valid_lf b' i \<longleftrightarrow> valid_lf b i \<or> i = e" for i
    using slot(3) [of i] e(1) by (auto simp: valid_lf_def)
  have ne: "\<not> valid_lf b e" using e by (simp add: valid_lf_def map_codes)
  have k: "valid_lf b i \<Longrightarrow> key_lf b ! i \<noteq> k" for i
    using none by (auto simp: bucket_map_lf_None)
  have at_e: "key_lf b' ! e = k" "val_lf b' ! e = v" using slot e(1) by simp_all
  have old: "key_lf b' ! i = key_lf b ! i \<and> val_lf b' ! i = val_lf b ! i" if "valid_lf b i" for i
    using slot [OF valid_lf_less [OF that]] that ne by (cases "i = e") simp_all
  have d': "distinct_keys_lf b'"
    using d k ne by (auto simp: distinct_keys_lf_def valid slot)
  with inv v show "bucket_inv_lf b'"
    by (auto simp: bucket_inv_lf_def valid slot) (simp_all add: b')
  have "key_lf b ! i \<noteq> key_lf b' ! e" if "valid_lf b i" for i using that k at_e by simp
  then show "bucket_map_lf b' = (bucket_map_lf b)(k \<mapsto> v)"
    using map_insert [OF d d' valid ne old] by (simp add: at_e)
  show "valid_lf b' i \<longleftrightarrow> valid_lf b i \<or> i = e" by (rule valid)
qed

lemma inserted_lf_law:
  assumes "bucket_inv_lf b" and "e < KEY_BUCKT" "snap_map (snapshot_lf b) e = MAP_INVLD"
    and "v \<noteq> 0" and "bucket_map_lf b k = None"
  shows "bucket_inv_lf (inserted_lf b e k v)"
    and "bucket_map_lf (inserted_lf b e k v) = (bucket_map_lf b)(k \<mapsto> v)"
  by (rule filled_lf_law [OF assms]; simp add: inserted_lf_def KEY_BUCKT_less assms(2))+

section \<open>Removal\<close>

definition removed_lf :: "bucket_lf \<Rightarrow> nat \<Rightarrow> bucket_lf" where
  "removed_lf b i = b\<lparr>snapshot_lf := snap_set_map (snapshot_lf b) i MAP_INVLD\<rparr>"

lemma remove_loop_lf_find:
  "set is \<subseteq> {..<KEY_BUCKT} \<Longrightarrow> remove_loop_lf b (snapshot_lf b) k is =
    (case List.find (\<lambda>i. valid_lf b i \<and> key_lf b ! i = k) is of
       None \<Rightarrow> Done (0, b) | Some i \<Rightarrow> Done (val_lf b ! i, removed_lf b i))"
  by (induction "is") (auto simp: valid_lf_def CAS_def Let_def removed_lf_def)

lemma removed_lf_law:
  assumes inv: "bucket_inv_lf b" and i: "valid_lf b i" "key_lf b ! i = k"
  shows "bucket_inv_lf (removed_lf b i)"
    and "bucket_map_lf (removed_lf b i) = (bucket_map_lf b)(k := None)"
proof -
  let ?b = "removed_lf b i"
  have d: "distinct_keys_lf b" using inv by (simp add: bucket_inv_lf_def)
  have i4: "i < 4" using i by (simp add: valid_lf_def KEY_BUCKT_def)
  have valid: "valid_lf ?b j \<longleftrightarrow> valid_lf b j \<and> j \<noteq> i" for j
    using i4 by (cases "j < KEY_BUCKT") (auto simp: valid_lf_def removed_lf_def KEY_BUCKT_less map_codes)
  have rest: "key_lf ?b = key_lf b" "val_lf ?b = val_lf b" by (simp_all add: removed_lf_def)
  have d': "distinct_keys_lf ?b" using d by (auto simp: distinct_keys_lf_def valid rest)
  with inv i4 show "bucket_inv_lf ?b"
    by (auto simp: bucket_inv_lf_def valid rest) (auto simp: removed_lf_def KEY_BUCKT_less split: if_splits)
  show "bucket_map_lf ?b = (bucket_map_lf b)(k := None)"
    using map_remove [OF d valid i(1) rest] i(2) by simp
qed

lemma remove_bucket_lf_law:
  assumes "bucket_inv_lf b"
  shows "\<exists>b'. remove_bucket_lf b k = Done (val_or_0 (bucket_map_lf b k), b') \<and>
    bucket_inv_lf b' \<and> bucket_map_lf b' = (bucket_map_lf b)(k := None)"
proof -
  let ?P = "\<lambda>i. valid_lf b i \<and> key_lf b ! i = k"
  have d: "distinct_keys_lf b" using assms by (simp add: bucket_inv_lf_def)
  have r: "remove_bucket_lf b k = (case List.find ?P [0..<KEY_BUCKT] of
       None \<Rightarrow> Done (0, b) | Some i \<Rightarrow> Done (val_lf b ! i, removed_lf b i))"
    unfolding remove_bucket_lf_def Let_def by (rule remove_loop_lf_find) auto
  show ?thesis
  proof (cases "List.find ?P [0..<KEY_BUCKT]")
    case None
    then have "bucket_map_lf b k = None"
      by (auto simp: find_None_iff bucket_map_lf_None dest: valid_lf_less)
    with None r assms show ?thesis by auto
  next
    case (Some i)
    then have i: "valid_lf b i" "key_lf b ! i = k" by (auto simp: find_Some_iff)
    then have "bucket_map_lf b k = Some (val_lf b ! i)" by (auto simp: bucket_map_lf_Some [OF d])
    with Some r removed_lf_law [OF assms i] show ?thesis by simp
  qed
qed

lemma put_bucket_lf_law:
  assumes "bucket_inv_lf b" and "v \<noteq> 0" and "put_bucket_lf b k v = Done (r, b')"
  shows "bucket_inv_lf b' \<and> r = (bucket_map_lf b k = None) \<and>
    bucket_map_lf b' = (if r then (bucket_map_lf b)(k \<mapsto> v) else bucket_map_lf b)"
proof (cases "clht_bucket_search_lf b k = 0")
  case True
  with assms(3) obtain e where e: "snap_get_empty_index (snapshot_lf b) = Some e"
    and r: "r" "b' = inserted_lf b e k v"
    by (auto simp: put_bucket_lf_eq split: option.splits)
  from True search_lf_0_iff [OF assms(1)] have "bucket_map_lf b k = None" by simp
  with inserted_lf_law [OF assms(1) _ _ assms(2) this] snap_empty_Some [OF e] r show ?thesis by simp
next
  case False
  with assms search_lf_0_iff [OF assms(1)] show ?thesis by (auto simp: put_bucket_lf_eq)
qed

lemma put_bucket_lf_spins:
  "bucket_inv_lf b \<Longrightarrow> put_bucket_lf b k v = Spins \<longleftrightarrow> bucket_map_lf b k = None \<and> full_lf b"
  by (auto simp: put_bucket_lf_eq search_lf_0_iff snap_empty_None full_lf_def
      dest: snap_empty_Some split: option.splits)

text \<open>Without other threads a bucket allocates nothing, so the allocator is passed through.\<close>

definition put_chain_lf :: "bucket_lf \<Rightarrow> u64 \<Rightarrow> u64 \<Rightarrow> mem \<Rightarrow> (bool \<times> bucket_lf \<times> mem) outcome" where
  "put_chain_lf b k v m = bind_outcome (put_bucket_lf b k v) (\<lambda>(r, b'). Done (r, b', m))"

definition put_table_lf :: "clht_lf \<Rightarrow> u64 \<Rightarrow> u64 \<Rightarrow> mem \<Rightarrow> (bool \<times> clht_lf \<times> mem) outcome" where
  "put_table_lf h k v m = bind_outcome (clht_put_lf h k v) (\<lambda>(r, h'). Done (r, h', m))"

lemma put_full_lf:
  assumes "bucket_inv_lf b"
  shows "snap_get_empty_index (snapshot_lf b) = None \<longleftrightarrow> KEY_BUCKT \<le> card (dom (bucket_map_lf b))"
proof -
  have "snap_get_empty_index (snapshot_lf b) = None \<longleftrightarrow> (\<forall>i<KEY_BUCKT. valid_lf b i)"
    using assms by (auto simp: snap_get_empty_index_def find_None_iff bucket_inv_lf_def valid_lf_def map_codes)
  then show ?thesis using assms by (simp add: bucket_slots slots_full bucket_inv_lf_def)
qed

interpretation lf_bucket: kv_store bucket_inv_lf bucket_map_lf clht_bucket_search_lf put_chain_lf
  remove_bucket_lf "\<lambda>_. True" "\<lambda>v. v \<noteq> 0"
proof unfold_locales
  fix b b' :: bucket_lf and k v :: u64 and m m' :: mem and r :: bool
  assume "bucket_inv_lf b" "v \<noteq> 0" "put_chain_lf b k v m = Done (r, b', m')"
  then show "bucket_inv_lf b' \<and> r = (bucket_map_lf b k = None) \<and>
      bucket_map_lf b' = (if r then (bucket_map_lf b)(k \<mapsto> v) else bucket_map_lf b)"
    using put_bucket_lf_law [of b v k r b'] by (auto simp: put_chain_lf_def bind_outcome_Done_iff)
qed (use search_lf_map remove_bucket_lf_law in auto)

section \<open>The table\<close>

definition shape_lf :: "clht_lf \<Rightarrow> bool" where
  "shape_lf h \<longleftrightarrow> (\<exists>t. ht_lf h = Some t \<and> num_buckets_lf t \<noteq> 0 \<and> unat (num_buckets_lf t) < 2 ^ 32 \<and>
     hash_lf t = num_buckets_lf t - 1 \<and> length (table_lf t) = unat (num_buckets_lf t))"

definition bin_lf :: "clht_lf \<Rightarrow> u64 \<Rightarrow> nat" where
  "bin_lf h k = unat (clht_hash_lf (the (ht_lf h)) k)"

definition buckets_lf :: "clht_lf \<Rightarrow> bucket_lf list" where
  "buckets_lf h = table_lf (the (ht_lf h))"

definition upd_lf :: "clht_lf \<Rightarrow> bucket_lf list \<Rightarrow> clht_lf" where
  "upd_lf h bs = h\<lparr>ht_lf := Some ((the (ht_lf h))\<lparr>table_lf := bs\<rparr>)\<rparr>"

definition inv_lf :: "clht_lf \<Rightarrow> bool" where
  "inv_lf h \<longleftrightarrow> shape_lf h \<and> chains_inv bucket_inv_lf bucket_map_lf (bin_lf h) (buckets_lf h)"

definition map_lf :: "clht_lf \<Rightarrow> kv" where
  "map_lf h = chains_map bucket_map_lf (bin_lf h) (buckets_lf h)"

interpretation lf: bounded_hash bucket_inv_lf bucket_map_lf clht_bucket_search_lf put_chain_lf
  remove_bucket_lf "\<lambda>_. True" "\<lambda>v. v \<noteq> 0"
  shape_lf buckets_lf bin_lf "\<lambda>h. clht_get_lf (the (ht_lf h))" put_table_lf clht_remove_lf KEY_BUCKT upd_lf
proof unfold_locales
  fix h :: clht_lf and k :: u64
  assume "shape_lf h"
  then show "bin_lf h k < length (buckets_lf h)"
    using mask_bin_less [of "num_buckets_lf (the (ht_lf h))" k]
    by (auto simp: shape_lf_def bin_lf_def clht_hash_lf_def mask_bin_def buckets_lf_def)
next
  fix b :: bucket_lf and k v :: u64 and m :: mem
  assume b: "bucket_inv_lf b" and v: "v \<noteq> 0"
  note out = put_bucket_lf_eq [of b k v] search_lf_0_iff [OF b, of k] put_full_lf [OF b]
  { assume "bucket_map_lf b k \<noteq> None \<or> card (dom (bucket_map_lf b)) < KEY_BUCKT"
    with out show "\<exists>r b' m'. put_chain_lf b k v m = Done (r, b', m')"
      by (cases "snap_get_empty_index (snapshot_lf b)") (auto simp: put_chain_lf_def) }
  { assume "bucket_map_lf b k = None" "KEY_BUCKT \<le> card (dom (bucket_map_lf b))"
    with out show "put_chain_lf b k v m = Spins" by (simp add: put_chain_lf_def) }
next
  fix h :: clht_lf and k v :: u64 and m :: mem
  assume "shape_lf h"
  then show "put_table_lf h k v m = bind_outcome (put_chain_lf (buckets_lf h ! bin_lf h k) k v m)
      (\<lambda>(r, b, m'). Done (r, upd_lf h ((buckets_lf h)[bin_lf h k := b]), m'))"
    by (cases "put_bucket_lf (buckets_lf h ! bin_lf h k) k v")
      (auto simp: shape_lf_def put_table_lf_def clht_put_lf_def Let_def put_chain_lf_def buckets_lf_def bin_lf_def upd_lf_def)
qed (auto simp: bin_lf_def clht_hash_lf_def shape_lf_def Let_def buckets_lf_def put_table_lf_def
    put_chain_lf_def clht_put_lf_def clht_get_lf_def clht_remove_lf_def fun_eq_iff bind_outcome_Done_iff)

lemma inv_lf_eq: "inv_lf = lf.tinv" and map_lf_eq: "map_lf = lf.tmap"
  by (simp_all add: fun_eq_iff inv_lf_def map_lf_def lf.tinv_def lf.tmap_def)

text \<open>
  C26. The lock-free table, used by one thread, refines the abstract map. A run of lookups,
  insertions of values other than 0 and removals returns exactly when every insertion of an absent
  key finds fewer than three keys in its bucket; it has then given the map's answers and content.
  Any other run retries an insertion for ever. Any key may be used.
\<close>

theorem clht_lf_refines_map:
  assumes "inv_lf h" and "\<forall>x\<in>set xs. op_ok (\<lambda>_. True) (\<lambda>v. v \<noteq> 0) x"
  shows "let out = table_run (\<lambda>h. clht_get_lf (the (ht_lf h))) put_table_lf clht_remove_lf (h, m) xs
    in if fits_run (bin_has_room KEY_BUCKT (bin_lf h)) (map_lf h) xs
       then \<exists>rs h' m'. out = Done (rs, h', m') \<and> inv_lf h' \<and> kv_run (map_lf h) xs = (rs, map_lf h')
       else out = Spins"
  using lf.bounded.run_outcome [of h "bin_lf h" xs m] assms
  unfolding inv_lf_eq map_lf_eq Let_def by (auto split: if_splits)

text \<open>
  C27. The only call that does not return is an insertion of an absent key into a bucket whose
  three slots are in use; it retries for ever, and the table never faults.
\<close>

theorem clht_put_lf_outcome:
  assumes "inv_lf h"
  shows "(clht_put_lf h k v = Spins \<longleftrightarrow> map_lf h k = None \<and> full_lf (buckets_lf h ! bin_lf h k)) \<and>
    clht_put_lf h k v \<noteq> Faults"
proof -
  let ?b = "buckets_lf h ! bin_lf h k"
  from assms have ti: "lf.tinv h" by (simp add: inv_lf_eq)
  have inv: "bucket_inv_lf ?b" using lf.tinv_chain [OF ti] .
  have at: "map_lf h k = bucket_map_lf ?b k" by (simp add: map_lf_eq lf.tmap_at)
  from assms obtain t where t: "ht_lf h = Some t" by (auto simp: inv_lf_def shape_lf_def)
  have out: "clht_put_lf h k v = bind_outcome (put_bucket_lf ?b k v)
      (\<lambda>(r, b). Done (r, upd_lf h ((buckets_lf h)[bin_lf h k := b])))"
    by (simp add: clht_put_lf_def t Let_def buckets_lf_def bin_lf_def upd_lf_def)
  show ?thesis
    using put_bucket_lf_spins [OF inv, of k v]
    by (cases "put_bucket_lf ?b k v") (auto simp: out at put_bucket_lf_eq split: if_splits option.splits)
qed

section \<open>Creation, size, printing\<close>

lemma empty_bucket_lf_facts:
  "bucket_inv_lf empty_bucket_lf" "bucket_map_lf empty_bucket_lf = Map.empty"
proof -
  have no: "\<not> valid_lf empty_bucket_lf i" for i
    by (simp add: valid_lf_def empty_bucket_lf_def map_codes)
  then show "bucket_inv_lf empty_bucket_lf"
    by (simp add: bucket_inv_lf_def distinct_keys_lf_def) (simp add: empty_bucket_lf_def map_codes)
  show "bucket_map_lf empty_bucket_lf = Map.empty"
    using no by (auto simp: bucket_map_lf_None)
qed

lemma created_lf:
  fixes n :: u32
  assumes "n \<noteq> 0" and "ht_lf h = Some \<lparr>num_buckets_lf = ucast n, hash_lf = ucast (n - 1),
    table_lf = replicate (unat n) empty_bucket_lf\<rparr>"
  shows "inv_lf h \<and> map_lf h = Map.empty"
proof -
  have "ucast (n - 1) = (ucast n - 1 :: u64)"
    using assms(1) by (simp add: word_unat_eq_iff unat_ucast_u32 unat_pred)
  with assms have sh: "shape_lf h"
    using unat_bound [of n] unat_ucast_u32 [of n]
    by (auto simp: shape_lf_def unat_eq_zero [symmetric])
  have less: "bin_lf h k < unat n" for k
    using lf.hash_less [OF sh, of k] assms(2) by (simp add: buckets_lf_def)
  then show ?thesis
    using sh assms(2) empty_bucket_lf_facts
    by (auto simp: inv_lf_def map_lf_def chains_inv_def chains_map_def buckets_lf_def fun_eq_iff)
qed

text \<open>
  \<open>clht_create\<close> of the lock-free table returns NULL only when its first request for memory
  fails. When the bucket count is 0 or a later request fails, it returns a wrapper whose table
  pointer is NULL; otherwise the table is well formed and empty.
\<close>

theorem clht_create_lf_correct:
  "case clht_create_lf n m of
     (None, m') \<Rightarrow> live m' = live m \<and> fst (memalign m) = None
   | (Some h, m') \<Rightarrow>
       (case ht_lf h of
          None \<Rightarrow> live m' = live m + 1 \<and> (n = 0 \<or> \<not> ready 3 m)
        | Some t \<Rightarrow> live m' = live m + 3 \<and> n \<noteq> 0 \<and> inv_lf h \<and> map_lf h = Map.empty)"
  using created_lf [of n]
  by (auto simp: clht_create_lf_def clht_hashtable_create_lf_def memalign_def mfree_def ready_def Let_def
      split: prod.splits option.splits list.splits if_splits)

lemma finite_bucket_map_lf: "finite (dom (bucket_map_lf b))"
  by (simp add: bucket_map_slots finite_slots_map)

lemma bucket_size_lf_card:
  assumes "bucket_inv_lf b"
  shows "bucket_size_lf b = card (dom (nonzero_keys (bucket_map_lf b)))"
proof -
  have "bucket_size_lf b = length (filter (\<lambda>i. key_lf b ! i \<noteq> 0 \<and> valid_lf b i) [0..<KEY_BUCKT])"
    unfolding bucket_size_lf_def by (intro arg_cong [where f = length] filter_cong) (auto simp: valid_lf_def)
  with assms show ?thesis by (simp add: slots_size bucket_slots bucket_inv_lf_def)
qed

text \<open>
  \<open>clht_size\<close> of the lock-free table is the number of keys other than 0 that it maps.
\<close>

theorem clht_size_lf_correct:
  assumes "inv_lf h" and "ht_lf h = Some t"
  shows "unat (clht_size_lf t) = card (dom (nonzero_keys (map_lf h)))"
proof -
  from assms have sh: "shape_lf h"
    and ci: "chains_inv bucket_inv_lf bucket_map_lf (bin_lf h) (buckets_lf h)"
    by (auto simp: inv_lf_def)
  have "unat (ucast (num_buckets_lf t) :: u32) = length (buckets_lf h)" and "buckets_lf h = table_lf t"
    using sh assms(2)
    by (auto simp: shape_lf_def buckets_lf_def unsigned_ucast_eq take_bit_nat_eq_self)
  then have "clht_size_lf t = of_nat (\<Sum>b\<leftarrow>buckets_lf h. bucket_size_lf b)"
    unfolding clht_size_lf_def Let_def by (simp add: map_index_eq)
  with chains_size [OF ci lf.hash_less [OF sh] bucket_size_lf_card finite_bucket_map_lf] show ?thesis
    by (simp add: map_lf_def)
qed

lemma print_bucket_lf_Some: "print_bucket_lf bucket out = Some r \<Longrightarrow> bucket = None"
  by (rule print_bucket_lf.raw_induct [where P = "\<lambda>bucket _ _. bucket = None", rotated])
    (auto split: option.splits)

lemma print_bucket_lf_never: "print_bucket_lf (Some b) out = None"
  using print_bucket_lf_Some [of "Some b" out] by (cases "print_bucket_lf (Some b) out") auto

text \<open>
  \<open>clht_print\<close> of the lock-free table does not return on any table that has a bucket: the
  loop over the chain of a bucket never moves its pointer.
\<close>

theorem clht_print_lf_never_returns:
  "clht_print_lf bs = (if bs = [] then Some [] else None)"
  by (cases bs) (simp_all add: print_bucket_lf_never)

section \<open>Witnesses\<close>

definition example_lf :: clht_lf where
  "example_lf = \<lparr>ht_lf = Some \<lparr>num_buckets_lf = 1, hash_lf = 0, table_lf = [empty_bucket_lf]\<rparr>\<rparr>"

lemma example_lf_inv: "inv_lf example_lf" "map_lf example_lf = Map.empty"
  using created_lf [of 1 example_lf] by (simp_all add: example_lf_def)

theorem clht_lf_refines_map_witness:
  "let out = table_run (\<lambda>h. clht_get_lf (the (ht_lf h))) put_table_lf clht_remove_lf
      (example_lf, example_mem) [Put 5 50, Put 7 70, Get 5, Remove 5, Get 5]
    in if fits_run (bin_has_room KEY_BUCKT (bin_lf example_lf)) (map_lf example_lf)
         [Put 5 50, Put 7 70, Get 5, Remove 5, Get 5]
       then \<exists>rs h' m'. out = Done (rs, h', m') \<and> inv_lf h' \<and>
         kv_run (map_lf example_lf) [Put 5 50, Put 7 70, Get 5, Remove 5, Get 5] = (rs, map_lf h')
       else out = Spins"
  by (rule clht_lf_refines_map) (simp_all add: example_lf_inv)

theorem clht_put_lf_outcome_witness:
  "(clht_put_lf example_lf 5 50 = Spins \<longleftrightarrow> map_lf example_lf 5 = None \<and>
      full_lf (buckets_lf example_lf ! bin_lf example_lf 5)) \<and> clht_put_lf example_lf 5 50 \<noteq> Faults"
  by (rule clht_put_lf_outcome) (rule example_lf_inv)

theorem clht_create_lf_correct_witness:
  "case clht_create_lf 0 example_mem of
     (None, m') \<Rightarrow> live m' = live example_mem \<and> fst (memalign example_mem) = None
   | (Some h, m') \<Rightarrow>
       (case ht_lf h of
          None \<Rightarrow> live m' = live example_mem + 1 \<and> ((0::u32) = 0 \<or> \<not> ready 3 example_mem)
        | Some t \<Rightarrow> live m' = live example_mem + 3 \<and> (0::u32) \<noteq> 0 \<and> inv_lf h \<and> map_lf h = Map.empty)"
  by (rule clht_create_lf_correct)

theorem clht_size_lf_correct_witness:
  "unat (clht_size_lf (the (ht_lf example_lf))) = card (dom (nonzero_keys (map_lf example_lf)))"
  by (rule clht_size_lf_correct) (rule example_lf_inv, simp add: example_lf_def)

end
