(* ===== verification/Clht_lf_steps.thy ===== *)
theory Clht_lf_steps
  imports Clht_lf Step_system
begin

text \<open>
  \<open>clht_get\<close>, \<open>clht_put\<close> and \<open>clht_remove\<close> of \<open>src/src/clht/src/clht_lf.c\<close> on one bucket, one
  access to shared memory per step, for any number of threads: the functions of theory Clht_lf
  cut at every load, store and compare-and-swap of the bucket. Memory is sequentially
  consistent; the compare-and-swaps and the fences of the source order the accesses that matter
  on the machines the code supports.
\<close>

section \<open>One thread\<close>

text \<open>Who called \<open>clht_bucket_search\<close>: \<open>clht_get\<close>, or \<open>clht_put\<close> with its \<open>s\<close> and \<open>empty_index\<close>.\<close>

datatype search_ctx = CGet u64 | CPut u64 u64 u64 "nat option"

text \<open>
  The point a thread has reached and its local variables. \<open>Find_\<dots>\<close> are the four loads of
  \<open>clht_bucket_search\<close> for slot \<open>i\<close> (\<open>val\<close>, \<open>map\<close>, \<open>key\<close>, \<open>val\<close> again, with the first value in
  \<open>w\<close>); \<open>Returned\<close> holds the operation and its result.
\<close>

datatype lf_local =
    Ready
  | Find_val search_ctx nat
  | Find_map search_ctx nat u64
  | Find_key search_ctx nat u64
  | Find_val2 search_ctx nat u64
  | Put_read u64 u64 "nat option"
  | Put_undo u64 u64 nat
  | Put_cas1 u64 u64 u64 nat
  | Put_wval u64 u64 u64 nat
  | Put_wkey u64 u64 u64 nat
  | Put_cas2 u64 u64 u64 nat
  | Rem_read u64
  | Rem_key u64 u64 nat
  | Rem_val u64 u64 nat
  | Rem_cas u64 u64 nat u64
  | Returned kv_op kv_res

fun lf_start :: "kv_op \<Rightarrow> lf_local" where
  "lf_start (Get k) = Find_val (CGet k) 0"
| "lf_start (Put k v) = Put_read k v None"
| "lf_start (Remove k) = Rem_read k"

text \<open>What follows when \<open>clht_bucket_search\<close> returns \<open>w\<close>.\<close>

fun search_done :: "search_ctx \<Rightarrow> u64 \<Rightarrow> lf_local" where
  "search_done (CGet k) w = Returned (Get k) (RVal w)"
| "search_done (CPut k v s eo) w =
     (if w \<noteq> 0 then
        (case eo of Some e \<Rightarrow> Put_undo k v e | None \<Rightarrow> Returned (Put k v) (RBool False))
      else
        (case eo of
           Some e \<Rightarrow> Put_cas2 k v (snap_set_map s e MAP_INSRT) e
         | None \<Rightarrow>
             (case snap_get_empty_index s of
                None \<Rightarrow> Put_read k v None
              | Some e \<Rightarrow> Put_cas1 k v s e)))"

fun search_key :: "search_ctx \<Rightarrow> u64" where
  "search_key (CGet k) = k"
| "search_key (CPut k v s eo) = k"

definition search_next :: "search_ctx \<Rightarrow> nat \<Rightarrow> lf_local" where
  "search_next c i = (if Suc i < KEY_BUCKT then Find_val c (Suc i) else search_done c 0)"

definition remove_next :: "u64 \<Rightarrow> u64 \<Rightarrow> nat \<Rightarrow> lf_local" where
  "remove_next k s i = (if Suc i < KEY_BUCKT then Rem_key k s (Suc i) else Returned (Remove k) (RVal 0))"

fun lf_step :: "lf_local \<Rightarrow> bucket_lf \<Rightarrow> lf_local \<times> bucket_lf" where
  "lf_step Ready b = (Ready, b)"
| "lf_step (Find_val c i) b = (Find_map c i (val_lf b ! i), b)"
| "lf_step (Find_map c i w) b =
     (if snap_map (snapshot_lf b) i = MAP_VALID then Find_key c i w else search_next c i, b)"
| "lf_step (Find_key c i w) b =
     (if key_lf b ! i = search_key c then Find_val2 c i w else search_next c i, b)"
| "lf_step (Find_val2 c i w) b = (search_done c (if val_lf b ! i = w then w else 0), b)"
| "lf_step (Put_read k v eo) b = (Find_val (CPut k v (snapshot_lf b) eo) 0, b)"
| "lf_step (Put_undo k v e) b =
     (Returned (Put k v) (RBool False), b\<lparr>snapshot_lf := snap_set_map (snapshot_lf b) e MAP_INVLD\<rparr>)"
| "lf_step (Put_cas1 k v s e) b =
     (let s1 = snap_set_map s e MAP_INSRT; (old, new) = CAS (snapshot_lf b) s s1
      in (if old = s then Put_wval k v s1 e else Put_read k v None, b\<lparr>snapshot_lf := new\<rparr>))"
| "lf_step (Put_wval k v s1 e) b = (Put_wkey k v s1 e, b\<lparr>val_lf := (val_lf b)[e := v]\<rparr>)"
| "lf_step (Put_wkey k v s1 e) b = (Put_cas2 k v s1 e, b\<lparr>key_lf := (key_lf b)[e := k]\<rparr>)"
| "lf_step (Put_cas2 k v s1 e) b =
     (let s2 = snap_set_map_and_inc_version s1 e MAP_VALID; (old, new) = CAS (snapshot_lf b) s1 s2
      in (if old = s1 then Returned (Put k v) (RBool True) else Put_read k v (Some e),
          b\<lparr>snapshot_lf := new\<rparr>))"
| "lf_step (Rem_read k) b = (Rem_key k (snapshot_lf b) 0, b)"
| "lf_step (Rem_key k s i) b =
     (if key_lf b ! i = k \<and> snap_map s i = MAP_VALID then Rem_val k s i else remove_next k s i, b)"
| "lf_step (Rem_val k s i) b = (Rem_cas k s i (val_lf b ! i), b)"
| "lf_step (Rem_cas k s i w) b =
     (let s1 = snap_set_map s i MAP_INVLD; (old, new) = CAS (snapshot_lf b) s s1
      in (if old = s then Returned (Remove k) (RVal w) else Rem_read k, b\<lparr>snapshot_lf := new\<rparr>))"
| "lf_step (Returned x r) b = (Returned x r, b)"

section \<open>All threads\<close>

text \<open>
  Two fields watch the run and do not influence it: \<open>inserts\<close> counts the insertions that have
  taken effect, and \<open>absent t\<close> says that the key of thread \<open>t\<close>'s call was not in the map at
  some moment since the call began.
\<close>

record lf_config =
  shared :: bucket_lf
  local :: "nat \<Rightarrow> lf_local"
  inserts :: nat
  absent :: "nat \<Rightarrow> bool"

fun ctx_op :: "search_ctx \<Rightarrow> kv_op" where
  "ctx_op (CGet k) = Get k"
| "ctx_op (CPut k v s eo) = Put k v"

text \<open>The operation a thread is executing.\<close>

fun lf_op :: "lf_local \<Rightarrow> kv_op option" where
  "lf_op Ready = None"
| "lf_op (Find_val c i) = Some (ctx_op c)"
| "lf_op (Find_map c i w) = Some (ctx_op c)"
| "lf_op (Find_key c i w) = Some (ctx_op c)"
| "lf_op (Find_val2 c i w) = Some (ctx_op c)"
| "lf_op (Put_read k v eo) = Some (Put k v)"
| "lf_op (Put_undo k v e) = Some (Put k v)"
| "lf_op (Put_cas1 k v s e) = Some (Put k v)"
| "lf_op (Put_wval k v s e) = Some (Put k v)"
| "lf_op (Put_wkey k v s e) = Some (Put k v)"
| "lf_op (Put_cas2 k v s e) = Some (Put k v)"
| "lf_op (Rem_read k) = Some (Remove k)"
| "lf_op (Rem_key k s i) = Some (Remove k)"
| "lf_op (Rem_val k s i) = Some (Remove k)"
| "lf_op (Rem_cas k s i w) = Some (Remove k)"
| "lf_op (Returned x r) = None"

definition lf_call :: "nat \<Rightarrow> kv_op \<Rightarrow> lf_config \<Rightarrow> lf_config" where
  "lf_call t x c = c\<lparr>local := (local c)(t := lf_start x),
     absent := (absent c)(t := bucket_map_lf (shared c) (op_key x) = None)\<rparr>"

definition lf_run :: "nat \<Rightarrow> lf_config \<Rightarrow> lf_config" where
  "lf_run t c =
     (let (l, b) = lf_step (local c t) (shared c)
      in \<lparr>shared = b, local = (local c)(t := l),
          inserts = inserts c + (if snap_version (snapshot_lf b) = snap_version (snapshot_lf (shared c)) then 0 else 1),
          absent = (\<lambda>u. absent c u \<or>
            (case lf_op (local c u) of None \<Rightarrow> False | Some x \<Rightarrow> bucket_map_lf b (op_key x) = None))\<rparr>)"

definition lf_return :: "nat \<Rightarrow> lf_config \<Rightarrow> lf_config" where
  "lf_return t c = c\<lparr>local := (local c)(t := Ready)\<rparr>"

text \<open>
  A step of the system: a thread calls an operation, executes one access of its operation, or
  goes on after it has returned. Values inserted are not 0.
\<close>

inductive lf_conc :: "lf_config \<Rightarrow> lf_config \<Rightarrow> bool" where
  call: "local c t = Ready \<Longrightarrow> op_ok (\<lambda>_. True) (\<lambda>v. v \<noteq> 0) x \<Longrightarrow> lf_conc c (lf_call t x c)"
| run: "lf_op (local c t) \<noteq> None \<Longrightarrow> lf_conc c (lf_run t c)"
| return: "local c t = Returned x r \<Longrightarrow> lf_conc c (lf_return t c)"

definition lf_init :: "lf_config \<Rightarrow> bool" where
  "lf_init c \<longleftrightarrow> shared c = empty_bucket_lf \<and> local c = (\<lambda>_. Ready) \<and> inserts c = 0"

abbreviation lf_reachable :: "lf_config \<Rightarrow> bool" where
  "lf_reachable \<equiv> reachable lf_init lf_conc"

inductive_cases lf_concE: "lf_conc c c'"

section \<open>A thread on its own\<close>

text \<open>
  With no other thread the steps add up to the functions of theory Clht_lf: the two models of the
  source agree.
\<close>

inductive lf_solo :: "lf_local \<times> bucket_lf \<Rightarrow> lf_local \<times> bucket_lf \<Rightarrow> bool" where
  stop: "lf_solo x x"
| step: "lf_solo (lf_step l b) y \<Longrightarrow> lf_solo (l, b) y"

lemmas solo_search =
  lf_solo.step [of "Find_val c i" for c i] lf_solo.step [of "Find_map c i w" for c i w]
  lf_solo.step [of "Find_key c i w" for c i w] lf_solo.step [of "Find_val2 c i w" for c i w]

lemmas solo_update =
  lf_solo.step [of "Put_read k v eo" for k v eo] lf_solo.step [of "Put_cas1 k v s e" for k v s e]
  lf_solo.step [of "Put_wval k v s e" for k v s e] lf_solo.step [of "Put_wkey k v s e" for k v s e]
  lf_solo.step [of "Put_cas2 k v s e" for k v s e] lf_solo.step [of "Rem_read k" for k]
  lf_solo.step [of "Rem_key k s i" for k s i] lf_solo.step [of "Rem_val k s i" for k s i]
  lf_solo.step [of "Rem_cas k s i w" for k s i w]

lemma search_solo:
  assumes "i < KEY_BUCKT"
    and "lf_solo (search_done c (search_lf b (search_key c) [i..<KEY_BUCKT]), b) y"
  shows "lf_solo (Find_val c i, b) y"
  using assms
proof (induction "KEY_BUCKT - i" arbitrary: i)
  case (Suc n)
  have up: "[i..<KEY_BUCKT] = i # [Suc i..<KEY_BUCKT]" using Suc.prems by (simp add: upt_conv_Cons)
  have rest: "lf_solo (search_next c i, b) y"
    if "lf_solo (search_done c (search_lf b (search_key c) [Suc i..<KEY_BUCKT]), b) y"
    using that Suc.hyps(1) [of "Suc i"] Suc.hyps(2) Suc.prems by (auto simp: search_next_def)
  show ?case
    using Suc.prems(2) rest unfolding up
    by (auto intro!: solo_search split: if_splits)
qed simp

lemma remove_solo:
  assumes "i < KEY_BUCKT" and "remove_loop_lf b s k [i..<KEY_BUCKT] = Done (r, b')" and "snapshot_lf b = s"
  shows "lf_solo (Rem_key k s i, b) (Returned (Remove k) (RVal r), b')"
  using assms
proof (induction "KEY_BUCKT - i" arbitrary: i)
  case (Suc n)
  have up: "[i..<KEY_BUCKT] = i # [Suc i..<KEY_BUCKT]" using Suc.prems by (simp add: upt_conv_Cons)
  have rest: "lf_solo (remove_next k s i, b) (Returned (Remove k) (RVal r), b')"
    if "remove_loop_lf b s k [Suc i..<KEY_BUCKT] = Done (r, b')"
    using that Suc.hyps(1) [of "Suc i"] Suc.hyps(2) Suc.prems(3)
    by (auto simp: remove_next_def intro: lf_solo.stop)
  show ?case
    using Suc.prems(2,3) rest unfolding up
    by (auto simp: CAS_def Let_def lf_solo.stop intro!: solo_update split: if_splits)
qed simp

text \<open>
  C13. A thread that runs alone performs the sequential functions: whenever one of them returns,
  the steps of the call lead to the same result and the same bucket.
\<close>

theorem clht_lf_solo_run:
  "lf_solo (lf_start (Get k), b) (Returned (Get k) (RVal (clht_bucket_search_lf b k)), b) \<and>
   (\<forall>r b'. put_bucket_lf b k v = Done (r, b') \<longrightarrow>
      lf_solo (lf_start (Put k v), b) (Returned (Put k v) (RBool r), b')) \<and>
   (\<forall>r b'. remove_bucket_lf b k = Done (r, b') \<longrightarrow>
      lf_solo (lf_start (Remove k), b) (Returned (Remove k) (RVal r), b'))"
proof (intro conjI allI impI)
  have K: "0 < KEY_BUCKT" by (simp add: KEY_BUCKT_def)
  show "lf_solo (lf_start (Get k), b) (Returned (Get k) (RVal (clht_bucket_search_lf b k)), b)"
    using search_solo [OF K, of "CGet k" b] by (simp add: clht_bucket_search_lf_def lf_solo.stop)
  show "lf_solo (lf_start (Put k v), b) (Returned (Put k v) (RBool r), b')"
    if "put_bucket_lf b k v = Done (r, b')" for r b'
  proof -
    let ?c = "CPut k v (snapshot_lf b) None"
    have "lf_solo (search_done ?c (clht_bucket_search_lf b k), b) (Returned (Put k v) (RBool r), b')"
      using that by (auto simp: put_bucket_lf_def CAS_def Let_def lf_solo.stop intro!: solo_update
          split: if_splits option.splits)
    with search_solo [OF K, of ?c b] show ?thesis
      by (auto simp: clht_bucket_search_lf_def intro!: solo_update)
  qed
  show "lf_solo (lf_start (Remove k), b) (Returned (Remove k) (RVal r), b')"
    if "remove_bucket_lf b k = Done (r, b')" for r b'
    using remove_solo [OF K, of b "snapshot_lf b" k r b'] that
    by (auto simp: remove_bucket_lf_def Let_def intro!: solo_update)
qed

theorem clht_lf_solo_run_witness:
  "\<exists>b'. put_bucket_lf empty_bucket_lf 9 5 = Done (True, b') \<and>
    lf_solo (lf_start (Put 9 5), empty_bucket_lf) (Returned (Put 9 5) (RBool True), b')"
proof -
  have "case put_bucket_lf empty_bucket_lf 9 5 of Done (r, b') \<Rightarrow> r | _ \<Rightarrow> False" by code_simp
  then obtain b' where b': "put_bucket_lf empty_bucket_lf 9 5 = Done (True, b')"
    by (auto split: outcome.splits)
  from clht_lf_solo_run [of 9 empty_bucket_lf 5] b' show ?thesis by blast
qed

end
