(* ===== verification/Clht_lf_conc.thy ===== *)
theory Clht_lf_conc
  imports Clht_lf_steps
begin

text \<open>
  Any number of threads on one lock-free bucket: what each thread may rely on at each point of
  its operation, that every step of another thread keeps it, and the invariant that follows.
\<close>

section \<open>What a step of one thread may do to the bucket\<close>

abbreviation ver :: "bucket_lf \<Rightarrow> u32" where
  "ver b \<equiv> snap_version (snapshot_lf b)"

abbreviation slot_map :: "bucket_lf \<Rightarrow> nat \<Rightarrow> u8" where
  "slot_map b i \<equiv> snap_map (snapshot_lf b) i"

text \<open>
  Versions grow, a slot becomes valid only together with a new version, and a valid slot keeps
  its key and value.
\<close>

definition forward :: "bucket_lf \<Rightarrow> bucket_lf \<Rightarrow> bool" where
  "forward b b' \<longleftrightarrow> unat (ver b) \<le> unat (ver b') \<and>
     (ver b' = ver b \<longrightarrow> (\<forall>i. valid_lf b' i \<longrightarrow> valid_lf b i)) \<and>
     (\<forall>i. valid_lf b i \<longrightarrow> key_lf b' ! i = key_lf b ! i \<and> val_lf b' ! i = val_lf b ! i)"

definition keeps :: "bucket_lf \<Rightarrow> bucket_lf \<Rightarrow> nat \<Rightarrow> bool" where
  "keeps b b' e \<longleftrightarrow> slot_map b' e = slot_map b e \<and> key_lf b' ! e = key_lf b ! e \<and> val_lf b' ! e = val_lf b ! e"

lemma forward_refl: "forward b b"
  by (simp add: forward_def)

lemma keeps_refl: "keeps b b e"
  by (simp add: keeps_def)

section \<open>What a thread relies on\<close>

text \<open>A slot that was valid in the snapshot \<open>s\<close> is not valid any more.\<close>

definition lost :: "bucket_lf \<Rightarrow> u64 \<Rightarrow> bool" where
  "lost b s \<longleftrightarrow> (\<exists>i<KEY_BUCKT. snap_map s i = MAP_VALID \<and> \<not> valid_lf b i)"

definition seen :: "bucket_lf \<Rightarrow> u64 \<Rightarrow> bool" where
  "seen b s \<longleftrightarrow> unat (snap_version s) \<le> unat (ver b) \<and>
     (ver b = snap_version s \<longrightarrow> (\<forall>i. valid_lf b i \<longrightarrow> snap_map s i = MAP_VALID))"

text \<open>The first \<open>n\<close> slots were searched for \<open>k\<close> since \<open>s\<close> was read.\<close>

definition searched :: "bucket_lf \<Rightarrow> u64 \<Rightarrow> u64 \<Rightarrow> nat \<Rightarrow> bool" where
  "searched b s k n \<longleftrightarrow> (ver b = snap_version s \<longrightarrow>
     (\<forall>i<n. valid_lf b i \<longrightarrow> key_lf b ! i \<noteq> k) \<or> lost b s)"

definition val_seen :: "bucket_lf \<Rightarrow> u64 \<Rightarrow> nat \<Rightarrow> u64 \<Rightarrow> bool" where
  "val_seen b s i w \<longleftrightarrow> (ver b = snap_version s \<longrightarrow> valid_lf b i \<longrightarrow> val_lf b ! i = w)"

definition key_seen :: "bucket_lf \<Rightarrow> u64 \<Rightarrow> nat \<Rightarrow> u64 \<Rightarrow> bool" where
  "key_seen b s i k \<longleftrightarrow> (ver b = snap_version s \<longrightarrow> valid_lf b i \<longrightarrow> key_lf b ! i = k)"

definition valid_seen :: "bucket_lf \<Rightarrow> u64 \<Rightarrow> nat \<Rightarrow> u64 \<Rightarrow> bool" where
  "valid_seen b s i w \<longleftrightarrow> (ver b = snap_version s \<longrightarrow> (valid_lf b i \<and> val_lf b ! i = w) \<or> lost b s)"

lemma seen_forward:
  assumes "seen b s" and "forward b b'"
  shows "ver b' = snap_version s \<Longrightarrow> ver b = snap_version s \<and> (\<forall>i. valid_lf b' i \<longrightarrow> valid_lf b i)"
    and "seen b' s"
proof -
  show *: "ver b' = snap_version s \<Longrightarrow> ver b = snap_version s \<and> (\<forall>i. valid_lf b' i \<longrightarrow> valid_lf b i)"
    using assms by (auto simp: seen_def forward_def word_unat_eq_iff)
  show "seen b' s"
    using assms * by (auto simp: seen_def forward_def)
qed

text \<open>Each of the facts survives the steps of other threads.\<close>

lemma lost_forward: "lost b s \<Longrightarrow> \<forall>i. valid_lf b' i \<longrightarrow> valid_lf b i \<Longrightarrow> lost b' s"
  by (auto simp: lost_def)

lemma forward_slot:
  "forward b b' \<Longrightarrow> valid_lf b i \<Longrightarrow> key_lf b' ! i = key_lf b ! i"
  "forward b b' \<Longrightarrow> valid_lf b i \<Longrightarrow> val_lf b' ! i = val_lf b ! i"
  by (simp_all add: forward_def)

lemma searched_forward:
  assumes "seen b s" and "forward b b'" and "searched b s k n"
  shows "searched b' s k n"
  unfolding searched_def
proof
  assume v: "ver b' = snap_version s"
  from seen_forward(1) [OF assms(1,2) v] have
    vb: "ver b = snap_version s" and mono: "\<forall>i. valid_lf b' i \<longrightarrow> valid_lf b i" by auto
  from assms(3) vb have "(\<forall>i<n. valid_lf b i \<longrightarrow> key_lf b ! i \<noteq> k) \<or> lost b s" by (simp add: searched_def)
  with mono lost_forward [of b s b'] forward_slot(1) [OF assms(2)]
  show "(\<forall>i<n. valid_lf b' i \<longrightarrow> key_lf b' ! i \<noteq> k) \<or> lost b' s" by metis
qed

lemma val_seen_forward:
  assumes "seen b s" and "forward b b'" and "val_seen b s i w"
  shows "val_seen b' s i w"
  unfolding val_seen_def
proof (intro impI)
  assume v: "ver b' = snap_version s" and "valid_lf b' i"
  with seen_forward(1) [OF assms(1,2) v] assms(3) forward_slot(2) [OF assms(2)]
  show "val_lf b' ! i = w" by (simp add: val_seen_def)
qed

lemma key_seen_forward:
  assumes "seen b s" and "forward b b'" and "key_seen b s i k"
  shows "key_seen b' s i k"
  unfolding key_seen_def
proof (intro impI)
  assume v: "ver b' = snap_version s" and "valid_lf b' i"
  with seen_forward(1) [OF assms(1,2) v] assms(3) forward_slot(1) [OF assms(2)]
  show "key_lf b' ! i = k" by (simp add: key_seen_def)
qed

lemma valid_seen_forward:
  assumes "seen b s" and "forward b b'" and "valid_seen b s i w"
  shows "valid_seen b' s i w"
  unfolding valid_seen_def
proof
  assume v: "ver b' = snap_version s"
  from seen_forward(1) [OF assms(1,2) v] have
    vb: "ver b = snap_version s" and mono: "\<forall>i. valid_lf b' i \<longrightarrow> valid_lf b i" by auto
  show "(valid_lf b' i \<and> val_lf b' ! i = w) \<or> lost b' s"
  proof (cases "lost b s")
    case True
    with lost_forward mono show ?thesis by blast
  next
    case False
    with assms(3) vb have *: "valid_lf b i" "val_lf b ! i = w" by (auto simp: valid_seen_def)
    with assms(1) vb have "snap_map s i = MAP_VALID" by (simp add: seen_def)
    with * assms(2) show ?thesis
      by (cases "valid_lf b' i") (auto simp: lost_def forward_def dest: valid_lf_less)
  qed
qed

text \<open>The slot a thread has reserved for its entry, and what it has written there.\<close>

definition filled :: "bucket_lf \<Rightarrow> u64 \<Rightarrow> u64 \<Rightarrow> nat \<Rightarrow> bool" where
  "filled b k v e \<longleftrightarrow> e < KEY_BUCKT \<and> slot_map b e = MAP_INSRT \<and> key_lf b ! e = k \<and> val_lf b ! e = v"

fun ctx_ok :: "bucket_lf \<Rightarrow> search_ctx \<Rightarrow> nat \<Rightarrow> bool" where
  "ctx_ok b (CGet k) i = True"
| "ctx_ok b (CPut k v s eo) i = (v \<noteq> 0 \<and> seen b s \<and> searched b s k i \<and>
     (\<forall>e. eo = Some e \<longrightarrow> filled b k v e \<and> snap_map s e = MAP_INSRT))"

fun ctx_val_seen :: "bucket_lf \<Rightarrow> search_ctx \<Rightarrow> nat \<Rightarrow> u64 \<Rightarrow> bool" where
  "ctx_val_seen b (CGet k) i w = True"
| "ctx_val_seen b (CPut k v s eo) i w = val_seen b s i w"

fun ctx_valid_seen :: "bucket_lf \<Rightarrow> search_ctx \<Rightarrow> nat \<Rightarrow> u64 \<Rightarrow> bool" where
  "ctx_valid_seen b (CGet k) i w = True"
| "ctx_valid_seen b (CPut k v s eo) i w = valid_seen b s i w"

fun relies :: "bucket_lf \<Rightarrow> lf_local \<Rightarrow> bool" where
  "relies b Ready = True"
| "relies b (Find_val c i) = (i < KEY_BUCKT \<and> ctx_ok b c i)"
| "relies b (Find_map c i w) = (i < KEY_BUCKT \<and> ctx_ok b c i \<and> ctx_val_seen b c i w)"
| "relies b (Find_key c i w) = (i < KEY_BUCKT \<and> ctx_ok b c i \<and> ctx_valid_seen b c i w)"
| "relies b (Find_val2 c i w) = (i < KEY_BUCKT \<and> ctx_ok b c i \<and> ctx_valid_seen b c i w)"
| "relies b (Put_read k v eo) = (v \<noteq> 0 \<and> (\<forall>e. eo = Some e \<longrightarrow> filled b k v e))"
| "relies b (Put_undo k v e) = filled b k v e"
| "relies b (Put_cas1 k v s e) = (v \<noteq> 0 \<and> e < KEY_BUCKT \<and> snap_map s e = MAP_INVLD \<and> seen b s \<and>
     searched b s k KEY_BUCKT)"
| "relies b (Put_wval k v s e) = (v \<noteq> 0 \<and> e < KEY_BUCKT \<and> slot_map b e = MAP_INSRT \<and>
     snap_map s e = MAP_INSRT \<and> seen b s \<and> searched b s k KEY_BUCKT)"
| "relies b (Put_wkey k v s e) = (v \<noteq> 0 \<and> e < KEY_BUCKT \<and> slot_map b e = MAP_INSRT \<and> val_lf b ! e = v \<and>
     snap_map s e = MAP_INSRT \<and> seen b s \<and> searched b s k KEY_BUCKT)"
| "relies b (Put_cas2 k v s e) = (v \<noteq> 0 \<and> filled b k v e \<and>
     snap_map s e = MAP_INSRT \<and> seen b s \<and> searched b s k KEY_BUCKT)"
| "relies b (Rem_read k) = True"
| "relies b (Rem_key k s i) = (i < KEY_BUCKT \<and> seen b s)"
| "relies b (Rem_val k s i) = (i < KEY_BUCKT \<and> snap_map s i = MAP_VALID \<and> seen b s \<and> key_seen b s i k)"
| "relies b (Rem_cas k s i w) = (i < KEY_BUCKT \<and> snap_map s i = MAP_VALID \<and> seen b s \<and>
     key_seen b s i k \<and> val_seen b s i w)"
| "relies b (Returned x r) = True"

fun ctx_owns :: "search_ctx \<Rightarrow> nat option" where
  "ctx_owns (CGet k) = None"
| "ctx_owns (CPut k v s eo) = eo"

fun owns :: "lf_local \<Rightarrow> nat option" where
  "owns (Find_val c i) = ctx_owns c"
| "owns (Find_map c i w) = ctx_owns c"
| "owns (Find_key c i w) = ctx_owns c"
| "owns (Find_val2 c i w) = ctx_owns c"
| "owns (Put_read k v eo) = eo"
| "owns (Put_undo k v e) = Some e"
| "owns (Put_wval k v s e) = Some e"
| "owns (Put_wkey k v s e) = Some e"
| "owns (Put_cas2 k v s e) = Some e"
| "owns l = None"

lemmas forward_rules = searched_forward val_seen_forward key_seen_forward valid_seen_forward
  seen_forward(2)

lemma filled_keeps: "filled b k v e \<Longrightarrow> keeps b b' e \<Longrightarrow> filled b' k v e"
  by (auto simp: filled_def keeps_def)

lemma ctx_forward:
  assumes "forward b b'"
  shows "(\<And>e. ctx_owns c = Some e \<Longrightarrow> keeps b b' e) \<Longrightarrow> ctx_ok b c i \<Longrightarrow> ctx_ok b' c i"
    and "ctx_ok b c i \<Longrightarrow> ctx_val_seen b c i w \<Longrightarrow> ctx_val_seen b' c i w"
    and "ctx_ok b c i \<Longrightarrow> ctx_valid_seen b c i w \<Longrightarrow> ctx_valid_seen b' c i w"
  using assms by (cases c; auto intro: forward_rules filled_keeps)+

lemma relies_forward:
  assumes "forward b b'" and "\<And>e. owns l = Some e \<Longrightarrow> keeps b b' e" and "relies b l"
  shows "relies b' l"
proof -
  note rules = forward_rules [OF _ assms(1)] ctx_forward [OF assms(1)] filled_keeps [OF _ assms(2)]
  show ?thesis
    using assms(2,3) rules by (cases l) (auto simp: keeps_def filled_def seen_forward(2) [OF _ assms(1)])
qed

section \<open>The bucket\<close>

definition bucket_conc_inv :: "bucket_lf \<Rightarrow> bool" where
  "bucket_conc_inv b \<longleftrightarrow> length (key_lf b) = KEY_BUCKT \<and> length (val_lf b) = KEY_BUCKT \<and>
     (\<forall>i<KEY_BUCKT. slot_map b i \<in> {MAP_INVLD, MAP_VALID, MAP_INSRT}) \<and>
     (\<forall>i. valid_lf b i \<longrightarrow> val_lf b ! i \<noteq> 0) \<and> distinct_keys_lf b"

lemma quiet_bucket: "bucket_inv_lf b \<Longrightarrow> bucket_conc_inv b"
  by (auto simp: bucket_inv_lf_def bucket_conc_inv_def dest: valid_lf_less)

text \<open>Only slot \<open>e\<close> changes.\<close>

definition touches :: "bucket_lf \<Rightarrow> bucket_lf \<Rightarrow> nat \<Rightarrow> bool" where
  "touches b b' e \<longleftrightarrow> e < KEY_BUCKT \<and> (\<forall>i<KEY_BUCKT. i \<noteq> e \<longrightarrow> keeps b b' i) \<and>
     length (key_lf b') = length (key_lf b) \<and> length (val_lf b') = length (val_lf b)"

lemma touches_valid: "touches b b' e \<Longrightarrow> i \<noteq> e \<Longrightarrow> valid_lf b' i = valid_lf b i"
  by (auto simp: touches_def keeps_def valid_lf_def)

lemma touches_slot:
  assumes "touches b b' e" and "i \<noteq> e" and "i < KEY_BUCKT"
  shows "key_lf b' ! i = key_lf b ! i" and "val_lf b' ! i = val_lf b ! i" and "slot_map b' i = slot_map b i"
  using assms by (auto simp: touches_def keeps_def)

text \<open>A slot is reserved, written while reserved, given up, or removed.\<close>

lemma quiet_change:
  assumes t: "touches b b' e" and v: "ver b' = ver b" and n: "\<not> valid_lf b' e"
    and code: "slot_map b' e \<in> {MAP_INVLD, MAP_VALID, MAP_INSRT}"
    and slot: "valid_lf b e \<Longrightarrow> key_lf b' ! e = key_lf b ! e \<and> val_lf b' ! e = val_lf b ! e"
  shows "forward b b'" and "bucket_conc_inv b \<Longrightarrow> bucket_conc_inv b'"
proof -
  have val: "valid_lf b' i \<Longrightarrow> valid_lf b i \<and> i \<noteq> e" for i
    using touches_valid [OF t, of i] n by (cases "i = e") auto
  have same: "key_lf b' ! i = key_lf b ! i \<and> val_lf b' ! i = val_lf b ! i" if "valid_lf b i" for i
    using that slot touches_slot [OF t, of i] valid_lf_less [OF that] by (cases "i = e") auto
  show "forward b b'" using val same v by (auto simp: forward_def)
  assume inv: "bucket_conc_inv b"
  have "slot_map b' i \<in> {MAP_INVLD, MAP_VALID, MAP_INSRT}" if "i < KEY_BUCKT" for i
    using that inv code touches_slot(3) [OF t, of i] by (cases "i = e") (auto simp: bucket_conc_inv_def)
  moreover have "length (key_lf b') = KEY_BUCKT" "length (val_lf b') = KEY_BUCKT"
    using inv t by (auto simp: bucket_conc_inv_def touches_def)
  moreover have "val_lf b' ! i \<noteq> 0" if "valid_lf b' i" for i
    using that val same inv by (auto simp: bucket_conc_inv_def)
  moreover have "distinct_keys_lf b'"
    using inv val same unfolding bucket_conc_inv_def distinct_keys_lf_def by metis
  ultimately show "bucket_conc_inv b'" by (simp add: bucket_conc_inv_def)
qed

text \<open>An insertion takes effect.\<close>

lemma commit_change:
  assumes t: "touches b b' e" and v: "ver b' = ver b + 1" and bound: "Suc (unat (ver b)) < 2 ^ 32"
    and e: "slot_map b e = MAP_INSRT" "valid_lf b' e"
    and nz: "val_lf b' ! e \<noteq> 0" and new: "\<And>i. valid_lf b i \<Longrightarrow> key_lf b ! i \<noteq> key_lf b' ! e"
  shows "forward b b'" and "bucket_conc_inv b \<Longrightarrow> bucket_conc_inv b'"
    and "unat (ver b') = Suc (unat (ver b))"
proof -
  show u: "unat (ver b') = Suc (unat (ver b))"
    using bound by (simp add: v unatSuc unat_word_ariths)
  then have ne: "ver b' \<noteq> ver b" by auto
  have old: "\<not> valid_lf b e" using e by (simp add: valid_lf_def map_codes)
  have val: "valid_lf b' i \<longleftrightarrow> valid_lf b i \<or> i = e" for i
    using touches_valid [OF t, of i] e by (cases "i = e") auto
  have same: "key_lf b' ! i = key_lf b ! i \<and> val_lf b' ! i = val_lf b ! i" if "valid_lf b i" for i
    using that old touches_slot [OF t, of i] valid_lf_less [OF that] by (cases "i = e") auto
  show "forward b b'" using same u ne by (simp add: forward_def)
  assume inv: "bucket_conc_inv b"
  have "slot_map b' i \<in> {MAP_INVLD, MAP_VALID, MAP_INSRT}" if "i < KEY_BUCKT" for i
    using that inv e touches_slot(3) [OF t, of i] by (cases "i = e") (auto simp: bucket_conc_inv_def valid_lf_def)
  moreover have "length (key_lf b') = KEY_BUCKT" "length (val_lf b') = KEY_BUCKT"
    using inv t by (auto simp: bucket_conc_inv_def touches_def)
  moreover have "val_lf b' ! i \<noteq> 0" if "valid_lf b' i" for i
    using that val same inv nz by (auto simp: bucket_conc_inv_def)
  moreover have "distinct_keys_lf b'"
    unfolding distinct_keys_lf_def
  proof (intro allI impI)
    fix i j assume ij: "valid_lf b' i" "valid_lf b' j" "key_lf b' ! i = key_lf b' ! j"
    have d: "distinct_keys_lf b" using inv by (simp add: bucket_conc_inv_def)
    consider "i = e" "j = e" | "valid_lf b i" "valid_lf b j" | "i = e" "valid_lf b j" | "valid_lf b i" "j = e"
      using ij val by blast
    then show "i = j"
    proof cases
      case 2
      with d ij same show ?thesis by (auto simp: distinct_keys_lf_def dest: valid_lf_less)
    qed (use new same ij in auto)
  qed
  ultimately show "bucket_conc_inv b'" by (simp add: bucket_conc_inv_def)
qed

section \<open>One step of a thread\<close>

text \<open>What a step does to the slots: nothing; a change of one slot that is not valid after it; or a commit.\<close>

lemma touches_snapshot:
  "e < KEY_BUCKT \<Longrightarrow> touches b (b\<lparr>snapshot_lf := snap_set_map (snapshot_lf b) e c\<rparr>) e"
  "e < KEY_BUCKT \<Longrightarrow> touches b (b\<lparr>snapshot_lf := snap_set_map_and_inc_version (snapshot_lf b) e c\<rparr>) e"
  "e < KEY_BUCKT \<Longrightarrow> touches b (b\<lparr>val_lf := (val_lf b)[e := x]\<rparr>) e"
  "e < KEY_BUCKT \<Longrightarrow> touches b (b\<lparr>key_lf := (key_lf b)[e := x]\<rparr>) e"
  by (auto simp: touches_def keeps_def KEY_BUCKT_less)

lemma CAS_cases: "CAS cell e n = (cell, if cell = e then n else cell)"
  by (simp add: CAS_def)

fun writes :: "lf_local \<Rightarrow> bool" where
  "writes (Put_undo k v e) = True"
| "writes (Put_cas1 k v s e) = True"
| "writes (Put_wval k v s e) = True"
| "writes (Put_wkey k v s e) = True"
| "writes (Put_cas2 k v s e) = True"
| "writes (Rem_cas k s i w) = True"
| "writes l = False"

lemma search_done_relies:
  assumes "ctx_ok b c i" and "w = 0 \<Longrightarrow> ctx_ok b c KEY_BUCKT"
  shows "relies b (search_done c w)" and "owns (search_done c w) = ctx_owns c"
  using assms
  by (cases c; auto simp: snap_set_map_same KEY_BUCKT_less filled_def dest!: snap_empty_Some
      split: option.splits)+

lemma ctx_ok_Suc:
  assumes "ctx_ok b c i" and "valid_lf b i \<Longrightarrow> key_lf b ! i \<noteq> search_key c"
  shows "ctx_ok b c (Suc i)"
  using assms by (cases c) (auto simp: searched_def less_Suc_eq)

lemma search_next_relies:
  assumes "i < KEY_BUCKT" and "ctx_ok b c i" and "valid_lf b i \<Longrightarrow> key_lf b ! i \<noteq> search_key c"
  shows "relies b (search_next c i)" and "owns (search_next c i) = ctx_owns c"
proof -
  note ok = ctx_ok_Suc [OF assms(2,3)]
  have *: "\<not> Suc i < KEY_BUCKT \<Longrightarrow> Suc i = KEY_BUCKT" using assms(1) by simp
  show "relies b (search_next c i)"
    using ok search_done_relies(1) [OF ok, of 0] * by (auto simp: search_next_def)
  show "owns (search_next c i) = ctx_owns c"
    using ok search_done_relies(2) [OF ok, of 0] * by (auto simp: search_next_def)
qed

text \<open>
  The value changed under the search, or a value 0 was read: then the slot that was seen valid
  is lost, and with it every commit that relies on the snapshot.
\<close>

lemma search_value:
  assumes "bucket_conc_inv b" and "ctx_ok b c i" and "ctx_valid_seen b c i w"
    and "(if val_lf b ! i = w then w else 0) = 0"
  shows "ctx_ok b c KEY_BUCKT"
proof (cases c)
  case (CPut k v s eo)
  have "ver b = snap_version s \<longrightarrow> lost b s"
    using assms CPut by (auto simp: valid_seen_def bucket_conc_inv_def split: if_splits)
  with assms(2) CPut show ?thesis by (auto simp: searched_def)
qed simp

lemma read_step:
  assumes "\<not> writes l" and "relies b l" and "bucket_conc_inv b"
  shows "snd (lf_step l b) = b \<and> owns (fst (lf_step l b)) = owns l \<and> relies b (fst (lf_step l b))"
proof (cases l)
  case (Find_val c i)
  with assms show ?thesis by (cases c) (auto simp: val_seen_def)
next
  case (Find_map c i w)
  show ?thesis
  proof (cases "slot_map b i = MAP_VALID")
    case True
    with Find_map assms show ?thesis
      by (cases c) (auto simp: val_seen_def valid_seen_def valid_lf_def)
  next
    case False
    with Find_map assms search_next_relies [of i b c] show ?thesis by (auto simp: valid_lf_def)
  qed
next
  case (Find_key c i w)
  show ?thesis
  proof (cases "key_lf b ! i = search_key c")
    case True
    with Find_key assms show ?thesis by auto
  next
    case False
    with Find_key assms search_next_relies [of i b c] show ?thesis by auto
  qed
next
  case (Find_val2 c i w)
  with assms have "ctx_ok b c i" "ctx_valid_seen b c i w" by auto
  with search_done_relies [OF this(1), of "if val_lf b ! i = w then w else 0"]
    search_value [OF assms(3) this] Find_val2 show ?thesis by simp
next
  case (Put_read k v eo)
  with assms show ?thesis by (auto simp: seen_def searched_def valid_lf_def filled_def KEY_BUCKT_def)
next
  case (Rem_read k)
  then show ?thesis by (simp add: seen_def valid_lf_def KEY_BUCKT_def)
next
  case (Rem_key k s i)
  with assms show ?thesis by (auto simp: remove_next_def key_seen_def)
next
  case (Rem_val k s i)
  with assms show ?thesis by (auto simp: val_seen_def)
qed (use assms in auto)


text \<open>
  The contract of a step from \<open>(l, b)\<close> to \<open>(l', b')\<close>: the bucket moves forward and keeps its
  invariant, the thread reaches a point whose facts hold, slots reserved by others are left
  alone, and a slot is reserved exactly as long as the thread that reserved it owns it.
\<close>

definition step_ok :: "lf_local \<Rightarrow> bucket_lf \<Rightarrow> lf_local \<Rightarrow> bucket_lf \<Rightarrow> bool" where
  "step_ok l b l' b' \<longleftrightarrow> forward b b' \<and> bucket_conc_inv b' \<and> relies b' l' \<and>
     (\<forall>e<KEY_BUCKT. slot_map b e = MAP_INSRT \<longrightarrow> owns l \<noteq> Some e \<longrightarrow> keeps b b' e) \<and>
     (\<forall>e. owns l' = Some e \<longrightarrow> owns l = Some e \<or> slot_map b e = MAP_INVLD) \<and>
     (\<forall>e<KEY_BUCKT. slot_map b' e = MAP_INSRT \<longrightarrow>
        owns l' = Some e \<or> slot_map b e = MAP_INSRT \<and> owns l \<noteq> Some e)"

text \<open>
  What the call does to the abstract map: a step that ends an insertion with true or a removal
  with a value is that operation of the map, with that result; no other step changes the map.
\<close>

fun commits :: "kv_op \<Rightarrow> kv_res \<Rightarrow> bool" where
  "commits (Put k v) (RBool r) = r"
| "commits (Remove k) (RVal w) = (w \<noteq> 0)"
| "commits x r = False"

definition effect_ok :: "lf_local \<Rightarrow> kv \<Rightarrow> kv \<Rightarrow> bool" where
  "effect_ok l' m m' \<longleftrightarrow>
     (case l' of Returned x r \<Rightarrow> if commits x r then kv_step m x = (r, m') else m' = m | _ \<Rightarrow> m' = m)"

lemma step_ok_same:
  assumes "relies b l'" and "bucket_conc_inv b" and "owns l' = owns l"
  shows "step_ok l b l' b"
  using assms by (auto simp: step_ok_def forward_refl keeps_refl)

lemma touches_reserved:
  assumes "touches b b' e" and "i \<noteq> e" and "i < KEY_BUCKT"
  shows "keeps b b' i" and "slot_map b' i = slot_map b i"
  using assms by (auto simp: touches_def keeps_def)

lemma searched_commit:
  assumes "searched b s k KEY_BUCKT" and "snapshot_lf b = s" and "valid_lf b i"
  shows "key_lf b ! i \<noteq> k"
  using assms valid_lf_less [OF assms(3)] by (auto simp: searched_def lost_def valid_lf_def)

lemma put_cas1_step:
  assumes r: "relies b (Put_cas1 k v s e)" and inv: "bucket_conc_inv b"
    and st: "lf_step (Put_cas1 k v s e) b = (l', b')"
  shows "step_ok (Put_cas1 k v s e) b l' b' \<and> effect_ok l' (bucket_map_lf b) (bucket_map_lf b') \<and>
    ver b' = ver b"
proof (cases "snapshot_lf b = s")
  case False
  with st have "l' = Put_read k v None" "b' = b" by (auto simp: CAS_def Let_def)
  with r inv show ?thesis by (auto simp: effect_ok_def intro!: step_ok_same)
next
  case True
  let ?s1 = "snap_set_map s e MAP_INSRT"
  from True st have l': "l' = Put_wval k v ?s1 e" and b': "b' = b\<lparr>snapshot_lf := ?s1\<rparr>"
    by (auto simp: CAS_def Let_def)
  from r have e: "e < KEY_BUCKT" "slot_map b e = MAP_INVLD" and sr: "searched b s k KEY_BUCKT" and v: "v \<noteq> 0"
    using True by auto
  have t: "touches b b' e" using touches_snapshot(1) [OF e(1), of b MAP_INSRT] by (simp add: b' True)
  have code: "MAP_INVLD \<noteq> MAP_INSRT" by (simp add: map_codes)
  have slot: "slot_map b' e = MAP_INSRT" and ver: "ver b' = ver b"
    using e(1) by (simp_all add: b' True KEY_BUCKT_less)
  have nv: "\<not> valid_lf b' e" "\<not> valid_lf b e" using slot e(2) by (simp_all add: valid_lf_def map_codes)
  have val: "valid_lf b' i = valid_lf b i" for i
    using touches_valid [OF t, of i] nv by (cases "i = e") auto
  have q: "forward b b'" "bucket_conc_inv b'"
    using quiet_change [OF t ver nv(1)] slot nv(2) inv by auto
  have sb': "snapshot_lf b' = ?s1" "key_lf b' = key_lf b" by (simp_all add: b')
  have "seen b' ?s1" by (auto simp: seen_def valid_lf_def sb')
  moreover have "searched b' ?s1 k KEY_BUCKT"
    using searched_commit [OF sr True] by (simp add: searched_def sb'(2) val)
  ultimately have "relies b' l'" using e(1) v slot by (simp add: l' sb'(1))
  moreover have "bucket_map_lf b' = bucket_map_lf b"
    by (rule map_same) (use val in \<open>auto simp: b'\<close>)
  moreover have "\<forall>i<KEY_BUCKT. slot_map b i = MAP_INSRT \<longrightarrow> keeps b b' i"
    using touches_reserved(1) [OF t] e(2) code by metis
  moreover have "\<forall>i<KEY_BUCKT. slot_map b' i = MAP_INSRT \<longrightarrow> i = e \<or> slot_map b i = MAP_INSRT"
    using touches_reserved(2) [OF t] by metis
  ultimately show ?thesis using q e ver by (auto simp: step_ok_def effect_ok_def l')
qed

lemma put_write_step:
  assumes l: "l = Put_wval k v s e \<or> l = Put_wkey k v s e" and r: "relies b l"
    and inv: "bucket_conc_inv b" and st: "lf_step l b = (l', b')"
  shows "step_ok l b l' b' \<and> effect_ok l' (bucket_map_lf b) (bucket_map_lf b') \<and> ver b' = ver b"
proof -
  from l r have e: "e < KEY_BUCKT" "slot_map b e = MAP_INSRT" by auto
  from l st have t: "touches b b' e" using touches_snapshot(3,4) [OF e(1)] by auto
  from l st have sn: "snapshot_lf b' = snapshot_lf b" and o: "owns l' = Some e" "owns l = Some e" by auto
  have nv: "\<not> valid_lf b' e" "\<not> valid_lf b e" using e(2) by (simp_all add: sn valid_lf_def map_codes)
  have val: "valid_lf b' i = valid_lf b i" for i by (simp add: valid_lf_def sn)
  have q: "forward b b'" "bucket_conc_inv b'"
    using quiet_change [OF t _ nv(1)] e(2) nv(2) inv by (auto simp: sn)
  from l r have "seen b s" "searched b s k KEY_BUCKT" by auto
  then have "seen b' s" "searched b' s k KEY_BUCKT" using q(1) by (auto intro: forward_rules)
  with l r st e inv have "relies b' l'" by (auto simp: filled_def bucket_conc_inv_def)
  moreover have "bucket_map_lf b' = bucket_map_lf b"
    by (rule map_same) (use val q(1) in \<open>auto simp: forward_def\<close>)
  moreover have "effect_ok l' m m" for m using l st by (auto simp: effect_ok_def)
  moreover have "\<forall>i<KEY_BUCKT. owns l \<noteq> Some i \<longrightarrow> keeps b b' i"
    using touches_reserved(1) [OF t] o by auto
  ultimately show ?thesis using q e o by (auto simp: step_ok_def sn)
qed

lemma put_cas2_step:
  assumes r: "relies b (Put_cas2 k v s e)" and inv: "bucket_conc_inv b"
    and st: "lf_step (Put_cas2 k v s e) b = (l', b')"
    and bound: "ver b' \<noteq> ver b \<Longrightarrow> Suc (unat (ver b)) < 2 ^ 32"
  shows "step_ok (Put_cas2 k v s e) b l' b' \<and> effect_ok l' (bucket_map_lf b) (bucket_map_lf b') \<and>
    (ver b' \<noteq> ver b \<longrightarrow> unat (ver b') = Suc (unat (ver b)))"
proof (cases "snapshot_lf b = s")
  case False
  with st have "l' = Put_read k v (Some e)" "b' = b" by (auto simp: CAS_def Let_def)
  with r inv show ?thesis by (auto simp: effect_ok_def intro!: step_ok_same)
next
  case True
  let ?s2 = "snap_set_map_and_inc_version s e MAP_VALID"
  from True st have l': "l' = Returned (Put k v) (RBool True)" and b': "b' = b\<lparr>snapshot_lf := ?s2\<rparr>"
    by (auto simp: CAS_def Let_def)
  from r have e: "e < KEY_BUCKT" "slot_map b e = MAP_INSRT" "key_lf b ! e = k" "val_lf b ! e = v"
    and sr: "searched b s k KEY_BUCKT" and v: "v \<noteq> 0" by (auto simp: filled_def)
  have t: "touches b b' e" using touches_snapshot(2) [OF e(1), of b MAP_VALID] by (simp add: b' True)
  have ver: "ver b' = ver b + 1" using e(1) by (simp add: b' True KEY_BUCKT_less)
  then have ne: "ver b' \<noteq> ver b" by simp
  have ve: "valid_lf b' e" using e(1) by (simp add: b' True valid_lf_def KEY_BUCKT_less)
  have at: "key_lf b' ! e = k" "val_lf b' ! e = v" using e by (simp_all add: b')
  have nz: "val_lf b' ! e \<noteq> 0" using v at by simp
  have new: "key_lf b ! i \<noteq> key_lf b' ! e" if "valid_lf b i" for i
    using searched_commit [OF sr True that] at by simp
  note c = commit_change [OF t ver bound [OF ne] e(2) ve nz new]
  have nve: "\<not> valid_lf b e" using e(2) by (simp add: valid_lf_def map_codes)
  have val: "valid_lf b' i \<longleftrightarrow> valid_lf b i \<or> i = e" for i
    using touches_valid [OF t, of i] ve by (cases "i = e") auto
  have d: "distinct_keys_lf b" "distinct_keys_lf b'" using inv c(2) by (auto simp: bucket_conc_inv_def)
  have "bucket_map_lf b k = None \<and> bucket_map_lf b' = (bucket_map_lf b)(k \<mapsto> v)"
    using map_insert [OF d val nve _ new] at by (simp add: b')
  then have "effect_ok l' (bucket_map_lf b) (bucket_map_lf b')" by (simp add: effect_ok_def l')
  moreover have "slot_map b' e \<noteq> MAP_INSRT" using ve by (simp add: valid_lf_def map_codes)
  then have "\<forall>i<KEY_BUCKT. slot_map b' i = MAP_INSRT \<longrightarrow> slot_map b i = MAP_INSRT \<and> i \<noteq> e"
    using touches_reserved(2) [OF t] by metis
  moreover have "\<forall>i<KEY_BUCKT. i \<noteq> e \<longrightarrow> keeps b b' i" using touches_reserved(1) [OF t] by auto
  ultimately show ?thesis using c inv by (auto simp: step_ok_def l')
qed

text \<open>A slot is given up (a failed insertion), or its entry is removed.\<close>

lemma free_slot_step:
  assumes b': "b' = b\<lparr>snapshot_lf := snap_set_map (snapshot_lf b) e MAP_INVLD\<rparr>" and e: "e < KEY_BUCKT"
    and inv: "bucket_conc_inv b" and o: "owns l = Some e \<or> owns l = None \<and> slot_map b e \<noteq> MAP_INSRT"
  shows "step_ok l b (Returned x r) b' \<and> ver b' = ver b \<and> (\<forall>j. valid_lf b' j \<longleftrightarrow> valid_lf b j \<and> j \<noteq> e)"
proof -
  have t: "touches b b' e" using touches_snapshot(1) [OF e] by (simp add: b')
  have ver: "ver b' = ver b" using e by (simp add: b' KEY_BUCKT_less)
  have slot: "slot_map b' e = MAP_INVLD" using e by (simp add: b' KEY_BUCKT_less)
  have nv: "\<not> valid_lf b' e" using slot by (simp add: valid_lf_def map_codes)
  have code: "MAP_INVLD \<noteq> MAP_INSRT" by (simp add: map_codes)
  have val: "valid_lf b' j \<longleftrightarrow> valid_lf b j \<and> j \<noteq> e" for j
    using touches_valid [OF t, of j] nv by (cases "j = e") auto
  have "forward b b'" "bucket_conc_inv b'" using quiet_change [OF t ver nv] slot inv by (auto simp: b')
  moreover have "\<forall>i<KEY_BUCKT. slot_map b i = MAP_INSRT \<longrightarrow> owns l \<noteq> Some i \<longrightarrow> keeps b b' i"
    using touches_reserved(1) [OF t] o by metis
  moreover have "\<forall>i<KEY_BUCKT. slot_map b' i = MAP_INSRT \<longrightarrow> slot_map b i = MAP_INSRT \<and> i \<noteq> e"
    using touches_reserved(2) [OF t] slot code by metis
  ultimately have "step_ok l b (Returned x r) b'" using o by (auto simp: step_ok_def)
  with ver val show ?thesis by simp
qed

lemma put_undo_step:
  assumes "relies b (Put_undo k v e)" and "bucket_conc_inv b" and "lf_step (Put_undo k v e) b = (l', b')"
  shows "step_ok (Put_undo k v e) b l' b' \<and> effect_ok l' (bucket_map_lf b) (bucket_map_lf b') \<and>
    ver b' = ver b"
proof -
  from assms have e: "e < KEY_BUCKT" "\<not> valid_lf b e" and l': "l' = Returned (Put k v) (RBool False)"
    and b': "b' = b\<lparr>snapshot_lf := snap_set_map (snapshot_lf b) e MAP_INVLD\<rparr>"
    by (auto simp: filled_def valid_lf_def map_codes)
  have f: "step_ok (Put_undo k v e) b l' b' \<and> ver b' = ver b \<and> (\<forall>j. valid_lf b' j \<longleftrightarrow> valid_lf b j \<and> j \<noteq> e)"
    unfolding l' by (rule free_slot_step [OF b' e(1) assms(2)]) simp
  then have "valid_lf b' j = valid_lf b j" for j using e(2) by auto
  then have "bucket_map_lf b' = bucket_map_lf b"
    by (rule map_same) (simp add: b')
  with f show ?thesis by (simp add: l' effect_ok_def)
qed

lemma rem_cas_step:
  assumes r: "relies b (Rem_cas k s i w)" and inv: "bucket_conc_inv b"
    and st: "lf_step (Rem_cas k s i w) b = (l', b')"
  shows "step_ok (Rem_cas k s i w) b l' b' \<and> effect_ok l' (bucket_map_lf b) (bucket_map_lf b') \<and>
    ver b' = ver b"
proof (cases "snapshot_lf b = s")
  case False
  with st have "l' = Rem_read k" "b' = b" by (auto simp: CAS_def Let_def)
  with r inv show ?thesis by (auto simp: effect_ok_def intro!: step_ok_same)
next
  case True
  from True st have l': "l' = Returned (Remove k) (RVal w)"
    and b': "b' = b\<lparr>snapshot_lf := snap_set_map (snapshot_lf b) i MAP_INVLD\<rparr>"
    by (auto simp: CAS_def Let_def)
  from r True have i: "i < KEY_BUCKT" "slot_map b i = MAP_VALID" by auto
  then have v: "valid_lf b i" by (simp add: valid_lf_def)
  with r True have kw: "key_lf b ! i = k" "val_lf b ! i = w" by (auto simp: key_seen_def val_seen_def)
  have f: "step_ok (Rem_cas k s i w) b l' b' \<and> ver b' = ver b \<and> (\<forall>j. valid_lf b' j \<longleftrightarrow> valid_lf b j \<and> j \<noteq> i)"
    unfolding l' by (rule free_slot_step [OF b' i(1) inv]) (simp add: i(2) map_codes)
  then have val: "valid_lf b' j \<longleftrightarrow> valid_lf b j \<and> j \<noteq> i" for j by blast
  have d: "distinct_keys_lf b" "distinct_keys_lf b'"
    using inv f by (auto simp: bucket_conc_inv_def step_ok_def)
  have "w \<noteq> 0" using inv v kw by (auto simp: bucket_conc_inv_def)
  moreover have "bucket_map_lf b k = Some w \<and> bucket_map_lf b' = (bucket_map_lf b)(k := None)"
    using map_remove [OF d(1) val v] kw by (simp add: b')
  ultimately show ?thesis using f by (simp add: l' effect_ok_def)
qed

lemma search_done_no_commit: "search_done c w = Returned x r \<Longrightarrow> \<not> commits x r"
  by (cases c) (auto split: if_splits option.splits)

lemma lf_step_ok:
  assumes "relies b l" and "bucket_conc_inv b" and "lf_step l b = (l', b')" and "lf_op l \<noteq> None"
    and "ver b' \<noteq> ver b \<Longrightarrow> Suc (unat (ver b)) < 2 ^ 32"
  shows "step_ok l b l' b' \<and> effect_ok l' (bucket_map_lf b) (bucket_map_lf b') \<and>
    (ver b' \<noteq> ver b \<longrightarrow> unat (ver b') = Suc (unat (ver b)))"
proof (cases "writes l")
  case True
  have q: ?thesis if "step_ok l b l' b' \<and> effect_ok l' (bucket_map_lf b) (bucket_map_lf b') \<and> ver b' = ver b"
    using that by simp
  from True show ?thesis
  proof (cases l)
    case (Put_cas2 k v s e)
    with put_cas2_step assms show ?thesis by blast
  next
    case (Put_cas1 k v s e)
    with put_cas1_step assms q show ?thesis by blast
  next
    case (Put_undo k v e)
    with put_undo_step assms q show ?thesis by blast
  next
    case (Rem_cas k s i w)
    with rem_cas_step assms q show ?thesis by blast
  qed (use put_write_step [OF _ assms(1-3)] q in auto)
next
  case False
  from read_step [OF False assms(1,2)] assms(3) have
    *: "b' = b" "owns l' = owns l" "relies b l'" by auto
  have "effect_ok l' m m" for m
  proof (cases l')
    case (Returned x r)
    then have "\<not> commits x r"
      using False assms(3,4) by (cases l)
        (auto simp: search_next_def remove_next_def split: if_splits dest: search_done_no_commit)
    then show ?thesis using Returned by (auto simp: effect_ok_def)
  qed (auto simp: effect_ok_def)
  with * assms(2) step_ok_same [OF *(3) assms(2) *(2)] show ?thesis by simp
qed

section \<open>The system\<close>

text \<open>
  Every thread is at a point whose facts hold, no two threads own the same slot, every reserved
  slot has an owner, and the version is the number of insertions that took effect.
\<close>

definition lf_inv :: "lf_config \<Rightarrow> bool" where
  "lf_inv c \<longleftrightarrow> bucket_conc_inv (shared c) \<and> unat (ver (shared c)) = inserts c \<and>
     (\<forall>t. relies (shared c) (local c t)) \<and>
     (\<forall>t u e. owns (local c t) = Some e \<longrightarrow> owns (local c u) = Some e \<longrightarrow> t = u) \<and>
     (\<forall>e<KEY_BUCKT. slot_map (shared c) e = MAP_INSRT \<longrightarrow> (\<exists>t. owns (local c t) = Some e))"

lemma relies_owns: "relies b l \<Longrightarrow> owns l = Some e \<Longrightarrow> e < KEY_BUCKT \<and> slot_map b e = MAP_INSRT"
proof -
  have "ctx_ok b c i \<Longrightarrow> ctx_owns c = Some e \<Longrightarrow> e < KEY_BUCKT \<and> slot_map b e = MAP_INSRT" for c i
    by (cases c) (auto simp: filled_def)
  then show "relies b l \<Longrightarrow> owns l = Some e \<Longrightarrow> e < KEY_BUCKT \<and> slot_map b e = MAP_INSRT"
    by (cases l) (auto simp: filled_def)
qed

lemma lf_inv_local:
  assumes "lf_inv c" and "relies (shared c) l" and "owns l = owns (local c t)"
  shows "lf_inv (c\<lparr>local := (local c)(t := l), absent := a\<rparr>)"
  using assms unfolding lf_inv_def by (auto split: if_splits)

lemma lf_run_fields:
  assumes "lf_step (local c t) (shared c) = (l', b')"
  shows "shared (lf_run t c) = b'" and "local (lf_run t c) = (local c)(t := l')"
    and "inserts (lf_run t c) = inserts c + (if ver b' = ver (shared c) then 0 else 1)"
  using assms by (simp_all add: lf_run_def Let_def)

lemma lf_run_step_ok:
  assumes inv: "lf_inv c" and op: "lf_op (local c t) \<noteq> None" and bound: "inserts (lf_run t c) < 2 ^ 32"
    and st: "lf_step (local c t) (shared c) = (l', b')"
  shows "step_ok (local c t) (shared c) l' b' \<and> effect_ok l' (bucket_map_lf (shared c)) (bucket_map_lf b') \<and>
    unat (ver b') = inserts (lf_run t c)"
proof -
  have b: "bucket_conc_inv (shared c)" "relies (shared c) (local c t)" "unat (ver (shared c)) = inserts c"
    using inv by (auto simp: lf_inv_def)
  have "Suc (unat (ver (shared c))) < 2 ^ 32" if "ver b' \<noteq> ver (shared c)"
    using bound that by (simp add: lf_run_fields(3) [OF st] b(3))
  from lf_step_ok [OF b(2,1) st op this] show ?thesis
    using b(3) by (auto simp: lf_run_fields(3) [OF st])
qed

lemma lf_inv_run:
  assumes inv: "lf_inv c" and op: "lf_op (local c t) \<noteq> None" and bound: "inserts (lf_run t c) < 2 ^ 32"
  shows "lf_inv (lf_run t c)"
proof -
  obtain l' b' where st: "lf_step (local c t) (shared c) = (l', b')" by fastforce
  from lf_run_step_ok [OF assms st] have ok: "step_ok (local c t) (shared c) l' b'"
    and ver: "unat (ver b') = inserts (lf_run t c)" by auto
  have rel: "relies (shared c) (local c u)" for u using inv by (simp add: lf_inv_def)
  have uniq: "owns (local c u) = Some e \<Longrightarrow> owns (local c w) = Some e \<Longrightarrow> u = w" for u w e
    using inv by (auto simp: lf_inv_def)
  have other: "relies b' (local c u)" if "u \<noteq> t" for u
  proof (rule relies_forward [OF _ _ rel])
    show "forward (shared c) b'" using ok by (simp add: step_ok_def)
    show "keeps (shared c) b' e" if "owns (local c u) = Some e" for e
      using ok relies_owns [OF rel that] uniq [OF that, of t] that \<open>u \<noteq> t\<close> by (auto simp: step_ok_def)
  qed
  have fresh: "owns (local c u) \<noteq> Some e" if "owns l' = Some e" "u \<noteq> t" for u e
  proof
    assume u: "owns (local c u) = Some e"
    with relies_owns [OF rel u] have "slot_map (shared c) e \<noteq> MAP_INVLD" by (simp add: map_codes)
    with ok that(1) have "owns (local c t) = Some e" by (auto simp: step_ok_def)
    with uniq [OF u] that(2) show False by simp
  qed
  have own: "\<exists>u. owns (((local c)(t := l')) u) = Some e"
    if e: "e < KEY_BUCKT" "slot_map b' e = MAP_INSRT" for e
  proof (cases "owns l' = Some e")
    case True
    then show ?thesis by (intro exI [of _ t]) simp
  next
    case False
    with ok e have "slot_map (shared c) e = MAP_INSRT" "owns (local c t) \<noteq> Some e"
      by (auto simp: step_ok_def)
    moreover from inv e(1) this(1) obtain u where "owns (local c u) = Some e" by (auto simp: lf_inv_def)
    ultimately show ?thesis by (intro exI [of _ u]) auto
  qed
  have "relies b' (((local c)(t := l')) u)" for u
    using other ok by (cases "u = t") (auto simp: step_ok_def)
  moreover have "u = w" if "owns (((local c)(t := l')) u) = Some e" "owns (((local c)(t := l')) w) = Some e" for u w e
    using that fresh [of e] uniq [of u e w] by (cases "u = t"; cases "w = t") simp_all
  moreover have "bucket_conc_inv b'" using ok by (simp add: step_ok_def)
  ultimately show ?thesis
    unfolding lf_inv_def lf_run_fields(1,2) [OF st] using ver own by blast
qed

interpretation lf_sys: step_system lf_init lf_conc lf_inv "\<lambda>c. inserts c < 2 ^ 32"
proof unfold_locales
  fix c assume "lf_init c"
  then show "lf_inv c"
    using quiet_bucket [OF empty_bucket_lf_facts(1)]
    by (simp add: lf_init_def lf_inv_def) (simp add: empty_bucket_lf_def map_codes)
next
  fix c c' assume inv: "lf_inv c" and st: "lf_conc c c'" and bound: "inserts c' < 2 ^ 32"
  from st show "lf_inv c'"
  proof cases
    case (call t x)
    have "relies (shared c) (lf_start x) \<and> owns (lf_start x) = None"
      using call(3) by (cases x) (auto simp: KEY_BUCKT_def)
    with call inv lf_inv_local [OF inv, of "lf_start x" t] show ?thesis by (simp add: lf_call_def)
  next
    case (run t)
    with inv bound lf_inv_run show ?thesis by blast
  next
    case (return t x r)
    with lf_inv_local [OF inv, of Ready t "absent c"] show ?thesis by (simp add: lf_return_def)
  qed
next
  fix c c' assume "lf_conc c c'" and "inserts c' < 2 ^ 32"
  then show "inserts c < 2 ^ 32"
    by cases (auto simp: lf_call_def lf_return_def lf_run_def Let_def split: prod.splits if_splits)
qed

text \<open>
  C10. Whatever the interleaving, as long as fewer than 2 ^ 32 insertions have taken effect (the
  version is a 32-bit counter): no key is stored twice, no stored value is 0, and every reserved
  slot is owned by exactly one running insertion.
\<close>

theorem clht_lf_no_duplicates:
  assumes "lf_reachable c" and "inserts c < 2 ^ 32"
  shows "distinct_keys_lf (shared c) \<and> (\<forall>i. valid_lf (shared c) i \<longrightarrow> val_lf (shared c) ! i \<noteq> 0) \<and>
    (\<forall>e<KEY_BUCKT. slot_map (shared c) e = MAP_INSRT \<longrightarrow> (\<exists>!t. owns (local c t) = Some e))"
  using lf_sys.reachable_inv [OF assms] by (auto simp: lf_inv_def bucket_conc_inv_def)

text \<open>
  C9. The updates are atomic: in a reachable state, the step that makes an insertion return true
  or a removal return a value is exactly that operation of the abstract map with that result,
  and every other step of every thread leaves the map as it is.
\<close>

theorem clht_lf_updates_atomic:
  assumes "lf_reachable c" and "lf_op (local c t) \<noteq> None" and "inserts (lf_run t c) < 2 ^ 32"
  shows "effect_ok (local (lf_run t c) t) (bucket_map_lf (shared c)) (bucket_map_lf (shared (lf_run t c)))"
proof -
  obtain l' b' where st: "lf_step (local c t) (shared c) = (l', b')" by fastforce
  have "lf_inv c"
    by (rule lf_sys.reachable_step_inv(1) [OF assms(1) lf_conc.run [OF assms(2)] assms(3)])
  from lf_run_step_ok [OF this assms(2,3) st] show ?thesis by (simp add: lf_run_fields(1,2) [OF st])
qed

end
