(* ===== verification/Clht_lf_answers.thy ===== *)
theory Clht_lf_answers
  imports Clht_lf_conc
begin

text \<open>
  What the answers of the lock-free operations say under interleaving: an answer 0 of a lookup or
  a removal is right (the key was absent at some moment of the call), a value answered by a
  removal is right (theory Clht_lf_conc), but a value answered by a lookup need not be.
\<close>

section \<open>What one step changes\<close>

lemma version_step_grows:
  assumes "relies b l" and "lf_step l b = (l', b')" and "ver b' \<noteq> ver b" and "valid_lf b i"
  shows "valid_lf b' i"
proof (cases l)
  case (Put_cas2 k v s e)
  with assms have e: "e < KEY_BUCKT" and b': "b' = b\<lparr>snapshot_lf := snap_set_map_and_inc_version s e MAP_VALID\<rparr>"
    and s: "snapshot_lf b = s"
    by (auto simp: CAS_def Let_def filled_def split: if_splits)
  with assms(4) show ?thesis by (auto simp: b' valid_lf_def KEY_BUCKT_less)
qed (use assms in \<open>auto simp: CAS_def Let_def filled_def KEY_BUCKT_less split: if_splits\<close>)

lemma key_step:
  assumes "lf_step l b = (l', b')" and "key_lf b' ! i \<noteq> key_lf b ! i"
  shows "owns l = Some i \<and> (\<forall>x. lf_op l = Some x \<longrightarrow> key_lf b' ! i = op_key x)"
proof (cases l)
  case (Put_wkey k v s e)
  with assms show ?thesis by (cases "i = e"; cases "e < length (key_lf b)") (auto simp: list_update_beyond not_less)
qed (use assms in \<open>auto simp: CAS_def Let_def\<close>)

lemma search_done_op: "lf_op (search_done c w) = Some x \<Longrightarrow> x = ctx_op c"
  by (cases c) (auto split: option.splits if_splits)

lemma op_step:
  assumes "lf_step l b = (l', b')"
  shows "lf_op l' = lf_op l \<or> lf_op l' = None"
  using assms
  by (cases l) (auto simp: CAS_def Let_def search_next_def remove_next_def split: if_splits
      dest: search_done_op)

lemma search_done_owns:
  "ctx_owns c = None \<Longrightarrow> owns (search_done c w) = None"
  by (cases c) (auto split: option.splits)

lemma acquire_step:
  assumes "relies b l" and "lf_step l b = (l', b')" and "owns l' = Some e" and "owns l \<noteq> Some e"
    and "bucket_conc_inv b" and "lf_op l = Some x"
  shows "bucket_map_lf b (op_key x) = None"
proof (cases "writes l")
  case True
  with assms obtain k v s where l: "l = Put_cas1 k v s e" and s: "snapshot_lf b = s"
    by (cases l) (auto simp: CAS_def Let_def split: if_splits)
  with assms(1) have "searched b s k KEY_BUCKT" by simp
  with searched_commit [OF this s] l assms(6) show ?thesis by (auto simp: bucket_map_lf_None)
next
  case False
  with read_step [OF this assms(1,5)] assms show ?thesis by simp
qed

text \<open>The slot of a key that is in the map before and after a step stays the same.\<close>

lemma slot_stays:
  assumes "relies b l" and "lf_step l b = (l', b')" and "forward b b'" and d: "distinct_keys_lf b"
    and j: "valid_lf b j" "key_lf b ! j = k" and some: "bucket_map_lf b' k \<noteq> None"
  shows "valid_lf b' j \<and> key_lf b' ! j = k \<and> val_lf b' ! j = val_lf b ! j"
proof -
  have "valid_lf b' j"
  proof (cases "ver b' = ver b")
    case False
    with version_step_grows [OF assms(1,2)] j show ?thesis by simp
  next
    case True
    from some obtain i where i: "valid_lf b' i" "key_lf b' ! i = k" by (auto simp: bucket_map_lf_None)
    with True assms(3) have "valid_lf b i" "key_lf b ! i = k" by (auto simp: forward_def)
    with d j have "i = j" by (auto simp: distinct_keys_lf_def dest: valid_lf_less)
    with i show ?thesis by simp
  qed
  with j assms(3) show ?thesis by (auto simp: forward_def)
qed

section \<open>Where a key must be found\<close>

definition present_from :: "bucket_lf \<Rightarrow> u64 \<Rightarrow> nat \<Rightarrow> bool" where
  "present_from b k i \<longleftrightarrow> (\<exists>j\<ge>i. valid_lf b j \<and> key_lf b ! j = k)"

text \<open>
  What a lookup or removal of a key knows at each point, unless the key was absent at some moment
  since the call. \<open>free i\<close> says that nobody is about to write the key into slot \<open>i\<close>.
\<close>

fun to_find :: "bucket_lf \<Rightarrow> (u64 \<Rightarrow> nat \<Rightarrow> bool) \<Rightarrow> lf_local \<Rightarrow> bool" where
  "to_find b free (Find_val (CGet k) i) = present_from b k i"
| "to_find b free (Find_map (CGet k) i w) =
     (\<exists>j\<ge>i. valid_lf b j \<and> key_lf b ! j = k \<and> (j = i \<longrightarrow> val_lf b ! j = w))"
| "to_find b free (Find_key (CGet k) i w) =
     (\<exists>j\<ge>i. valid_lf b j \<and> key_lf b ! j = k \<and> (j = i \<longrightarrow> val_lf b ! j = w) \<and>
        (j \<noteq> i \<longrightarrow> key_lf b ! i \<noteq> k \<and> free k i))"
| "to_find b free (Find_val2 (CGet k) i w) = (valid_lf b i \<and> key_lf b ! i = k \<and> val_lf b ! i = w)"
| "to_find b free (Rem_key k s i) =
     (\<exists>j\<ge>i. snap_map s j = MAP_VALID \<and> valid_lf b j \<and> key_lf b ! j = k)"
| "to_find b free (Returned (Get k) (RVal w)) = (w \<noteq> 0)"
| "to_find b free (Returned (Remove k) (RVal w)) = (w \<noteq> 0)"
| "to_find b free l = True"

definition unclaimed :: "lf_config \<Rightarrow> u64 \<Rightarrow> nat \<Rightarrow> bool" where
  "unclaimed c k i \<longleftrightarrow> (\<forall>u x. owns (local c u) = Some i \<longrightarrow> lf_op (local c u) = Some x \<longrightarrow> op_key x \<noteq> k)"

definition answers_inv :: "lf_config \<Rightarrow> bool" where
  "answers_inv c \<longleftrightarrow> lf_inv c \<and> (\<forall>t. \<not> absent c t \<longrightarrow>
     to_find (shared c) (unclaimed c) (local c t) \<and>
     (\<forall>x. lf_op (local c t) = Some x \<longrightarrow> bucket_map_lf (shared c) (op_key x) \<noteq> None))"

lemma to_find_mono:
  assumes "to_find b free l"
    and "\<And>j k. lf_op l \<noteq> None \<Longrightarrow> op_key (the (lf_op l)) = k \<Longrightarrow> valid_lf b j \<Longrightarrow> key_lf b ! j = k \<Longrightarrow>
      valid_lf b' j \<and> key_lf b' ! j = k \<and> val_lf b' ! j = val_lf b ! j"
    and "\<And>i j k. valid_lf b j \<Longrightarrow> key_lf b ! j = k \<Longrightarrow> key_lf b ! i \<noteq> k \<Longrightarrow> free k i \<Longrightarrow>
      key_lf b' ! i \<noteq> k \<and> free' k i"
  shows "to_find b' free' l"
  using assms(1)
proof (cases rule: to_find.cases [of "(b, free, l)"])
  case (1 b0 f0 k i)
  with assms(1) assms(2) show ?thesis by (auto simp: present_from_def)
next
  case (3 b0 f0 k i w)
  with assms(1) obtain j where j: "j \<ge> i" "valid_lf b j" "key_lf b ! j = k" "j = i \<longrightarrow> val_lf b ! j = w"
    "j \<noteq> i \<longrightarrow> key_lf b ! i \<noteq> k \<and> free k i" by auto
  with assms(2) [of k j] assms(3) [of j k i] 3 show ?thesis by (auto intro!: exI [of _ j])
qed (use assms(2) in \<open>fastforce+\<close>)

section \<open>The thread's own step\<close>

lemma next_search:
  assumes "valid_lf b j" and "i < j"
  shows "search_next c i = Find_val c (Suc i)" and "remove_next k s i = Rem_key k s (Suc i)"
  using valid_lf_less [OF assms(1)] assms(2) by (simp_all add: search_next_def remove_next_def)

lemma own_step:
  assumes inv: "bucket_conc_inv b" and rel: "relies b l" and st: "lf_step l b = (l', b')"
    and find: "to_find b free l"
    and pres: "\<And>x. lf_op l = Some x \<Longrightarrow> bucket_map_lf b (op_key x) \<noteq> None"
    and free: "\<And>k i. valid_lf b i \<Longrightarrow> free k i"
  shows "to_find b free l'"
proof (cases l)
  case (Find_val c i)
  with find st show ?thesis by (cases c) (auto simp: present_from_def)
next
  case (Find_map c i w)
  show ?thesis
  proof (cases c)
    case (CGet k)
    with find Find_map obtain j where j: "j \<ge> i" "valid_lf b j" "key_lf b ! j = k"
      "j = i \<longrightarrow> val_lf b ! j = w" by auto
    show ?thesis
    proof (cases "slot_map b i = MAP_VALID")
      case True
      with rel Find_map have v: "valid_lf b i" by (auto simp: valid_lf_def)
      have "key_lf b ! i \<noteq> k" if "j \<noteq> i"
        using that j inv v distinct_keysD [of b i j] by (auto simp: bucket_conc_inv_def)
      with True st CGet Find_map j free [OF v] show ?thesis by (auto intro!: exI [of _ j])
    next
      case False
      with j have "i < j" by (cases "i = j") (auto simp: valid_lf_def)
      with False st CGet Find_map j next_search(1) [OF j(2) this, of c] show ?thesis
        by (auto simp: present_from_def intro!: exI [of _ j])
    qed
  qed (use Find_map st in \<open>auto simp: search_next_def split: option.splits if_splits\<close>)
next
  case (Find_key c i w)
  show ?thesis
  proof (cases c)
    case (CGet k)
    with find Find_key obtain j where j: "j \<ge> i" "valid_lf b j" "key_lf b ! j = k"
      "j = i \<longrightarrow> val_lf b ! j = w" "j \<noteq> i \<longrightarrow> key_lf b ! i \<noteq> k" by auto
    show ?thesis
    proof (cases "key_lf b ! i = k")
      case True
      with j st CGet Find_key show ?thesis by auto
    next
      case False
      with j have "i < j" by (cases "i = j") auto
      with False st CGet Find_key j next_search(1) [OF j(2) this, of c] show ?thesis
        by (auto simp: present_from_def intro!: exI [of _ j])
    qed
  qed (use Find_key st in \<open>auto simp: search_next_def split: option.splits if_splits\<close>)
next
  case (Find_val2 c i w)
  with find st inv show ?thesis
    by (cases c) (auto simp: bucket_conc_inv_def split: option.splits if_splits)
next
  case (Rem_read k)
  with pres [of "Remove k"] st show ?thesis by (auto simp: bucket_map_lf_None valid_lf_def)
next
  case (Rem_key k s i)
  with find obtain j where j: "j \<ge> i" "snap_map s j = MAP_VALID" "valid_lf b j" "key_lf b ! j = k" by auto
  show ?thesis
  proof (cases "key_lf b ! i = k \<and> snap_map s i = MAP_VALID")
    case True
    with st Rem_key show ?thesis by auto
  next
    case False
    with j have "i < j" by (cases "i = j") auto
    with False st Rem_key j next_search(2) [OF j(3) this, of k s] show ?thesis
      by (auto intro!: exI [of _ j])
  qed
next
  case (Rem_cas k s i w)
  with rel st inv show ?thesis
    by (auto simp: CAS_def Let_def val_seen_def valid_lf_def bucket_conc_inv_def split: if_splits)
qed (use st find in \<open>auto simp: CAS_def Let_def split: if_splits\<close>)

section \<open>The invariant\<close>

lemma absent_run:
  assumes "lf_step (local c t) (shared c) = (l', b')"
  shows "absent (lf_run t c) u \<longleftrightarrow> absent c u \<or>
    (\<exists>x. lf_op (local c u) = Some x \<and> bucket_map_lf b' (op_key x) = None)"
  using assms by (auto simp: lf_run_def Let_def split: option.splits)

lemma unclaimed_run:
  assumes rel: "relies (shared c) (local c t)" and st: "lf_step (local c t) (shared c) = (l', b')"
    and inv: "bucket_conc_inv (shared c)"
    and j: "valid_lf (shared c) j" "key_lf (shared c) ! j = k"
    and i: "key_lf (shared c) ! i \<noteq> k" "unclaimed c k i"
  shows "key_lf b' ! i \<noteq> k \<and> unclaimed (lf_run t c) k i"
proof -
  have some: "bucket_map_lf (shared c) k \<noteq> None" using j by (auto simp: bucket_map_lf_None)
  have op: "lf_op (local c t) \<noteq> None" if "owns (local c t) = Some i"
    using that by (cases "local c t") auto
  have key: "key_lf b' ! i \<noteq> k"
  proof (cases "key_lf b' ! i = key_lf (shared c) ! i")
    case False
    with key_step [OF st] op i(2) show ?thesis by (fastforce simp: unclaimed_def)
  qed (use i in simp)
  have mine: "op_key x \<noteq> k" if o: "owns l' = Some i" "lf_op l' = Some x" for x
  proof -
    have x: "lf_op (local c t) = Some x" using op_step [OF st] o by auto
    show ?thesis
    proof (cases "owns (local c t) = Some i")
      case True
      with x i(2) show ?thesis by (auto simp: unclaimed_def)
    next
      case False
      with acquire_step [OF rel st o(1) False inv x] some show ?thesis by auto
    qed
  qed
  have "unclaimed (lf_run t c) k i"
    using i(2) mine unfolding unclaimed_def lf_run_fields(2) [OF st] by auto
  with key show ?thesis by simp
qed

lemma own_to_find:
  assumes rel: "relies (shared c) (local c t)" and st: "lf_step (local c t) (shared c) = (l', b')"
    and inv: "bucket_conc_inv (shared c)" and find: "to_find (shared c) (unclaimed c) l'"
  shows "to_find b' (unclaimed (lf_run t c)) l'"
proof (cases "writes (local c t)")
  case True
  then have "lf_op (local c t) \<noteq> None" by (cases "local c t") auto
  with True st find show ?thesis
    by (cases "local c t") (auto simp: CAS_def Let_def split: if_splits)
next
  case False
  from read_step [OF False rel inv] st have b': "b' = shared c" and o: "owns l' = owns (local c t)" by auto
  have "unclaimed (lf_run t c) k i" if "unclaimed c k i" for k i
    using that op_step [OF st] o unfolding unclaimed_def lf_run_fields(2) [OF st] by auto
  then show ?thesis unfolding b' by (intro to_find_mono [OF find]) auto
qed

lemma answers_inv_run:
  assumes inv: "answers_inv c" and op: "lf_op (local c t) \<noteq> None" and bound: "inserts (lf_run t c) < 2 ^ 32"
  shows "answers_inv (lf_run t c)"
proof -
  obtain l' b' where st: "lf_step (local c t) (shared c) = (l', b')" by fastforce
  have li: "lf_inv c" using inv by (simp add: answers_inv_def)
  then have rel: "relies (shared c) (local c u)" and bi: "bucket_conc_inv (shared c)" for u
    by (auto simp: lf_inv_def)
  from lf_run_step_ok [OF li op bound st] have fw: "forward (shared c) b'" by (simp add: step_ok_def)
  have d: "distinct_keys_lf (shared c)" using bi by (simp add: bucket_conc_inv_def)
  have *: "to_find b' (unclaimed (lf_run t c)) (local (lf_run t c) u) \<and>
      (\<forall>x. lf_op (local (lf_run t c) u) = Some x \<longrightarrow> bucket_map_lf b' (op_key x) \<noteq> None)"
    if na: "\<not> absent (lf_run t c) u" for u
  proof -
    from na have old: "\<not> absent c u"
      and some: "\<And>x. lf_op (local c u) = Some x \<Longrightarrow> bucket_map_lf b' (op_key x) \<noteq> None"
      by (auto simp: absent_run [OF st])
    from inv old have find: "to_find (shared c) (unclaimed c) (local c u)"
      and pres: "\<And>x. lf_op (local c u) = Some x \<Longrightarrow> bucket_map_lf (shared c) (op_key x) \<noteq> None"
      by (auto simp: answers_inv_def)
    show ?thesis
    proof (cases "u = t")
      case False
      have "to_find b' (unclaimed (lf_run t c)) (local c u)"
      proof (rule to_find_mono [OF find])
        fix j k assume "lf_op (local c u) \<noteq> None" "op_key (the (lf_op (local c u))) = k"
          "valid_lf (shared c) j" "key_lf (shared c) ! j = k"
        then show "valid_lf b' j \<and> key_lf b' ! j = k \<and> val_lf b' ! j = val_lf (shared c) ! j"
          using slot_stays [OF rel st fw d] some by auto
      qed (use unclaimed_run [OF rel st bi] in blast)
      with False some show ?thesis by (simp add: lf_run_fields(2) [OF st])
    next
      case True
      have un: "unclaimed c k i" if "valid_lf (shared c) i" for k i
        using that relies_owns [OF rel] by (fastforce simp: unclaimed_def valid_lf_def map_codes)
      have "to_find (shared c) (unclaimed c) l'"
        using own_step [OF bi rel _ _ _ un, of t l' b'] st find pres True by simp
      moreover have "lf_op l' = lf_op (local c t) \<or> lf_op l' = None" using op_step [OF st] .
      ultimately show ?thesis
        using True some own_to_find [OF rel st bi] by (auto simp: lf_run_fields(2) [OF st])
    qed
  qed
  with lf_inv_run [OF li op bound] show ?thesis
    by (simp add: answers_inv_def lf_run_fields(1) [OF st])
qed

interpretation answers_sys: step_system lf_init lf_conc answers_inv "\<lambda>c. inserts c < 2 ^ 32"
proof unfold_locales
  fix c assume "lf_init c"
  with lf_sys.init_inv show "answers_inv c" by (simp add: answers_inv_def lf_init_def)
next
  fix c c' assume inv: "answers_inv c" and st: "lf_conc c c'" and bound: "inserts c' < 2 ^ 32"
  have li: "lf_inv c'" using inv lf_sys.step_inv [OF _ st bound] by (simp add: answers_inv_def)
  from st show "answers_inv c'"
  proof cases
    case (call t x)
    have "lf_op (lf_start x) = Some x" by (cases x) auto
    moreover have "to_find (shared c) free (lf_start x)" if "bucket_map_lf (shared c) (op_key x) \<noteq> None" for free
      using that by (cases x) (auto simp: present_from_def bucket_map_lf_None)
    moreover have "unclaimed c' = unclaimed c"
    proof -
      have o: "owns (lf_start x) = None" "owns (local c t) = None" using call(2) by (cases x; simp)+
      then have "owns (local c' u) = owns (local c u) \<and> (u \<noteq> t \<longrightarrow> local c' u = local c u)" for u
        by (simp add: call(1) lf_call_def)
      with o(2) show ?thesis unfolding unclaimed_def fun_eq_iff by (metis option.distinct(1))
    qed
    moreover have "shared c' = shared c" "local c' = (local c)(t := lf_start x)"
      "absent c' = (absent c)(t := bucket_map_lf (shared c) (op_key x) = None)"
      by (simp_all add: call(1) lf_call_def)
    ultimately show ?thesis using inv li by (auto simp: answers_inv_def)
  next
    case (run t)
    with inv bound answers_inv_run show ?thesis by blast
  next
    case (return t x r)
    have o: "owns (local c t) = None" using return(2) by simp
    then have "owns (local c' u) = owns (local c u) \<and> (u \<noteq> t \<longrightarrow> local c' u = local c u)" for u
      by (simp add: return(1) lf_return_def)
    with o have "unclaimed c' = unclaimed c"
      unfolding unclaimed_def fun_eq_iff by (metis option.distinct(1))
    moreover have "shared c' = shared c" "local c' = (local c)(t := Ready)" "absent c' = absent c"
      by (simp_all add: return(1) lf_return_def)
    ultimately show ?thesis using inv li by (auto simp: answers_inv_def)
  qed
qed (rule lf_sys.bound_back)

text \<open>
  C11. An answer 0 is right: when a lookup or a removal of a key returns 0, the key was absent
  from the map at some moment between the call and the return.
\<close>

theorem clht_lf_zero_answer_sound:
  assumes "lf_reachable c" and "inserts c < 2 ^ 32"
    and "local c t = Returned (Get k) (RVal 0) \<or> local c t = Returned (Remove k) (RVal 0)"
  shows "absent c t"
  using answers_sys.reachable_inv [OF assms(1,2)] assms(3) by (auto simp: answers_inv_def)

section \<open>A lookup that answers wrongly\<close>

text \<open>Schedules: which thread calls, runs one access or returns next.\<close>

datatype lf_action = Call nat kv_op | Run nat | Ret nat

fun lf_act :: "lf_action \<Rightarrow> lf_config \<Rightarrow> lf_config option" where
  "lf_act (Call t x) c =
     (if local c t = Ready \<and> op_ok (\<lambda>_. True) (\<lambda>v. v \<noteq> 0) x then Some (lf_call t x c) else None)"
| "lf_act (Run t) c = (if lf_op (local c t) \<noteq> None then Some (lf_run t c) else None)"
| "lf_act (Ret t) c = (case local c t of Returned x r \<Rightarrow> Some (lf_return t c) | _ \<Rightarrow> None)"

abbreviation lf_trace :: "lf_action list \<Rightarrow> lf_config \<Rightarrow> lf_config list option" where
  "lf_trace \<equiv> schedule_run lf_act"

lemma lf_act_step: "lf_act a c = Some c' \<Longrightarrow> lf_conc c c'"
  by (cases a) (auto intro: lf_conc.intros split: if_splits lf_local.splits)

lemma lf_trace_steps:
  "lf_trace as c = Some cs \<Longrightarrow> cs \<noteq> [] \<and> hd cs = c \<and> successively lf_conc cs"
  by (rule schedule_run_steps [of lf_act]) (rule lf_act_step)

definition start_lf :: lf_config where
  "start_lf = \<lparr>shared = empty_bucket_lf, local = (\<lambda>_. Ready), inserts = 0, absent = (\<lambda>_. False)\<rparr>"

definition whole_call :: "nat \<Rightarrow> kv_op \<Rightarrow> nat \<Rightarrow> lf_action list" where
  "whole_call t x n = Call t x # replicate n (Run t) @ [Ret t]"

text \<open>
  Thread 1 stores 5 under 9; thread 2 starts to look 7 up and reads the value 5 of slot 0; thread
  1 removes 9 and stores 6 under 7 in the same slot; thread 2 sees the slot valid; thread 1
  removes 7, starts to store 5 under 8 and has written the value but not the key; thread 2 finds
  the key 7 still in the slot and the value 5 unchanged.
\<close>

definition wrong_get :: "lf_action list" where
  "wrong_get = whole_call 1 (Put 9 5) 11 @ [Call 2 (Get 7), Run 2] @ whole_call 1 (Remove 9) 4 @
     whole_call 1 (Put 7 6) 11 @ [Run 2] @ whole_call 1 (Remove 7) 4 @
     Call 1 (Put 8 5) # replicate 9 (Run 1) @ [Run 2, Run 2]"

text \<open>To evaluate a schedule of the threads 1 and 2 it is enough to follow what they can see.\<close>

type_synonym view = "bucket_lf \<times> lf_local \<times> lf_local"

definition view_of :: "lf_config \<Rightarrow> view" where
  "view_of c = (shared c, local c 1, local c 2)"

fun run_local :: "lf_action \<Rightarrow> lf_local \<Rightarrow> bucket_lf \<Rightarrow> (lf_local \<times> bucket_lf) option" where
  "run_local (Call t x) Ready b = (if op_ok (\<lambda>_. True) (\<lambda>v. v \<noteq> 0) x then Some (lf_start x, b) else None)"
| "run_local (Call t x) l b = None"
| "run_local (Run t) l b = (if lf_op l \<noteq> None then Some (lf_step l b) else None)"
| "run_local (Ret t) (Returned x r) b = Some (Ready, b)"
| "run_local (Ret t) l b = None"

fun thread_of :: "lf_action \<Rightarrow> nat" where
  "thread_of (Call t x) = t"
| "thread_of (Run t) = t"
| "thread_of (Ret t) = t"

definition view_act :: "lf_action \<Rightarrow> view \<Rightarrow> view option" where
  "view_act a v =
     (case v of (b, l1, l2) \<Rightarrow>
        if thread_of a = 1 then map_option (\<lambda>(l, b'). (b', l, l2)) (run_local a l1 b)
        else if thread_of a = 2 then map_option (\<lambda>(l, b'). (b', l1, l)) (run_local a l2 b)
        else None)"

fun view_trace :: "lf_action list \<Rightarrow> view \<Rightarrow> view list option" where
  "view_trace [] v = Some [v]"
| "view_trace (a # as) v =
     (case view_act a v of
        None \<Rightarrow> None
      | Some v' \<Rightarrow> (case view_trace as v' of None \<Rightarrow> None | Some vs \<Rightarrow> Some (v # vs)))"

lemma run_local_act:
  assumes "run_local a (local c (thread_of a)) (shared c) = Some (l, b)"
  shows "\<exists>c'. lf_act a c = Some c' \<and> shared c' = b \<and> local c' = (local c)(thread_of a := l)"
  using assms
  by (cases a; cases "local c (thread_of a)")
    (auto simp: lf_call_def lf_return_def lf_run_fields split: if_splits)

lemma view_act_sound:
  assumes "view_act a (view_of c) = Some v"
  shows "\<exists>c'. lf_act a c = Some c' \<and> view_of c' = v"
proof -
  let ?t = "thread_of a"
  from assms obtain l b where lb: "run_local a (local c ?t) (shared c) = Some (l, b)"
    and v: "v = (b, if ?t = 1 then l else local c 1, if ?t = 2 then l else local c 2)"
    by (auto simp: view_act_def view_of_def split: if_splits)
  from run_local_act [OF lb] v show ?thesis by (auto simp: view_of_def)
qed

lemma view_trace_sound:
  "view_trace as (view_of c) = Some vs \<Longrightarrow> \<exists>cs. lf_trace as c = Some cs \<and> map view_of cs = vs"
proof (induction as arbitrary: c vs)
  case (Cons a as)
  from Cons.prems obtain v' ws where v': "view_act a (view_of c) = Some v'"
    and ws: "view_trace as v' = Some ws" and vs: "vs = view_of c # ws"
    by (auto split: option.splits)
  from view_act_sound [OF v'] obtain c' where c': "lf_act a c = Some c'" "view_of c' = v'" by blast
  from Cons.IH [of c' ws] ws c' vs show ?case by auto
qed simp

lemma wrong_get_views:
  "case view_trace wrong_get (empty_bucket_lf, Ready, Ready) of
     None \<Rightarrow> False
   | Some vs \<Rightarrow> snd (snd (last vs)) = Returned (Get 7) (RVal 5) \<and>
       list_all (\<lambda>v. bucket_map_lf (fst v) 7 \<noteq> Some 5) vs"
  by code_simp

text \<open>
  C12. A lookup is not atomic: there is a run in which \<open>clht_get\<close> of the key 7 returns 5 although
  at no moment of the whole run the table maps 7 to 5. Comparing the value before and after the
  key was read does not see that the slot was freed and refilled twice in between.
\<close>

theorem clht_lf_get_not_linearizable:
  "\<exists>cs. cs \<noteq> [] \<and> lf_init (hd cs) \<and> successively lf_conc cs \<and>
     local (last cs) 2 = Returned (Get 7) (RVal 5) \<and>
     list_all (\<lambda>c. bucket_map_lf (shared c) 7 \<noteq> Some 5) cs"
proof -
  from wrong_get_views obtain vs where vs: "view_trace wrong_get (view_of start_lf) = Some vs"
    and v: "snd (snd (last vs)) = Returned (Get 7) (RVal 5)" "\<forall>v\<in>set vs. bucket_map_lf (fst v) 7 \<noteq> Some 5"
    by (auto simp: list_all_iff view_of_def start_lf_def split: option.splits)
  from view_trace_sound [OF vs] obtain cs where cs: "lf_trace wrong_get start_lf = Some cs" "map view_of cs = vs"
    by blast
  from lf_trace_steps [OF cs(1)] v have r: "local (last cs) 2 = Returned (Get 7) (RVal 5)"
    "\<forall>c\<in>set cs. bucket_map_lf (shared c) 7 \<noteq> Some 5"
    by (auto simp: cs(2) [symmetric] view_of_def last_map)
  have "lf_init start_lf" by (simp add: lf_init_def start_lf_def)
  with lf_trace_steps [OF cs(1)] r show ?thesis unfolding list_all_iff by metis
qed

section \<open>Witnesses\<close>

lemma lf_trace_reachable:
  assumes "lf_trace as c = Some cs" and "lf_reachable c"
  shows "lf_reachable (last cs) \<and> inserts (last cs) \<le> inserts c + length as"
  using assms
proof (induction as arbitrary: c cs)
  case (Cons a as)
  then obtain c' ds where a: "lf_act a c = Some c'" and ds: "lf_trace as c' = Some ds" and cs: "cs = c # ds"
    by (auto split: option.splits)
  have "inserts c' \<le> Suc (inserts c)"
    using lf_act_step [OF a]
    by cases (auto simp: lf_call_def lf_return_def lf_run_def Let_def split: prod.splits)
  moreover have "lf_reachable c'" using Cons.prems(2) lf_act_step [OF a] by (rule reachable.step)
  moreover have "last cs = last ds" using cs lf_trace_steps [OF ds] by simp
  ultimately show ?case using Cons.IH [OF ds] by fastforce
qed auto

lemma view_reachable:
  assumes "case view_trace as (empty_bucket_lf, Ready, Ready) of None \<Rightarrow> False | Some vs \<Rightarrow> P (last vs)"
    and "length as < 100"
  shows "\<exists>c. lf_reachable c \<and> Suc (inserts c) < 2 ^ 32 \<and> P (view_of c)"
proof -
  obtain vs where vs: "view_trace as (empty_bucket_lf, Ready, Ready) = Some vs" "P (last vs)"
    using assms(1) by (auto split: option.splits)
  have "view_of start_lf = (empty_bucket_lf, Ready, Ready)" by (simp add: view_of_def start_lf_def)
  with view_trace_sound [of as start_lf vs] vs(1) obtain cs where
    cs: "lf_trace as start_lf = Some cs" "map view_of cs = vs" by auto
  have "lf_reachable start_lf" by (rule reachable.start) (simp add: lf_init_def start_lf_def)
  note r = lf_trace_reachable [OF cs(1) this]
  have "view_of (last cs) = last vs" using lf_trace_steps [OF cs(1)] cs(2) by (auto simp: last_map)
  with r vs(2) assms(2) show ?thesis
    by (intro exI [of _ "last cs"]) (simp add: start_lf_def)
qed

definition put_schedule :: "nat \<Rightarrow> lf_action list" where
  "put_schedule n = Call 1 (Put 9 5) # replicate n (Run 1)"

lemma put_returned:
  "\<exists>c. lf_reachable c \<and> Suc (inserts c) < 2 ^ 32 \<and> local c 1 = Returned (Put 9 5) (RBool True)"
proof -
  have "case view_trace (put_schedule 11) (empty_bucket_lf, Ready, Ready) of
      None \<Rightarrow> False | Some vs \<Rightarrow> fst (snd (last vs)) = Returned (Put 9 5) (RBool True)" by code_simp
  from view_reachable [OF this] show ?thesis by (simp add: view_of_def put_schedule_def)
qed

fun committing :: "lf_local \<Rightarrow> bool" where
  "committing (Put_cas2 k v s e) = (k = 9 \<and> v = 5)"
| "committing l = False"

lemma put_committing:
  "\<exists>c. lf_reachable c \<and> Suc (inserts c) < 2 ^ 32 \<and> committing (local c 1)"
proof -
  have "case view_trace (put_schedule 10) (empty_bucket_lf, Ready, Ready) of
      None \<Rightarrow> False | Some vs \<Rightarrow> committing (fst (snd (last vs)))" by code_simp
  from view_reachable [OF this] show ?thesis by (simp add: view_of_def put_schedule_def)
qed

lemma get_returned_zero:
  "\<exists>c. lf_reachable c \<and> Suc (inserts c) < 2 ^ 32 \<and> local c 1 = Returned (Get 7) (RVal 0)"
proof -
  have "case view_trace (Call 1 (Get 7) # replicate 6 (Run 1)) (empty_bucket_lf, Ready, Ready) of
      None \<Rightarrow> False | Some vs \<Rightarrow> fst (snd (last vs)) = Returned (Get 7) (RVal 0)" by code_simp
  from view_reachable [OF this] show ?thesis by (simp add: view_of_def)
qed

theorem clht_lf_no_duplicates_witness:
  "\<exists>c::lf_config. local c 1 = Returned (Put 9 5) (RBool True) \<and> distinct_keys_lf (shared c) \<and>
    (\<forall>i. valid_lf (shared c) i \<longrightarrow> val_lf (shared c) ! i \<noteq> 0) \<and>
    (\<forall>e<KEY_BUCKT. slot_map (shared c) e = MAP_INSRT \<longrightarrow> (\<exists>!t. owns (local c t) = Some e))"
proof -
  obtain c where c: "lf_reachable c" "inserts c < 2 ^ 32" "local c 1 = Returned (Put 9 5) (RBool True)"
    using put_returned by auto
  with clht_lf_no_duplicates [OF c(1,2)] show ?thesis by blast
qed

theorem clht_lf_updates_atomic_witness:
  "\<exists>c::lf_config. committing (local c 1) \<and>
    effect_ok (local (lf_run 1 c) 1) (bucket_map_lf (shared c)) (bucket_map_lf (shared (lf_run 1 c)))"
proof -
  obtain c where c: "lf_reachable c" "Suc (inserts c) < 2 ^ 32" "committing (local c 1)"
    using put_committing by auto
  have "inserts (lf_run 1 c) < 2 ^ 32" using c(2) by (auto simp: lf_run_def Let_def split: prod.splits)
  moreover have "lf_op (local c 1) \<noteq> None" using c(3) by (cases "local c 1") auto
  ultimately show ?thesis using clht_lf_updates_atomic [of c 1] c(1,3) by blast
qed

theorem clht_lf_zero_answer_sound_witness:
  "\<exists>c::lf_config. local c 1 = Returned (Get 7) (RVal 0) \<and> absent c 1"
proof -
  obtain c where c: "lf_reachable c" "inserts c < 2 ^ 32" "local c 1 = Returned (Get 7) (RVal 0)"
    using get_returned_zero by auto
  with clht_lf_zero_answer_sound [of c 1 7] show ?thesis by blast
qed

end
