(* ===== verification/Clht_lf_map_rem.thy ===== *)
theory Clht_lf_map_rem
  imports Slots Bounded_store Clht_hash Atomic_ops
begin

text \<open>
  \<open>CLHT-LF-ONLY-MAP-REM\<close> (\<open>src/src/clht/src/clht_lf_only_map_rem.c\<close> and its header) as one
  thread sees it when no other runs: the lock-free buckets of \<open>clht_lf.c\<close> with a fourth map code.
  A removal marks one byte of the snapshot \<open>MAP_REMOV\<close> with a byte-wide compare-and-swap and
  frees the slot afterwards; a marked slot still counts for lookups. Theory
  Clht_lf_map_rem_steps models the same functions one memory access at a time.
\<close>

section \<open>State\<close>

definition MAP_INVLD_mr :: u8 where
  "MAP_INVLD_mr = 0"

definition MAP_INSRT_mr :: u8 where
  "MAP_INSRT_mr = 1"

definition MAP_VALID_mr :: u8 where
  "MAP_VALID_mr = 2"

definition MAP_REMOV_mr :: u8 where
  "MAP_REMOV_mr = 3"

lemmas map_codes_mr = MAP_INVLD_mr_def MAP_INSRT_mr_def MAP_VALID_mr_def MAP_REMOV_mr_def

record bucket_mr =
  snapshot_mr :: u64
  key_mr :: "u64 list"
  val_mr :: "u64 list"

text \<open>The header also declares the fields of the resizing tables; nothing in this variant sets or reads them.\<close>

record hashtable_mr =
  num_buckets_mr :: u64
  table_mr :: "bucket_mr list"
  hash_mr :: u64

record clht_mr =
  ht_mr :: "hashtable_mr option"

definition clht_bucket_create_mr :: "mem \<Rightarrow> bucket_mr option \<times> mem" where
  "clht_bucket_create_mr m =
     (case memalign m of
        (None, m') \<Rightarrow> (None, m')
      | (Some (g0, g1, g2), m') \<Rightarrow>
          (Some \<lparr>snapshot_mr = 0, key_mr = replicate KEY_BUCKT 0, val_mr = [g0, g1, g2]\<rparr>, m'))"

definition empty_bucket_mr :: bucket_mr where
  "empty_bucket_mr = \<lparr>snapshot_mr = 0, key_mr = replicate KEY_BUCKT 0, val_mr = replicate KEY_BUCKT 0\<rparr>"

definition clht_hashtable_create_mr :: "u32 \<Rightarrow> mem \<Rightarrow> hashtable_mr option \<times> mem" where
  "clht_hashtable_create_mr num_buckets m =
     (if num_buckets = 0 then (None, m)
      else case memalign m of
        (None, m1) \<Rightarrow> (None, m1)
      | (Some _, m1) \<Rightarrow>
          (case memalign m1 of
             (None, m2) \<Rightarrow> (None, mfree m2)
           | (Some _, m2) \<Rightarrow>
               (Some \<lparr>num_buckets_mr = ucast num_buckets,
                      table_mr = replicate (unat num_buckets) empty_bucket_mr,
                      hash_mr = ucast (num_buckets - 1)\<rparr>, m2)))"

definition clht_create_mr :: "u32 \<Rightarrow> mem \<Rightarrow> clht_mr option \<times> mem" where
  "clht_create_mr num_buckets m =
     (case memalign m of
        (None, m1) \<Rightarrow> (None, m1)
      | (Some _, m1) \<Rightarrow>
          (let (t, m2) = clht_hashtable_create_mr num_buckets m1 in (Some \<lparr>ht_mr = t\<rparr>, m2)))"

definition clht_hash_mr :: "hashtable_mr \<Rightarrow> u64 \<Rightarrow> u32" where
  "clht_hash_mr hashtable k = ucast (k AND hash_mr hashtable)"

section \<open>Operations\<close>

text \<open>The helpers of the header that look for a free slot; the result \<open>-1\<close> is \<open>None\<close>.\<close>

definition snap_get_empty_index_mr :: "u64 \<Rightarrow> nat option" where
  "snap_get_empty_index_mr s = List.find (\<lambda>i. snap_map s i = MAP_INVLD_mr) [0..<KEY_BUCKT]"

definition keys_get_empty_index_mr :: "u64 list \<Rightarrow> nat option" where
  "keys_get_empty_index_mr keys = List.find (\<lambda>i. keys ! i = 0) [0..<KEY_BUCKT]"

definition buck_get_empty_index_mr :: "bucket_mr \<Rightarrow> u64 \<Rightarrow> nat option" where
  "buck_get_empty_index_mr b s =
     List.find (\<lambda>i. key_mr b ! i = 0 \<and> snap_map s i \<noteq> MAP_INSRT_mr) [0..<KEY_BUCKT]"

definition vals_get_empty_index_mr :: "u64 list \<Rightarrow> u64 \<Rightarrow> nat option" where
  "vals_get_empty_index_mr vals s =
     List.find (\<lambda>i. vals ! i = 0 \<and> snap_map s i \<noteq> MAP_INSRT_mr) [0..<KEY_BUCKT]"

fun search_mr :: "bucket_mr \<Rightarrow> u64 \<Rightarrow> nat list \<Rightarrow> u64" where
  "search_mr b k [] = 0"
| "search_mr b k (i # is) =
     (let v = val_mr b ! i
      in if MAP_VALID_mr \<le> snap_map (snapshot_mr b) i \<and> key_mr b ! i = k
         then (if val_mr b ! i = v then v else 0)
         else search_mr b k is)"

definition clht_bucket_search_mr :: "bucket_mr \<Rightarrow> u64 \<Rightarrow> u64" where
  "clht_bucket_search_mr b k = search_mr b k [0..<KEY_BUCKT]"

definition clht_get_mr :: "hashtable_mr \<Rightarrow> u64 \<Rightarrow> u64" where
  "clht_get_mr hashtable k =
     (let bin = unat (clht_hash_mr hashtable k) in clht_bucket_search_mr (table_mr hashtable ! bin) k)"

definition put_bucket_mr :: "bucket_mr \<Rightarrow> u64 \<Rightarrow> u64 \<Rightarrow> (bool \<times> bucket_mr) outcome" where
  "put_bucket_mr b k v =
     (let s = snapshot_mr b
      in if clht_bucket_search_mr b k \<noteq> 0 then Done (False, b)
         else case snap_get_empty_index_mr s of
           None \<Rightarrow> Spins
         | Some e \<Rightarrow>
             (let s1 = snap_set_map s e MAP_INSRT_mr;
                  (old, new) = CAS (snapshot_mr b) s s1;
                  b = b\<lparr>snapshot_mr := new\<rparr>
              in if old \<noteq> s then Spins
                 else (let b = b\<lparr>val_mr := (val_mr b)[e := v]\<rparr>;
                           b = b\<lparr>key_mr := (key_mr b)[e := k]\<rparr>;
                           s2 = snap_set_map_and_inc_version s1 e MAP_VALID_mr;
                           (old, new) = CAS (snapshot_mr b) s1 s2;
                           b = b\<lparr>snapshot_mr := new\<rparr>
                       in if old \<noteq> s1 then Spins else Done (True, b))))"

definition clht_put_mr :: "clht_mr \<Rightarrow> u64 \<Rightarrow> u64 \<Rightarrow> (bool \<times> clht_mr) outcome" where
  "clht_put_mr h k v =
     (case ht_mr h of
        None \<Rightarrow> Faults
      | Some hashtable \<Rightarrow>
          (let bin = unat (clht_hash_mr hashtable k)
           in bind_outcome (put_bucket_mr (table_mr hashtable ! bin) k v)
                (\<lambda>(r, b). Done (r,
                   h\<lparr>ht_mr := Some (hashtable\<lparr>table_mr := (table_mr hashtable)[bin := b]\<rparr>)\<rparr>))))"

text \<open>
  The loop of \<open>clht_remove\<close>. \<open>set_map_mr\<close> stores one byte of the map; the compare-and-swap
  acts on that byte alone. Once a slot has been tried the call returns.
\<close>

definition set_map_mr :: "bucket_mr \<Rightarrow> nat \<Rightarrow> u8 \<Rightarrow> bucket_mr" where
  "set_map_mr b i x = b\<lparr>snapshot_mr := snap_set_map (snapshot_mr b) i x\<rparr>"

fun remove_loop_mr :: "bucket_mr \<Rightarrow> u64 \<Rightarrow> nat list \<Rightarrow> u64 \<times> bucket_mr" where
  "remove_loop_mr b k [] = (0, b)"
| "remove_loop_mr b k (i # is) =
     (let v = val_mr b ! i
      in if snap_map (snapshot_mr b) i = MAP_VALID_mr \<and> key_mr b ! i = k \<and> val_mr b ! i = v then
           (let (old, new) = CAS (snap_map (snapshot_mr b) i) MAP_VALID_mr MAP_REMOV_mr;
                b = set_map_mr b i new
            in if old = MAP_VALID_mr then
                 (if key_mr b ! i = k then
                    (let v = val_mr b ! i in (v, set_map_mr b i MAP_INVLD_mr))
                  else (0, set_map_mr b i MAP_VALID_mr))
               else (0, b))
         else remove_loop_mr b k is)"

definition remove_bucket_mr :: "bucket_mr \<Rightarrow> u64 \<Rightarrow> (u64 \<times> bucket_mr) outcome" where
  "remove_bucket_mr b k = Done (remove_loop_mr b k [0..<KEY_BUCKT])"

definition clht_remove_mr :: "clht_mr \<Rightarrow> u64 \<Rightarrow> (u64 \<times> clht_mr) outcome" where
  "clht_remove_mr h k =
     (case ht_mr h of
        None \<Rightarrow> Faults
      | Some hashtable \<Rightarrow>
          (let bin = unat (clht_hash_mr hashtable k)
           in bind_outcome (remove_bucket_mr (table_mr hashtable ! bin) k)
                (\<lambda>(r, b). Done (r,
                   h\<lparr>ht_mr := Some (hashtable\<lparr>table_mr := (table_mr hashtable)[bin := b]\<rparr>)\<rparr>))))"

definition bucket_size_mr :: "bucket_mr \<Rightarrow> nat" where
  "bucket_size_mr b =
     length (filter (\<lambda>i. key_mr b ! i \<noteq> 0 \<and> snap_map (snapshot_mr b) i = MAP_VALID_mr) [0..<KEY_BUCKT])"

definition clht_size_mr :: "hashtable_mr \<Rightarrow> u64" where
  "clht_size_mr hashtable =
     (let num_buckets = (ucast (num_buckets_mr hashtable) :: u32)
      in of_nat (\<Sum>bin\<leftarrow>[0..<unat num_buckets]. bucket_size_mr (table_mr hashtable ! bin)))"

section \<open>What a bucket stores\<close>

text \<open>A slot counts when a lookup would look at its key.\<close>

definition present_mr :: "bucket_mr \<Rightarrow> nat \<Rightarrow> bool" where
  "present_mr b i \<longleftrightarrow> i < KEY_BUCKT \<and> MAP_VALID_mr \<le> snap_map (snapshot_mr b) i"

definition bucket_map_mr :: "bucket_mr \<Rightarrow> kv" where
  "bucket_map_mr b = slots_map (present_mr b) (key_mr b) (val_mr b)"

text \<open>A bucket at rest: no slot is being filled or freed, the keys are distinct, no value is 0.\<close>

definition bucket_inv_mr :: "bucket_mr \<Rightarrow> bool" where
  "bucket_inv_mr b \<longleftrightarrow> length (key_mr b) = KEY_BUCKT \<and> length (val_mr b) = KEY_BUCKT \<and>
     (\<forall>i<KEY_BUCKT. snap_map (snapshot_mr b) i \<in> {MAP_INVLD_mr, MAP_VALID_mr}) \<and>
     (\<forall>i. present_mr b i \<longrightarrow> val_mr b ! i \<noteq> 0) \<and> slots_ok (present_mr b) (key_mr b)"

lemma present_mr_less: "present_mr b i \<Longrightarrow> i < KEY_BUCKT"
  by (simp add: present_mr_def)

lemma slot_less_4: "i < KEY_BUCKT \<Longrightarrow> i < 4"
  by (simp add: KEY_BUCKT_def)

lemma present_valid: "bucket_inv_mr b \<Longrightarrow> present_mr b i \<longleftrightarrow> i < KEY_BUCKT \<and> snap_map (snapshot_mr b) i = MAP_VALID_mr"
  by (auto simp: bucket_inv_mr_def present_mr_def map_codes_mr)

lemma slots_mr: "bucket_inv_mr b \<Longrightarrow> slots_ok (present_mr b) (key_mr b)"
  by (simp add: bucket_inv_mr_def)

definition found_mr :: "bucket_mr \<Rightarrow> u64 \<Rightarrow> nat option" where
  "found_mr b k = List.find (\<lambda>i. present_mr b i \<and> key_mr b ! i = k) [0..<KEY_BUCKT]"

lemma found_mr_Some: "found_mr b k = Some i \<Longrightarrow> present_mr b i \<and> key_mr b ! i = k"
  by (auto simp: found_mr_def find_Some_iff)

lemma map_found_mr: "bucket_inv_mr b \<Longrightarrow> bucket_map_mr b k = map_option (\<lambda>i. val_mr b ! i) (found_mr b k)"
  by (simp add: bucket_map_mr_def found_mr_def slots_find slots_mr)

lemma search_mr_find:
  "set is \<subseteq> {..<KEY_BUCKT} \<Longrightarrow> search_mr b k is =
    (case List.find (\<lambda>i. present_mr b i \<and> key_mr b ! i = k) is of None \<Rightarrow> 0 | Some i \<Rightarrow> val_mr b ! i)"
  by (induction "is") (auto simp: present_mr_def)

lemma search_mr_map:
  assumes "bucket_inv_mr b"
  shows "clht_bucket_search_mr b k = val_or_0 (bucket_map_mr b k)"
proof -
  have "clht_bucket_search_mr b k = (case found_mr b k of None \<Rightarrow> 0 | Some i \<Rightarrow> val_mr b ! i)"
    unfolding clht_bucket_search_mr_def found_mr_def by (rule search_mr_find) auto
  then show ?thesis by (cases "found_mr b k") (simp_all add: map_found_mr [OF assms])
qed

lemma search_mr_0_iff:
  assumes "bucket_inv_mr b"
  shows "clht_bucket_search_mr b k = 0 \<longleftrightarrow> bucket_map_mr b k = None"
  using assms found_mr_Some [of b k]
  by (cases "found_mr b k") (auto simp: search_mr_map map_found_mr bucket_inv_mr_def)

section \<open>Insertion and removal of one bucket\<close>

definition inserted_mr :: "bucket_mr \<Rightarrow> nat \<Rightarrow> u64 \<Rightarrow> u64 \<Rightarrow> bucket_mr" where
  "inserted_mr b e k v =
     \<lparr>snapshot_mr = snap_set_map_and_inc_version (snapshot_mr b) e MAP_VALID_mr,
      key_mr = (key_mr b)[e := k], val_mr = (val_mr b)[e := v]\<rparr>"

lemma snap_empty_mr_Some:
  "snap_get_empty_index_mr s = Some e \<Longrightarrow> e < KEY_BUCKT \<and> snap_map s e = MAP_INVLD_mr"
  by (auto simp: snap_get_empty_index_mr_def find_Some_iff)

lemma put_bucket_mr_eq:
  "put_bucket_mr b k v =
     (if clht_bucket_search_mr b k \<noteq> 0 then Done (False, b)
      else case snap_get_empty_index_mr (snapshot_mr b) of
        None \<Rightarrow> Spins | Some e \<Rightarrow> Done (True, inserted_mr b e k v))"
  by (auto simp: put_bucket_mr_def CAS_def Let_def inserted_mr_def snap_set_map_and_inc_version_def
      snap_set_map_twice dest!: snap_empty_mr_Some dest: slot_less_4 split: option.splits)

lemma inserted_mr_law:
  assumes inv: "bucket_inv_mr b" and e: "e < KEY_BUCKT" "snap_map (snapshot_mr b) e = MAP_INVLD_mr"
    and v: "v \<noteq> 0" and none: "bucket_map_mr b k = None"
  shows "bucket_inv_mr (inserted_mr b e k v)"
    and "bucket_map_mr (inserted_mr b e k v) = (bucket_map_mr b)(k \<mapsto> v)"
proof -
  let ?b = "inserted_mr b e k v"
  have len: "length (key_mr b) = KEY_BUCKT" "length (val_mr b) = KEY_BUCKT" using inv by (auto simp: bucket_inv_mr_def)
  have slot: "key_mr ?b ! i = (if i = e then k else key_mr b ! i)"
    "val_mr ?b ! i = (if i = e then v else val_mr b ! i)"
    "snap_map (snapshot_mr ?b) i = (if i = e then MAP_VALID_mr else snap_map (snapshot_mr b) i)"
    if "i < KEY_BUCKT" for i
    using that e(1) len by (auto simp: inserted_mr_def slot_less_4)
  have pres: "present_mr ?b i \<longleftrightarrow> present_mr b i \<or> i = e" for i
    using slot(3) [of i] e(1) by (auto simp: present_mr_def)
  have ne: "\<not> present_mr b e" using e by (simp add: present_mr_def map_codes_mr)
  have k: "present_mr b i \<Longrightarrow> key_mr b ! i \<noteq> k" for i
    using none slots_map_None [of "present_mr b"] present_mr_less by (simp add: bucket_map_mr_def)
  have at_e: "key_mr ?b ! e = k" "val_mr ?b ! e = v" using slot e(1) by simp_all
  have old: "key_mr ?b ! i = key_mr b ! i \<and> val_mr ?b ! i = val_mr b ! i" if "present_mr b i" for i
    using slot [OF present_mr_less [OF that]] that ne by (cases "i = e") simp_all
  have ok: "slots_ok (present_mr ?b) (key_mr ?b)"
    using slots_mr [OF inv] k ne e(1) old at_e by (auto simp: slots_ok_def pres)
  then show "bucket_inv_mr ?b"
    using inv v at_e old by (auto simp: bucket_inv_mr_def pres slot) (simp_all add: inserted_mr_def)
  have "key_mr b ! i \<noteq> key_mr ?b ! e" if "present_mr b i" for i using that k at_e by simp
  then show "bucket_map_mr ?b = (bucket_map_mr b)(k \<mapsto> v)"
    using slots_map_insert [OF slots_mr [OF inv] ok pres ne old] by (simp add: at_e bucket_map_mr_def)
qed

lemma put_bucket_mr_law:
  assumes "bucket_inv_mr b" and "v \<noteq> 0" and "put_bucket_mr b k v = Done (r, b')"
  shows "bucket_inv_mr b' \<and> r = (bucket_map_mr b k = None) \<and>
    bucket_map_mr b' = (if r then (bucket_map_mr b)(k \<mapsto> v) else bucket_map_mr b)"
proof (cases "clht_bucket_search_mr b k = 0")
  case True
  with assms(3) obtain e where e: "snap_get_empty_index_mr (snapshot_mr b) = Some e"
    and r: "r" "b' = inserted_mr b e k v"
    by (auto simp: put_bucket_mr_eq split: option.splits)
  from True search_mr_0_iff [OF assms(1)] have "bucket_map_mr b k = None" by simp
  with inserted_mr_law [OF assms(1) _ _ assms(2) this] snap_empty_mr_Some [OF e] r show ?thesis by simp
next
  case False
  with assms search_mr_0_iff [OF assms(1)] show ?thesis by (auto simp: put_bucket_mr_eq)
qed

lemma remove_loop_mr_find:
  assumes "bucket_inv_mr b"
  shows "set is \<subseteq> {..<KEY_BUCKT} \<Longrightarrow> remove_loop_mr b k is =
    (case List.find (\<lambda>i. present_mr b i \<and> key_mr b ! i = k) is of
       None \<Rightarrow> (0, b) | Some i \<Rightarrow> (val_mr b ! i, set_map_mr b i MAP_INVLD_mr))"
  by (induction "is")
    (auto simp: present_valid [OF assms] CAS_def Let_def set_map_mr_def snap_set_map_twice slot_less_4)

lemma cleared_mr_law:
  assumes inv: "bucket_inv_mr b" and i: "present_mr b i" "key_mr b ! i = k"
  shows "bucket_inv_mr (set_map_mr b i MAP_INVLD_mr)"
    and "bucket_map_mr (set_map_mr b i MAP_INVLD_mr) = (bucket_map_mr b)(k := None)"
proof -
  let ?b = "set_map_mr b i MAP_INVLD_mr"
  have i4: "i < 4" using present_mr_less [OF i(1)] by (rule slot_less_4)
  have pres: "present_mr ?b j \<longleftrightarrow> present_mr b j \<and> j \<noteq> i" for j
    using i4 by (cases "j < KEY_BUCKT") (auto simp: present_mr_def set_map_mr_def slot_less_4 map_codes_mr)
  have rest: "key_mr ?b = key_mr b" "val_mr ?b = val_mr b" by (simp_all add: set_map_mr_def)
  have "slots_ok (present_mr ?b) (key_mr ?b)" using slots_mr [OF inv] by (auto simp: slots_ok_def pres rest)
  with inv i4 show "bucket_inv_mr ?b"
    by (auto simp: bucket_inv_mr_def pres rest) (auto simp: set_map_mr_def slot_less_4 split: if_splits)
  show "bucket_map_mr ?b = (bucket_map_mr b)(k := None)"
    using slots_map_remove [OF slots_mr [OF inv] pres i(1)] i(2) by (simp add: bucket_map_mr_def rest)
qed

lemma remove_bucket_mr_law:
  assumes "bucket_inv_mr b"
  shows "\<exists>b'. remove_bucket_mr b k = Done (val_or_0 (bucket_map_mr b k), b') \<and>
    bucket_inv_mr b' \<and> bucket_map_mr b' = (bucket_map_mr b)(k := None)"
proof -
  have r: "remove_loop_mr b k [0..<KEY_BUCKT] = (case found_mr b k of
       None \<Rightarrow> (0, b) | Some i \<Rightarrow> (val_mr b ! i, set_map_mr b i MAP_INVLD_mr))"
    unfolding found_mr_def by (rule remove_loop_mr_find [OF assms]) auto
  show ?thesis
    using r assms cleared_mr_law [OF assms] found_mr_Some [of b k]
    by (cases "found_mr b k") (auto simp: remove_bucket_mr_def map_found_mr [OF assms])
qed

text \<open>Without other threads a bucket allocates nothing, so the allocator is passed through.\<close>

definition put_chain_mr :: "bucket_mr \<Rightarrow> u64 \<Rightarrow> u64 \<Rightarrow> mem \<Rightarrow> (bool \<times> bucket_mr \<times> mem) outcome" where
  "put_chain_mr b k v m = bind_outcome (put_bucket_mr b k v) (\<lambda>(r, b'). Done (r, b', m))"

definition put_table_mr :: "clht_mr \<Rightarrow> u64 \<Rightarrow> u64 \<Rightarrow> mem \<Rightarrow> (bool \<times> clht_mr \<times> mem) outcome" where
  "put_table_mr h k v m = bind_outcome (clht_put_mr h k v) (\<lambda>(r, h'). Done (r, h', m))"

lemma put_full_mr:
  assumes "bucket_inv_mr b"
  shows "snap_get_empty_index_mr (snapshot_mr b) = None \<longleftrightarrow> KEY_BUCKT \<le> card (dom (bucket_map_mr b))"
proof -
  have "snap_get_empty_index_mr (snapshot_mr b) = None \<longleftrightarrow> (\<forall>i<KEY_BUCKT. present_mr b i)"
    using assms present_valid [OF assms]
    by (auto simp: snap_get_empty_index_mr_def find_None_iff bucket_inv_mr_def map_codes_mr)
  then show ?thesis by (simp add: bucket_map_mr_def slots_full [OF slots_mr [OF assms]])
qed

interpretation mr_bucket: kv_store bucket_inv_mr bucket_map_mr clht_bucket_search_mr put_chain_mr
  remove_bucket_mr "\<lambda>_. True" "\<lambda>v. v \<noteq> 0"
proof unfold_locales
  fix b b' :: bucket_mr and k v :: u64 and m m' :: mem and r :: bool
  assume "bucket_inv_mr b" "v \<noteq> 0" "put_chain_mr b k v m = Done (r, b', m')"
  then show "bucket_inv_mr b' \<and> r = (bucket_map_mr b k = None) \<and>
      bucket_map_mr b' = (if r then (bucket_map_mr b)(k \<mapsto> v) else bucket_map_mr b)"
    using put_bucket_mr_law [of b v k r b'] by (auto simp: put_chain_mr_def bind_outcome_Done_iff)
qed (use search_mr_map remove_bucket_mr_law in auto)

section \<open>The table\<close>

definition shape_mr :: "clht_mr \<Rightarrow> bool" where
  "shape_mr h \<longleftrightarrow> (\<exists>t. ht_mr h = Some t \<and> num_buckets_mr t \<noteq> 0 \<and> unat (num_buckets_mr t) < 2 ^ 32 \<and>
     hash_mr t = num_buckets_mr t - 1 \<and> length (table_mr t) = unat (num_buckets_mr t))"

definition bin_mr :: "clht_mr \<Rightarrow> u64 \<Rightarrow> nat" where
  "bin_mr h k = unat (clht_hash_mr (the (ht_mr h)) k)"

definition buckets_mr :: "clht_mr \<Rightarrow> bucket_mr list" where
  "buckets_mr h = table_mr (the (ht_mr h))"

definition upd_mr :: "clht_mr \<Rightarrow> bucket_mr list \<Rightarrow> clht_mr" where
  "upd_mr h bs = h\<lparr>ht_mr := Some ((the (ht_mr h))\<lparr>table_mr := bs\<rparr>)\<rparr>"

definition inv_mr :: "clht_mr \<Rightarrow> bool" where
  "inv_mr h \<longleftrightarrow> shape_mr h \<and> chains_inv bucket_inv_mr bucket_map_mr (bin_mr h) (buckets_mr h)"

definition map_mr :: "clht_mr \<Rightarrow> kv" where
  "map_mr h = chains_map bucket_map_mr (bin_mr h) (buckets_mr h)"

interpretation mr: bounded_hash bucket_inv_mr bucket_map_mr clht_bucket_search_mr put_chain_mr
  remove_bucket_mr "\<lambda>_. True" "\<lambda>v. v \<noteq> 0"
  shape_mr buckets_mr bin_mr "\<lambda>h. clht_get_mr (the (ht_mr h))" put_table_mr clht_remove_mr KEY_BUCKT upd_mr
proof unfold_locales
  fix h :: clht_mr and k :: u64
  assume "shape_mr h"
  then show "bin_mr h k < length (buckets_mr h)"
    using mask_bin_less [of "num_buckets_mr (the (ht_mr h))" k]
    by (auto simp: shape_mr_def bin_mr_def clht_hash_mr_def mask_bin_def buckets_mr_def)
next
  fix b :: bucket_mr and k v :: u64 and m :: mem
  assume b: "bucket_inv_mr b" and v: "v \<noteq> 0"
  note out = put_bucket_mr_eq [of b k v] search_mr_0_iff [OF b, of k] put_full_mr [OF b]
  { assume "bucket_map_mr b k \<noteq> None \<or> card (dom (bucket_map_mr b)) < KEY_BUCKT"
    with out show "\<exists>r b' m'. put_chain_mr b k v m = Done (r, b', m')"
      by (cases "snap_get_empty_index_mr (snapshot_mr b)") (auto simp: put_chain_mr_def) }
  { assume "bucket_map_mr b k = None" "KEY_BUCKT \<le> card (dom (bucket_map_mr b))"
    with out show "put_chain_mr b k v m = Spins" by (simp add: put_chain_mr_def) }
next
  fix h :: clht_mr and k v :: u64 and m :: mem
  assume "shape_mr h"
  then show "put_table_mr h k v m = bind_outcome (put_chain_mr (buckets_mr h ! bin_mr h k) k v m)
      (\<lambda>(r, b, m'). Done (r, upd_mr h ((buckets_mr h)[bin_mr h k := b]), m'))"
    by (cases "put_bucket_mr (buckets_mr h ! bin_mr h k) k v")
      (auto simp: shape_mr_def put_table_mr_def clht_put_mr_def Let_def put_chain_mr_def buckets_mr_def bin_mr_def upd_mr_def)
qed (auto simp: bin_mr_def clht_hash_mr_def shape_mr_def Let_def buckets_mr_def put_table_mr_def
    put_chain_mr_def clht_put_mr_def clht_get_mr_def clht_remove_mr_def fun_eq_iff bind_outcome_Done_iff)

lemma inv_mr_eq: "inv_mr = mr.tinv" and map_mr_eq: "map_mr = mr.tmap"
  by (simp_all add: fun_eq_iff inv_mr_def map_mr_def mr.tinv_def mr.tmap_def)

section \<open>Creation and size\<close>

lemma empty_bucket_mr_facts:
  "bucket_inv_mr empty_bucket_mr" "bucket_map_mr empty_bucket_mr = Map.empty"
proof -
  have no: "\<not> present_mr empty_bucket_mr i" for i
    by (simp add: present_mr_def empty_bucket_mr_def map_codes_mr)
  then show "bucket_inv_mr empty_bucket_mr"
    by (simp add: bucket_inv_mr_def slots_ok_def) (simp add: empty_bucket_mr_def map_codes_mr)
  show "bucket_map_mr empty_bucket_mr = Map.empty"
    using no slots_map_None [of "present_mr empty_bucket_mr"] by (simp add: bucket_map_mr_def fun_eq_iff)
qed

lemma created_mr:
  fixes n :: u32
  assumes "n \<noteq> 0" and "ht_mr h = Some \<lparr>num_buckets_mr = ucast n,
    table_mr = replicate (unat n) empty_bucket_mr, hash_mr = ucast (n - 1)\<rparr>"
  shows "inv_mr h \<and> map_mr h = Map.empty"
proof -
  have "ucast (n - 1) = (ucast n - 1 :: u64)"
    using assms(1) by (simp add: word_unat_eq_iff unat_ucast_u32 unat_pred)
  with assms have sh: "shape_mr h"
    using unat_bound [of n] unat_ucast_u32 [of n]
    by (auto simp: shape_mr_def unat_eq_zero [symmetric])
  have less: "bin_mr h k < unat n" for k
    using mr.hash_less [OF sh, of k] assms(2) by (simp add: buckets_mr_def)
  then show ?thesis
    using sh assms(2) empty_bucket_mr_facts
    by (auto simp: inv_mr_def map_mr_def chains_inv_def chains_map_def buckets_mr_def fun_eq_iff)
qed

lemma create_mr_ready:
  assumes "n \<noteq> 0" and "ready 3 m"
  obtains h m' where "clht_create_mr n m = (Some h, m')" and "inv_mr h" and "map_mr h = Map.empty"
proof -
  from assms have "\<exists>h. fst (clht_create_mr n m) = Some h \<and> ht_mr h = Some \<lparr>num_buckets_mr = ucast n,
      table_mr = replicate (unat n) empty_bucket_mr, hash_mr = ucast (n - 1)\<rparr>"
    by (auto simp: clht_create_mr_def clht_hashtable_create_mr_def memalign_def ready_def numeral_3_eq_3 Let_def
        split: prod.splits option.splits list.splits)
  then show thesis using created_mr [OF assms(1)] that by (metis prod.collapse)
qed

lemma bucket_size_mr_card:
  assumes "bucket_inv_mr b"
  shows "bucket_size_mr b = card (dom (nonzero_keys (bucket_map_mr b)))"
proof -
  have "bucket_size_mr b = length (filter (\<lambda>i. key_mr b ! i \<noteq> 0 \<and> present_mr b i) [0..<KEY_BUCKT])"
    unfolding bucket_size_mr_def
    by (intro arg_cong [where f = length] filter_cong) (auto simp: present_valid [OF assms])
  with slots_size [OF slots_mr [OF assms]] show ?thesis by (simp add: bucket_map_mr_def)
qed

lemma size_mr_law:
  assumes "inv_mr h" and "ht_mr h = Some t"
  shows "unat (clht_size_mr t) = card (dom (nonzero_keys (map_mr h)))"
proof -
  from assms have sh: "shape_mr h"
    and ci: "chains_inv bucket_inv_mr bucket_map_mr (bin_mr h) (buckets_mr h)"
    by (auto simp: inv_mr_def)
  have "unat (ucast (num_buckets_mr t) :: u32) = length (buckets_mr h)" and "buckets_mr h = table_mr t"
    using sh assms(2)
    by (auto simp: shape_mr_def buckets_mr_def unsigned_ucast_eq take_bit_nat_eq_self)
  then have "clht_size_mr t = of_nat (\<Sum>b\<leftarrow>buckets_mr h. bucket_size_mr b)"
    unfolding clht_size_mr_def Let_def by (simp add: map_index_eq)
  with chains_size [OF ci mr.hash_less [OF sh] bucket_size_mr_card] show ?thesis
    by (simp add: map_mr_def bucket_map_mr_def [abs_def] finite_slots_map)
qed

text \<open>
  C29. The table of \<open>clht_create\<close>, used by one thread: creation succeeds with enough memory. A
  run of lookups, insertions of values other than 0 and removals on the new table returns exactly
  when every insertion of an absent key finds fewer than three keys in its bucket; the answers are
  then those of the abstract map that starts empty, and the size is the number of keys other than
  0. Any other run retries an insertion for ever.
\<close>

theorem clht_mr_refines_map:
  assumes "n \<noteq> 0" and "ready 3 m" and "\<forall>x\<in>set xs. op_ok (\<lambda>_. True) (\<lambda>v. v \<noteq> 0) x"
  shows "\<exists>h m1. clht_create_mr n m = (Some h, m1) \<and>
    (let out = table_run (\<lambda>h. clht_get_mr (the (ht_mr h))) put_table_mr clht_remove_mr (h, m1) xs
     in if fits_run (bin_has_room KEY_BUCKT (bin_mr h)) Map.empty xs
        then \<exists>rs h' m' M. out = Done (rs, h', m') \<and> kv_run Map.empty xs = (rs, M) \<and>
          unat (clht_size_mr (the (ht_mr h'))) = card (dom (nonzero_keys M))
        else out = Spins)"
proof -
  from create_mr_ready [OF assms(1,2)] obtain h m1 where h: "clht_create_mr n m = (Some h, m1)"
    "mr.tinv h" "mr.tmap h = Map.empty" by (auto simp: inv_mr_eq map_mr_eq)
  have size: "unat (clht_size_mr (the (ht_mr h'))) = card (dom (nonzero_keys (mr.tmap h')))"
    if "mr.tinv h'" for h'
  proof -
    from that obtain t where "ht_mr h' = Some t" by (auto simp: mr.tinv_def shape_mr_def)
    with size_mr_law [of h' t] that show ?thesis by (simp add: inv_mr_eq map_mr_eq)
  qed
  from mr.bounded.run_outcome [of h "bin_mr h" xs m1] h(2,3) assms(3) size h(1)
  show ?thesis by (fastforce simp: Let_def split: if_splits)
qed

theorem clht_mr_refines_map_witness:
  "\<exists>h m1. clht_create_mr 2 example_mem = (Some h, m1) \<and>
    (let out = table_run (\<lambda>h. clht_get_mr (the (ht_mr h))) put_table_mr clht_remove_mr (h, m1)
       [Put 5 50, Put 7 70, Get 5, Remove 5, Get 5]
     in if fits_run (bin_has_room KEY_BUCKT (bin_mr h)) Map.empty [Put 5 50, Put 7 70, Get 5, Remove 5, Get 5]
        then \<exists>rs h' m' M. out = Done (rs, h', m') \<and>
          kv_run Map.empty [Put 5 50, Put 7 70, Get 5, Remove 5, Get 5] = (rs, M) \<and>
          unat (clht_size_mr (the (ht_mr h'))) = card (dom (nonzero_keys M))
        else out = Spins)"
  by (rule clht_mr_refines_map) (simp_all add: example_mem_ready)

end
