(* ===== verification/Clht_lf_map_rem_steps.thy ===== *)
theory Clht_lf_map_rem_steps
  imports Clht_lf_map_rem Step_system
begin

text \<open>
  \<open>clht_get\<close>, \<open>clht_put\<close> and \<open>clht_remove\<close> of \<open>src/src/clht/src/clht_lf_only_map_rem.c\<close> on one
  bucket, one access to shared memory per step, for any number of threads; memory is sequentially
  consistent. The theory shows that a removal can miss a key that stays in the bucket.
\<close>

section \<open>One thread\<close>

text \<open>Who called \<open>clht_bucket_search\<close>: \<open>clht_get\<close>, or \<open>clht_put\<close> with its \<open>s\<close> and \<open>empty_index\<close>.\<close>

datatype ctx_mr = MGet u64 | MPut u64 u64 u64 "nat option"

text \<open>
  The point a thread has reached and its local variables. \<open>MFind_\<dots>\<close> are the four loads of
  \<open>clht_bucket_search\<close>; \<open>MRem_val\<close> to \<open>MRem_val2\<close> the loads before the compare-and-swap of
  \<open>clht_remove\<close>, \<open>MRem_key2\<close> and \<open>MRem_val3\<close> those after it, \<open>MRem_free\<close> and \<open>MRem_back\<close> the two
  stores to the map.
\<close>

datatype mr_local =
    MReady
  | MFind_val ctx_mr nat
  | MFind_map ctx_mr nat u64
  | MFind_key ctx_mr nat u64
  | MFind_val2 ctx_mr nat u64
  | MPut_read u64 u64 "nat option"
  | MPut_undo u64 u64 nat
  | MPut_cas1 u64 u64 u64 nat
  | MPut_wval u64 u64 u64 nat
  | MPut_wkey u64 u64 u64 nat
  | MPut_cas2 u64 u64 u64 nat
  | MRem_val u64 nat
  | MRem_map u64 nat u64
  | MRem_key u64 nat u64
  | MRem_val2 u64 nat u64
  | MRem_cas u64 nat
  | MRem_key2 u64 nat
  | MRem_val3 u64 nat
  | MRem_free u64 nat u64
  | MRem_back u64 nat
  | MReturned kv_op kv_res

fun mr_start :: "kv_op \<Rightarrow> mr_local" where
  "mr_start (Get k) = MFind_val (MGet k) 0"
| "mr_start (Put k v) = MPut_read k v None"
| "mr_start (Remove k) = MRem_val k 0"

text \<open>What follows when \<open>clht_bucket_search\<close> returns \<open>w\<close>.\<close>

fun search_done_mr :: "ctx_mr \<Rightarrow> u64 \<Rightarrow> mr_local" where
  "search_done_mr (MGet k) w = MReturned (Get k) (RVal w)"
| "search_done_mr (MPut k v s eo) w =
     (if w \<noteq> 0 then
        (case eo of Some e \<Rightarrow> MPut_undo k v e | None \<Rightarrow> MReturned (Put k v) (RBool False))
      else
        (case eo of
           Some e \<Rightarrow> MPut_cas2 k v (snap_set_map s e MAP_INSRT_mr) e
         | None \<Rightarrow>
             (case snap_get_empty_index_mr s of
                None \<Rightarrow> MPut_read k v None
              | Some e \<Rightarrow> MPut_cas1 k v s e)))"

fun ctx_key_mr :: "ctx_mr \<Rightarrow> u64" where
  "ctx_key_mr (MGet k) = k"
| "ctx_key_mr (MPut k v s eo) = k"

definition search_next_mr :: "ctx_mr \<Rightarrow> nat \<Rightarrow> mr_local" where
  "search_next_mr c i = (if Suc i < KEY_BUCKT then MFind_val c (Suc i) else search_done_mr c 0)"

definition remove_next_mr :: "u64 \<Rightarrow> nat \<Rightarrow> mr_local" where
  "remove_next_mr k i = (if Suc i < KEY_BUCKT then MRem_val k (Suc i) else MReturned (Remove k) (RVal 0))"

fun mr_step :: "mr_local \<Rightarrow> bucket_mr \<Rightarrow> mr_local \<times> bucket_mr" where
  "mr_step MReady b = (MReady, b)"
| "mr_step (MFind_val c i) b = (MFind_map c i (val_mr b ! i), b)"
| "mr_step (MFind_map c i w) b =
     (if MAP_VALID_mr \<le> snap_map (snapshot_mr b) i then MFind_key c i w else search_next_mr c i, b)"
| "mr_step (MFind_key c i w) b =
     (if key_mr b ! i = ctx_key_mr c then MFind_val2 c i w else search_next_mr c i, b)"
| "mr_step (MFind_val2 c i w) b = (search_done_mr c (if val_mr b ! i = w then w else 0), b)"
| "mr_step (MPut_read k v eo) b = (MFind_val (MPut k v (snapshot_mr b) eo) 0, b)"
| "mr_step (MPut_undo k v e) b = (MReturned (Put k v) (RBool False), set_map_mr b e MAP_INVLD_mr)"
| "mr_step (MPut_cas1 k v s e) b =
     (let s1 = snap_set_map s e MAP_INSRT_mr; (old, new) = CAS (snapshot_mr b) s s1
      in (if old = s then MPut_wval k v s1 e else MPut_read k v None, b\<lparr>snapshot_mr := new\<rparr>))"
| "mr_step (MPut_wval k v s1 e) b = (MPut_wkey k v s1 e, b\<lparr>val_mr := (val_mr b)[e := v]\<rparr>)"
| "mr_step (MPut_wkey k v s1 e) b = (MPut_cas2 k v s1 e, b\<lparr>key_mr := (key_mr b)[e := k]\<rparr>)"
| "mr_step (MPut_cas2 k v s1 e) b =
     (let s2 = snap_set_map_and_inc_version s1 e MAP_VALID_mr; (old, new) = CAS (snapshot_mr b) s1 s2
      in (if old = s1 then MReturned (Put k v) (RBool True) else MPut_read k v (Some e),
          b\<lparr>snapshot_mr := new\<rparr>))"
| "mr_step (MRem_val k i) b = (MRem_map k i (val_mr b ! i), b)"
| "mr_step (MRem_map k i w) b =
     (if snap_map (snapshot_mr b) i = MAP_VALID_mr then MRem_key k i w else remove_next_mr k i, b)"
| "mr_step (MRem_key k i w) b = (if key_mr b ! i = k then MRem_val2 k i w else remove_next_mr k i, b)"
| "mr_step (MRem_val2 k i w) b = (if val_mr b ! i = w then MRem_cas k i else remove_next_mr k i, b)"
| "mr_step (MRem_cas k i) b =
     (let (old, new) = CAS (snap_map (snapshot_mr b) i) MAP_VALID_mr MAP_REMOV_mr
      in (if old = MAP_VALID_mr then MRem_key2 k i else MReturned (Remove k) (RVal 0), set_map_mr b i new))"
| "mr_step (MRem_key2 k i) b = (if key_mr b ! i = k then MRem_val3 k i else MRem_back k i, b)"
| "mr_step (MRem_val3 k i) b = (MRem_free k i (val_mr b ! i), b)"
| "mr_step (MRem_free k i w) b = (MReturned (Remove k) (RVal w), set_map_mr b i MAP_INVLD_mr)"
| "mr_step (MRem_back k i) b = (MReturned (Remove k) (RVal 0), set_map_mr b i MAP_VALID_mr)"
| "mr_step (MReturned x r) b = (MReturned x r, b)"

section \<open>All threads\<close>

record mr_config =
  shared_mr :: bucket_mr
  locals_mr :: "mr_local list"

definition busy_mr :: "mr_local \<Rightarrow> bool" where
  "busy_mr l \<longleftrightarrow> (case l of MReady \<Rightarrow> False | MReturned x r \<Rightarrow> False | _ \<Rightarrow> True)"

definition mr_run :: "nat \<Rightarrow> mr_config \<Rightarrow> mr_config" where
  "mr_run t c = (let (l, b) = mr_step (locals_mr c ! t) (shared_mr c)
     in \<lparr>shared_mr = b, locals_mr = (locals_mr c)[t := l]\<rparr>)"

text \<open>
  A step of the system: a thread calls an operation, executes one access of its operation, or
  goes on after it has returned. Values inserted are not 0.
\<close>

inductive mr_conc :: "mr_config \<Rightarrow> mr_config \<Rightarrow> bool" where
  call: "t < length (locals_mr c) \<Longrightarrow> locals_mr c ! t = MReady \<Longrightarrow> op_ok (\<lambda>_. True) (\<lambda>v. v \<noteq> 0) x \<Longrightarrow>
    mr_conc c (c\<lparr>locals_mr := (locals_mr c)[t := mr_start x]\<rparr>)"
| run: "t < length (locals_mr c) \<Longrightarrow> busy_mr (locals_mr c ! t) \<Longrightarrow> mr_conc c (mr_run t c)"
| return: "t < length (locals_mr c) \<Longrightarrow> locals_mr c ! t = MReturned x r \<Longrightarrow>
    mr_conc c (c\<lparr>locals_mr := (locals_mr c)[t := MReady]\<rparr>)"

definition mr_init :: "mr_config \<Rightarrow> bool" where
  "mr_init c \<longleftrightarrow> shared_mr c = empty_bucket_mr \<and> (\<forall>l\<in>set (locals_mr c). l = MReady)"

section \<open>A removal that misses its key\<close>

datatype mr_action = MCall nat kv_op | MRun nat | MRet nat

fun mr_act :: "mr_action \<Rightarrow> mr_config \<Rightarrow> mr_config option" where
  "mr_act (MCall t x) c =
     (if t < length (locals_mr c) \<and> locals_mr c ! t = MReady \<and> op_ok (\<lambda>_. True) (\<lambda>v. v \<noteq> 0) x
      then Some (c\<lparr>locals_mr := (locals_mr c)[t := mr_start x]\<rparr>) else None)"
| "mr_act (MRun t) c =
     (if t < length (locals_mr c) \<and> busy_mr (locals_mr c ! t) then Some (mr_run t c) else None)"
| "mr_act (MRet t) c =
     (if t < length (locals_mr c) then
        (case locals_mr c ! t of
           MReturned x r \<Rightarrow> Some (c\<lparr>locals_mr := (locals_mr c)[t := MReady]\<rparr>) | _ \<Rightarrow> None)
      else None)"

lemma mr_act_step: "mr_act a c = Some c' \<Longrightarrow> mr_conc c c'"
  by (cases a) (auto intro: mr_conc.intros split: if_splits mr_local.splits)

lemma mr_act_steps:
  "schedule_run mr_act as c = Some cs \<Longrightarrow> cs \<noteq> [] \<and> hd cs = c \<and> successively mr_conc cs"
  by (rule schedule_run_steps [of mr_act]) (rule mr_act_step)

definition start_mr :: mr_config where
  "start_mr = \<lparr>shared_mr = empty_bucket_mr, locals_mr = [MReady, MReady]\<rparr>"

definition mr_whole_call :: "nat \<Rightarrow> kv_op \<Rightarrow> nat \<Rightarrow> mr_action list" where
  "mr_whole_call t x n = MCall t x # replicate n (MRun t) @ [MRet t]"

text \<open>
  Thread 1 stores 5 under 9; thread 0 starts to remove 9 and stops before its compare-and-swap;
  thread 1 removes 9 and stores 6 under 7 in the same slot; thread 0 now marks that slot.
\<close>

definition mark_wrong_key :: "mr_action list" where
  "mark_wrong_key = mr_whole_call 1 (Put 9 5) 11 @ MCall 0 (Remove 9) # replicate 4 (MRun 0) @
     mr_whole_call 1 (Remove 9) 8 @ mr_whole_call 1 (Put 7 6) 11 @ [MRun 0]"

text \<open>Thread 1 removes 7, passing over the marked slot; then thread 0 takes its mark back.\<close>

definition miss_key :: "mr_action list" where
  "miss_key = MCall 1 (Remove 7) # replicate 6 (MRun 1) @ [MRun 0, MRun 0]"

lemma miss_key_run:
  "case schedule_run mr_act mark_wrong_key start_mr of
     None \<Rightarrow> False
   | Some cs \<Rightarrow>
       (case schedule_run mr_act miss_key (last cs) of
          None \<Rightarrow> False
        | Some ds \<Rightarrow> list_all (\<lambda>c. bucket_map_mr (shared_mr c) 7 = Some 6) ds \<and>
            locals_mr (hd ds) ! 1 = MReady \<and> locals_mr (ds ! 1) ! 1 = mr_start (Remove 7) \<and>
            locals_mr (last ds) = [MReturned (Remove 9) (RVal 0), MReturned (Remove 7) (RVal 0)])"
  by code_simp

text \<open>
  C28. A removal is not atomic. There is a run that reaches a state from which thread 1 calls
  \<open>clht_remove\<close> for the key 7; the bucket maps 7 to 6 at every moment from then until both threads
  have returned, and the call answers 0 and removes nothing: another removal had marked the slot
  for a key that was no longer there, and marked slots are passed over.
\<close>

theorem clht_mr_remove_misses_key:
  "\<exists>cs ds. cs \<noteq> [] \<and> mr_init (hd cs) \<and> successively mr_conc cs \<and>
     hd ds = last cs \<and> successively mr_conc ds \<and>
     locals_mr (hd ds) ! 1 = MReady \<and> locals_mr (ds ! 1) ! 1 = mr_start (Remove 7) \<and>
     list_all (\<lambda>c. bucket_map_mr (shared_mr c) 7 = Some 6) ds \<and>
     locals_mr (last ds) = [MReturned (Remove 9) (RVal 0), MReturned (Remove 7) (RVal 0)]"
proof -
  from miss_key_run obtain cs ds where
    cs: "schedule_run mr_act mark_wrong_key start_mr = Some cs" and
    ds: "schedule_run mr_act miss_key (last cs) = Some ds" and
    seen: "list_all (\<lambda>c. bucket_map_mr (shared_mr c) 7 = Some 6) ds"
      "locals_mr (hd ds) ! 1 = MReady" "locals_mr (ds ! 1) ! 1 = mr_start (Remove 7)"
      "locals_mr (last ds) = [MReturned (Remove 9) (RVal 0), MReturned (Remove 7) (RVal 0)]"
    by (auto split: option.splits)
  have "mr_init start_mr" by (simp add: mr_init_def start_mr_def)
  with mr_act_steps [OF cs] mr_act_steps [OF ds] seen show ?thesis
    by (intro exI [of _ cs] exI [of _ ds]) simp
qed

end
