(* ===== verification/Rtable.thy ===== *)
theory Rtable
  imports Kv_store Clht_hash Atomic_ops
begin

text \<open>
  The state that the resizing tables share (\<open>src/src/clht/include/clht_lb_res.h\<close> and the headers
  of its variants): a wrapper \<open>clht_t\<close> whose \<open>ht\<close> field is swapped at a resize, and a chain of
  table versions linked by \<open>table_prev\<close> and \<open>table_new\<close>. Tables are addressed: an address is an
  index into the list of all tables ever created, and NULL is \<open>None\<close>. The type of a bucket (or of
  a chain of buckets) is a parameter.
\<close>

record 'c rtable =
  rt_num_buckets :: u64
  rt_table :: "'c list"
  rt_hash :: u64
  rt_version :: u64
  rt_table_tmp :: "nat option"
  rt_table_prev :: "nat option"
  rt_table_new :: "nat option"
  rt_num_expands :: u32
  rt_threshold :: u32
  rt_is_helper :: u32
  rt_helper_done :: u32

text \<open>The version record of a thread (\<open>ht_ts_t\<close>): its version and its id.\<close>

record ht_ts =
  ts_version :: u64
  ts_id :: nat

text \<open>
  The wrapper, with the tables it refers to. \<open>rc_released\<close> lists the tables handed to
  \<open>ssmem_release\<close> (their memory is given back when no thread can hold a reference any more),
  \<open>rc_freed\<close> those given to \<open>free\<close>.
\<close>

record 'c rclht =
  rc_ht :: nat
  rc_ht_oldest :: nat
  rc_version_list :: "ht_ts list"
  rc_version_min :: u64
  rc_resize_lock :: u8
  rc_gc_lock :: u8
  rc_status_lock :: u8
  rc_tables :: "'c rtable list"
  rc_released :: "nat list"
  rc_freed :: "nat list"

definition LOCK_FREE :: u8 where
  "LOCK_FREE = 0"

definition LOCK_UPDATE :: u8 where
  "LOCK_UPDATE = 1"

definition LOCK_RESIZE :: u8 where
  "LOCK_RESIZE = 2"

text \<open>\<open>clht_hashtable_create\<close>, given the initial bucket and the initial threshold.\<close>

definition new_rtable :: "'c \<Rightarrow> u32 \<Rightarrow> u32 \<Rightarrow> 'c rtable" where
  "new_rtable c num_buckets threshold =
     \<lparr>rt_num_buckets = ucast num_buckets, rt_table = replicate (unat num_buckets) c,
      rt_hash = ucast (num_buckets - 1), rt_version = 0, rt_table_tmp = None, rt_table_prev = None,
      rt_table_new = None, rt_num_expands = 0, rt_threshold = threshold, rt_is_helper = 1,
      rt_helper_done = 0\<rparr>"

definition rtable_create :: "'c \<Rightarrow> u32 \<Rightarrow> u32 \<Rightarrow> mem \<Rightarrow> 'c rtable option \<times> mem" where
  "rtable_create c num_buckets threshold m =
     (if num_buckets = 0 then (None, m)
      else case memalign m of
        (None, m1) \<Rightarrow> (None, m1)
      | (Some _, m1) \<Rightarrow>
          (case memalign m1 of
             (None, m2) \<Rightarrow> (None, mfree m2)
           | (Some _, m2) \<Rightarrow> (Some (new_rtable c num_buckets threshold), m2)))"

definition new_rclht :: "'c rtable \<Rightarrow> 'c rclht" where
  "new_rclht t = \<lparr>rc_ht = 0, rc_ht_oldest = 0, rc_version_list = [], rc_version_min = 0,
     rc_resize_lock = LOCK_FREE, rc_gc_lock = LOCK_FREE, rc_status_lock = LOCK_FREE,
     rc_tables = [t], rc_released = [], rc_freed = []\<rparr>"

text \<open>\<open>h->ht\<close>, and writing back through it.\<close>

definition cur_table :: "'c rclht \<Rightarrow> 'c rtable" where
  "cur_table h = rc_tables h ! rc_ht h"

definition set_table :: "nat \<Rightarrow> 'c rtable \<Rightarrow> 'c rclht \<Rightarrow> 'c rclht" where
  "set_table p t h = h\<lparr>rc_tables := (rc_tables h)[p := t]\<rparr>"

definition TRYLOCK_ACQ :: "u8 \<Rightarrow> bool \<times> u8" where
  "TRYLOCK_ACQ l = (let (old, new) = TAS_U8 l in (old \<noteq> 0, new))"

section \<open>The shape of a table\<close>

definition rt_shape :: "'c rtable \<Rightarrow> bool" where
  "rt_shape t \<longleftrightarrow> rt_num_buckets t \<noteq> 0 \<and> unat (rt_num_buckets t) < 2 ^ 32 \<and>
     rt_hash t = rt_num_buckets t - 1 \<and> length (rt_table t) = unat (rt_num_buckets t)"

definition rt_bin :: "'c rtable \<Rightarrow> u64 \<Rightarrow> nat" where
  "rt_bin t k = unat (mask_bin (rt_hash t) k)"

lemma rt_bin_less: "rt_shape t \<Longrightarrow> rt_bin t k < length (rt_table t)"
  using mask_bin_less [of "rt_num_buckets t" k] by (simp add: rt_shape_def rt_bin_def)

lemma new_rtable_shape:
  fixes n :: u32
  assumes "n \<noteq> 0"
  shows "rt_shape (new_rtable c n th)"
proof -
  have "ucast (n - 1) = (ucast n - 1 :: u64)"
    using assms by (simp add: word_unat_eq_iff unat_ucast_u32 unat_pred)
  with assms show ?thesis
    using unat_bound [of n] unat_ucast_u32 [of n]
    by (auto simp: rt_shape_def new_rtable_def unat_eq_zero [symmetric])
qed

lemma rtable_create_cases:
  assumes "rtable_create c n th m = (w, m')"
  shows "(w = None \<and> live m' = live m \<and> (n = 0 \<or> \<not> ready 2 m)) \<or>
    (w = Some (new_rtable c n th) \<and> n \<noteq> 0 \<and> live m' = live m + 2)"
  using assms
  by (auto simp: rtable_create_def memalign_def mfree_def ready_def split: list.splits option.splits if_splits)

end
