(* ===== verification/Clht_gc.thy ===== *)
theory Clht_gc
  imports Rtable
begin

text \<open>
  Reclaiming old versions of a table (\<open>src/src/clht/src/clht_gc.c\<close>), over the state of theory
  Rtable. The parameter \<open>over\<close> gives the number of overflow buckets that hang off one bucket of
  the array: the walks over \<open>bucket->next\<close> free exactly those, and with \<open>LOCKFREE_RES\<close> (no such
  walk) it is constantly 0. \<open>assert\<close> failures and null dereferences are \<open>Faults\<close>. The version
  records of the threads are kept in the order of registration (the code's list starts with the
  last one); \<open>clht_ts_thread\<close> is the position of the running thread's record.
\<close>

section \<open>Version records of the threads\<close>

definition clht_gc_thread_init :: "'c rclht \<Rightarrow> nat \<Rightarrow> mem \<Rightarrow> (nat \<times> 'c rclht \<times> mem) outcome" where
  "clht_gc_thread_init h tid m =
     (case memalign m of
        (None, m1) \<Rightarrow> Faults
      | (Some _, m1) \<Rightarrow>
          (case memalign m1 of
             (None, m2) \<Rightarrow> Faults
           | (Some _, m2) \<Rightarrow>
               let ts = \<lparr>ts_version = rt_version (cur_table h), ts_id = tid\<rparr>
               in Done (length (rc_version_list h), h\<lparr>rc_version_list := rc_version_list h @ [ts]\<rparr>, m2)))"

definition clht_gc_thread_version :: "nat option \<Rightarrow> u64 \<Rightarrow> 'c rclht \<Rightarrow> 'c rclht outcome" where
  "clht_gc_thread_version clht_ts_thread ht_version h =
     (case clht_ts_thread of
        None \<Rightarrow> Faults
      | Some i \<Rightarrow> Done (h\<lparr>rc_version_list := (rc_version_list h)
                           [i := (rc_version_list h ! i)\<lparr>ts_version := ht_version\<rparr>]\<rparr>))"

definition clht_gc_thread_version_max :: "nat option \<Rightarrow> 'c rclht \<Rightarrow> 'c rclht outcome" where
  "clht_gc_thread_version_max clht_ts_thread h = clht_gc_thread_version clht_ts_thread (- 1) h"

definition clht_gc_get_id :: "nat option \<Rightarrow> 'c rclht \<Rightarrow> nat outcome" where
  "clht_gc_get_id clht_ts_thread h =
     (case clht_ts_thread of None \<Rightarrow> Faults | Some i \<Rightarrow> Done (ts_id (rc_version_list h ! i)))"

fun min_versions :: "ht_ts list \<Rightarrow> u64 \<Rightarrow> u64" where
  "min_versions [] v = v"
| "min_versions (ts # tss) v = min_versions tss (if ts_version ts < v then ts_version ts else v)"

definition clht_gc_min_version_used :: "'c rclht \<Rightarrow> u64" where
  "clht_gc_min_version_used h = min_versions (rev (rc_version_list h)) (rt_version (cur_table h))"

section \<open>Freeing and releasing tables\<close>

definition overflow_buckets :: "('c \<Rightarrow> nat) \<Rightarrow> 'c rtable \<Rightarrow> nat" where
  "overflow_buckets over t =
     (\<Sum>bin\<leftarrow>[0..<unat (ucast (rt_num_buckets t) :: u32)]. over (rt_table t ! bin))"

definition clht_gc_free :: "('c \<Rightarrow> nat) \<Rightarrow> nat \<Rightarrow> 'c rclht \<Rightarrow> mem \<Rightarrow> 'c rclht \<times> mem" where
  "clht_gc_free over p h m =
     (h\<lparr>rc_freed := rc_freed h @ [p]\<rparr>,
      m\<lparr>live := live m - (overflow_buckets over (rc_tables h ! p) + 2)\<rparr>)"

definition clht_gc_release :: "nat \<Rightarrow> 'c rclht \<Rightarrow> 'c rclht" where
  "clht_gc_release p h = h\<lparr>rc_released := rc_released h @ [p]\<rparr>"

section \<open>Collection\<close>

text \<open>
  The loop of \<open>clht_gc_collect_cond\<close>. Only \<open>table_prev\<close> fields change in it, so a walk longer
  than the number of tables goes round in a circle and never ends: the first argument, which bounds
  the walk, is that number plus one.
\<close>

fun gc_collect_loop :: "('c \<Rightarrow> nat) \<Rightarrow> nat \<Rightarrow> nat option \<Rightarrow> u64 \<Rightarrow> nat \<Rightarrow> 'c rclht \<Rightarrow> mem \<Rightarrow>
    (nat \<times> nat option \<times> 'c rclht \<times> mem) outcome" where
  "gc_collect_loop over 0 cur version_min gced_num h m = Spins"
| "gc_collect_loop over (Suc f) cur version_min gced_num h m =
     (case cur of
        None \<Rightarrow> Done (gced_num, None, h, m)
      | Some p \<Rightarrow>
          if \<not> rt_version (rc_tables h ! p) < version_min then Done (gced_num, Some p, h, m)
          else case rt_table_new (rc_tables h ! p) of
                 None \<Rightarrow> Faults
               | Some nxt \<Rightarrow>
                   let h = set_table nxt ((rc_tables h ! nxt)\<lparr>rt_table_prev := None\<rparr>) h;
                       (h, m) = clht_gc_free over p h m
                   in gc_collect_loop over f (Some nxt) version_min (Suc gced_num) h m)"

definition clht_gc_collect_cond ::
  "('c \<Rightarrow> nat) \<Rightarrow> 'c rclht \<Rightarrow> bool \<Rightarrow> mem \<Rightarrow> (nat \<times> 'c rclht \<times> mem) outcome" where
  "clht_gc_collect_cond over h collect_not_referenced_only m =
     (if rc_version_min h \<ge> rt_version (cur_table h) then Done (0, h, m)
      else let (taken, l) = TRYLOCK_ACQ (rc_gc_lock h); h = h\<lparr>rc_gc_lock := l\<rparr>
           in if taken then Done (0, h, m)
              else let version_min = (if collect_not_referenced_only then clht_gc_min_version_used h
                                      else rt_version (cur_table h))
                   in if rc_version_min h \<ge> version_min then Done (0, h\<lparr>rc_gc_lock := LOCK_FREE\<rparr>, m)
                      else bind_outcome
                             (gc_collect_loop over (Suc (length (rc_tables h))) (Some (rc_ht_oldest h)) version_min 0 h m)
                             (\<lambda>(gced_num, cur, h, m).
                                case cur of
                                  None \<Rightarrow> Faults
                                | Some p \<Rightarrow> Done (gced_num, h\<lparr>rc_version_min := rt_version (rc_tables h ! p),
                                              rc_ht_oldest := p, rc_gc_lock := LOCK_FREE\<rparr>, m)))"

text \<open>\<open>CLHT_DO_GC\<close> is 0 in the header that \<open>clht_gc.c\<close> includes.\<close>

definition clht_gc_collect :: "'c rclht \<Rightarrow> nat \<times> 'c rclht" where
  "clht_gc_collect h = (0, h)"

definition clht_gc_collect_all :: "('c \<Rightarrow> nat) \<Rightarrow> 'c rclht \<Rightarrow> mem \<Rightarrow> (nat \<times> 'c rclht \<times> mem) outcome" where
  "clht_gc_collect_all over h m = clht_gc_collect_cond over h False m"

text \<open>\<open>free(hashtable)\<close> and \<open>free(clht_alloc)\<close> give back two more blocks.\<close>

definition clht_gc_destroy :: "('c \<Rightarrow> nat) \<Rightarrow> 'c rclht \<Rightarrow> mem \<Rightarrow> ('c rclht \<times> mem) outcome" where
  "clht_gc_destroy over h m =
     bind_outcome (clht_gc_collect_all over h m)
       (\<lambda>(_, h, m). let (h, m) = clht_gc_free over (rc_ht h) h m
                   in Done (h, mfree (mfree m)))"

section \<open>The chain of versions\<close>

text \<open>
  The tables from \<open>ht_oldest\<close> to \<open>ht\<close> are linked by \<open>table_new\<close>, their versions increase, and
  the oldest one's is \<open>version_min\<close>; the tables before it are freed. (Links back are not needed.)
\<close>

definition gc_chain :: "'c rclht \<Rightarrow> bool" where
  "gc_chain h \<longleftrightarrow> rc_ht_oldest h \<le> rc_ht h \<and> rc_ht h < length (rc_tables h) \<and>
     rc_version_min h = rt_version (rc_tables h ! rc_ht_oldest h) \<and>
     rc_freed h = [0..<rc_ht_oldest h] \<and>
     (\<forall>i. rc_ht_oldest h \<le> i \<and> i < rc_ht h \<longrightarrow> rt_table_new (rc_tables h ! i) = Some (Suc i)) \<and>
     (\<forall>i j. rc_ht_oldest h \<le> i \<and> i < j \<and> j \<le> rc_ht h \<longrightarrow>
        rt_version (rc_tables h ! i) < rt_version (rc_tables h ! j))"

text \<open>What a collection changes: back links, the two fields of the GC, the list of freed tables.\<close>

definition same_but_prev :: "'c rclht \<Rightarrow> 'c rclht \<Rightarrow> bool" where
  "same_but_prev h h' \<longleftrightarrow> rc_ht h' = rc_ht h \<and> length (rc_tables h') = length (rc_tables h) \<and>
     rc_version_list h' = rc_version_list h \<and> rc_released h' = rc_released h \<and>
     rc_resize_lock h' = rc_resize_lock h \<and> rc_status_lock h' = rc_status_lock h \<and>
     (\<forall>i<length (rc_tables h). \<exists>q. rc_tables h' ! i = (rc_tables h ! i)\<lparr>rt_table_prev := q\<rparr>)"

lemma same_but_prev_refl: "same_but_prev h h"
proof -
  have "\<exists>q. rc_tables h ! i = (rc_tables h ! i)\<lparr>rt_table_prev := q\<rparr>" for i
    by (rule exI [of _ "rt_table_prev (rc_tables h ! i)"]) simp
  then show ?thesis by (simp add: same_but_prev_def)
qed

lemma same_but_prev_trans:
  assumes "same_but_prev h u" and "same_but_prev u w"
  shows "same_but_prev h w"
proof -
  have "\<exists>q. rc_tables w ! i = (rc_tables h ! i)\<lparr>rt_table_prev := q\<rparr>" if i: "i < length (rc_tables h)" for i
  proof -
    from assms i obtain q where "rc_tables u ! i = (rc_tables h ! i)\<lparr>rt_table_prev := q\<rparr>"
      by (auto simp: same_but_prev_def)
    moreover from assms i obtain r where "rc_tables w ! i = (rc_tables u ! i)\<lparr>rt_table_prev := r\<rparr>"
      by (auto simp: same_but_prev_def)
    ultimately have "rc_tables w ! i = (rc_tables h ! i)\<lparr>rt_table_prev := r\<rparr>" by simp
    then show ?thesis ..
  qed
  with assms show ?thesis by (simp add: same_but_prev_def)
qed

lemma same_but_prev_nth:
  assumes "same_but_prev h h'" and "i < length (rc_tables h)"
  shows "rt_version (rc_tables h' ! i) = rt_version (rc_tables h ! i)"
    and "rt_table_new (rc_tables h' ! i) = rt_table_new (rc_tables h ! i)"
    and "rt_table (rc_tables h' ! i) = rt_table (rc_tables h ! i)"
    and "rt_num_buckets (rc_tables h' ! i) = rt_num_buckets (rc_tables h ! i)"
    and "rt_hash (rc_tables h' ! i) = rt_hash (rc_tables h ! i)"
  using assms by (fastforce simp: same_but_prev_def)+

lemma set_prev_same:
  assumes "q < length (rc_tables h)"
  shows "same_but_prev h (set_table q ((rc_tables h ! q)\<lparr>rt_table_prev := p\<rparr>) h)"
proof -
  have "\<exists>w. (rc_tables (set_table q ((rc_tables h ! q)\<lparr>rt_table_prev := p\<rparr>) h)) ! i =
      (rc_tables h ! i)\<lparr>rt_table_prev := w\<rparr>" if "i < length (rc_tables h)" for i
  proof (cases "i = q")
    case True
    with assms show ?thesis by (auto simp: set_table_def)
  next
    case False
    then have "rc_tables (set_table q ((rc_tables h ! q)\<lparr>rt_table_prev := p\<rparr>) h) ! i = rc_tables h ! i"
      by (simp add: set_table_def)
    then show ?thesis by (metis rtable.surjective rtable.update_convs(6))
  qed
  then show ?thesis by (simp add: same_but_prev_def) (simp add: set_table_def)
qed

lemma free_same: "same_but_prev h (fst (clht_gc_free over p h m))"
  using same_but_prev_refl [of h] by (simp add: clht_gc_free_def same_but_prev_def)

text \<open>The walk stops at the first table that is new enough.\<close>

lemma gc_collect_loop_law:
  assumes "k < length (rc_tables h)" and "i \<le> k" and "k - i < f"
    and "\<And>j. i \<le> j \<Longrightarrow> j < k \<Longrightarrow> rt_version (rc_tables h ! j) < vm \<and> rt_table_new (rc_tables h ! j) = Some (Suc j)"
    and "\<not> rt_version (rc_tables h ! k) < vm"
  shows "\<exists>h' m'. gc_collect_loop over f (Some i) vm g h m = Done (g + (k - i), Some k, h', m') \<and>
    same_but_prev h h' \<and> rc_freed h' = rc_freed h @ [i..<k] \<and> rc_gc_lock h' = rc_gc_lock h \<and>
    live m' = live m - (\<Sum>j\<leftarrow>[i..<k]. overflow_buckets over (rc_tables h ! j) + 2)"
  using assms
proof (induction f arbitrary: i g h m)
  case 0
  then show ?case by simp
next
  case (Suc f)
  show ?case
  proof (cases "i = k")
    case True
    with Suc.prems(5) show ?thesis by (auto simp: same_but_prev_refl)
  next
    case False
    with Suc.prems have ik: "i < k" by simp
    define u where "u = set_table (Suc i) ((rc_tables h ! Suc i)\<lparr>rt_table_prev := None\<rparr>) h"
    obtain w m1 where w: "clht_gc_free over i u m = (w, m1)" by fastforce
    have si: "Suc i < length (rc_tables h)" using ik Suc.prems(1) by simp
    have s: "same_but_prev h w"
      using set_prev_same [OF si, of None] free_same [of u over i m] w
      by (auto simp: u_def intro: same_but_prev_trans)
    have len: "length (rc_tables w) = length (rc_tables h)" using s by (simp add: same_but_prev_def)
    have un: "rc_freed u = rc_freed h" "rc_gc_lock u = rc_gc_lock h" by (simp_all add: u_def set_table_def)
    have fw: "rc_freed w = rc_freed h @ [i]" "rc_gc_lock w = rc_gc_lock h"
      using w un by (auto simp: clht_gc_free_def)
    have over: "overflow_buckets over (rc_tables x ! j) = overflow_buckets over (rc_tables h ! j)"
      if "same_but_prev h x" "j < length (rc_tables h)" for x j
      using same_but_prev_nth [OF that] by (simp add: overflow_buckets_def)
    have "same_but_prev h u" using set_prev_same [OF si, of None] by (simp add: u_def)
    then have m1: "live m1 = live m - (overflow_buckets over (rc_tables h ! i) + 2)"
      using w over [of u i] ik Suc.prems(1) by (auto simp: clht_gc_free_def)
    have k: "rt_version (rc_tables w ! j) < vm \<and> rt_table_new (rc_tables w ! j) = Some (Suc j)"
      if "Suc i \<le> j" "j < k" for j
      using Suc.prems(4) [of j] same_but_prev_nth [OF s, of j] that Suc.prems(1) by simp
    have kk: "\<not> rt_version (rc_tables w ! k) < vm" using Suc.prems(1,5) same_but_prev_nth [OF s, of k] by simp
    from Suc.IH [of w "Suc i", OF _ _ _ k kk] ik Suc.prems(1,3) len obtain h' m' where
      r: "gc_collect_loop over f (Some (Suc i)) vm (Suc g) w m1 = Done (Suc g + (k - Suc i), Some k, h', m')"
      "same_but_prev w h'" "rc_freed h' = rc_freed w @ [Suc i..<k]" "rc_gc_lock h' = rc_gc_lock w"
      "live m' = live m1 - (\<Sum>j\<leftarrow>[Suc i..<k]. overflow_buckets over (rc_tables w ! j) + 2)" by fastforce
    have "(\<Sum>j\<leftarrow>[Suc i..<k]. overflow_buckets over (rc_tables w ! j) + 2) =
        (\<Sum>j\<leftarrow>[Suc i..<k]. overflow_buckets over (rc_tables h ! j) + 2)"
      using over [OF s] Suc.prems(1) by (intro arg_cong [where f = sum_list] map_cong) auto
    with r ik m1 fw same_but_prev_trans [OF s r(2)] Suc.prems(4) [of i]
    show ?thesis by (auto simp: u_def [symmetric] w upt_conv_Cons Suc_diff_Suc)
  qed
qed

lemma gc_chain_version:
  assumes "gc_chain h" and "rc_ht_oldest h \<le> i" and "i < j" and "j \<le> rc_ht h"
  shows "rt_version (rc_tables h ! i) < rt_version (rc_tables h ! j)"
  using assms by (simp add: gc_chain_def)

text \<open>The first version that is not below \<open>vm\<close>, for a \<open>vm\<close> not above the current version.\<close>

lemma gc_first:
  assumes "gc_chain h" and "vm \<le> rt_version (cur_table h)" and "rc_version_min h < vm"
  obtains k where "rc_ht_oldest h < k" and "k \<le> rc_ht h" and "vm \<le> rt_version (rc_tables h ! k)"
    and "\<And>j. rc_ht_oldest h \<le> j \<Longrightarrow> j < k \<Longrightarrow>
      rt_version (rc_tables h ! j) < vm \<and> rt_table_new (rc_tables h ! j) = Some (Suc j)"
proof -
  let ?P = "\<lambda>k. rc_ht_oldest h \<le> k \<and> vm \<le> rt_version (rc_tables h ! k)"
  define k where "k = (LEAST k. ?P k)"
  have p: "?P (rc_ht h)" using assms by (simp add: gc_chain_def cur_table_def)
  have k: "?P k" unfolding k_def by (rule LeastI [of ?P, OF p])
  have le: "k \<le> rc_ht h" unfolding k_def by (rule Least_le [of ?P, OF p])
  have least: "rt_version (rc_tables h ! j) < vm" if "rc_ht_oldest h \<le> j" "j < k" for j
    using not_less_Least [of j ?P] that by (auto simp: k_def not_le)
  have "k \<noteq> rc_ht_oldest h" using k assms(1,3) by (auto simp: gc_chain_def not_le [symmetric])
  with k have "rc_ht_oldest h < k" by simp
  with k le least assms(1) show thesis by (intro that) (auto simp: gc_chain_def)
qed

lemma min_versions_le: "min_versions tss v \<le> v"
  by (induction tss arbitrary: v) (auto intro: order_trans less_imp_le)

lemma min_versions_lower: "ts \<in> set tss \<Longrightarrow> min_versions tss v \<le> ts_version ts"
proof (induction tss arbitrary: v)
  case (Cons t tss)
  then show ?case
    using min_versions_le [of tss "if ts_version t < v then ts_version t else v"]
    by (auto split: if_splits intro: order_trans)
qed simp

lemma min_versions_attained: "min_versions tss v = v \<or> (\<exists>ts\<in>set tss. min_versions tss v = ts_version ts)"
  by (induction tss arbitrary: v) auto

lemma collect_trylock: "TRYLOCK_ACQ LOCK_FREE = (False, 255)"
  by (simp add: TRYLOCK_ACQ_def TAS_U8_def SWAP_def LOCK_FREE_def)

lemma gc_chain_shrink:
  assumes "gc_chain h" and "same_but_prev h u" and "rc_ht_oldest h \<le> k" and "k \<le> rc_ht h"
    and "rc_freed u = [0..<k]"
  shows "gc_chain (u\<lparr>rc_version_min := rt_version (rc_tables u ! k), rc_ht_oldest := k, rc_gc_lock := l\<rparr>)"
  using assms same_but_prev_nth [OF assms(2)]
  by (auto simp: gc_chain_def) (auto simp: same_but_prev_def)

text \<open>
  What a collection up to the version \<open>vm\<close> does: the oldest tables are freed, one after the other,
  up to the first whose version is not below \<open>vm\<close>.
\<close>

definition collected :: "('c \<Rightarrow> nat) \<Rightarrow> u64 \<Rightarrow> 'c rclht \<Rightarrow> mem \<Rightarrow> nat \<times> 'c rclht \<times> mem \<Rightarrow> bool" where
  "collected over vm h m r \<longleftrightarrow> (case r of (n, h', m') \<Rightarrow>
     gc_chain h' \<and> rc_gc_lock h' = LOCK_FREE \<and> same_but_prev h h' \<and> rc_ht_oldest h \<le> rc_ht_oldest h' \<and>
     n = rc_ht_oldest h' - rc_ht_oldest h \<and> vm \<le> rt_version (rc_tables h ! rc_ht_oldest h') \<and>
     (\<forall>j\<in>{rc_ht_oldest h..<rc_ht_oldest h'}. rt_version (rc_tables h ! j) < vm) \<and>
     live m' = live m - (\<Sum>j\<leftarrow>[rc_ht_oldest h..<rc_ht_oldest h']. overflow_buckets over (rc_tables h ! j) + 2))"

lemma gc_lock_back: "rc_gc_lock h = l \<Longrightarrow> h\<lparr>rc_gc_lock := l\<rparr> = h"
  by (cases h) simp

lemma gc_lock_irrelevant:
  "gc_chain (h\<lparr>rc_gc_lock := l\<rparr>) = gc_chain h" "cur_table (h\<lparr>rc_gc_lock := l\<rparr>) = cur_table h"
  "same_but_prev (h\<lparr>rc_gc_lock := l\<rparr>) h' = same_but_prev h h'"
  "clht_gc_min_version_used (h\<lparr>rc_gc_lock := l\<rparr>) = clht_gc_min_version_used h"
  by (simp_all add: gc_chain_def cur_table_def same_but_prev_def clht_gc_min_version_used_def)

lemma collected_nothing:
  assumes "gc_chain h" and "rc_gc_lock h = LOCK_FREE" and "vm \<le> rc_version_min h"
  shows "collected over vm h m (0, h, m)"
  using assms by (auto simp: collected_def same_but_prev_refl gc_chain_def)

lemma gc_collect_cond_law:
  assumes "gc_chain h" and "rc_gc_lock h = LOCK_FREE"
  shows "\<exists>r. clht_gc_collect_cond over h b m = Done r \<and>
    collected over (if b then clht_gc_min_version_used h else rt_version (cur_table h)) h m r"
proof -
  define vm where "vm = (if b then clht_gc_min_version_used h else rt_version (cur_table h))"
  let ?l = "h\<lparr>rc_gc_lock := 255\<rparr>"
  have vm: "vm \<le> rt_version (cur_table h)"
    by (simp add: vm_def clht_gc_min_version_used_def min_versions_le)
  have eq: "clht_gc_collect_cond over h b m =
     (if vm \<le> rc_version_min h then Done (0, h, m)
      else bind_outcome (gc_collect_loop over (Suc (length (rc_tables h))) (Some (rc_ht_oldest h)) vm 0 ?l m)
        (\<lambda>(n, cur, h, m). case cur of None \<Rightarrow> Faults
          | Some p \<Rightarrow> Done (n, h\<lparr>rc_version_min := rt_version (rc_tables h ! p), rc_ht_oldest := p,
              rc_gc_lock := LOCK_FREE\<rparr>, m)))"
    using vm assms(2) unfolding vm_def
    by (auto simp: clht_gc_collect_cond_def collect_trylock gc_lock_irrelevant Let_def gc_lock_back
        simp del: gc_collect_loop.simps)
  show ?thesis
  proof (cases "vm \<le> rc_version_min h")
    case True
    with collected_nothing [OF assms True] show ?thesis by (auto simp: eq vm_def [symmetric])
  next
    case False
    then have "rc_version_min h < vm" by simp
    from gc_first [OF assms(1) vm this] obtain k where k: "rc_ht_oldest h < k" "k \<le> rc_ht h"
      "vm \<le> rt_version (rc_tables h ! k)" and below: "\<And>j. rc_ht_oldest h \<le> j \<Longrightarrow> j < k \<Longrightarrow>
        rt_version (rc_tables h ! j) < vm \<and> rt_table_new (rc_tables h ! j) = Some (Suc j)" by blast
    have kl: "k < length (rc_tables h)" using k assms(1) by (simp add: gc_chain_def)
    then have fuel: "k - rc_ht_oldest h < Suc (length (rc_tables h))" by simp
    from gc_collect_loop_law [of k ?l "rc_ht_oldest h" "Suc (length (rc_tables h))" vm over 0 m]
    obtain u m' where r: "gc_collect_loop over (Suc (length (rc_tables h))) (Some (rc_ht_oldest h)) vm 0 ?l m =
        Done (k - rc_ht_oldest h, Some k, u, m')" and s: "same_but_prev h u" and
      fr: "rc_freed u = rc_freed h @ [rc_ht_oldest h..<k]" and
      lv: "live m' = live m - (\<Sum>j\<leftarrow>[rc_ht_oldest h..<k]. overflow_buckets over (rc_tables h ! j) + 2)"
      using k kl below fuel by (auto simp: gc_lock_irrelevant not_less simp del: gc_collect_loop.simps)
    have "rc_freed u = [0..<k]"
      using fr k(1) assms(1) upt_add_eq_append [of 0 "rc_ht_oldest h" "k - rc_ht_oldest h"]
      by (simp add: gc_chain_def)
    from gc_chain_shrink [OF assms(1) s _ k(2) this] k lv s below False
    show ?thesis
      by (auto simp: eq r vm_def [symmetric] collected_def same_but_prev_def simp del: gc_collect_loop.simps)
  qed
qed

lemma gc_collect_all_law:
  assumes "gc_chain h" and "rc_gc_lock h = LOCK_FREE"
  shows "\<exists>h' m'. clht_gc_collect_all over h m = Done (rc_ht h - rc_ht_oldest h, h', m') \<and>
    gc_chain h' \<and> rc_gc_lock h' = LOCK_FREE \<and> rc_ht_oldest h' = rc_ht h \<and> rc_freed h' = [0..<rc_ht h] \<and>
    same_but_prev h h'"
proof -
  from gc_collect_cond_law [OF assms, of over False m] obtain n h' m' where
    r: "clht_gc_collect_all over h m = Done (n, h', m')" and c: "collected over (rt_version (cur_table h)) h m (n, h', m')"
    by (auto simp: clht_gc_collect_all_def)
  from c have g: "gc_chain h'" "rc_ht_oldest h \<le> rc_ht_oldest h'" "rc_ht h' = rc_ht h"
    "rt_version (cur_table h) \<le> rt_version (rc_tables h ! rc_ht_oldest h')"
    by (auto simp: collected_def same_but_prev_def)
  then have "rc_ht_oldest h' \<le> rc_ht h" by (simp add: gc_chain_def)
  then have "rc_ht_oldest h' = rc_ht h"
    using gc_chain_version [OF assms(1) g(2), of "rc_ht h"] g(4) by (auto simp: cur_table_def not_less le_less)
  with c g r show ?thesis by (auto simp: collected_def gc_chain_def)
qed

text \<open>
  \<open>clht_gc_collect_all\<close> on a well-formed chain of versions ends, frees each replaced table that
  was still there once, oldest first, and no other, and leaves the current table and the chain
  well formed.
\<close>

theorem clht_gc_collect_all_correct:
  assumes "gc_chain h" and "rc_gc_lock h = LOCK_FREE"
  shows "\<exists>h' m'. clht_gc_collect_all over h m = Done (rc_ht h - rc_ht_oldest h, h', m') \<and>
    gc_chain h' \<and> rc_gc_lock h' = LOCK_FREE \<and> rc_ht_oldest h' = rc_ht h \<and> rc_freed h' = [0..<rc_ht h] \<and>
    same_but_prev h h'"
  using assms by (rule gc_collect_all_law)

text \<open>
  C38. A collection of unreferenced versions frees only tables that are older than the version of
  every registered thread and than the current table, and stops at the first table that some thread
  may use or that is current.
\<close>

theorem clht_gc_collect_unreferenced_safe:
  assumes "gc_chain h" and "rc_gc_lock h = LOCK_FREE"
    and "clht_gc_collect_cond over h True m = Done (n, h', m')"
  shows "(\<forall>p\<in>set (rc_freed h') - set (rc_freed h).
      rt_version (rc_tables h ! p) < rt_version (cur_table h) \<and>
      (\<forall>ts\<in>set (rc_version_list h). rt_version (rc_tables h ! p) < ts_version ts)) \<and>
    (rt_version (cur_table h) \<le> rt_version (rc_tables h ! rc_ht_oldest h') \<or>
      (\<exists>ts\<in>set (rc_version_list h). ts_version ts \<le> rt_version (rc_tables h ! rc_ht_oldest h')))"
proof -
  define vm where "vm = clht_gc_min_version_used h"
  from gc_collect_cond_law [OF assms(1,2), of over True m] assms(3)
  have c: "collected over vm h m (n, h', m')" by (simp add: vm_def)
  have lower: "vm \<le> rt_version (cur_table h)" "\<forall>ts\<in>set (rc_version_list h). vm \<le> ts_version ts"
    by (auto simp: vm_def clht_gc_min_version_used_def min_versions_le min_versions_lower)
  have at: "vm = rt_version (cur_table h) \<or> (\<exists>ts\<in>set (rc_version_list h). vm = ts_version ts)"
    using min_versions_attained [of "rev (rc_version_list h)" "rt_version (cur_table h)"]
    by (simp add: vm_def clht_gc_min_version_used_def)
  from c assms(1) have "\<forall>p\<in>set (rc_freed h') - set (rc_freed h). rt_version (rc_tables h ! p) < vm"
    by (auto simp: collected_def gc_chain_def)
  with lower have 1: "\<forall>p\<in>set (rc_freed h') - set (rc_freed h).
      rt_version (rc_tables h ! p) < rt_version (cur_table h) \<and>
      (\<forall>ts\<in>set (rc_version_list h). rt_version (rc_tables h ! p) < ts_version ts)" by (meson less_le_trans)
  from c have "vm \<le> rt_version (rc_tables h ! rc_ht_oldest h')" by (simp add: collected_def)
  with at 1 show ?thesis by auto
qed

section \<open>Witnesses\<close>

text \<open>Three versions of a table of two buckets, and one thread that uses the second of them.\<close>

definition example_version :: "u64 \<Rightarrow> nat option \<Rightarrow> nat rtable" where
  "example_version v nxt = (new_rtable 0 2 1)\<lparr>rt_version := v, rt_table_new := nxt\<rparr>"

definition example_gc :: "nat rclht" where
  "example_gc = (new_rclht (example_version 0 (Some 1)))\<lparr>
     rc_tables := [example_version 0 (Some 1), example_version 1 (Some 2), example_version 2 None],
     rc_ht := 2, rc_version_list := [\<lparr>ts_version = 1, ts_id = 0\<rparr>]\<rparr>"

lemma example_gc_chain: "gc_chain example_gc" "rc_gc_lock example_gc = LOCK_FREE"
proof -
  have "rt_table_new (rc_tables example_gc ! i) = Some (Suc i)" if "i < 2" for i
    using that by (auto simp: example_gc_def example_version_def numeral_2_eq_2 less_Suc_eq)
  moreover have "rt_version (rc_tables example_gc ! i) < rt_version (rc_tables example_gc ! j)"
    if "i < j" "j \<le> 2" for i j
    using that by (auto simp: example_gc_def example_version_def numeral_2_eq_2 less_Suc_eq le_Suc_eq)
  ultimately show "gc_chain example_gc"
    by (simp add: gc_chain_def) (simp add: example_gc_def new_rclht_def example_version_def)
  show "rc_gc_lock example_gc = LOCK_FREE" by (simp add: example_gc_def new_rclht_def)
qed

theorem clht_gc_collect_all_correct_witness:
  "\<exists>h' m'. clht_gc_collect_all id example_gc example_mem =
      Done (rc_ht example_gc - rc_ht_oldest example_gc, h', m') \<and>
    gc_chain h' \<and> rc_gc_lock h' = LOCK_FREE \<and> rc_ht_oldest h' = rc_ht example_gc \<and>
    rc_freed h' = [0..<rc_ht example_gc] \<and> same_but_prev example_gc h'"
  by (rule clht_gc_collect_all_correct) (rule example_gc_chain)+

theorem clht_gc_collect_unreferenced_safe_witness:
  "\<exists>n h' m'. clht_gc_collect_cond id example_gc True example_mem = Done (n, h', m') \<and> rc_freed h' = [0] \<and>
    (\<forall>p\<in>set (rc_freed h') - set (rc_freed example_gc).
      rt_version (rc_tables example_gc ! p) < rt_version (cur_table example_gc) \<and>
      (\<forall>ts\<in>set (rc_version_list example_gc). rt_version (rc_tables example_gc ! p) < ts_version ts)) \<and>
    (rt_version (cur_table example_gc) \<le> rt_version (rc_tables example_gc ! rc_ht_oldest h') \<or>
      (\<exists>ts\<in>set (rc_version_list example_gc). ts_version ts \<le> rt_version (rc_tables example_gc ! rc_ht_oldest h')))"
proof -
  have "case clht_gc_collect_cond id example_gc True example_mem of
      Done (n, h', m') \<Rightarrow> rc_freed h' = [0] | _ \<Rightarrow> False" by code_simp
  then obtain n h' m' where r: "clht_gc_collect_cond id example_gc True example_mem = Done (n, h', m')"
    "rc_freed h' = [0]" by (auto split: outcome.splits)
  from clht_gc_collect_unreferenced_safe [OF example_gc_chain r(1)] r show ?thesis by metis
qed

end
