(* ===== verification/Clht_lb_res.thy ===== *)
theory Clht_lb_res
  imports Chain Clht_gc
begin

text \<open>
  \<open>CLHT-LB-RESIZE\<close> (\<open>src/src/clht/src/clht_lb_res.c\<close>, \<open>include/clht_lb_res.h\<close>): the chains of theory Chain under a three-valued lock, and a
  table that is replaced by a larger one when too many buckets had to be added. The options are
  those of the header: \<open>CLHT_READ_ONLY_FAIL 1\<close>, \<open>CLHT_HELP_RESIZE 0\<close>, \<open>CLHT_DO_GC 0\<close>,
  \<open>CLHT_DO_CHECK_STATUS 0\<close>. One thread runs at a time: a lock that is held is waited for for
  ever (\<open>Spins\<close>). \<open>double\<close> values are compared exactly (the operands are integers below
  \<open>2 ^ 53\<close>).
\<close>

section \<open>Parameters and state\<close>

definition CLHT_PERC_EXPANSIONS :: u32 where
  "CLHT_PERC_EXPANSIONS = 1"

definition CLHT_MAX_EXPANSIONS :: nat where
  "CLHT_MAX_EXPANSIONS = 24"

definition CLHT_PERC_FULL_DOUBLE :: nat where
  "CLHT_PERC_FULL_DOUBLE = 50"

definition CLHT_OCCUP_AFTER_RES :: nat where
  "CLHT_OCCUP_AFTER_RES = 40"

definition CLHT_PERC_FULL_HALVE :: nat where
  "CLHT_PERC_FULL_HALVE = 5"

definition CLHT_RATIO_HALVE :: u64 where
  "CLHT_RATIO_HALVE = 8"

type_synonym chain_res = "u8 bucket list"
type_synonym table_res = "chain_res rtable"
type_synonym clht_res = "chain_res rclht"

definition clht_bucket_create_stats_res ::
  "table_res \<Rightarrow> mem \<Rightarrow> u8 bucket option \<times> bool \<times> table_res \<times> mem" where
  "clht_bucket_create_stats_res t m =
     (let (b, m') = clht_bucket_create m;
          (n, stored) = IAF (rt_num_expands t)
      in (b, n = rt_threshold t, t\<lparr>rt_num_expands := stored\<rparr>, m'))"

definition expands_threshold :: "u32 \<Rightarrow> u32" where
  "expands_threshold num_buckets =
     (let th = CLHT_PERC_EXPANSIONS * num_buckets in if th = 0 then 1 else th)"

definition clht_hashtable_create_res :: "u32 \<Rightarrow> mem \<Rightarrow> table_res option \<times> mem" where
  "clht_hashtable_create_res num_buckets m =
     rtable_create [empty_bucket] num_buckets (expands_threshold num_buckets) m"

definition clht_create_res :: "u32 \<Rightarrow> mem \<Rightarrow> clht_res option \<times> mem" where
  "clht_create_res num_buckets m =
     (case memalign m of
        (None, m1) \<Rightarrow> (None, m1)
      | (Some _, m1) \<Rightarrow>
          (case clht_hashtable_create_res num_buckets m1 of
             (None, m2) \<Rightarrow> (None, mfree m2)
           | (Some t, m2) \<Rightarrow> (Some (new_rclht t), m2)))"

definition clht_hash_res :: "table_res \<Rightarrow> u64 \<Rightarrow> u32" where
  "clht_hash_res t k = mask_bin (rt_hash t) k"

section \<open>The three-valued lock\<close>

text \<open>
  An update waits while another update holds the lock. If a resize holds it, the update waits
  for the new table and is told to start again there.
\<close>

definition lock_acq_chk_resize :: "u8 \<Rightarrow> nat option \<Rightarrow> (bool \<times> u8) outcome" where
  "lock_acq_chk_resize lock_word table_new =
     (let (l, stored) = CAS lock_word LOCK_FREE LOCK_UPDATE
      in if l = LOCK_UPDATE then Spins
         else if l = LOCK_RESIZE then (if table_new = None then Spins else Done (False, stored))
         else Done (True, stored))"

definition lock_acq_resize :: "u8 \<Rightarrow> (bool \<times> u8) outcome" where
  "lock_acq_resize lock_word =
     (let (l, stored) = CAS lock_word LOCK_FREE LOCK_RESIZE
      in if l = LOCK_UPDATE then Spins
         else if l = LOCK_RESIZE then Done (False, stored)
         else Done (True, stored))"

text \<open>
  \<open>while (!LOCK_ACQ(lock, hashtable)) hashtable = h->ht; \<dots>\<close> on the current table: with no
  other thread \<open>h->ht\<close> stays, so a refusal repeats for ever.
\<close>

definition acquire_res :: "table_res \<Rightarrow> chain_res \<Rightarrow> chain_res outcome" where
  "acquire_res t bs =
     bind_outcome (lock_acq_chk_resize (lock (hd bs)) (rt_table_new t))
       (\<lambda>(ok, l). if ok then Done (set_lock bs l) else Spins)"

section \<open>Operations on one table\<close>

definition clht_get_res :: "table_res \<Rightarrow> u64 \<Rightarrow> u64" where
  "clht_get_res t k = (let bin = unat (clht_hash_res t k) in chain_get (rt_table t ! bin) k)"

text \<open>
  The loop of \<open>clht_put\<close>: the result, whether a resize is due, the chain, the table whose
  expansions were counted.
\<close>

definition chain_insert_res ::
  "table_res \<Rightarrow> chain_res \<Rightarrow> u64 \<Rightarrow> u64 \<Rightarrow> mem \<Rightarrow> (bool \<times> bool \<times> chain_res \<times> table_res \<times> mem) outcome" where
  "chain_insert_res t bs k v m =
     (case put_walk bs k 0 None of
        Inl _ \<Rightarrow> Done (False, False, bs, t, m)
      | Inr (Some (h, j)) \<Rightarrow> Done (True, False, write_slot bs h j k v, t, m)
      | Inr None \<Rightarrow>
          (case clht_bucket_create_stats_res t m of
             (None, resize, t', m') \<Rightarrow> Faults
           | (Some b, resize, t', m') \<Rightarrow>
               Done (True, resize, write_slot (bs @ [b]) (length bs) 0 k v, t', m')))"

definition put_table_res ::
  "table_res \<Rightarrow> u64 \<Rightarrow> u64 \<Rightarrow> mem \<Rightarrow> (bool \<times> bool \<times> table_res \<times> mem) outcome" where
  "put_table_res t k v m =
     (let bin = unat (clht_hash_res t k); bs = rt_table t ! bin
      in if bucket_exists bs k then Done (False, False, t, m)
         else bind_outcome (acquire_res t bs)
           (\<lambda>bs. bind_outcome (chain_insert_res t bs k v m)
              (\<lambda>(r, resize, bs', t', m').
                 Done (r, resize, t'\<lparr>rt_table := (rt_table t')[bin := set_lock bs' LOCK_FREE]\<rparr>, m'))))"

definition remove_table_res :: "table_res \<Rightarrow> u64 \<Rightarrow> (u64 \<times> table_res) outcome" where
  "remove_table_res t k =
     (let bin = unat (clht_hash_res t k); bs = rt_table t ! bin
      in if \<not> bucket_exists bs k then Done (0, t)
         else bind_outcome (acquire_res t bs)
           (\<lambda>bs. let upd = (\<lambda>bs'. t\<lparr>rt_table := (rt_table t)[bin := set_lock bs' LOCK_FREE]\<rparr>)
                 in case chain_remove bs k of
                      Some (v, bs') \<Rightarrow> Done (v, upd bs')
                    | None \<Rightarrow> Done (0, upd bs)))"

definition clht_remove_res :: "clht_res \<Rightarrow> u64 \<Rightarrow> (u64 \<times> clht_res) outcome" where
  "clht_remove_res h k =
     bind_outcome (remove_table_res (cur_table h) k) (\<lambda>(r, t). Done (r, set_table (rc_ht h) t h))"

definition clht_size_res :: "table_res \<Rightarrow> u64" where
  "clht_size_res t =
     (let num_buckets = (ucast (rt_num_buckets t) :: u32)
      in of_nat (\<Sum>bin\<leftarrow>[0..<unat num_buckets]. chain_size (rt_table t ! bin)))"

section \<open>Copying and resizing\<close>

text \<open>\<open>clht_put_seq\<close> takes the first slot whose key is 0; it does not look for the key.\<close>

definition clht_put_seq_res ::
  "table_res \<Rightarrow> u64 \<Rightarrow> u64 \<Rightarrow> u32 \<Rightarrow> mem \<Rightarrow> (table_res \<times> mem) outcome" where
  "clht_put_seq_res t k v bin m =
     (let i = unat bin; bs = rt_table t ! i
      in case chain_empty bs 0 of
           Some (h, j) \<Rightarrow> Done (t\<lparr>rt_table := (rt_table t)[i := write_slot bs h j k v]\<rparr>, m)
         | None \<Rightarrow>
             (case clht_bucket_create_stats_res t m of
                (None, _, _, _) \<Rightarrow> Faults
              | (Some b, _, t', m') \<Rightarrow>
                  Done (t'\<lparr>rt_table := (rt_table t')[i := write_slot (bs @ [b]) (length bs) 0 k v]\<rparr>, m')))"

fun bucket_cpy_loop_res :: "(u64 \<times> u64) list \<Rightarrow> table_res \<Rightarrow> mem \<Rightarrow> (table_res \<times> mem) outcome" where
  "bucket_cpy_loop_res [] ht_new m = Done (ht_new, m)"
| "bucket_cpy_loop_res ((k, v) # es) ht_new m =
     (let bin = clht_hash_res ht_new k
      in bind_outcome (clht_put_seq_res ht_new k v bin m) (\<lambda>(t, m'). bucket_cpy_loop_res es t m'))"

definition bucket_cpy_res ::
  "chain_res \<Rightarrow> table_res \<Rightarrow> mem \<Rightarrow> (bool \<times> chain_res \<times> table_res \<times> mem) outcome" where
  "bucket_cpy_res bs ht_new m =
     bind_outcome (lock_acq_resize (lock (hd bs)))
       (\<lambda>(ok, l). if \<not> ok then Done (False, bs, ht_new, m)
         else bind_outcome (bucket_cpy_loop_res (chain_entries bs) ht_new m)
                (\<lambda>(t, m'). Done (True, set_lock bs l, t, m')))"

text \<open>
  The loop of \<open>ht_resize_pes\<close> over the buckets of the old table.
  The source counts with \<open>int32_t b\<close>, which overflows (undefined) for more than 2 to the 31 buckets, 128 GB of
  them; here the count has no bound, so the model is the code for tables of at most 2 to the 31 buckets.
\<close>

fun copy_buckets_res ::
  "chain_res list \<Rightarrow> table_res \<Rightarrow> mem \<Rightarrow> (chain_res list \<times> table_res \<times> mem) outcome" where
  "copy_buckets_res [] ht_new m = Done ([], ht_new, m)"
| "copy_buckets_res (bs # bss) ht_new m =
     bind_outcome (bucket_cpy_res bs ht_new m)
       (\<lambda>(_, bs', t, m'). bind_outcome (copy_buckets_res bss t m')
          (\<lambda>(bss', t', m''). Done (bs' # bss', t', m'')))"

text \<open>
  What \<open>ht_resize_pes\<close> does when the copy is done: link the versions, swap the pointer, unlock,
  release the old table.
\<close>

definition swap_table_res :: "clht_res \<Rightarrow> chain_res list \<Rightarrow> table_res \<Rightarrow> clht_res" where
  "swap_table_res h bss ht_new =
     (let p = rc_ht h; q = length (rc_tables h);
          ht_new = ht_new\<lparr>rt_table_prev := Some p\<rparr>;
          ht_old = (cur_table h)\<lparr>rt_table := bss, rt_table_new := Some q\<rparr>;
          h = h\<lparr>rc_tables := (rc_tables h)[p := ht_old] @ [ht_new], rc_ht := q, rc_resize_lock := LOCK_FREE\<rparr>
      in clht_gc_release p h)"

text \<open>
  \<open>ht_status\<close> counts the elements and the longest chain, and may resize; \<open>ht_resize_pes\<close>
  replaces the table, and calls \<open>ht_status\<close> again when the new table has already hit its own
  threshold. The first argument bounds the depth of this recursion.
\<close>

definition status_size_res :: "table_res \<Rightarrow> nat" where
  "status_size_res t = (\<Sum>bin\<leftarrow>[0..<unat (ucast (rt_num_buckets t) :: u32)]. chain_size (rt_table t ! bin))"

definition expands_max_res :: "table_res \<Rightarrow> nat" where
  "expands_max_res t =
     foldl max 0 (map (\<lambda>bin. length (rt_table t ! bin) - 1) [0..<unat (ucast (rt_num_buckets t) :: u32)])"

definition increase_by_res :: "nat \<Rightarrow> nat \<Rightarrow> u32" where
  "increase_by_res elems capacity =
     (let inc_by_pow2 = pow2roundup (of_nat (100 * elems div (CLHT_OCCUP_AFTER_RES * capacity)))
      in if inc_by_pow2 = 1 then 2 else inc_by_pow2)"

text \<open>What \<open>ht_status\<close> decides: nothing, or to resize by a factor.\<close>

definition status_decision_res :: "table_res \<Rightarrow> bool \<Rightarrow> u32 option" where
  "status_decision_res t resize_increase =
     (let elems = status_size_res t; capacity = unat (rt_num_buckets t) * ENTRIES_PER_BUCKET
      in if elems > 0 \<and> 100 * elems < CLHT_PERC_FULL_HALVE * capacity then None
         else if (elems > 0 \<and> 100 * elems > CLHT_PERC_FULL_DOUBLE * capacity) \<or>
             expands_max_res t > CLHT_MAX_EXPANSIONS \<or> resize_increase
         then Some (increase_by_res elems capacity)
         else None)"

function ht_status_res :: "nat \<Rightarrow> clht_res \<Rightarrow> bool \<Rightarrow> bool \<Rightarrow> mem \<Rightarrow> (u64 \<times> clht_res \<times> mem) outcome"
  and ht_resize_pes_res :: "nat \<Rightarrow> clht_res \<Rightarrow> bool \<Rightarrow> u32 \<Rightarrow> mem \<Rightarrow> (bool \<times> clht_res \<times> mem) outcome" where
  "ht_status_res 0 h resize_increase just_print m = Spins"
| "ht_status_res (Suc f) h resize_increase just_print m =
     (let (taken, l) = TRYLOCK_ACQ (rc_status_lock h); h = h\<lparr>rc_status_lock := l\<rparr>
      in if taken \<and> \<not> resize_increase then Done (0, h, m)
         else let t = cur_table h
              in bind_outcome
                   (case if just_print then None else status_decision_res t resize_increase of
                      None \<Rightarrow> Done (h, m)
                    | Some by \<Rightarrow> bind_outcome (ht_resize_pes_res f h True by m) (\<lambda>(_, h, m). Done (h, m)))
                   (\<lambda>(h, m). Done (of_nat (status_size_res t), h\<lparr>rc_status_lock := LOCK_FREE\<rparr>, m)))"
| "ht_resize_pes_res f h is_increase by m =
     (let (taken, l) = TRYLOCK_ACQ (rc_resize_lock h)
      in if taken then Done (False, h\<lparr>rc_resize_lock := l\<rparr>, m)
         else let ht_old = cur_table h;
                  num_buckets_new = (if is_increase then scast by * rt_num_buckets ht_old
                                     else rt_num_buckets ht_old div CLHT_RATIO_HALVE)
              in case clht_hashtable_create_res (ucast num_buckets_new) m of
                   (None, m1) \<Rightarrow> Faults
                 | (Some ht_new, m1) \<Rightarrow>
                     bind_outcome
                       (copy_buckets_res (rt_table ht_old) (ht_new\<lparr>rt_version := rt_version ht_old + 1\<rparr>) m1)
                       (\<lambda>(bss, ht_new, m2).
                          let again = rt_num_expands ht_new \<ge> rt_threshold ht_new;
                              h = swap_table_res h bss ht_new
                          in if again
                             then bind_outcome (ht_status_res f h True False m2)
                                    (\<lambda>(_, h, m). Done (True, h, m))
                             else Done (True, h, m2)))"
  by pat_completeness auto
termination
  by (relation "measure (\<lambda>x. case x of Inl (f, _) \<Rightarrow> 2 * f | Inr (f, _) \<Rightarrow> 2 * f + 1)") auto

text \<open>
  A recursion of depth 34 is never exceeded: every resize adds a factor 2 to the number of
  buckets, which has 32 bits.
\<close>

definition resize_depth :: nat where
  "resize_depth = 34"

definition clht_put_res :: "clht_res \<Rightarrow> u64 \<Rightarrow> u64 \<Rightarrow> mem \<Rightarrow> (bool \<times> clht_res \<times> mem) outcome" where
  "clht_put_res h k v m =
     bind_outcome (put_table_res (cur_table h) k v m)
       (\<lambda>(r, resize, t, m'). let h = set_table (rc_ht h) t h
          in if resize then bind_outcome (ht_status_res resize_depth h True False m')
                              (\<lambda>(_, h, m). Done (r, h, m))
             else Done (r, h, m'))"

section \<open>Memory accounting\<close>

text \<open>\<open>sizeof(clht_hashtable_t**)\<close> is 8 and \<open>sizeof(bucket_t)\<close> is 64.\<close>

definition clht_size_mem_res :: "table_res \<Rightarrow> u64" where
  "clht_size_mem_res t = 8 + (rt_num_buckets t + ucast (rt_num_expands t)) * 64"

partial_function (option) garbage_loop_res :: "table_res list \<Rightarrow> nat option \<Rightarrow> u64 \<Rightarrow> u64 option" where
  "garbage_loop_res ts cur size_tot =
     (case cur of
        None \<Rightarrow> Some size_tot
      | Some p \<Rightarrow> garbage_loop_res ts (rt_table_prev (ts ! p)) (size_tot + clht_size_mem_res (ts ! p)))"

definition clht_size_mem_garbage_res :: "table_res list \<Rightarrow> nat \<Rightarrow> u64 option" where
  "clht_size_mem_garbage_res ts p = garbage_loop_res ts (rt_table_prev (ts ! p)) 0"

section \<open>One chain\<close>

definition chain_inv_res :: "chain_res \<Rightarrow> bool" where
  "chain_inv_res bs \<longleftrightarrow> chain_inv bs \<and> lock (hd bs) = LOCK_FREE"

text \<open>The handlers on the chain alone: what \<open>put_table_res\<close> does to it, without the counters.\<close>

definition put_chain_res :: "chain_res \<Rightarrow> u64 \<Rightarrow> u64 \<Rightarrow> mem \<Rightarrow> (bool \<times> chain_res \<times> mem) outcome" where
  "put_chain_res bs k v m =
     (if bucket_exists bs k then Done (False, bs, m)
      else bind_outcome (lock_acq_chk_resize (lock (hd bs)) None)
        (\<lambda>(ok, l). if ok then bind_outcome (chain_insert (set_lock bs l) k v m)
             (\<lambda>(r, bs', m'). Done (r, set_lock bs' LOCK_FREE, m')) else Spins))"

definition remove_chain_res :: "chain_res \<Rightarrow> u64 \<Rightarrow> (u64 \<times> chain_res) outcome" where
  "remove_chain_res bs k =
     (if \<not> bucket_exists bs k then Done (0, bs)
      else bind_outcome (lock_acq_chk_resize (lock (hd bs)) None)
        (\<lambda>(ok, l). if \<not> ok then Spins
           else case chain_remove (set_lock bs l) k of
             Some (v, bs') \<Rightarrow> Done (v, set_lock bs' LOCK_FREE)
           | None \<Rightarrow> Done (0, set_lock bs LOCK_FREE)))"

lemma acq_free: "lock_acq_chk_resize LOCK_FREE p = Done (True, LOCK_UPDATE)"
  by (simp add: lock_acq_chk_resize_def CAS_def LOCK_FREE_def LOCK_UPDATE_def LOCK_RESIZE_def)

lemma acq_resize_free: "lock_acq_resize LOCK_FREE = Done (True, LOCK_RESIZE)"
  by (simp add: lock_acq_resize_def CAS_def LOCK_FREE_def LOCK_UPDATE_def LOCK_RESIZE_def)

lemma acquire_res_None:
  "rt_table_new t = None \<Longrightarrow> acquire_res t bs =
     bind_outcome (lock_acq_chk_resize (lock (hd bs)) None) (\<lambda>(ok, l). if ok then Done (set_lock bs l) else Spins)"
  by (simp add: acquire_res_def)

lemma chain_inv_resD: "chain_inv_res bs \<Longrightarrow> chain_inv bs \<and> lock (hd bs) = LOCK_FREE"
  by (simp add: chain_inv_res_def)

lemma released_res: "chain_inv bs \<Longrightarrow> chain_inv_res (set_lock bs LOCK_FREE)"
  by (simp add: chain_inv_res_def lock_set_lock chain_inv_def chain_ok_def)

lemma put_chain_res_law:
  assumes "chain_inv_res bs" and "k \<noteq> 0" and "put_chain_res bs k v m = Done (r, bs', m')"
  shows "chain_inv_res bs' \<and> r = (chain_map bs k = None) \<and>
    chain_map bs' = (if r then (chain_map bs)(k \<mapsto> v) else chain_map bs)"
proof (cases "bucket_exists bs k")
  case True
  with assms chain_map_exists [of bs k] chain_inv_resD [OF assms(1)] show ?thesis
    by (auto simp: put_chain_res_def)
next
  case False
  note i = chain_inv_resD [OF assms(1)]
  with False assms(3) obtain ds where ds: "chain_insert (set_lock bs LOCK_UPDATE) k v m = Done (r, ds, m')"
    and bs': "bs' = set_lock ds LOCK_FREE" by (auto simp: put_chain_res_def acq_free bind_outcome_Done_iff)
  from i chain_insert_law [OF _ assms(2) ds] released_res [of ds] show ?thesis by (simp add: bs')
qed

lemma put_chain_res_total:
  assumes "chain_inv_res bs" and "ready (Suc n) m"
  shows "\<exists>r bs' m'. put_chain_res bs k v m = Done (r, bs', m') \<and> ready n m'"
  using chain_insert_total [of "set_lock bs LOCK_UPDATE" n m k v] chain_inv_resD [OF assms(1)] assms(2)
  by (auto simp: put_chain_res_def acq_free dest: ready_SucD)

lemma remove_chain_res_law:
  assumes "chain_inv_res bs" and "k \<noteq> 0"
  shows "\<exists>bs'. remove_chain_res bs k = Done (val_or_0 (chain_map bs k), bs') \<and>
    chain_inv_res bs' \<and> chain_map bs' = (chain_map bs)(k := None)"
proof (cases "bucket_exists bs k")
  case False
  with assms have "chain_map bs k = None"
    by (simp add: chain_map_exists chain_inv_res_def)
  with False assms show ?thesis by (auto simp: remove_chain_res_def)
next
  case True
  note i = chain_inv_resD [OF assms(1)]
  define cs where "cs = set_lock bs LOCK_UPDATE"
  have cs: "chain_inv cs" "chain_map cs = chain_map bs" "bucket_exists cs k"
    using i True by (auto simp: cs_def)
  then obtain v ds where ds: "chain_remove cs k = Some (v, ds)"
    using chain_remove_None [of cs k] by (cases "chain_remove cs k") auto
  from chain_remove_correct [OF cs(1) assms(2) ds] released_res [of ds] True ds cs(2) i show ?thesis
    by (auto simp: remove_chain_res_def acq_free cs_def [symmetric])
qed

interpretation res_chain: kv_total chain_inv_res chain_map chain_get put_chain_res remove_chain_res
  "\<lambda>k. k \<noteq> 0" "\<lambda>_. True"
proof unfold_locales
  fix bs :: chain_res and k :: u64
  assume "chain_inv_res bs" "k \<noteq> 0"
  then show "chain_get bs k = val_or_0 (chain_map bs k)"
    by (simp add: chain_get_map chain_inv_res_def chain_inv_def chain_ok_def)
qed (use put_chain_res_law put_chain_res_total remove_chain_res_law in blast)+

section \<open>One table\<close>

definition shape_res :: "table_res \<Rightarrow> bool" where
  "shape_res t \<longleftrightarrow> rt_shape t \<and> rt_table_new t = None"

lemma chain_insert_res_iff:
  "chain_insert_res t bs k v m = Done (r, z, bs', t', m') \<longleftrightarrow>
     chain_insert bs k v m = Done (r, bs', m') \<and>
     (if put_walk bs k 0 None = Inr None
      then z = (rt_num_expands t + 1 = rt_threshold t) \<and> t' = t\<lparr>rt_num_expands := rt_num_expands t + 1\<rparr>
      else \<not> z \<and> t' = t)"
  by (auto simp: chain_insert_res_def chain_insert_def clht_bucket_create_stats_res_def IAF_def
      split: sum.splits option.splits prod.splits)

definition put_plain_res ::
  "table_res \<Rightarrow> u64 \<Rightarrow> u64 \<Rightarrow> mem \<Rightarrow> (bool \<times> table_res \<times> mem) outcome" where
  "put_plain_res t k v m = bind_outcome (put_table_res t k v m) (\<lambda>(r, _, t', m'). Done (r, t', m'))"

lemma bin_res: "unat (clht_hash_res t k) = rt_bin t k"
  by (simp add: clht_hash_res_def rt_bin_def)

lemma put_table_res_step:
  assumes "shape_res t" and "put_table_res t k v m = Done (r, z, t', m')"
  shows "shape_res t' \<and> rt_bin t' = rt_bin t \<and>
    (\<exists>b. put_chain_res (rt_table t ! rt_bin t k) k v m = Done (r, b, m') \<and>
       rt_table t' = (rt_table t)[rt_bin t k := b])"
  using assms
  by (auto simp: put_table_res_def Let_def bin_res put_chain_res_def acquire_res_None shape_res_def
      bind_outcome_Done_iff chain_insert_res_iff rt_shape_def rt_bin_def fun_eq_iff split: if_splits)

lemma put_table_res_returns:
  assumes "shape_res t" and "put_chain_res (rt_table t ! rt_bin t k) k v m = Done (r, b, m')"
  shows "\<exists>z t'. put_table_res t k v m = Done (r, z, t', m')"
proof (cases "bucket_exists (rt_table t ! rt_bin t k) k")
  case True
  with assms show ?thesis by (auto simp: put_table_res_def bin_res put_chain_res_def)
next
  case False
  with assms(2) obtain l bs where
    l: "lock_acq_chk_resize (lock (hd (rt_table t ! rt_bin t k))) None = Done (True, l)" and
    i: "chain_insert (set_lock (rt_table t ! rt_bin t k) l) k v m = Done (r, bs, m')"
    by (auto simp: put_chain_res_def bind_outcome_Done_iff split: if_splits)
  from i chain_insert_res_iff [of t "set_lock (rt_table t ! rt_bin t k) l" k v m r _ bs _ m']
  obtain z t' where "chain_insert_res t (set_lock (rt_table t ! rt_bin t k) l) k v m = Done (r, z, bs, t', m')"
    by (metis (full_types))
  with l False assms(1) show ?thesis
    by (simp add: put_table_res_def bin_res acquire_res_None shape_res_def)
qed

lemma remove_table_res_eq:
  assumes "shape_res t"
  shows "remove_table_res t k = bind_outcome (remove_chain_res (rt_table t ! rt_bin t k) k)
    (\<lambda>(w, b). Done (w, t\<lparr>rt_table := (rt_table t)[rt_bin t k := b]\<rparr>))"
  using assms
  by (cases "lock_acq_chk_resize (lock (hd (rt_table t ! rt_bin t k))) None")
    (auto simp: remove_table_res_def bin_res remove_chain_res_def acquire_res_None shape_res_def Let_def
      list_update_id split: option.splits)

lemma remove_table_res_step:
  assumes "shape_res t" and "remove_chain_res (rt_table t ! rt_bin t k) k = Done (w, b)"
  shows "\<exists>t'. remove_table_res t k = Done (w, t') \<and> shape_res t' \<and> rt_bin t' = rt_bin t \<and>
    rt_table t' = (rt_table t)[rt_bin t k := b]"
  using assms
  by (simp add: remove_table_res_eq shape_res_def rt_shape_def rt_bin_def fun_eq_iff)

interpretation res: hashed_total chain_inv_res chain_map chain_get put_chain_res remove_chain_res
  "\<lambda>k. k \<noteq> 0" "\<lambda>_. True"
  shape_res rt_table rt_bin clht_get_res put_plain_res remove_table_res
proof unfold_locales
  fix t :: table_res and k v m r t' m'
  show "shape_res t \<Longrightarrow> rt_bin t k < length (rt_table t)"
    by (simp add: shape_res_def rt_bin_less)
  show "clht_get_res t k = chain_get (rt_table t ! rt_bin t k) k"
    by (simp add: clht_get_res_def bin_res)
  assume "shape_res t" "put_plain_res t k v m = Done (r, t', m')"
  then show "shape_res t' \<and> rt_bin t' = rt_bin t \<and>
     (\<exists>b. put_chain_res (rt_table t ! rt_bin t k) k v m = Done (r, b, m') \<and>
       rt_table t' = (rt_table t)[rt_bin t k := b])"
    using put_table_res_step by (fastforce simp: put_plain_res_def bind_outcome_Done_iff)
next
  fix t :: table_res and k v m r b m'
  assume "shape_res t" "put_chain_res (rt_table t ! rt_bin t k) k v m = Done (r, b, m')"
  from put_table_res_returns [OF this]
  show "\<exists>t'. put_plain_res t k v m = Done (r, t', m')" by (auto simp: put_plain_res_def)
qed (use remove_table_res_step in blast)

definition tinv_res :: "table_res \<Rightarrow> bool" where
  "tinv_res t \<longleftrightarrow> shape_res t \<and> chains_inv chain_inv_res chain_map (rt_bin t) (rt_table t)"

definition tmap_res :: "table_res \<Rightarrow> kv" where
  "tmap_res t = chains_map chain_map (rt_bin t) (rt_table t)"

lemma tinv_res_eq: "tinv_res = res.tinv" and tmap_res_eq: "tmap_res = res.tmap"
  by (simp_all add: fun_eq_iff tinv_res_def tmap_res_def res.tinv_def res.tmap_def)

end
