(* ===== verification/Clht_lb_no_next.thy ===== *)
theory Clht_lb_no_next
  imports Clht_lb_res
begin

text \<open>
  \<open>CLHT-LB-RES-NO-NEXT\<close> (\<open>src/src/clht/src/clht_lb_res_no_next.c\<close>, over \<open>clht_lb_res.h\<close>): a resizing
  table whose buckets are not chained. An insertion that finds its bucket full resizes the table and
  starts again; a copy that finds the new bucket full prints "no space in resized ht" and drops the
  entry. The locks and the constants are those of theory Clht_lb_res; the resize prints the id of the
  running thread, so it dereferences the thread's version record (\<open>clht_ts_thread\<close>).
\<close>

section \<open>Definitions\<close>

type_synonym bucket_nn = "u8 bucket"
type_synonym table_nn = "bucket_nn rtable"
type_synonym clht_nn = "bucket_nn rclht"

definition clht_hashtable_create_nn :: "u32 \<Rightarrow> mem \<Rightarrow> table_nn option \<times> mem" where
  "clht_hashtable_create_nn num_buckets m =
     rtable_create empty_bucket num_buckets (expands_threshold num_buckets) m"

definition clht_create_nn :: "u32 \<Rightarrow> mem \<Rightarrow> clht_nn option \<times> mem" where
  "clht_create_nn num_buckets m =
     (case memalign m of
        (None, m1) \<Rightarrow> (None, m1)
      | (Some _, m1) \<Rightarrow>
          (case clht_hashtable_create_nn num_buckets m1 of
             (None, m2) \<Rightarrow> (None, mfree m2)
           | (Some t, m2) \<Rightarrow> (Some (new_rclht t), m2)))"

definition clht_hash_nn :: "table_nn \<Rightarrow> u64 \<Rightarrow> u32" where
  "clht_hash_nn t k = mask_bin (rt_hash t) k"

definition clht_get_nn :: "table_nn \<Rightarrow> u64 \<Rightarrow> u64" where
  "clht_get_nn t k =
     (let b = rt_table t ! unat (clht_hash_nn t k)
      in case find_key b k of
           Some j \<Rightarrow> (let v = val b ! j in if val b ! j = v then v else 0)
         | None \<Rightarrow> 0)"

definition bucket_exists_nn :: "bucket_nn \<Rightarrow> u64 \<Rightarrow> bool" where
  "bucket_exists_nn b k \<longleftrightarrow> find_key b k \<noteq> None"

text \<open>The loop of \<open>clht_put\<close> remembers the last empty slot.\<close>

fun put_scan_nn :: "bucket_nn \<Rightarrow> u64 \<Rightarrow> nat list \<Rightarrow> nat option \<Rightarrow> unit + nat option" where
  "put_scan_nn b k [] e = Inr e"
| "put_scan_nn b k (j # js) e =
     (if key b ! j = k then Inl () else put_scan_nn b k js (if key b ! j = 0 then Some j else e))"

definition write_nn :: "bucket_nn \<Rightarrow> nat \<Rightarrow> u64 \<Rightarrow> u64 \<Rightarrow> bucket_nn" where
  "write_nn b j k v = (let b = b\<lparr>val := (val b)[j := v]\<rparr> in b\<lparr>key := (key b)[j := k]\<rparr>)"

definition acquire_nn :: "table_nn \<Rightarrow> bucket_nn \<Rightarrow> bucket_nn outcome" where
  "acquire_nn t b =
     bind_outcome (lock_acq_chk_resize (lock b) (rt_table_new t))
       (\<lambda>(ok, l). if ok then Done (b\<lparr>lock := l\<rparr>) else Spins)"

definition remove_table_nn :: "table_nn \<Rightarrow> u64 \<Rightarrow> (u64 \<times> table_nn) outcome" where
  "remove_table_nn t k =
     (let bin = unat (clht_hash_nn t k); b = rt_table t ! bin
      in if \<not> bucket_exists_nn b k then Done (0, t)
         else bind_outcome (acquire_nn t b)
           (\<lambda>b. let upd = (\<lambda>b'. t\<lparr>rt_table := (rt_table t)[bin := b'\<lparr>lock := LOCK_FREE\<rparr>]\<rparr>)
                in case find_key b k of
                     Some j \<Rightarrow> Done (val b ! j, upd (b\<lparr>key := (key b)[j := 0]\<rparr>))
                   | None \<Rightarrow> Done (0, upd b)))"

definition clht_remove_nn :: "clht_nn \<Rightarrow> u64 \<Rightarrow> (u64 \<times> clht_nn) outcome" where
  "clht_remove_nn h k =
     bind_outcome (remove_table_nn (cur_table h) k) (\<lambda>(r, t). Done (r, set_table (rc_ht h) t h))"

definition clht_put_seq_nn :: "table_nn \<Rightarrow> u64 \<Rightarrow> u64 \<Rightarrow> u32 \<Rightarrow> table_nn" where
  "clht_put_seq_nn t k v bin =
     (let i = unat bin; b = rt_table t ! i
      in case find_key b 0 of
           Some j \<Rightarrow> t\<lparr>rt_table := (rt_table t)[i := write_nn b j k v]\<rparr>
         | None \<Rightarrow> t)"

fun bucket_cpy_loop_nn :: "(u64 \<times> u64) list \<Rightarrow> table_nn \<Rightarrow> table_nn" where
  "bucket_cpy_loop_nn [] ht_new = ht_new"
| "bucket_cpy_loop_nn ((k, v) # es) ht_new =
     bucket_cpy_loop_nn es (clht_put_seq_nn ht_new k v (clht_hash_nn ht_new k))"

definition bucket_cpy_nn :: "bucket_nn \<Rightarrow> table_nn \<Rightarrow> (bool \<times> bucket_nn \<times> table_nn) outcome" where
  "bucket_cpy_nn b ht_new =
     bind_outcome (lock_acq_resize (lock b))
       (\<lambda>(ok, l). if \<not> ok then Done (False, b, ht_new)
         else Done (True, b\<lparr>lock := l\<rparr>, bucket_cpy_loop_nn (bucket_entries b) ht_new))"

text \<open>
  The loop of the resize over the buckets of the old table. The source counts with \<open>int32_t b\<close>, which overflows
  (undefined) for more than 2 to the 31 buckets; the model is the code for tables of at most that size.
\<close>

fun copy_buckets_nn :: "bucket_nn list \<Rightarrow> table_nn \<Rightarrow> (bucket_nn list \<times> table_nn) outcome" where
  "copy_buckets_nn [] ht_new = Done ([], ht_new)"
| "copy_buckets_nn (b # bs) ht_new =
     bind_outcome (bucket_cpy_nn b ht_new)
       (\<lambda>(_, b', t). bind_outcome (copy_buckets_nn bs t) (\<lambda>(bs', t'). Done (b' # bs', t')))"

definition swap_table_nn :: "clht_nn \<Rightarrow> bucket_nn list \<Rightarrow> table_nn \<Rightarrow> clht_nn" where
  "swap_table_nn h bs ht_new =
     (let p = rc_ht h; q = length (rc_tables h);
          ht_new = ht_new\<lparr>rt_table_prev := Some p\<rparr>;
          ht_old = (cur_table h)\<lparr>rt_table := bs, rt_table_new := Some q\<rparr>;
          h = h\<lparr>rc_tables := (rc_tables h)[p := ht_old] @ [ht_new], rc_ht := q, rc_resize_lock := LOCK_FREE\<rparr>
      in clht_gc_release p h)"

definition ht_resize_pes_nn ::
  "nat option \<Rightarrow> clht_nn \<Rightarrow> bool \<Rightarrow> u32 \<Rightarrow> mem \<Rightarrow> (u64 \<times> clht_nn \<times> mem) outcome" where
  "ht_resize_pes_nn clht_ts_thread h is_increase by m =
     (let (taken, l) = TRYLOCK_ACQ (rc_resize_lock h); h = h\<lparr>rc_resize_lock := l\<rparr>
      in if taken then Done (0, h, m)
         else let ht_old = cur_table h;
                  num_buckets_new = (if is_increase then scast by * rt_num_buckets ht_old
                                     else rt_num_buckets ht_old div CLHT_RATIO_HALVE)
              in case clht_hashtable_create_nn (ucast num_buckets_new) m of
                   (None, m1) \<Rightarrow> Faults
                 | (Some ht_new, m1) \<Rightarrow>
                     bind_outcome (copy_buckets_nn (rt_table ht_old) (ht_new\<lparr>rt_version := rt_version ht_old + 1\<rparr>))
                       (\<lambda>(bs, ht_new). let h = swap_table_nn h bs ht_new
                          in bind_outcome (clht_gc_get_id clht_ts_thread h) (\<lambda>_. Done (1, h, m1))))"

definition bucket_size_nn :: "bucket_nn \<Rightarrow> nat" where
  "bucket_size_nn b = length (filter (\<lambda>j. key b ! j > 0) [0..<ENTRIES_PER_BUCKET])"

definition elems_nn :: "table_nn \<Rightarrow> nat" where
  "elems_nn t = (\<Sum>bin\<leftarrow>[0..<unat (ucast (rt_num_buckets t) :: u32)]. bucket_size_nn (rt_table t ! bin))"

definition clht_size_nn :: "table_nn \<Rightarrow> u64" where
  "clht_size_nn t = of_nat (elems_nn t)"

definition increase_by_nn :: "nat \<Rightarrow> nat \<Rightarrow> u32" where
  "increase_by_nn elems capacity =
     (let inc_by_pow2 = pow2roundup (of_nat (100 * elems div (20 * capacity)))
      in if inc_by_pow2 = 1 then 2 else inc_by_pow2)"

definition ht_status_nn ::
  "nat option \<Rightarrow> clht_nn \<Rightarrow> bool \<Rightarrow> bool \<Rightarrow> mem \<Rightarrow> (u64 \<times> clht_nn \<times> mem) outcome" where
  "ht_status_nn clht_ts_thread h resize_increase just_print m =
     (let (taken, l) = TRYLOCK_ACQ (rc_status_lock h); h = h\<lparr>rc_status_lock := l\<rparr>
      in if taken then Done (0, h, m)
         else let t = cur_table h; elems = elems_nn t; capacity = unat (rt_num_buckets t) * ENTRIES_PER_BUCKET
              in bind_outcome
                   (if just_print then Done (0, h, m)
                    else bind_outcome (clht_gc_get_id clht_ts_thread h)
                      (\<lambda>_. ht_resize_pes_nn clht_ts_thread h True (increase_by_nn elems capacity) m))
                   (\<lambda>(resized, h, m). Done (resized, h\<lparr>rc_status_lock := LOCK_FREE\<rparr>, m)))"

text \<open>
  \<open>clht_put\<close> with its \<open>again\<close> label: the first argument bounds the number of rounds. Every round but
  the last doubles the number of buckets, which has 32 bits: 33 rounds are never used up.
\<close>

fun put_again_nn :: "nat \<Rightarrow> nat option \<Rightarrow> clht_nn \<Rightarrow> u64 \<Rightarrow> u64 \<Rightarrow> mem \<Rightarrow> (bool \<times> clht_nn \<times> mem) outcome" where
  "put_again_nn 0 clht_ts_thread h k v m = Spins"
| "put_again_nn (Suc f) clht_ts_thread h k v m =
     (let t = cur_table h; bin = unat (clht_hash_nn t k); b = rt_table t ! bin;
          upd = (\<lambda>b'. set_table (rc_ht h) (t\<lparr>rt_table := (rt_table t)[bin := b'\<lparr>lock := LOCK_FREE\<rparr>]\<rparr>) h)
      in if bucket_exists_nn b k then Done (False, h, m)
         else bind_outcome (acquire_nn t b)
           (\<lambda>b. case put_scan_nn b k [0..<ENTRIES_PER_BUCKET] None of
                  Inl _ \<Rightarrow> Done (False, upd b, m)
                | Inr (Some j) \<Rightarrow> Done (True, upd (write_nn b j k v), m)
                | Inr None \<Rightarrow>
                    bind_outcome (ht_status_nn clht_ts_thread (upd b) True False m)
                      (\<lambda>(_, h, m). put_again_nn f clht_ts_thread h k v m)))"

definition clht_put_nn :: "nat option \<Rightarrow> clht_nn \<Rightarrow> u64 \<Rightarrow> u64 \<Rightarrow> mem \<Rightarrow> (bool \<times> clht_nn \<times> mem) outcome" where
  "clht_put_nn clht_ts_thread h k v m = put_again_nn 33 clht_ts_thread h k v m"

definition clht_size_mem_nn :: "table_nn \<Rightarrow> u64" where
  "clht_size_mem_nn t = 8 + (rt_num_buckets t + ucast (rt_num_expands t)) * 64"

section \<open>A table whose size is not a power of two loses entries\<close>

definition lossy_ops :: "kv_op list" where
  "lossy_ops = [Put 8 1, Put 16 1, Put 24 1, Put 2 1, Put 10 1, Put 32 1, Get 2]"

text \<open>
  C31. A table created with 3 buckets loses entries: after six insertions, each of which reported
  success, a lookup of a key that was inserted and never removed answers 0. The resize that the last
  insertion set off found the bucket of that key full in the new table.
\<close>

theorem clht_nn_resize_loses_entries:
  "\<exists>h m rs h' m'. clht_create_nn 3 example_mem = (Some h, m) \<and>
     table_run (\<lambda>h. clht_get_nn (cur_table h)) (clht_put_nn (Some 0)) clht_remove_nn
       (h\<lparr>rc_version_list := [\<lparr>ts_version = 0, ts_id = 0\<rparr>]\<rparr>, m) lossy_ops = Done (rs, h', m') \<and>
     rs = [RBool True, RBool True, RBool True, RBool True, RBool True, RBool True, RVal 0] \<and>
     fst (kv_run Map.empty lossy_ops) =
       [RBool True, RBool True, RBool True, RBool True, RBool True, RBool True, RVal 1]"
proof -
  have r: "case clht_create_nn 3 example_mem of (None, _) \<Rightarrow> False
    | (Some h, m) \<Rightarrow>
        (case table_run (\<lambda>h. clht_get_nn (cur_table h)) (clht_put_nn (Some 0)) clht_remove_nn
          (h\<lparr>rc_version_list := [\<lparr>ts_version = 0, ts_id = 0\<rparr>]\<rparr>, m) lossy_ops of
           Done (rs, h', m') \<Rightarrow>
             rs = [RBool True, RBool True, RBool True, RBool True, RBool True, RBool True, RVal 0]
         | _ \<Rightarrow> False)"
    by code_simp
  obtain w m where c: "clht_create_nn 3 example_mem = (w, m)" by fastforce
  with r obtain h where w: "w = Some h" by (cases w) auto
  have "fst (kv_run Map.empty lossy_ops) =
      [RBool True, RBool True, RBool True, RBool True, RBool True, RBool True, RVal 1]"
    by (simp add: lossy_ops_def)
  with r show ?thesis
    by (auto simp: c w simp del: table_run.simps split: outcome.splits)
qed

end
