(* ===== verification/Clht_lb_res_map.thy ===== *)
theory Clht_lb_res_map
  imports Clht_lb_res
begin

text \<open>
  What the resizing table of theory Clht_lb_res does as a whole: a copy stores the entries of the
  old table, the versions form a chain, a resize keeps the content, the handlers refine the abstract
  map whatever resizes they set off, and the recursion between \<open>ht_status\<close> and \<open>ht_resize_pes\<close>
  ends within the depth that the model allows.
\<close>

section \<open>Copying\<close>

text \<open>Only the chains and the expansion counter differ.\<close>

definition same_header :: "'c rtable \<Rightarrow> 'c rtable \<Rightarrow> bool" where
  "same_header t t' \<longleftrightarrow> t' = t\<lparr>rt_table := rt_table t', rt_num_expands := rt_num_expands t'\<rparr>"

lemma same_header_refl: "same_header t t"
  by (simp add: same_header_def)

lemma same_header_trans: "same_header t u \<Longrightarrow> same_header u w \<Longrightarrow> same_header t w"
  by (cases t; cases u; cases w) (simp add: same_header_def)

lemma same_headerD:
  assumes "same_header t t'"
  shows "rt_num_buckets t' = rt_num_buckets t" "rt_hash t' = rt_hash t" "rt_version t' = rt_version t"
    "rt_table_prev t' = rt_table_prev t" "rt_table_new t' = rt_table_new t" "rt_threshold t' = rt_threshold t"
    "rt_bin t' = rt_bin t"
  using assms by (cases t; cases t'; simp add: same_header_def rt_bin_def fun_eq_iff; fail)+

lemma put_seq_res_cases:
  assumes "clht_put_seq_res t k v (clht_hash_res t k) m = Done (t', m')"
  shows "same_header t t' \<and>
    (\<exists>b. rt_table t' = (rt_table t)[rt_bin t k := b] \<and>
       ((\<exists>i j. chain_empty (rt_table t ! rt_bin t k) 0 = Some (i, j) \<and>
           b = write_slot (rt_table t ! rt_bin t k) i j k v) \<or>
        (\<exists>c. clht_bucket_create m = (Some c, m') \<and>
           b = write_slot (rt_table t ! rt_bin t k @ [c]) (length (rt_table t ! rt_bin t k)) 0 k v)))"
  using assms
  by (auto simp: clht_put_seq_res_def clht_bucket_create_stats_res_def Let_def bin_res same_header_def IAF_def
      split: option.splits prod.splits)

lemma put_seq_res_law:
  assumes "tinv_res t" and "k \<noteq> 0" and "tmap_res t k = None"
    and "clht_put_seq_res t k v (clht_hash_res t k) m = Done (t', m')"
  shows "tinv_res t' \<and> tmap_res t' = (tmap_res t)(k \<mapsto> v) \<and> same_header t t'"
proof -
  let ?bs = "rt_table t ! rt_bin t k"
  from put_seq_res_cases [OF assms(4)] obtain b where sh: "same_header t t'"
    and t': "rt_table t' = (rt_table t)[rt_bin t k := b]" and
    b: "(\<exists>i j. chain_empty ?bs 0 = Some (i, j) \<and> b = write_slot ?bs i j k v) \<or>
        (\<exists>c. clht_bucket_create m = (Some c, m') \<and> b = write_slot (?bs @ [c]) (length ?bs) 0 k v)"
    by blast
  have ti: "res.tinv t" using assms(1) by (simp add: tinv_res_eq)
  have ci: "chain_inv ?bs" "lock (hd ?bs) = LOCK_FREE"
    using res.tinv_chain [OF ti, of k] by (simp_all add: chain_inv_res_def)
  have none: "chain_map ?bs k = None" using assms(3) by (simp add: tmap_res_eq res.tmap_at)
  have 1: "chain_inv_res b" "chain_map b = (chain_map ?bs)(k \<mapsto> v)"
    using b empty_slot [OF ci(1) none assms(2), of _ _ v] new_slot [OF ci(1) none assms(2), of m _ m' v] ci(2)
    by (auto simp: chain_inv_res_def)
  have s': "shape_res t'"
    using ti sh t' same_headerD [OF sh] by (auto simp: res.tinv_def shape_res_def rt_shape_def)
  from res.tinv_upd [OF ti 1(1), of k t'] res.tmap_upd [OF ti, of b k "Some v" t'] 1 s' t' same_headerD(7) [OF sh]
  show ?thesis by (simp add: tinv_res_eq tmap_res_eq sh)
qed

lemma bucket_cpy_loop_res_law:
  assumes "tinv_res t" and "0 \<notin> fst ` set es" and "distinct (map fst es)"
    and "dom (tmap_res t) \<inter> fst ` set es = {}" and "bucket_cpy_loop_res es t m = Done (t', m')"
  shows "tinv_res t' \<and> tmap_res t' = tmap_res t ++ map_of es \<and> same_header t t'"
  using assms
proof (induction es arbitrary: t m)
  case Nil
  then show ?case by (simp add: same_header_refl)
next
  case (Cons e es)
  obtain k v where e: "e = (k, v)" by (cases e)
  from Cons.prems(5) obtain t1 m1 where
    p: "clht_put_seq_res t k v (clht_hash_res t k) m = Done (t1, m1)" and
    rest: "bucket_cpy_loop_res es t1 m1 = Done (t', m')"
    by (auto simp: e Let_def bind_outcome_Done_iff)
  from Cons.prems have k: "k \<noteq> 0" "tmap_res t k = None" and es: "0 \<notin> fst ` set es" "distinct (map fst es)"
    and kes: "k \<notin> fst ` set es" by (auto simp: e)
  note l = put_seq_res_law [OF Cons.prems(1) k p]
  have "dom (tmap_res t1) \<inter> fst ` set es = {}" using l kes Cons.prems(4) by (auto simp: e)
  from l have l': "tinv_res t1" "tmap_res t1 = (tmap_res t)(k \<mapsto> v)" "same_header t t1" by blast+
  from Cons.IH [OF l'(1) es _ rest] \<open>dom (tmap_res t1) \<inter> fst ` set es = {}\<close> have
    r: "tinv_res t' \<and> tmap_res t' = (tmap_res t)(k \<mapsto> v) ++ map_of es \<and> same_header t t'"
    unfolding l'(2) using same_header_trans [OF l'(3)] by blast
  have eq: "(tmap_res t)(k \<mapsto> v) ++ map_of es = tmap_res t ++ map_of (e # es)"
    using kes [folded map_of_eq_None_iff] by (auto simp: e fun_eq_iff map_add_def split: option.splits)
  show ?case using r unfolding eq .
qed

lemma put_seq_not_spins: "clht_put_seq_res t k v bin m \<noteq> Spins"
  by (auto simp: clht_put_seq_res_def Let_def split: option.splits prod.splits)

lemma cpy_loop_not_spins: "bucket_cpy_loop_res es t m \<noteq> Spins"
proof (induction es arbitrary: t m)
  case (Cons e es)
  obtain k v where "e = (k, v)" by (cases e)
  then show ?case using Cons put_seq_not_spins [of t k v "clht_hash_res t k" m]
    by (cases "clht_put_seq_res t k v (clht_hash_res t k) m") (auto simp: Let_def)
qed simp

lemma bucket_cpy_res_free:
  "chain_inv_res bs \<Longrightarrow> bucket_cpy_res bs t m =
     bind_outcome (bucket_cpy_loop_res (chain_entries bs) t m) (\<lambda>(t, m'). Done (True, set_lock bs LOCK_RESIZE, t, m'))"
  by (simp add: bucket_cpy_res_def chain_inv_res_def acq_resize_free)

lemma copy_buckets_not_spins:
  "\<forall>bs\<in>set bss. chain_inv_res bs \<Longrightarrow> copy_buckets_res bss t m \<noteq> Spins"
proof (induction bss arbitrary: t m)
  case (Cons bs bss)
  then show ?case
    by (auto simp: bucket_cpy_res_free bind_outcome_Spins_iff bind_outcome_Done_iff cpy_loop_not_spins)
qed simp

lemma copy_buckets_res_law:
  assumes "tinv_res t" and "\<forall>bs\<in>set bss. chain_inv_res bs"
    and "distinct (map fst (concat (map chain_entries bss)))"
    and "dom (tmap_res t) \<inter> fst ` set (concat (map chain_entries bss)) = {}"
    and "copy_buckets_res bss t m = Done (bss', t', m')"
  shows "tinv_res t' \<and> tmap_res t' = tmap_res t ++ map_of (concat (map chain_entries bss)) \<and>
    same_header t t' \<and> bss' = map (\<lambda>bs. set_lock bs LOCK_RESIZE) bss"
  using assms
proof (induction bss arbitrary: t m bss')
  case Nil
  then show ?case by (simp add: same_header_refl)
next
  case (Cons bs bss)
  let ?es = "chain_entries bs" and ?rest = "concat (map chain_entries bss)"
  from Cons.prems(2,5) obtain t1 m1 cs where c: "bucket_cpy_loop_res ?es t m = Done (t1, m1)" and
    r: "copy_buckets_res bss t1 m1 = Done (cs, t', m')" and bss': "bss' = set_lock bs LOCK_RESIZE # cs"
    by (auto simp: bucket_cpy_res_free bind_outcome_Done_iff)
  have z: "0 \<notin> fst ` set ?es" using zero_no_entry by force
  from Cons.prems(3,4) have d: "distinct (map fst ?es)" "distinct (map fst ?rest)"
    "fst ` set ?es \<inter> fst ` set ?rest = {}" and dd: "dom (tmap_res t) \<inter> fst ` set ?es = {}"
    "dom (tmap_res t) \<inter> fst ` set ?rest = {}"
    by (auto simp: image_Un)
  note l = bucket_cpy_loop_res_law [OF Cons.prems(1) z d(1) dd(1) c]
  have "dom (tmap_res t1) = dom (tmap_res t) \<union> fst ` set ?es"
    using l by (auto simp: dom_map_of_conv_image_fst)
  then have disj: "dom (tmap_res t1) \<inter> fst ` set ?rest = {}"
    using d(3) dd(2) by (simp only: Int_Un_distrib2) simp
  from l have l': "tinv_res t1" "tmap_res t1 = tmap_res t ++ map_of ?es" "same_header t t1" by blast+
  have bss: "\<forall>bs\<in>set bss. chain_inv_res bs" using Cons.prems(2) by simp
  note ih = Cons.IH [OF l'(1) bss d(2) disj r, unfolded l'(2)]
  then have "same_header t t'" using same_header_trans [OF l'(3)] by blast
  moreover have "map_of ?rest ++ map_of ?es = map_of ?es ++ map_of ?rest"
    by (rule map_add_comm) (use d(3) in \<open>simp add: dom_map_of_conv_image_fst Int_commute\<close>)
  then have eq: "map_of (concat (map chain_entries (bs # bss))) = map_of ?es ++ map_of ?rest"
    by (simp only: list.map concat.simps map_of_append)
  ultimately show ?case using ih unfolding eq by (simp add: bss')
qed

section \<open>Invariant and abstraction of the whole structure\<close>

definition versions_res :: "clht_res \<Rightarrow> bool" where
  "versions_res h \<longleftrightarrow> rc_tables h \<noteq> [] \<and> rc_ht h = length (rc_tables h) - 1 \<and>
     rc_released h = [0..<rc_ht h] \<and> rc_ht_oldest h = 0 \<and> rc_version_min h = 0 \<and> rc_freed h = [] \<and>
     rc_gc_lock h = LOCK_FREE \<and>
     (\<forall>i<length (rc_tables h). let t = rc_tables h ! i in
        rt_version t = of_nat i \<and> rt_table_prev t = (if i = 0 then None else Some (i - 1)) \<and>
        rt_table_new t = (if i = rc_ht h then None else Some (Suc i)) \<and>
        (i < rc_ht h \<longrightarrow> (\<forall>bs\<in>set (rt_table t). lock (hd bs) = LOCK_RESIZE)))"

definition open_res :: "clht_res \<Rightarrow> bool" where
  "open_res h \<longleftrightarrow> versions_res h \<and> tinv_res (cur_table h) \<and> rc_resize_lock h = LOCK_FREE"

definition inv_res :: "clht_res \<Rightarrow> bool" where
  "inv_res h \<longleftrightarrow> open_res h \<and> rc_status_lock h = LOCK_FREE"

definition map_res :: "clht_res \<Rightarrow> kv" where
  "map_res h = tmap_res (cur_table h)"

lemma versions_resD:
  assumes "versions_res h"
  shows "rc_ht h < length (rc_tables h)" "length (rc_tables h) = Suc (rc_ht h)"
    "rt_version (cur_table h) = of_nat (rc_ht h)"
  using assms by (cases "rc_tables h"; force simp: versions_res_def cur_table_def Let_def)+

lemma versions_set_table:
  assumes "versions_res h" and "same_header (cur_table h) t"
  shows "versions_res (set_table (rc_ht h) t h)" and "cur_table (set_table (rc_ht h) t h) = t"
proof -
  from versions_resD [OF assms(1)] assms show "versions_res (set_table (rc_ht h) t h)"
    by (auto simp: versions_res_def set_table_def Let_def nth_list_update cur_table_def same_headerD)
  show "cur_table (set_table (rc_ht h) t h) = t"
    using versions_resD [OF assms(1)] by (simp add: set_table_def cur_table_def)
qed

lemma open_set_table:
  assumes "open_res h" and "tinv_res t" and "same_header (cur_table h) t"
  shows "open_res (set_table (rc_ht h) t h)" and "map_res (set_table (rc_ht h) t h) = tmap_res t"
    and "rc_status_lock (set_table (rc_ht h) t h) = rc_status_lock h"
  using assms versions_set_table [of h t]
  by (auto simp: open_res_def map_res_def set_table_def)

section \<open>Resizing\<close>

lemma lock_resized: "chain_inv_res bs \<Longrightarrow> lock (hd (set_lock bs LOCK_RESIZE)) = LOCK_RESIZE"
  by (simp add: lock_set_lock chain_inv_res_def chain_inv_def chain_ok_def)

lemma tinv_resD: "tinv_res t \<Longrightarrow> bs \<in> set (rt_table t) \<Longrightarrow> chain_inv_res bs"
  by (auto simp: tinv_res_def in_set_conv_nth intro: chains_inv_nth)

lemma swap_versions:
  assumes "open_res h" and "same_header (t\<lparr>rt_version := rt_version (cur_table h) + 1\<rparr>) ht_new"
    and "rt_table_new t = None"
  shows "versions_res (swap_table_res h (map (\<lambda>bs. set_lock bs LOCK_RESIZE) (rt_table (cur_table h))) ht_new)"
proof -
  from assms(1) have v: "versions_res h" and ti: "tinv_res (cur_table h)" by (auto simp: open_res_def)
  note d = versions_resD [OF v]
  show ?thesis
    unfolding versions_res_def
  proof (intro conjI allI impI)
    fix i
    let ?h = "swap_table_res h (map (\<lambda>bs. set_lock bs LOCK_RESIZE) (rt_table (cur_table h))) ht_new"
    assume i: "i < length (rc_tables ?h)"
    then have "i < rc_ht h \<or> i = rc_ht h \<or> i = Suc (rc_ht h)"
      using d by (auto simp: swap_table_res_def clht_gc_release_def Let_def)
    moreover have "rt_version ht_new = of_nat (Suc (rc_ht h))" "rt_table_new ht_new = None"
      using same_headerD [OF assms(2)] assms(3) d(3) by simp_all
    ultimately show "let t = rc_tables ?h ! i in
        rt_version t = of_nat i \<and> rt_table_prev t = (if i = 0 then None else Some (i - 1)) \<and>
        rt_table_new t = (if i = rc_ht ?h then None else Some (Suc i)) \<and>
        (i < rc_ht ?h \<longrightarrow> (\<forall>bs\<in>set (rt_table t). lock (hd bs) = LOCK_RESIZE))"
      using v d tinv_resD [OF ti]
      by (auto simp: swap_table_res_def clht_gc_release_def Let_def nth_append versions_res_def
          cur_table_def lock_resized nth_list_update)
  qed (use v d in \<open>auto simp: swap_table_res_def clht_gc_release_def Let_def versions_res_def\<close>)
qed

lemma swap_facts:
  assumes "versions_res h"
  shows "cur_table (swap_table_res h bss t) = t\<lparr>rt_table_prev := Some (rc_ht h)\<rparr>"
    and "rc_status_lock (swap_table_res h bss t) = rc_status_lock h"
    and "rc_resize_lock (swap_table_res h bss t) = LOCK_FREE"
  using versions_resD [OF assms]
  by (simp_all add: swap_table_res_def clht_gc_release_def Let_def cur_table_def nth_append)

lemma swap_tables:
  assumes "versions_res h"
  shows "rc_ht (swap_table_res h bss t) = Suc (rc_ht h)"
    and "rt_table (rc_tables (swap_table_res h bss t) ! rc_ht h) = bss"
    and "\<forall>i<rc_ht h. rc_tables (swap_table_res h bss t) ! i = rc_tables h ! i"
  using versions_resD [OF assms]
  by (simp_all add: swap_table_res_def clht_gc_release_def Let_def nth_append)

lemma tinv_header:
  "tinv_res (t\<lparr>rt_version := v\<rparr>) = tinv_res t" "tmap_res (t\<lparr>rt_version := v\<rparr>) = tmap_res t"
  "tinv_res (t\<lparr>rt_table_prev := p\<rparr>) = tinv_res t" "tmap_res (t\<lparr>rt_table_prev := p\<rparr>) = tmap_res t"
  by (simp_all add: tinv_res_def tmap_res_def shape_res_def rt_shape_def rt_bin_def [abs_def])

lemma tinv_new:
  assumes "n \<noteq> 0"
  shows "tinv_res (new_rtable [empty_bucket] n th)" and "tmap_res (new_rtable [empty_bucket] n th) = Map.empty"
proof -
  let ?t = "new_rtable [empty_bucket] n th :: table_res"
  have sh: "rt_shape ?t" "rt_table_new ?t = None" "rt_table ?t = replicate (unat n) [empty_bucket]"
    using new_rtable_shape [OF assms] by (simp_all add: new_rtable_def)
  have less: "rt_bin ?t k < unat n" for k using rt_bin_less [OF sh(1), of k] sh(3) by simp
  have ci: "chain_inv_res [empty_bucket]"
    by (simp add: chain_inv_res_def empty_chain empty_bucket_facts LOCK_FREE_def)
  note e = chains_empty [of chain_inv_res "unat n" "rt_table ?t" "rt_bin ?t", OF ci _ sh(3) less]
  from e sh show "tinv_res ?t" "tmap_res ?t = Map.empty"
    by (simp_all add: tinv_res_def tmap_res_def shape_res_def)
qed

text \<open>One resize: the new table holds the entries of the old one.\<close>

lemma resize_swap:
  assumes "open_res h" and "clht_hashtable_create_res n m = (Some t, m1)"
    and "copy_buckets_res (rt_table (cur_table h)) (t\<lparr>rt_version := rt_version (cur_table h) + 1\<rparr>) m1 =
      Done (bss, ht_new, m2)"
  shows "open_res (swap_table_res h bss ht_new)" and "map_res (swap_table_res h bss ht_new) = map_res h"
    and "rt_num_buckets (cur_table (swap_table_res h bss ht_new)) = ucast n"
    and "bss = map (\<lambda>bs. set_lock bs LOCK_RESIZE) (rt_table (cur_table h))"
proof -
  let ?old = "cur_table h" and ?t = "t\<lparr>rt_version := rt_version (cur_table h) + 1\<rparr>"
  let ?es = "concat (map chain_entries (rt_table ?old))"
  from assms(1) have v: "versions_res h" and ti: "tinv_res ?old" by (auto simp: open_res_def)
  from rtable_create_cases [OF assms(2) [unfolded clht_hashtable_create_res_def]]
  have t: "t = new_rtable [empty_bucket] n (expands_threshold n)" and n: "n \<noteq> 0" by auto
  have new: "tinv_res ?t" "tmap_res ?t = Map.empty" using tinv_new [OF n] by (simp_all add: t tinv_header)
  have ci: "chains_inv chain_inv_res chain_map (rt_bin ?old) (rt_table ?old)"
    using ti by (simp add: tinv_res_def)
  have old: "distinct (map fst ?es)" "map_of ?es = tmap_res ?old"
    using chains_entries_distinct [OF ci] chains_entries_map [OF ci] ti
    by (auto simp: chain_inv_res_def tmap_res_def tinv_res_def shape_res_def rt_bin_less)
  have "\<forall>bs\<in>set (rt_table ?old). chain_inv_res bs" using tinv_resD [OF ti] by blast
  from copy_buckets_res_law [OF new(1) this old(1) _ assms(3)] new(2)
  have c: "tinv_res ht_new" "tmap_res ht_new = tmap_res ?old" "same_header ?t ht_new" and
    b: "bss = map (\<lambda>bs. set_lock bs LOCK_RESIZE) (rt_table ?old)"
    by (simp_all add: old(2))
  show "bss = map (\<lambda>bs. set_lock bs LOCK_RESIZE) (rt_table ?old)" by (rule b)
  have "rt_table_new t = None" by (simp add: t new_rtable_def)
  from swap_versions [OF assms(1) c(3) this] c(1) show "open_res (swap_table_res h bss ht_new)"
    by (simp add: open_res_def swap_facts [OF v] tinv_header b)
  show "map_res (swap_table_res h bss ht_new) = map_res h"
    by (simp add: map_res_def swap_facts [OF v] tinv_header c(2))
  show "rt_num_buckets (cur_table (swap_table_res h bss ht_new)) = ucast n"
    using same_headerD [OF c(3)] by (simp add: swap_facts [OF v] t new_rtable_def)
qed

text \<open>The content of the map stays, and so do the tables that have been replaced.\<close>

definition keeps_res :: "clht_res \<Rightarrow> clht_res \<Rightarrow> bool" where
  "keeps_res h h' \<longleftrightarrow> open_res h' \<and> map_res h' = map_res h \<and> rc_ht h \<le> rc_ht h' \<and>
     (\<forall>i<rc_ht h. rc_tables h' ! i = rc_tables h ! i)"

lemma keeps_res_trans: "keeps_res h u \<Longrightarrow> keeps_res u w \<Longrightarrow> keeps_res h w"
  by (simp add: keeps_res_def)

lemma status_lock_irrelevant [simp]:
  "versions_res (h\<lparr>rc_status_lock := l\<rparr>) = versions_res h"
  "cur_table (h\<lparr>rc_status_lock := l\<rparr>) = cur_table h"
  "open_res (h\<lparr>rc_status_lock := l\<rparr>) = open_res h"
  "map_res (h\<lparr>rc_status_lock := l\<rparr>) = map_res h"
  by (simp_all add: open_res_def map_res_def versions_res_def cur_table_def)

lemma keeps_res_lock:
  "open_res h \<Longrightarrow> keeps_res h (h\<lparr>rc_status_lock := l\<rparr>)"
  "keeps_res (h\<lparr>rc_status_lock := l\<rparr>) h' = keeps_res h h'"
  "keeps_res h (h'\<lparr>rc_status_lock := l\<rparr>) = keeps_res h h'"
  by (simp_all add: keeps_res_def)

lemma trylock_free: "\<not> fst (TRYLOCK_ACQ LOCK_FREE)"
  by (simp add: TRYLOCK_ACQ_def TAS_U8_def SWAP_def LOCK_FREE_def)

definition new_buckets_res :: "clht_res \<Rightarrow> bool \<Rightarrow> u32 \<Rightarrow> u64" where
  "new_buckets_res h is_increase by = (if is_increase then scast by * rt_num_buckets (cur_table h)
     else rt_num_buckets (cur_table h) div CLHT_RATIO_HALVE)"

lemma resize_pes_Done:
  assumes "open_res h" and "ht_resize_pes_res f h inc by m = Done (r, h', m')"
  shows "\<exists>u m2. r \<and> keeps_res h u \<and> rc_ht u = Suc (rc_ht h) \<and>
    rt_table (rc_tables u ! rc_ht h) = map (\<lambda>bs. set_lock bs LOCK_RESIZE) (rt_table (cur_table h)) \<and>
    rt_num_buckets (cur_table u) = ucast (ucast (new_buckets_res h inc by) :: u32) \<and>
    ((h' = u \<and> m' = m2) \<or> (\<exists>n. ht_status_res f u True False m2 = Done (n, h', m')))"
proof -
  from assms obtain t m1 bss ht_new m2 where
    c: "clht_hashtable_create_res (ucast (new_buckets_res h inc by)) m = (Some t, m1)"
      "copy_buckets_res (rt_table (cur_table h)) (t\<lparr>rt_version := rt_version (cur_table h) + 1\<rparr>) m1 =
        Done (bss, ht_new, m2)" and
    r: "r" "(h' = swap_table_res h bss ht_new \<and> m' = m2) \<or>
      (\<exists>n. ht_status_res f (swap_table_res h bss ht_new) True False m2 = Done (n, h', m'))"
    using trylock_free
    by (auto simp: open_res_def Let_def bind_outcome_Done_iff new_buckets_res_def [symmetric]
        split: prod.splits option.splits if_splits)
  have "versions_res h" using assms(1) by (simp add: open_res_def)
  from swap_tables [OF this] resize_swap [OF assms(1) c] r show ?thesis
    by (intro exI [of _ "swap_table_res h bss ht_new"] exI [of _ m2]) (simp add: keeps_res_def)
qed

lemma status_Done:
  assumes "ht_status_res (Suc f) h inc prt m = Done (n, h', m')"
  defines "ht \<equiv> h\<lparr>rc_status_lock := snd (TRYLOCK_ACQ (rc_status_lock h))\<rparr>"
  shows "(fst (TRYLOCK_ACQ (rc_status_lock h)) \<and> \<not> inc \<and> h' = ht) \<or>
    (\<exists>u. h' = u\<lparr>rc_status_lock := LOCK_FREE\<rparr> \<and>
       (u = ht \<or> (\<exists>by r. ht_resize_pes_res f ht True by m = Done (r, u, m'))))"
proof (cases "fst (TRYLOCK_ACQ (rc_status_lock h)) \<and> \<not> inc")
  case True
  with assms(1) show ?thesis by (simp add: ht_def case_prod_beta Let_def)
next
  case False
  with assms(1) have "bind_outcome (case if prt then None else status_decision_res (cur_table ht) inc of
        None \<Rightarrow> Done (ht, m)
      | Some by \<Rightarrow> bind_outcome (ht_resize_pes_res f ht True by m) (\<lambda>(_, h, m). Done (h, m)))
      (\<lambda>(h, m). Done (of_nat (status_size_res (cur_table ht)), h\<lparr>rc_status_lock := LOCK_FREE\<rparr>, m)) =
    Done (n, h', m')"
    by (simp only: ht_status_res.simps case_prod_beta Let_def ht_def [symmetric] if_False)
  then show ?thesis
    by (auto simp: bind_outcome_Done_iff simp del: ht_resize_pes_res.simps split: option.splits if_splits)
qed

text \<open>Whatever the depth: a call of \<open>ht_status\<close> that returns keeps the content of the map.\<close>

lemma status_res_keeps:
  assumes "open_res h" and "ht_status_res f h inc prt m = Done (n, h', m')"
  shows "keeps_res h h' \<and> (inc \<or> rc_status_lock h = LOCK_FREE \<longrightarrow> rc_status_lock h' = LOCK_FREE)"
  using assms
proof (induction f arbitrary: h inc prt m n h' m')
  case 0
  then show ?case by simp
next
  case (Suc f)
  let ?l = "h\<lparr>rc_status_lock := snd (TRYLOCK_ACQ (rc_status_lock h))\<rparr>"
  have ol: "open_res ?l" using keeps_res_lock(1) [OF Suc.prems(1)] by (simp add: keeps_res_def)
  have rsz: "keeps_res h u" if "ht_resize_pes_res f ?l True d m = Done (r, u, m')" for d r u
  proof -
    from resize_pes_Done [OF ol that] obtain w m2 where w: "keeps_res ?l w" and
      u: "u = w \<or> (\<exists>n. ht_status_res f w True False m2 = Done (n, u, m'))" by blast
    then have "keeps_res w u" using Suc.IH [of w] by (auto simp: keeps_res_def)
    with w show ?thesis using keeps_res_trans by (simp add: keeps_res_lock)
  qed
  from status_Done [OF Suc.prems(2)] rsz have
    "(inc \<or> rc_status_lock h = LOCK_FREE \<longrightarrow> rc_status_lock h' = LOCK_FREE) \<and>
      (h' = ?l \<or> (\<exists>u. h' = u\<lparr>rc_status_lock := LOCK_FREE\<rparr> \<and> (u = ?l \<or> keeps_res h u)))"
    using trylock_free by fastforce
  with keeps_res_lock(1) [OF Suc.prems(1)] show ?case by (auto simp: keeps_res_lock)
qed

lemma even_increase_by: "even (increase_by_res e c)"
  using even_pow2roundup [of "of_nat (100 * e div (CLHT_OCCUP_AFTER_RES * c))"]
  by (auto simp: increase_by_res_def Let_def)

lemma grown_power:
  fixes inc :: u32 and n :: u64
  assumes "even inc" and "2 ^ d dvd unat n" and "d < 32"
  shows "2 ^ Suc d dvd unat (ucast (scast inc * n) :: u32)"
proof -
  have "even (scast inc :: u64)" using assms(1) by transfer (simp add: even_signed_take_bit_iff)
  then have "2 dvd unat (scast inc :: u64)" by (simp add: even_unat)
  with assms(2) have "2 ^ Suc d dvd unat (scast inc :: u64) * unat n" by (auto intro: mult_dvd_mono)
  moreover have "2 ^ Suc d dvd (2::nat) ^ 64" and "2 ^ Suc d dvd (2::nat) ^ 32"
    by (rule le_imp_power_dvd, use assms(3) in simp)+
  ultimately have "2 ^ Suc d dvd unat (scast inc :: u64) * unat n mod 2 ^ 64 mod 2 ^ 32"
    by (intro dvd_mod)
  then show ?thesis by (simp add: unsigned_ucast_eq take_bit_eq_mod unat_word_ariths(2))
qed

text \<open>Depth 33 is enough: the number of buckets gains a factor 2 per resize.\<close>

lemma open_resD:
  assumes "open_res h"
  shows "\<forall>bs\<in>set (rt_table (cur_table h)). chain_inv_res bs" and "rt_num_buckets (cur_table h) \<noteq> 0"
    and "unat (rt_num_buckets (cur_table h)) < 2 ^ 32"
  using assms tinv_resD by (auto simp: open_res_def tinv_res_def shape_res_def rt_shape_def)

lemma resize_pes_Spins:
  assumes "open_res h" and "ht_resize_pes_res f h inc by m = Spins"
  shows "\<exists>u m2. open_res u \<and> rt_num_buckets (cur_table u) = ucast (ucast (new_buckets_res h inc by) :: u32) \<and>
    ht_status_res f u True False m2 = Spins"
proof -
  from assms obtain t m1 bss ht_new m2 where
    c: "clht_hashtable_create_res (ucast (new_buckets_res h inc by)) m = (Some t, m1)"
      "copy_buckets_res (rt_table (cur_table h)) (t\<lparr>rt_version := rt_version (cur_table h) + 1\<rparr>) m1 =
        Done (bss, ht_new, m2)" and
    r: "ht_status_res f (swap_table_res h bss ht_new) True False m2 = Spins"
    using trylock_free copy_buckets_not_spins [OF open_resD(1) [OF assms(1)]]
    by (auto simp: open_res_def Let_def bind_outcome_Spins_iff new_buckets_res_def [symmetric]
        split: prod.splits option.splits if_splits)
  from resize_swap [OF assms(1) c] r show ?thesis by blast
qed

lemma status_Spins:
  assumes "ht_status_res (Suc f) h inc prt m = Spins"
  shows "\<exists>e c. ht_resize_pes_res f (h\<lparr>rc_status_lock := snd (TRYLOCK_ACQ (rc_status_lock h))\<rparr>) True
    (increase_by_res e c) m = Spins"
  using assms
  by (auto simp: Let_def bind_outcome_Spins_iff status_decision_res_def simp del: ht_resize_pes_res.simps
      split: prod.splits if_splits option.splits)

lemma status_res_not_spins:
  assumes "open_res h" and "2 ^ d dvd unat (rt_num_buckets (cur_table h))" and "33 \<le> f + d"
  shows "ht_status_res f h inc prt m \<noteq> Spins"
  using assms
proof (induction f arbitrary: h d inc prt m)
  case (Suc f)
  have d: "d < 32"
  proof (rule ccontr)
    assume "\<not> d < 32"
    then have "(2::nat) ^ 32 \<le> 2 ^ d" using power_increasing [of 32 d "2::nat"] by simp
    with dvd_imp_le [OF Suc.prems(2)] open_resD [OF Suc.prems(1)] show False
      by (simp add: unat_gt_0)
  qed
  show ?case
  proof
    assume "ht_status_res (Suc f) h inc prt m = Spins"
    from status_Spins [OF this] obtain e c where
      s: "ht_resize_pes_res f (h\<lparr>rc_status_lock := snd (TRYLOCK_ACQ (rc_status_lock h))\<rparr>) True
        (increase_by_res e c) m = Spins" by blast
    from resize_pes_Spins [OF _ s] Suc.prems(1) obtain u m2 where u: "open_res u"
      "rt_num_buckets (cur_table u) =
        ucast (ucast (scast (increase_by_res e c) * rt_num_buckets (cur_table h)) :: u32)"
      "ht_status_res f u True False m2 = Spins" by (auto simp: new_buckets_res_def)
    have "2 ^ Suc d dvd unat (rt_num_buckets (cur_table u))"
      using grown_power [OF even_increase_by Suc.prems(2) d] by (simp only: u(2) unat_ucast_u32)
    from Suc.IH [OF u(1) this] Suc.prems(3) u(3) show False by simp
  qed
next
  case 0
  have "(2::nat) ^ 32 < 2 ^ d" using 0 by (intro power_strict_increasing) simp_all
  with dvd_imp_le [OF 0(2)] open_resD [OF 0(1)] show ?case by (simp add: unat_gt_0)
qed

section \<open>The contract of the whole structure\<close>

lemma inv_resD: "inv_res h \<Longrightarrow> open_res h \<and> rc_status_lock h = LOCK_FREE \<and> tinv_res (cur_table h) \<and> versions_res h"
  by (simp add: inv_res_def open_res_def)

lemma put_table_header:
  "put_table_res t k v m = Done (r, z, t', m') \<Longrightarrow> same_header t t'"
  by (auto simp: put_table_res_def Let_def bind_outcome_Done_iff chain_insert_res_iff same_header_def
      split: if_splits)

lemma put_table_res_law:
  assumes "tinv_res t" and "k \<noteq> 0" and "put_table_res t k v m = Done (r, z, t', m')"
  shows "tinv_res t' \<and> r = (tmap_res t k = None) \<and>
    tmap_res t' = (if r then (tmap_res t)(k \<mapsto> v) else tmap_res t)"
proof -
  from assms(3) have "put_plain_res t k v m = Done (r, t', m')" by (simp add: put_plain_res_def)
  with res.table.put_law [of t k v m r t' m'] assms(1,2) show ?thesis
    by (simp add: tinv_res_eq tmap_res_eq)
qed

lemma put_table_not_spins: "tinv_res t \<Longrightarrow> put_table_res t k v m \<noteq> Spins"
proof -
  assume "tinv_res t"
  then have "lock (hd (rt_table t ! rt_bin t k)) = LOCK_FREE"
    using res.tinv_chain [of t k] by (simp add: tinv_res_eq chain_inv_res_def)
  then show ?thesis
    by (auto simp: put_table_res_def Let_def bin_res acquire_res_def acq_free chain_insert_res_def
        split: sum.splits option.splits prod.splits if_splits)
qed

lemma clht_put_res_law:
  assumes "inv_res h" and "k \<noteq> 0" and "clht_put_res h k v m = Done (r, h', m')"
  shows "inv_res h' \<and> r = (map_res h k = None) \<and>
    map_res h' = (if r then (map_res h)(k \<mapsto> v) else map_res h)"
proof -
  note i = inv_resD [OF assms(1)]
  from assms(3) obtain z t m1 where p: "put_table_res (cur_table h) k v m = Done (r, z, t, m1)" and
    s: "(h' = set_table (rc_ht h) t h) \<or>
      (\<exists>n. ht_status_res resize_depth (set_table (rc_ht h) t h) True False m1 = Done (n, h', m'))"
    by (auto simp: clht_put_res_def Let_def bind_outcome_Done_iff split: if_splits)
  from i have ti: "tinv_res (cur_table h)" by blast
  note l = put_table_res_law [OF ti assms(2) p]
  then have tt: "tinv_res t" by blast
  from i have oh: "open_res h" and sl: "rc_status_lock h = LOCK_FREE" by blast+
  have u: "open_res (set_table (rc_ht h) t h)" "map_res (set_table (rc_ht h) t h) = tmap_res t"
    "rc_status_lock (set_table (rc_ht h) t h) = LOCK_FREE"
    using open_set_table [OF oh tt put_table_header [OF p]] sl by simp_all
  from s have "keeps_res (set_table (rc_ht h) t h) h' \<and> rc_status_lock h' = LOCK_FREE"
  proof
    assume "h' = set_table (rc_ht h) t h"
    with u show ?thesis by (simp add: keeps_res_def)
  qed (use status_res_keeps [OF u(1)] in blast)
  then have "inv_res h'" "map_res h' = tmap_res t" using u(2) by (simp_all add: keeps_res_def inv_res_def)
  with l show ?thesis by (simp add: map_res_def)
qed

lemma clht_put_res_not_spins:
  assumes "inv_res h" and "k \<noteq> 0"
  shows "clht_put_res h k v m \<noteq> Spins"
proof
  assume s: "clht_put_res h k v m = Spins"
  note i = inv_resD [OF assms(1)]
  then have ti: "tinv_res (cur_table h)" by blast
  from s put_table_not_spins [OF ti] obtain r z t m1 where
    p: "put_table_res (cur_table h) k v m = Done (r, z, t, m1)" and
    q: "ht_status_res resize_depth (set_table (rc_ht h) t h) True False m1 = Spins"
    by (auto simp: clht_put_res_def Let_def bind_outcome_Spins_iff split: if_splits)
  from put_table_res_law [OF ti assms(2) p] i have tt: "tinv_res t" and oh: "open_res h" by blast+
  have "open_res (set_table (rc_ht h) t h)" by (rule open_set_table [OF oh tt put_table_header [OF p]])
  from status_res_not_spins [OF this, of 0 resize_depth] q show False
    by (simp add: resize_depth_def)
qed

lemma clht_remove_res_law:
  assumes "inv_res h" and "k \<noteq> 0"
  shows "\<exists>h'. clht_remove_res h k = Done (val_or_0 (map_res h k), h') \<and> inv_res h' \<and>
    map_res h' = (map_res h)(k := None)"
proof -
  note i = inv_resD [OF assms(1)]
  then have ti: "tinv_res (cur_table h)" by blast
  from res.table.rem_law [of "cur_table h" k] ti assms(2) obtain t where
    t: "remove_table_res (cur_table h) k = Done (val_or_0 (map_res h k), t)" "tinv_res t"
      "tmap_res t = (map_res h)(k := None)"
    by (auto simp: tinv_res_eq tmap_res_eq map_res_def)
  from t(1) have "same_header (cur_table h) t"
    by (auto simp: remove_table_res_def Let_def bind_outcome_Done_iff same_header_def
        split: if_splits option.splits prod.splits)
  from open_set_table [OF _ t(2) this] i t show ?thesis
    by (simp add: clht_remove_res_def inv_res_def)
qed

interpretation res_store: kv_store inv_res map_res "\<lambda>h. clht_get_res (cur_table h)"
  clht_put_res clht_remove_res "\<lambda>k. k \<noteq> 0" "\<lambda>_. True"
proof unfold_locales
  fix h :: clht_res and k :: u64
  assume "inv_res h" "k \<noteq> 0"
  then show "clht_get_res (cur_table h) k = val_or_0 (map_res h k)"
    using res.table.get_law [of "cur_table h" k] inv_resD [of h]
    by (simp add: tinv_res_eq tmap_res_eq map_res_def)
qed (use clht_put_res_law clht_remove_res_law in blast)+

lemma run_res_not_spins:
  assumes "inv_res h" and "\<forall>x\<in>set xs. op_key x \<noteq> 0"
  shows "table_run (\<lambda>h. clht_get_res (cur_table h)) clht_put_res clht_remove_res (h, m) xs \<noteq> Spins"
  using assms
proof (induction xs arbitrary: h m)
  case (Cons x xs)
  have "table_step (\<lambda>h. clht_get_res (cur_table h)) clht_put_res clht_remove_res (h, m) x \<noteq> Spins"
    using Cons.prems clht_put_res_not_spins clht_remove_res_law [of h]
    by (cases x) (auto simp: bind_outcome_Spins_iff, fastforce)
  moreover have "inv_res h'" if "table_step (\<lambda>h. clht_get_res (cur_table h)) clht_put_res
      clht_remove_res (h, m) x = Done (r, h', m')" for r h' m'
    using res_store.step_refines [OF Cons.prems(1) _ that] Cons.prems(2) by (simp add: op_ok_any)
  ultimately show ?case
    using Cons.IH Cons.prems(2) by (auto simp: bind_outcome_Spins_iff)
qed simp

text \<open>
  C1. A run of any lookups, insertions and removals with keys other than 0 on a well-formed
  resizing table never waits for ever, whatever resizes the insertions set off; when it returns,
  the answers and the final content are those of the abstract map. The run may also fault: when a request for memory
  is refused, or when the number of buckets of a new table wraps around to 0. Nothing is said of the state then.
\<close>

theorem clht_res_refines_map:
  assumes "inv_res h" and "\<forall>x\<in>set xs. op_key x \<noteq> 0"
  shows "case table_run (\<lambda>h. clht_get_res (cur_table h)) clht_put_res clht_remove_res (h, m) xs of
      Done (rs, h', m') \<Rightarrow> inv_res h' \<and> kv_run (map_res h) xs = (rs, map_res h')
    | Spins \<Rightarrow> False
    | Faults \<Rightarrow> True"
  using res_store.run_refines [OF assms(1), of xs m] run_res_not_spins [OF assms, of m] assms(2)
  by (auto simp: op_ok_any split: outcome.splits)

text \<open>
  C2. \<open>ht_resize_pes\<close>, when it returns, has kept the content of the map; the table it replaced
  keeps its entries under the resize locks, is marked as released, and every table older than it is
  untouched; the version numbers count the tables and the links lead from each table to its
  neighbours.
\<close>

theorem ht_resize_pes_res_correct:
  assumes "open_res h" and "ht_resize_pes_res f h is_increase by m = Done (r, h', m')"
  shows "r \<and> open_res h' \<and> map_res h' = map_res h \<and> rc_ht h < rc_ht h' \<and> rc_released h' = [0..<rc_ht h'] \<and>
    rt_table (rc_tables h' ! rc_ht h) = map (\<lambda>bs. set_lock bs LOCK_RESIZE) (rt_table (cur_table h)) \<and>
    (\<forall>i<rc_ht h. rc_tables h' ! i = rc_tables h ! i)"
proof -
  from resize_pes_Done [OF assms] obtain u m2 where
    u: "r" "keeps_res h u" "rc_ht u = Suc (rc_ht h)"
      "rt_table (rc_tables u ! rc_ht h) = map (\<lambda>bs. set_lock bs LOCK_RESIZE) (rt_table (cur_table h))" and
    s: "h' = u \<or> (\<exists>n. ht_status_res f u True False m2 = Done (n, h', m'))" by blast
  from s u(2) have k: "keeps_res u h'"
    using status_res_keeps [of u] by (auto simp: keeps_res_def)
  with keeps_res_trans [OF u(2) k] u show ?thesis
    by (auto simp: keeps_res_def inv_res_def open_res_def versions_res_def)
qed

section \<open>Creation, size, memory accounting\<close>

lemma created_res:
  fixes n :: u32
  assumes "n \<noteq> 0"
  shows "inv_res (new_rclht (new_rtable [empty_bucket] n th))"
    and "map_res (new_rclht (new_rtable [empty_bucket] n th)) = Map.empty"
proof -
  let ?t = "new_rtable [empty_bucket] n th :: table_res"
  have c: "cur_table (new_rclht ?t) = ?t" by (simp add: cur_table_def new_rclht_def)
  have "versions_res (new_rclht ?t)"
    by (simp add: versions_res_def new_rclht_def new_rtable_def)
  with tinv_new [OF assms, of th] show "inv_res (new_rclht ?t)" "map_res (new_rclht ?t) = Map.empty"
    by (simp_all add: inv_res_def open_res_def map_res_def c) (simp_all add: new_rclht_def)
qed

lemma create_res_cases:
  assumes "clht_create_res n m = (w, m')"
  shows "(w = None \<and> live m' = live m) \<or>
    (n \<noteq> 0 \<and> w = Some (new_rclht (new_rtable [empty_bucket] n (expands_threshold n))) \<and> live m' = live m + 3)"
proof (cases "memalign m")
  case (Pair g m1)
  then have l: "g = None \<Longrightarrow> live m1 = live m" "g \<noteq> None \<Longrightarrow> live m1 = Suc (live m)"
    by (auto simp: memalign_def split: list.splits option.splits)
  show ?thesis
  proof (cases g)
    case None
    with assms Pair l show ?thesis by (simp add: clht_create_res_def)
  next
    case (Some b)
    obtain t m2 where t: "clht_hashtable_create_res n m1 = (t, m2)" by fastforce
    from rtable_create_cases [OF t [unfolded clht_hashtable_create_res_def]] assms Pair Some t l
    show ?thesis by (auto simp: clht_create_res_def mfree_def)
  qed
qed

lemma create_res_ready:
  assumes "n \<noteq> 0" and "ready 3 m"
  shows "fst (clht_create_res n m) \<noteq> None"
proof -
  from assms(2) have "ready (Suc (Suc (Suc 0))) m" by (simp add: numeral_3_eq_3)
  from ready_Suc_memalign [OF this] obtain g1 m1 where
    1: "memalign m = (Some g1, m1)" "ready (Suc (Suc 0)) m1" by blast
  from ready_Suc_memalign [OF 1(2)] obtain g2 m2 where
    2: "memalign m1 = (Some g2, m2)" "ready (Suc 0) m2" by blast
  from ready_Suc_memalign [OF 2(2)] obtain g3 m3 where "memalign m2 = (Some g3, m3)" by blast
  with 1 2 assms(1) show ?thesis
    by (simp add: clht_create_res_def clht_hashtable_create_res_def rtable_create_def)
qed

text \<open>
  \<open>clht_create\<close> of the resizing table returns NULL exactly when the bucket count is 0 or a
  request for memory fails, and then gives every block back; otherwise the table is well formed and
  empty.
\<close>

theorem clht_create_res_correct:
  "case clht_create_res n m of
     (None, m') \<Rightarrow> live m' = live m \<and> (n = 0 \<or> \<not> ready 3 m)
   | (Some h, m') \<Rightarrow> live m' = live m + 3 \<and> n \<noteq> 0 \<and> inv_res h \<and> map_res h = Map.empty"
proof (cases "clht_create_res n m")
  case (Pair w m')
  from create_res_cases [OF Pair] show ?thesis
    using create_res_ready [of n m] Pair created_res [of n] by auto
qed

text \<open>\<open>clht_size\<close> of the current table is the number of keys that the structure maps.\<close>

theorem clht_size_res_correct:
  assumes "inv_res h"
  shows "unat (clht_size_res (cur_table h)) = card (dom (map_res h))"
proof -
  let ?t = "cur_table h"
  from inv_resD [OF assms] have ti: "tinv_res ?t" by blast
  then have len: "unat (ucast (rt_num_buckets ?t) :: u32) = length (rt_table ?t)"
    by (simp add: tinv_res_def shape_res_def rt_shape_def unsigned_ucast_eq take_bit_nat_eq_self)
  have "(\<Sum>bs\<leftarrow>rt_table ?t. chain_size bs) = (\<Sum>bs\<leftarrow>rt_table ?t. card (dom (chain_map bs)))"
    using tinv_resD [OF ti] by (intro arg_cong [where f = sum_list] map_cong)
      (auto simp: chain_inv_res_def chain_size_card)
  also have "\<dots> = card (dom (map_res h))"
    unfolding map_res_def tmap_res_def using ti [unfolded tinv_res_def]
    by (intro chains_card [symmetric, of chain_inv_res])
      (auto simp: shape_res_def rt_bin_less finite_dom_chain_map)
  finally have "clht_size_res ?t = of_nat (card (dom (map_res h)))"
    unfolding clht_size_res_def Let_def len by (simp add: map_index_eq)
  moreover have "0 \<notin> dom (map_res h)"
    by (simp add: map_res_def tmap_res_def chains_map_def chain_map_0 dom_def)
  ultimately show ?thesis using card_nonzero_u64 by (simp add: unat_of_nat_u64)
qed

lemma garbage_loop_res_links:
  assumes "\<forall>i<n. rt_table_prev (ts ! i) = (if i = 0 then None else Some (i - 1))"
  shows "garbage_loop_res ts (if n = 0 then None else Some (n - 1)) acc =
    Some (acc + (\<Sum>i<n. clht_size_mem_res (ts ! i)))"
  using assms
proof (induction n arbitrary: acc)
  case 0
  then show ?case by (subst garbage_loop_res.simps) simp
next
  case (Suc n)
  then have "rt_table_prev (ts ! n) = (if n = 0 then None else Some (n - 1))" by simp
  with Suc.IH [of "acc + clht_size_mem_res (ts ! n)"] Suc.prems show ?case
    by (subst garbage_loop_res.simps) (simp add: algebra_simps)
qed

text \<open>
  The loop of \<open>clht_size_mem_garbage\<close> ends on every structure that insertions and removals
  build, and adds up the replaced tables, each once. (These are the tables that have been handed to
  \<open>ssmem_release\<close>: with \<open>CLHT_DO_GC 0\<close> the links to them are never cut.)
\<close>

theorem clht_size_mem_garbage_res_correct:
  assumes "inv_res h"
  shows "clht_size_mem_garbage_res (rc_tables h) (rc_ht h) =
    Some (\<Sum>i\<leftarrow>rc_released h. clht_size_mem_res (rc_tables h ! i))"
proof -
  from inv_resD [OF assms] have v: "versions_res h" by blast
  note d = versions_resD [OF v]
  have rel: "rc_released h = [0..<rc_ht h]" using v by (simp add: versions_res_def)
  have prev: "\<forall>i\<le>rc_ht h. rt_table_prev (rc_tables h ! i) = (if i = 0 then None else Some (i - 1))"
    using v d(2) by (auto simp: versions_res_def Let_def)
  have "garbage_loop_res (rc_tables h) (if rc_ht h = 0 then None else Some (rc_ht h - 1)) 0 =
      Some (0 + (\<Sum>i<rc_ht h. clht_size_mem_res (rc_tables h ! i)))"
    using prev by (intro garbage_loop_res_links) auto
  with prev show ?thesis
    by (simp add: clht_size_mem_garbage_res_def rel interv_sum_list_conv_sum_set_nat atLeast0LessThan)
qed

section \<open>Destruction\<close>

lemma versions_gc_chain:
  assumes "versions_res h" and "rc_ht h < 2 ^ 64"
  shows "gc_chain h"
proof -
  have "rt_version (rc_tables h ! i) < rt_version (rc_tables h ! j)" if "i < j" "j \<le> rc_ht h" for i j
  proof -
    have "(of_nat i :: u64) < of_nat j"
      using that assms(2) by (simp add: word_less_nat_alt unat_of_nat_u64)
    with that assms(1) versions_resD(2) [OF assms(1)] show ?thesis
      by (simp add: versions_res_def Let_def)
  qed
  with assms(1) versions_resD(2) [OF assms(1)] show ?thesis
    by (auto simp: gc_chain_def versions_res_def Let_def)
qed

text \<open>
  C39. A table is created, any operations run on it, and \<open>clht_gc_destroy\<close> ends it: it frees every table that
  was ever created, each once. The tables that resizes replaced have also been handed to \<open>ssmem_release\<close> by
  these resizes (\<open>CLHT_DO_GC 0\<close>), which gives their memory back as well: each of them is given back
  twice.
\<close>

theorem clht_gc_destroy_res_frees_released:
  assumes "clht_create_res n m0 = (Some h0, m1)" and "\<forall>x\<in>set xs. op_key x \<noteq> 0"
    and "table_run (\<lambda>h. clht_get_res (cur_table h)) clht_put_res clht_remove_res (h0, m1) xs = Done (rs, h, m)"
    and "rc_ht h < 2 ^ 64"
  shows "\<exists>h' m'. clht_gc_destroy (\<lambda>bs. length bs - 1) h m = Done (h', m') \<and>
    rc_freed h' = [0..<Suc (rc_ht h)] \<and> rc_released h' = [0..<rc_ht h]"
proof -
  from create_res_cases [OF assms(1)] created_res(1) have "inv_res h0" by auto
  from res_store.run_refines [OF this _ assms(3)] assms(2) have "inv_res h" by (simp add: op_ok_any)
  from inv_resD [OF this] have v: "versions_res h" by blast
  then have r: "rc_gc_lock h = LOCK_FREE" "rc_released h = [0..<rc_ht h]" by (simp_all add: versions_res_def)
  from gc_collect_all_law [OF versions_gc_chain [OF v assms(4)] r(1), of "\<lambda>bs. length bs - 1" m]
  obtain h' m' where "clht_gc_collect_all (\<lambda>bs. length bs - 1) h m = Done (rc_ht h - rc_ht_oldest h, h', m')"
    "rc_freed h' = [0..<rc_ht h]" "same_but_prev h h'" by blast
  with r show ?thesis by (simp add: clht_gc_destroy_def clht_gc_free_def same_but_prev_def)
qed

section \<open>Witnesses\<close>

text \<open>A table of one bucket: the fourth key expands it and sets off a resize.\<close>

definition example_res :: clht_res where
  "example_res = new_rclht (new_rtable [empty_bucket] 1 (expands_threshold 1))"

lemma example_res_inv: "inv_res example_res" "map_res example_res = Map.empty" "open_res example_res"
  using created_res [of 1] by (simp_all add: example_res_def inv_res_def)

lemma example_run_res:
  "case table_run (\<lambda>h. clht_get_res (cur_table h)) clht_put_res clht_remove_res (example_res, example_mem)
     [Put 1 10, Put 2 20, Put 3 30, Put 4 40, Get 3, Remove 4, Get 4] of
   Done (rs, h', m') \<Rightarrow> rs = [RBool True, RBool True, RBool True, RBool True, RVal 30, RVal 40, RVal 0] \<and>
     rc_ht h' = 1 \<and> rt_num_buckets (cur_table h') = 4
   | _ \<Rightarrow> False"
  by code_simp

theorem clht_res_refines_map_witness:
  "\<exists>rs h' m'. table_run (\<lambda>h. clht_get_res (cur_table h)) clht_put_res clht_remove_res
      (example_res, example_mem) [Put 1 10, Put 2 20, Put 3 30, Put 4 40, Get 3, Remove 4, Get 4] =
      Done (rs, h', m') \<and> rc_ht h' = 1 \<and> inv_res h' \<and>
    kv_run (map_res example_res) [Put 1 10, Put 2 20, Put 3 30, Put 4 40, Get 3, Remove 4, Get 4] =
      (rs, map_res h')"
  using clht_res_refines_map [OF example_res_inv(1), of "[Put 1 10, Put 2 20, Put 3 30, Put 4 40, Get 3,
      Remove 4, Get 4]" example_mem] example_run_res
  by (auto split: outcome.splits)

lemma created_run_res:
  "case clht_create_res 1 example_mem of (None, _) \<Rightarrow> False | (Some h0, m1) \<Rightarrow>
     (case table_run (\<lambda>h. clht_get_res (cur_table h)) clht_put_res clht_remove_res (h0, m1)
         [Put 1 10, Put 2 20, Put 3 30, Put 4 40] of
        Done (rs, h, m) \<Rightarrow> rc_ht h = 1
      | _ \<Rightarrow> False)"
  by code_simp

text \<open>The fourth insertion sets off a resize: table 0 is released by it and freed again at the end.\<close>

theorem clht_gc_destroy_res_frees_released_witness:
  "\<exists>h0 m1 rs h m h' m'. clht_create_res 1 example_mem = (Some h0, m1) \<and>
     table_run (\<lambda>h. clht_get_res (cur_table h)) clht_put_res clht_remove_res (h0, m1)
       [Put 1 10, Put 2 20, Put 3 30, Put 4 40] = Done (rs, h, m) \<and>
     clht_gc_destroy (\<lambda>bs. length bs - 1) h m = Done (h', m') \<and> rc_freed h' = [0, 1] \<and> rc_released h' = [0]"
proof -
  let ?xs = "[Put 1 10, Put 2 20, Put 3 30, Put 4 40]"
  obtain h0 m1 where c: "clht_create_res 1 example_mem = (Some h0, m1)"
    using created_run_res by (auto split: prod.splits option.splits)
  obtain rs h m where r: "table_run (\<lambda>h. clht_get_res (cur_table h)) clht_put_res clht_remove_res (h0, m1) ?xs = Done (rs, h, m)"
    and n: "rc_ht h = 1"
    using created_run_res unfolding c by (auto simp del: table_run.simps split: outcome.splits)
  from clht_gc_destroy_res_frees_released [OF c _ r] n obtain h' m' where
    "clht_gc_destroy (\<lambda>bs. length bs - 1) h m = Done (h', m')" "rc_freed h' = [0, 1]" "rc_released h' = [0]" by auto
  with c r show ?thesis by blast
qed

theorem ht_resize_pes_res_correct_witness:
  "\<exists>r h' m'. ht_resize_pes_res 1 example_res True 2 example_mem = Done (r, h', m') \<and>
    map_res h' = map_res example_res \<and> rc_released h' = [0..<rc_ht h']"
proof -
  have "case ht_resize_pes_res 1 example_res True 2 example_mem of Done _ \<Rightarrow> True | _ \<Rightarrow> False"
    by code_simp
  then obtain r h' m' where r: "ht_resize_pes_res 1 example_res True 2 example_mem = Done (r, h', m')"
    by (auto simp del: ht_resize_pes_res.simps split: outcome.splits)
  from ht_resize_pes_res_correct [OF example_res_inv(3) r] r show ?thesis by blast
qed

theorem clht_create_res_correct_witness:
  "case clht_create_res 2 example_mem of
     (None, m') \<Rightarrow> live m' = live example_mem \<and> ((2::u32) = 0 \<or> \<not> ready 3 example_mem)
   | (Some h, m') \<Rightarrow> live m' = live example_mem + 3 \<and> (2::u32) \<noteq> 0 \<and> inv_res h \<and> map_res h = Map.empty"
  by (rule clht_create_res_correct)

theorem clht_size_res_correct_witness:
  "unat (clht_size_res (cur_table example_res)) = card (dom (map_res example_res))"
  by (rule clht_size_res_correct) (rule example_res_inv)

theorem clht_size_mem_garbage_res_correct_witness:
  "clht_size_mem_garbage_res (rc_tables example_res) (rc_ht example_res) =
    Some (\<Sum>i\<leftarrow>rc_released example_res. clht_size_mem_res (rc_tables example_res ! i))"
  by (rule clht_size_mem_garbage_res_correct) (rule example_res_inv)

end
