(* ===== verification/Clht_lb_no_next_map.thy ===== *)
theory Clht_lb_no_next_map
  imports Clht_lb_no_next Clht_lb_res_map
begin

text \<open>
  What the table of theory Clht_lb_no_next does when its size is a power of two: a resize finds room
  for every entry, so the handlers refine the abstract map, and an insertion ends after at most 33
  rounds.
\<close>

section \<open>One bucket\<close>

definition binv_nn :: "bucket_nn \<Rightarrow> bool" where
  "binv_nn b \<longleftrightarrow> chain_inv [b] \<and> lock b = LOCK_FREE"

definition bmap_nn :: "bucket_nn \<Rightarrow> kv" where
  "bmap_nn b = chain_map [b]"

lemma bucket_lock_simps [simp]:
  "bucket_entries (b\<lparr>lock := l\<rparr>) = bucket_entries b" "bucket_ok (b\<lparr>lock := l\<rparr>) = bucket_ok b"
  "find_key (b\<lparr>lock := l\<rparr>) k = find_key b k" "chain_inv [b\<lparr>lock := l\<rparr>] = chain_inv [b]"
  "chain_map [b\<lparr>lock := l\<rparr>] = chain_map [b]" "bmap_nn (b\<lparr>lock := l\<rparr>) = bmap_nn b"
  by (simp_all add: bucket_entries_def bucket_ok_def find_key_def chain_inv_def chain_ok_def chain_map_def bmap_nn_def)

lemma binv_nnD: "binv_nn b \<Longrightarrow> chain_inv [b] \<and> bucket_ok b \<and> lock b = LOCK_FREE"
  by (simp add: binv_nn_def chain_inv_def chain_ok_def)

lemma exists_nn: "binv_nn b \<Longrightarrow> k \<noteq> 0 \<Longrightarrow> bucket_exists_nn b k \<longleftrightarrow> bmap_nn b k \<noteq> None"
  using chain_map_exists [of "[b]" k] binv_nnD [of b]
  by (auto simp: bucket_exists_nn_def bmap_nn_def split: if_splits)

lemma get_nn: "binv_nn b \<Longrightarrow> k \<noteq> 0 \<Longrightarrow>
    (case find_key b k of Some j \<Rightarrow> val b ! j | None \<Rightarrow> 0) = val_or_0 (bmap_nn b k)"
  using chain_get_map [of "[b]" k] binv_nnD [of b]
  by (auto simp: bmap_nn_def chain_inv_def chain_ok_def split: option.splits)

lemma put_scan_nn_result:
  assumes "\<forall>j\<in>set js. key b ! j \<noteq> k"
  shows "(put_scan_nn b k js e = Inr e \<and> (\<forall>j\<in>set js. key b ! j \<noteq> 0)) \<or>
    (\<exists>j\<in>set js. put_scan_nn b k js e = Inr (Some j) \<and> key b ! j = 0)"
  using assms
proof (induction js arbitrary: e)
  case (Cons j js)
  from Cons.IH [of "if key b ! j = 0 then Some j else e"] Cons.prems show ?case
    by (cases "key b ! j = 0") auto
qed simp

lemma put_scan_nn_cases:
  assumes "bucket_ok b" and "\<not> bucket_exists_nn b k"
  shows "(\<exists>j. put_scan_nn b k [0..<ENTRIES_PER_BUCKET] None = Inr (Some j) \<and> j < ENTRIES_PER_BUCKET \<and> key b ! j = 0) \<or>
    (put_scan_nn b k [0..<ENTRIES_PER_BUCKET] None = Inr None \<and> 0 \<notin> set (key b))"
proof -
  have "\<forall>j\<in>set [0..<ENTRIES_PER_BUCKET]. key b ! j \<noteq> k"
    using assms find_key_None [OF assms(1), of k] by (auto simp: bucket_exists_nn_def bucket_ok_def)
  from put_scan_nn_result [OF this, of None] assms(1) show ?thesis
    by (auto simp: bucket_ok_def in_set_conv_nth)
qed

lemma write_nn_law:
  assumes "binv_nn b" and "k \<noteq> 0" and "bmap_nn b k = None" and "j < ENTRIES_PER_BUCKET" and "key b ! j = 0"
  shows "binv_nn (write_nn b j k v) \<and> bmap_nn (write_nn b j k v) = (bmap_nn b)(k \<mapsto> v) \<and>
    length (bucket_entries (write_nn b j k v)) = Suc (length (bucket_entries b))"
proof -
  note i = binv_nnD [OF assms(1)]
  then have ok: "chain_ok [b]" by (simp add: chain_inv_def)
  have w: "write_slot [b] 0 j k v = [write_nn b j k v]"
    by (simp add: write_slot_def write_nn_def)
  have ms: "mset (chain_entries [write_nn b j k v]) = add_mset (k, v) (mset (chain_entries [b]))"
    using write_slot_entries [OF ok, of 0 j k v] assms(2,4,5) by (simp add: w)
  have "chain_inv [write_nn b j k v] \<and> chain_map [write_nn b j k v] = (chain_map [b])(k \<mapsto> v)"
    using chain_entry_added [OF _ _ _ ms] i assms(3) write_slot_ok [OF ok, of 0 j k v] by (simp add: w bmap_nn_def)
  moreover have "lock (write_nn b j k v) = lock b" by (simp add: write_nn_def)
  ultimately show ?thesis
    using i arg_cong [OF ms, of size] by (simp add: binv_nn_def bmap_nn_def)
qed

lemma clear_nn_law:
  assumes "binv_nn b" and "k \<noteq> 0" and "find_key b k = Some j"
  shows "binv_nn (b\<lparr>key := (key b)[j := 0]\<rparr>) \<and> bmap_nn b k = Some (val b ! j) \<and>
    bmap_nn (b\<lparr>key := (key b)[j := 0]\<rparr>) = (bmap_nn b)(k := None)"
  using chain_remove_correct [of "[b]" k "val b ! j" "[b\<lparr>key := (key b)[j := 0]\<rparr>]"] assms binv_nnD [OF assms(1)]
  by (simp add: binv_nn_def bmap_nn_def)

lemma entries_nn_le: "bucket_ok b \<Longrightarrow> length (bucket_entries b) \<le> ENTRIES_PER_BUCKET"
  by (metis bucket_keys bucket_ok_def length_filter_le length_map)

lemma room_nn:
  assumes "bucket_ok b" and "length (bucket_entries b) < ENTRIES_PER_BUCKET"
  obtains j where "find_key b 0 = Some j" and "j < ENTRIES_PER_BUCKET" and "key b ! j = 0"
proof (cases "find_key b 0")
  case None
  then have "filter (\<lambda>k. k \<noteq> 0) (key b) = key b"
    using find_key_None [OF assms(1), of 0] by (auto simp: filter_id_conv)
  then have "length (bucket_entries b) = length (key b)"
    using bucket_keys [OF assms(1)] by (metis length_map)
  with assms show thesis by (simp add: bucket_ok_def)
next
  case (Some j)
  with that find_key_Some [OF Some] show thesis by blast
qed

section \<open>One table\<close>

definition tinv_nn :: "table_nn \<Rightarrow> bool" where
  "tinv_nn t \<longleftrightarrow> rt_shape t \<and> rt_table_new t = None \<and> chains_inv binv_nn bmap_nn (rt_bin t) (rt_table t)"

definition tmap_nn :: "table_nn \<Rightarrow> kv" where
  "tmap_nn t = chains_map bmap_nn (rt_bin t) (rt_table t)"

lemma bin_nn: "unat (clht_hash_nn t k) = rt_bin t k"
  by (simp add: clht_hash_nn_def rt_bin_def)

lemma tinv_nn_bucket: "tinv_nn t \<Longrightarrow> binv_nn (rt_table t ! rt_bin t k)"
  by (auto simp: tinv_nn_def intro: chains_inv_nth rt_bin_less)

lemma tmap_nn_at: "tmap_nn t k = bmap_nn (rt_table t ! rt_bin t k) k"
  by (simp add: tmap_nn_def chains_map_def)

lemma update_nn:
  assumes "tinv_nn t" and "binv_nn b" and "bmap_nn b = (bmap_nn (rt_table t ! rt_bin t k))(k := x)"
    and "same_header t t'" and "rt_table t' = (rt_table t)[rt_bin t k := b]"
  shows "tinv_nn t'" and "tmap_nn t' = (tmap_nn t)(k := x)"
proof -
  have l: "rt_bin t k < length (rt_table t)" using assms(1) by (simp add: tinv_nn_def rt_bin_less)
  have "dom (bmap_nn b) \<subseteq> insert k (dom (bmap_nn (rt_table t ! rt_bin t k)))" using assms(3) by auto
  with assms(1,2) chains_inv_update [of binv_nn bmap_nn "rt_bin t" "rt_table t" b k] same_headerD [OF assms(4)]
  show "tinv_nn t'" by (auto simp: tinv_nn_def rt_shape_def assms(5))
  show "tmap_nn t' = (tmap_nn t)(k := x)"
    using chains_map_update [of "rt_bin t" k "rt_table t" binv_nn bmap_nn b x] l assms(1,3) same_headerD [OF assms(4)]
    by (simp add: tmap_nn_def tinv_nn_def assms(5))
qed

section \<open>Copying into a larger power of two\<close>

definition pow2_nn :: "nat \<Rightarrow> 'c rtable \<Rightarrow> bool" where
  "pow2_nn e t \<longleftrightarrow> e < 32 \<and> rt_num_buckets t = 2 ^ e"

lemma bin_pow2:
  assumes "rt_shape t" and "pow2_nn e t"
  shows "rt_bin t k = unat k mod 2 ^ e" and "length (rt_table t) = 2 ^ e"
  using assms mask_bin_mod [of e k] by (simp_all add: rt_shape_def rt_bin_def pow2_nn_def unat_exp2)

text \<open>Every bucket has room for the entries that are still to come.\<close>

definition room_for :: "table_nn \<Rightarrow> (u64 \<times> u64) list \<Rightarrow> bool" where
  "room_for t es \<longleftrightarrow> (\<forall>i<length (rt_table t). length (bucket_entries (rt_table t ! i)) +
     length (filter (\<lambda>(k, v). rt_bin t k = i) es) \<le> ENTRIES_PER_BUCKET)"

lemma put_seq_nn_law:
  assumes "tinv_nn t" and "k \<noteq> 0" and "tmap_nn t k = None" and "room_for t ((k, v) # es)"
  defines "t' \<equiv> clht_put_seq_nn t k v (clht_hash_nn t k)"
  shows "tinv_nn t'" and "tmap_nn t' = (tmap_nn t)(k \<mapsto> v)" and "same_header t t'" and "room_for t' es"
proof -
  let ?b = "rt_table t ! rt_bin t k"
  note bi = tinv_nn_bucket [OF assms(1), of k]
  have l: "rt_bin t k < length (rt_table t)" using assms(1) by (simp add: tinv_nn_def rt_bin_less)
  with assms(4) have "length (bucket_entries ?b) < ENTRIES_PER_BUCKET" by (auto simp: room_for_def)
  then obtain j where j: "find_key ?b 0 = Some j" "j < ENTRIES_PER_BUCKET" "key ?b ! j = 0"
    using room_nn binv_nnD [OF bi] by blast
  note w = write_nn_law [OF bi assms(2) _ j(2,3), of v, folded tmap_nn_at, OF assms(3)]
  have t': "rt_table t' = (rt_table t)[rt_bin t k := write_nn ?b j k v]" and sh: "same_header t t'"
    by (simp_all add: t'_def clht_put_seq_nn_def bin_nn j(1) same_header_def Let_def)
  show "same_header t t'" by (rule sh)
  show "tinv_nn t'" "tmap_nn t' = (tmap_nn t)(k \<mapsto> v)"
    using update_nn [OF assms(1) _ _ sh t', of "Some v"] w by simp_all
  show "room_for t' es" unfolding room_for_def
  proof (intro allI impI)
    fix i assume i: "i < length (rt_table t')"
    then have "length (bucket_entries (rt_table t ! i)) +
        length (filter (\<lambda>(k, v). rt_bin t k = i) ((k, v) # es)) \<le> ENTRIES_PER_BUCKET"
      using assms(4) t' unfolding room_for_def by simp
    with w l i show "length (bucket_entries (rt_table t' ! i)) +
        length (filter (\<lambda>(k, v). rt_bin t' k = i) es) \<le> ENTRIES_PER_BUCKET"
      by (cases "i = rt_bin t k") (simp_all add: t' same_headerD [OF sh])
  qed
qed

lemma bucket_cpy_loop_nn_law:
  assumes "tinv_nn t" and "0 \<notin> fst ` set es" and "distinct (map fst es)"
    and "dom (tmap_nn t) \<inter> fst ` set es = {}" and "room_for t (es @ fs)"
  shows "tinv_nn (bucket_cpy_loop_nn es t) \<and> tmap_nn (bucket_cpy_loop_nn es t) = tmap_nn t ++ map_of es \<and>
    same_header t (bucket_cpy_loop_nn es t) \<and> room_for (bucket_cpy_loop_nn es t) fs"
  using assms
proof (induction es arbitrary: t)
  case Nil
  then show ?case by (simp add: same_header_refl)
next
  case (Cons e es)
  obtain k v where e: "e = (k, v)" by (cases e)
  from Cons.prems have k: "k \<noteq> 0" "tmap_nn t k = None" and es: "0 \<notin> fst ` set es" "distinct (map fst es)"
    and kes: "map_of es k = None" by (auto simp: e map_of_eq_None_iff)
  note l = put_seq_nn_law [OF Cons.prems(1) k, of v "es @ fs"]
  let ?t = "clht_put_seq_nn t k v (clht_hash_nn t k)"
  have l': "tinv_nn ?t" "tmap_nn ?t = (tmap_nn t)(k \<mapsto> v)" "same_header t ?t" "room_for ?t (es @ fs)"
    using l Cons.prems(5) by (simp_all add: e)
  have "dom (tmap_nn ?t) \<inter> fst ` set es = {}"
    using Cons.prems(3,4) by (auto simp: e l'(2))
  from Cons.IH [OF l'(1) es this l'(4)]
  have r: "tinv_nn (bucket_cpy_loop_nn es ?t)" "tmap_nn (bucket_cpy_loop_nn es ?t) = (tmap_nn t)(k \<mapsto> v) ++ map_of es"
    "same_header ?t (bucket_cpy_loop_nn es ?t)" "room_for (bucket_cpy_loop_nn es ?t) fs"
    unfolding l'(2) by blast+
  have eq: "(tmap_nn t)(k \<mapsto> v) ++ map_of es = tmap_nn t ++ map_of (e # es)"
    using kes by (auto simp: e fun_eq_iff map_add_def split: option.splits)
  from r(1,3,4) r(2) [unfolded eq] same_header_trans [OF l'(3) r(3)] show ?case
    by (simp only: e bucket_cpy_loop_nn.simps)
qed

lemma copy_buckets_nn_law:
  assumes "tinv_nn t" and "\<forall>b\<in>set bs. binv_nn b"
    and "distinct (map fst (concat (map bucket_entries bs)))"
    and "dom (tmap_nn t) \<inter> fst ` set (concat (map bucket_entries bs)) = {}"
    and "room_for t (concat (map bucket_entries bs))"
  shows "\<exists>t'. copy_buckets_nn bs t = Done (map (\<lambda>b. b\<lparr>lock := LOCK_RESIZE\<rparr>) bs, t') \<and> tinv_nn t' \<and>
    tmap_nn t' = tmap_nn t ++ map_of (concat (map bucket_entries bs)) \<and> same_header t t'"
  using assms
proof (induction bs arbitrary: t)
  case Nil
  then show ?case by (simp add: same_header_refl)
next
  case (Cons b bs)
  let ?es = "bucket_entries b" and ?rest = "concat (map bucket_entries bs)" and ?t = "bucket_cpy_loop_nn (bucket_entries b) t"
  have z: "0 \<notin> fst ` set ?es" by (auto simp: bucket_entries_def)
  from Cons.prems(3,4,5) have d: "distinct (map fst ?es)" "distinct (map fst ?rest)"
    "fst ` set ?es \<inter> fst ` set ?rest = {}" and dd: "dom (tmap_nn t) \<inter> fst ` set ?es = {}"
    "dom (tmap_nn t) \<inter> fst ` set ?rest = {}" and rm: "room_for t (?es @ ?rest)"
    by (auto simp: image_Un)
  from bucket_cpy_loop_nn_law [OF Cons.prems(1) z d(1) dd(1) rm]
  have l: "tinv_nn ?t" "tmap_nn ?t = tmap_nn t ++ map_of ?es" "same_header t ?t" "room_for ?t ?rest" by blast+
  have "dom (tmap_nn ?t) = dom (tmap_nn t) \<union> fst ` set ?es"
    by (auto simp: l(2) dom_map_of_conv_image_fst)
  then have disj: "dom (tmap_nn ?t) \<inter> fst ` set ?rest = {}"
    using d(3) dd(2) by (simp only: Int_Un_distrib2) simp
  have bss: "\<forall>b\<in>set bs. binv_nn b" and b: "lock b = LOCK_FREE" using Cons.prems(2) by (simp_all add: binv_nn_def)
  from Cons.IH [OF l(1) bss d(2) disj l(4)] obtain t' where
    ih: "copy_buckets_nn bs ?t = Done (map (\<lambda>b. b\<lparr>lock := LOCK_RESIZE\<rparr>) bs, t')" "tinv_nn t'"
      "tmap_nn t' = tmap_nn t ++ map_of ?es ++ map_of ?rest" "same_header ?t t'" unfolding l(2) by blast
  have "map_of ?rest ++ map_of ?es = map_of ?es ++ map_of ?rest"
    by (rule map_add_comm) (use d(3) in \<open>simp add: dom_map_of_conv_image_fst Int_commute\<close>)
  then have eq: "map_of (concat (map bucket_entries (b # bs))) = map_of ?es ++ map_of ?rest"
    by (simp only: list.map concat.simps map_of_append)
  from ih same_header_trans [OF l(3) ih(4)] show ?case
    unfolding eq by (simp add: bucket_cpy_nn_def b acq_resize_free)
qed

lemma length_concat_single:
  assumes "j < length xs" and "\<And>i. i < length xs \<Longrightarrow> i \<noteq> j \<Longrightarrow> xs ! i = []"
  shows "length (concat xs) = length (xs ! j)"
proof -
  have "length (concat xs) = (\<Sum>i<length xs. length (xs ! i))"
    by (simp add: length_concat sum_list_sum_nth atLeast0LessThan)
  also have "\<dots> = (\<Sum>i<length xs. if i = j then length (xs ! j) else 0)"
    using assms(2) by (intro sum.cong) auto
  also have "\<dots> = length (xs ! j)" using assms(1) by simp
  finally show ?thesis .
qed

text \<open>
  In a larger power of two every new bucket takes entries of one old bucket only: a copy always
  finds room.
\<close>

lemma room_for_new:
  assumes "tinv_nn t" and "pow2_nn e t" and "rt_shape u" and "pow2_nn e' u" and "e \<le> e'"
    and "\<forall>b\<in>set (rt_table u). bucket_entries b = []"
  shows "room_for u (concat (map bucket_entries (rt_table t)))"
  unfolding room_for_def
proof (intro allI impI)
  fix i assume i: "i < length (rt_table u)"
  have sh: "rt_shape t" and ci: "chains_inv binv_nn bmap_nn (rt_bin t) (rt_table t)"
    using assms(1) by (simp_all add: tinv_nn_def)
  let ?P = "\<lambda>(k, v). rt_bin u k = i" and ?j = "i mod 2 ^ e"
  have bins: "rt_bin u k mod 2 ^ e = rt_bin t k" for k
    using bin_pow2 [OF sh assms(2)] bin_pow2 [OF assms(3,4)] assms(5)
    by (simp add: mod_mod_cancel le_imp_power_dvd)
  have j: "?j < length (rt_table t)" using bin_pow2 [OF sh assms(2)] by simp
  have "filter ?P (bucket_entries (rt_table t ! q)) = []" if q: "q < length (rt_table t)" "q \<noteq> ?j" for q
  proof -
    have "rt_bin u k \<noteq> i" if kv: "(k, v) \<in> set (bucket_entries (rt_table t ! q))" for k v
    proof
      assume k: "rt_bin u k = i"
      from kv have "k \<in> dom (bmap_nn (rt_table t ! q))"
        using image_eqI [of k fst "(k, v)"] by (simp add: bmap_nn_def dom_chain_map)
      with chains_inv_dom [OF ci q(1)] bins [of k] k q(2) show False by simp
    qed
    then show ?thesis by (auto simp: filter_empty_conv)
  qed
  then have "length (concat (map (\<lambda>b. filter ?P (bucket_entries b)) (rt_table t))) =
      length (map (\<lambda>b. filter ?P (bucket_entries b)) (rt_table t) ! ?j)"
    using j by (intro length_concat_single) simp_all
  then have "length (filter ?P (concat (map bucket_entries (rt_table t)))) =
      length (filter ?P (bucket_entries (rt_table t ! ?j)))"
    using j by (simp add: filter_concat comp_def)
  also have "\<dots> \<le> ENTRIES_PER_BUCKET"
    using entries_nn_le binv_nnD chains_inv_nth [OF ci j] length_filter_le order_trans by blast
  finally show "length (bucket_entries (rt_table u ! i)) +
      length (filter ?P (concat (map bucket_entries (rt_table t)))) \<le> ENTRIES_PER_BUCKET"
    using assms(6) i by simp
qed

lemma entries_nn:
  assumes "tinv_nn t"
  shows "distinct (map fst (concat (map bucket_entries (rt_table t))))"
    and "map_of (concat (map bucket_entries (rt_table t))) = tmap_nn t"
proof -
  let ?bss = "map (\<lambda>b. [b]) (rt_table t)"
  have es: "map chain_entries ?bss = map bucket_entries (rt_table t)" by simp
  have ci: "chains_inv chain_inv chain_map (rt_bin t) ?bss"
    using assms binv_nnD by (auto simp: tinv_nn_def chains_inv_def bmap_nn_def)
  have less: "rt_bin t k < length ?bss" for k using assms by (simp add: tinv_nn_def rt_bin_less)
  from chains_entries_distinct [OF ci] show "distinct (map fst (concat (map bucket_entries (rt_table t))))"
    unfolding es by simp
  have "chains_map chain_map (rt_bin t) ?bss = tmap_nn t"
    using less by (simp add: fun_eq_iff chains_map_def tmap_nn_def bmap_nn_def)
  with chains_entries_map [OF ci _ less]
  show "map_of (concat (map bucket_entries (rt_table t))) = tmap_nn t" unfolding es by simp
qed

section \<open>Growth\<close>

lemma increase_by_nn_power: "increase_by_nn e c = 0 \<or> (\<exists>i. 0 < i \<and> increase_by_nn e c = 2 ^ i)"
proof -
  let ?x = "of_nat (100 * e div (20 * c)) :: u32"
  show ?thesis
  proof (cases "unat ?x \<le> 2 ^ 31")
    case True
    from pow2roundup_least_power_law [OF True] obtain n where n: "pow2roundup ?x = 2 ^ n" by blast
    show ?thesis
    proof (cases "n = 0")
      case True
      with n have "increase_by_nn e c = 2 ^ 1" by (simp add: increase_by_nn_def)
      then show ?thesis by blast
    next
      case False
      then have "pow2roundup ?x \<noteq> 1 \<or> increase_by_nn e c = 2 ^ 1" by (simp add: increase_by_nn_def)
      with n False show ?thesis by (auto simp: increase_by_nn_def Let_def)
    qed
  next
    case False
    then show ?thesis by (simp add: increase_by_nn_def pow2roundup_overflow)
  qed
qed

lemma grown_nn:
  assumes "pow2_nn e t" and "n = ucast (scast (increase_by_nn a c) * rt_num_buckets t)" and "n \<noteq> (0 :: u32)"
  shows "\<exists>e'. e < e' \<and> e' < 32 \<and> n = 2 ^ e'"
proof -
  have n: "n = increase_by_nn a c * 2 ^ e"
    using assms(1,2) by (simp add: pow2_nn_def ucast_scast_mult ucast_power)
  with assms(3) increase_by_nn_power [of a c] obtain i where i: "0 < i" "increase_by_nn a c = 2 ^ i" by auto
  then have "n = 2 ^ (e + i)" by (simp add: n power_add mult.commute)
  moreover from this have "e + i < 32" using assms(3) by (simp add: exp_eq_zero_iff not_le)
  ultimately show ?thesis using i by (intro exI [of _ "e + i"]) simp
qed

section \<open>The whole structure\<close>

definition open_nn :: "nat \<Rightarrow> clht_nn \<Rightarrow> bool" where
  "open_nn e h \<longleftrightarrow> rc_ht h < length (rc_tables h) \<and> tinv_nn (cur_table h) \<and> pow2_nn e (cur_table h) \<and>
     rc_resize_lock h = LOCK_FREE"

definition map_nn :: "clht_nn \<Rightarrow> kv" where
  "map_nn h = tmap_nn (cur_table h)"

definition inv_nn :: "clht_nn \<Rightarrow> bool" where
  "inv_nn h \<longleftrightarrow> (\<exists>e. open_nn e h) \<and> rc_status_lock h = LOCK_FREE"

lemma locks_irrelevant_nn [simp]:
  "open_nn e (h\<lparr>rc_status_lock := l\<rparr>) = open_nn e h" "map_nn (h\<lparr>rc_status_lock := l\<rparr>) = map_nn h"
  "cur_table (h\<lparr>rc_resize_lock := l\<rparr>) = cur_table h" "map_nn (h\<lparr>rc_resize_lock := l\<rparr>) = map_nn h"
  by (simp_all add: open_nn_def map_nn_def cur_table_def)

lemma swap_nn:
  assumes "rc_ht h < length (rc_tables h)"
  shows "cur_table (swap_table_nn h bs t) = t\<lparr>rt_table_prev := Some (rc_ht h)\<rparr>"
    and "rc_ht (swap_table_nn h bs t) < length (rc_tables (swap_table_nn h bs t))"
    and "rc_resize_lock (swap_table_nn h bs t) = LOCK_FREE"
    and "rc_status_lock (swap_table_nn h bs t) = rc_status_lock h"
  using assms
  by (simp_all add: swap_table_nn_def clht_gc_release_def Let_def cur_table_def nth_append)

lemma new_nn:
  assumes "n \<noteq> 0"
  shows "tinv_nn (new_rtable empty_bucket n th)" and "tmap_nn (new_rtable empty_bucket n th) = Map.empty"
    and "\<forall>b\<in>set (rt_table (new_rtable empty_bucket n th :: table_nn)). bucket_entries b = []"
proof -
  let ?t = "new_rtable empty_bucket n th :: table_nn"
  have sh: "rt_shape ?t" by (rule new_rtable_shape [OF assms])
  have t: "rt_table ?t = replicate (unat n) empty_bucket" "rt_table_new ?t = None" by (simp_all add: new_rtable_def)
  have e: "binv_nn empty_bucket" "bmap_nn empty_bucket = Map.empty"
    using empty_chain by (simp_all add: binv_nn_def bmap_nn_def empty_bucket_facts LOCK_FREE_def)
  have nth: "rt_table ?t ! i = empty_bucket" if "i < unat n" for i using that by (simp add: t)
  have less: "rt_bin ?t k < unat n" for k using rt_bin_less [OF sh, of k] by (simp add: t)
  show "tinv_nn ?t" using sh t e nth by (auto simp: tinv_nn_def chains_inv_def)
  show "tmap_nn ?t = Map.empty"
    using nth [OF less] e by (auto simp: tmap_nn_def chains_map_def)
  show "\<forall>b\<in>set (rt_table ?t). bucket_entries b = []" by (simp add: t empty_bucket_facts)
qed

lemma header_version_nn:
  "tinv_nn (t\<lparr>rt_table_prev := p\<rparr>) = tinv_nn t" "tmap_nn (t\<lparr>rt_table_prev := p\<rparr>) = tmap_nn t"
  "tinv_nn (t\<lparr>rt_version := v\<rparr>) = tinv_nn t" "tmap_nn (t\<lparr>rt_version := v\<rparr>) = tmap_nn t"
  by (simp_all add: tinv_nn_def tmap_nn_def rt_shape_def rt_bin_def [abs_def])

text \<open>
  A resize by the factor that \<open>ht_status\<close> computes, from a power of two: it returns unless the new
  table cannot be made, and it keeps the content.
\<close>

lemma ht_resize_nn_law:
  assumes "open_nn e h" and "by = increase_by_nn a c" and "ht_resize_pes_nn ts h True by m \<noteq> Faults"
  shows "\<exists>h' m' e'. ht_resize_pes_nn ts h True by m = Done (1, h', m') \<and> open_nn e' h' \<and> e < e' \<and>
    map_nn h' = map_nn h \<and> rc_status_lock h' = rc_status_lock h"
proof -
  let ?h = "h\<lparr>rc_resize_lock := 255\<rparr>" and ?old = "cur_table h"
  let ?n = "ucast (scast by * rt_num_buckets ?old) :: u32"
  have ti: "tinv_nn ?old" and pw: "pow2_nn e ?old" and lk: "rc_resize_lock h = LOCK_FREE"
    using assms(1) by (simp_all add: open_nn_def)
  have tl: "TRYLOCK_ACQ (rc_resize_lock h) = (False, 255)" by (simp add: lk collect_trylock)
  obtain t m1 where c: "clht_hashtable_create_nn ?n m = (Some t, m1)"
    using assms(3) tl by (cases "clht_hashtable_create_nn ?n m") (auto simp: ht_resize_pes_nn_def Let_def split: option.splits)
  from rtable_create_cases [OF c [unfolded clht_hashtable_create_nn_def]]
  have t: "t = new_rtable empty_bucket ?n (expands_threshold ?n)" and n: "?n \<noteq> 0" by auto
  from grown_nn [OF pw _ n, of a c] assms(2) obtain e' where e': "e < e'" "e' < 32" "?n = 2 ^ e'" by blast
  let ?t = "t\<lparr>rt_version := rt_version ?old + 1\<rparr>" and ?es = "concat (map bucket_entries (rt_table ?old))"
  note new = new_nn [OF n, of "expands_threshold ?n", folded t]
  have nb: "pow2_nn e' ?t" using e'(2) by (simp add: pow2_nn_def t new_rtable_def e'(3) word_unat_eq_iff unat_ucast_u32 unat_exp2)
  have sh: "rt_shape ?t" using new(1) by (simp add: tinv_nn_def header_version_nn [symmetric] rt_shape_def)
  have rm: "room_for ?t ?es"
    using room_for_new [OF ti pw sh nb] e'(1) new(3) by simp
  have "\<forall>b\<in>set (rt_table ?old). binv_nn b"
    using ti by (auto simp: tinv_nn_def chains_inv_def in_set_conv_nth)
  from copy_buckets_nn_law [OF _ this entries_nn(1) [OF ti] _ rm] new ti obtain u where
    u: "copy_buckets_nn (rt_table ?old) ?t = Done (map (\<lambda>b. b\<lparr>lock := LOCK_RESIZE\<rparr>) (rt_table ?old), u)"
      "tinv_nn u" "tmap_nn u = tmap_nn ?old" "same_header ?t u"
    by (auto simp: header_version_nn entries_nn(2))
  let ?s = "swap_table_nn ?h (map (\<lambda>b. b\<lparr>lock := LOCK_RESIZE\<rparr>) (rt_table ?old)) u"
  have r: "ht_resize_pes_nn ts h True by m = bind_outcome (clht_gc_get_id ts ?s) (\<lambda>_. Done (1, ?s, m1))"
    by (simp add: ht_resize_pes_nn_def tl c u(1) Let_def)
  have "rc_ht ?h < length (rc_tables ?h)" using assms(1) by (simp add: open_nn_def)
  note s = swap_nn [OF this]
  have "open_nn e' ?s"
    using s u(2) nb same_headerD(1) [OF u(4)] by (simp add: open_nn_def pow2_nn_def header_version_nn)
  moreover have "map_nn ?s = map_nn h" using s u(3) by (simp add: map_nn_def header_version_nn)
  moreover have "rc_status_lock ?s = rc_status_lock h" using s by simp
  ultimately show ?thesis
    using r assms(3) e'(1) by (cases "clht_gc_get_id ts ?s") (auto simp: clht_gc_get_id_def split: option.splits)
qed

lemma ht_status_nn_law:
  assumes "open_nn e h" and "rc_status_lock h = LOCK_FREE" and "ht_status_nn ts h inc False m \<noteq> Faults"
  shows "\<exists>n h' m' e'. ht_status_nn ts h inc False m = Done (n, h', m') \<and> open_nn e' h' \<and> e < e' \<and>
    map_nn h' = map_nn h \<and> rc_status_lock h' = LOCK_FREE"
proof -
  let ?h = "h\<lparr>rc_status_lock := 255\<rparr>" and ?t = "cur_table (h\<lparr>rc_status_lock := 255\<rparr>)"
  let ?by = "increase_by_nn (elems_nn ?t) (unat (rt_num_buckets ?t) * ENTRIES_PER_BUCKET)"
  have eq: "ht_status_nn ts h inc False m = bind_outcome (clht_gc_get_id ts ?h)
      (\<lambda>_. bind_outcome (ht_resize_pes_nn ts ?h True ?by m)
        (\<lambda>(n, h, m). Done (n, h\<lparr>rc_status_lock := LOCK_FREE\<rparr>, m)))"
    using assms(2) by (cases "clht_gc_get_id ts ?h") (simp_all add: ht_status_nn_def collect_trylock Let_def)
  then have nf: "ht_resize_pes_nn ts ?h True ?by m \<noteq> Faults" and g: "\<exists>x. clht_gc_get_id ts ?h = Done x"
    using assms(3) by (cases "clht_gc_get_id ts ?h"; force simp: clht_gc_get_id_def split: option.splits)+
  have "open_nn e ?h" using assms(1) by simp
  from ht_resize_nn_law [OF this refl nf] obtain h' m' e' where
    r: "ht_resize_pes_nn ts ?h True ?by m = Done (1, h', m')" "open_nn e' h'" "e < e'" "map_nn h' = map_nn ?h"
    by blast
  with g show ?thesis
    by (intro exI [of _ 1] exI [of _ "h'\<lparr>rc_status_lock := LOCK_FREE\<rparr>"] exI [of _ m'] exI [of _ e'])
      (auto simp: eq)
qed

lemma put_slot_nn:
  assumes "open_nn e h" and "b = rt_table (cur_table h) ! rt_bin (cur_table h) k" and "binv_nn c"
    and "bmap_nn c = (bmap_nn b)(k := x)"
    and "h' = set_table (rc_ht h) ((cur_table h)\<lparr>rt_table := (rt_table (cur_table h))[rt_bin (cur_table h) k := c]\<rparr>) h"
  shows "open_nn e h'" and "map_nn h' = (map_nn h)(k := x)" and "rc_status_lock h' = rc_status_lock h"
proof -
  let ?t = "(cur_table h)\<lparr>rt_table := (rt_table (cur_table h))[rt_bin (cur_table h) k := c]\<rparr>"
  have sh: "same_header (cur_table h) ?t" by (simp add: same_header_def)
  have ct: "cur_table h' = ?t" using assms(1,5) by (simp add: cur_table_def set_table_def open_nn_def)
  have ti: "tinv_nn (cur_table h)" using assms(1) by (simp add: open_nn_def)
  note u = update_nn [OF ti assms(3) assms(4) [unfolded assms(2)] sh, simplified]
  from u(1) assms(1) show "open_nn e h'"
    unfolding open_nn_def ct by (simp add: assms(5) set_table_def pow2_nn_def)
  from u(2) show "map_nn h' = (map_nn h)(k := x)" by (simp add: map_nn_def ct)
  show "rc_status_lock h' = rc_status_lock h" by (simp add: assms(5) set_table_def)
qed

lemma acquire_nn_free: "binv_nn b \<Longrightarrow> acquire_nn t b = Done (b\<lparr>lock := LOCK_UPDATE\<rparr>)"
  by (simp add: acquire_nn_def binv_nn_def acq_free)

lemma binv_nn_free: "binv_nn b \<Longrightarrow> b\<lparr>lock := LOCK_FREE\<rparr> = b"
  by (cases b) (simp add: binv_nn_def)

lemma write_nn_lock: "(write_nn (b\<lparr>lock := l\<rparr>) j k v)\<lparr>lock := l'\<rparr> = (write_nn b j k v)\<lparr>lock := l'\<rparr>"
  by (simp add: write_nn_def)

lemma put_scan_nn_lock: "put_scan_nn (b\<lparr>lock := l\<rparr>) k js e = put_scan_nn b k js e"
  by (induction js arbitrary: e) auto

text \<open>One round of the insertion.\<close>

lemma put_round_nn:
  assumes "open_nn e h" and "rc_status_lock h = LOCK_FREE" and "k \<noteq> 0"
  shows "(map_nn h k \<noteq> None \<and> put_again_nn (Suc f) ts h k v m = Done (False, h, m)) \<or>
    (map_nn h k = None \<and> (\<exists>h'. put_again_nn (Suc f) ts h k v m = Done (True, h', m) \<and> open_nn e h' \<and>
       map_nn h' = (map_nn h)(k \<mapsto> v) \<and> rc_status_lock h' = LOCK_FREE)) \<or>
    put_again_nn (Suc f) ts h k v m = Faults \<or>
    (\<exists>h' m' e'. put_again_nn (Suc f) ts h k v m = put_again_nn f ts h' k v m' \<and> open_nn e' h' \<and> e < e' \<and>
       map_nn h' = map_nn h \<and> rc_status_lock h' = LOCK_FREE)"
proof -
  let ?t = "cur_table h" and ?b = "rt_table (cur_table h) ! rt_bin (cur_table h) k"
  have ti: "tinv_nn ?t" using assms(1) by (simp add: open_nn_def)
  note bi = tinv_nn_bucket [OF ti, of k]
  have at: "map_nn h k = bmap_nn ?b k" by (simp add: map_nn_def tmap_nn_at)
  let ?upd = "\<lambda>b. set_table (rc_ht h) (?t\<lparr>rt_table := (rt_table ?t)[rt_bin ?t k := b]\<rparr>) h"
  have same: "?upd ?b = h"
    using assms(1) by (simp add: set_table_def cur_table_def open_nn_def)
  show ?thesis
  proof (cases "bucket_exists_nn ?b k")
    case True
    with exists_nn [OF bi assms(3)] at show ?thesis by (simp add: bin_nn)
  next
    case False
    then have none: "map_nn h k = None" "bmap_nn ?b k = None" using exists_nn [OF bi assms(3)] at by auto
    from put_scan_nn_cases [OF _ False] binv_nnD [OF bi] consider
      (slot) j where "put_scan_nn ?b k [0..<ENTRIES_PER_BUCKET] None = Inr (Some j)" "j < ENTRIES_PER_BUCKET" "key ?b ! j = 0" |
      (full) "put_scan_nn ?b k [0..<ENTRIES_PER_BUCKET] None = Inr None" by blast
    then show ?thesis
    proof cases
      case (slot j)
      note w = write_nn_law [OF bi assms(3) none(2) slot(2,3), of v]
      have "put_again_nn (Suc f) ts h k v m = Done (True, ?upd (write_nn ?b j k v), m)"
        using False slot(1) w
        by (simp add: bin_nn acquire_nn_free [OF bi] put_scan_nn_lock write_nn_lock binv_nn_free Let_def)
      with put_slot_nn [OF assms(1) refl, of "write_nn ?b j k v" k "Some v"] w none(1) assms(2)
      show ?thesis by auto
    next
      case full
      have r: "put_again_nn (Suc f) ts h k v m =
          bind_outcome (ht_status_nn ts h True False m) (\<lambda>(_, h, m). put_again_nn f ts h k v m)"
        using False full same
        by (simp add: bin_nn acquire_nn_free [OF bi] put_scan_nn_lock binv_nn_free [OF bi] Let_def)
      show ?thesis
      proof (cases "ht_status_nn ts h True False m = Faults")
        case True
        then show ?thesis using r by simp
      next
        case False
        from ht_status_nn_law [OF assms(1,2) False] r show ?thesis by fastforce
      qed
    qed
  qed
qed

lemma put_again_nn_law:
  assumes "open_nn e h" and "rc_status_lock h = LOCK_FREE" and "k \<noteq> 0"
    and "put_again_nn f ts h k v m = Done (r, h', m')"
  shows "inv_nn h' \<and> r = (map_nn h k = None) \<and> map_nn h' = (if r then (map_nn h)(k \<mapsto> v) else map_nn h)"
  using assms
proof (induction f arbitrary: e h m)
  case (Suc f)
  from put_round_nn [OF Suc.prems(1-3), of f ts v m] Suc.prems(4) consider
    (found) "map_nn h k \<noteq> None" "r = False" "h' = h" |
    (stored) "map_nn h k = None" "r = True" "open_nn e h'" "map_nn h' = (map_nn h)(k \<mapsto> v)"
      "rc_status_lock h' = LOCK_FREE" |
    (again) u m1 e' where "put_again_nn f ts u k v m1 = Done (r, h', m')" "open_nn e' u" "map_nn u = map_nn h"
      "rc_status_lock u = LOCK_FREE"
    by (auto simp del: put_again_nn.simps)
  then show ?case
  proof cases
    case found
    with Suc.prems(1,2) show ?thesis by (auto simp: inv_nn_def)
  next
    case stored
    then show ?thesis by (auto simp: inv_nn_def)
  next
    case again
    from Suc.IH [OF again(2,4) Suc.prems(3) again(1)] show ?thesis by (simp add: again(3))
  qed
qed simp

lemma put_again_nn_not_spins:
  assumes "open_nn e h" and "rc_status_lock h = LOCK_FREE" and "k \<noteq> 0" and "33 \<le> f + e"
  shows "put_again_nn f ts h k v m \<noteq> Spins"
  using assms
proof (induction f arbitrary: e h m)
  case 0
  then show ?case by (simp add: open_nn_def pow2_nn_def)
next
  case (Suc f)
  show ?case
  proof
    assume spins: "put_again_nn (Suc f) ts h k v m = Spins"
    with put_round_nn [OF Suc.prems(1-3), of f ts v m] obtain u m1 e' where
      "put_again_nn (Suc f) ts h k v m = put_again_nn f ts u k v m1" "open_nn e' u" "e < e'"
      "rc_status_lock u = LOCK_FREE"
      by (metis outcome.distinct(1,5))
    with Suc.IH [of e' u m1] Suc.prems(3,4) spins show False by simp
  qed
qed

lemma clht_put_nn_law:
  assumes "inv_nn h" and "k \<noteq> 0" and "clht_put_nn ts h k v m = Done (r, h', m')"
  shows "inv_nn h' \<and> r = (map_nn h k = None) \<and> map_nn h' = (if r then (map_nn h)(k \<mapsto> v) else map_nn h)"
proof -
  from assms(1) obtain e where "open_nn e h" "rc_status_lock h = LOCK_FREE" by (auto simp: inv_nn_def)
  from put_again_nn_law [OF this assms(2,3) [unfolded clht_put_nn_def]] show ?thesis .
qed

lemma clht_put_nn_not_spins: "inv_nn h \<Longrightarrow> k \<noteq> 0 \<Longrightarrow> clht_put_nn ts h k v m \<noteq> Spins"
  using put_again_nn_not_spins [of _ h k 33] by (auto simp: inv_nn_def clht_put_nn_def)

lemma clht_remove_nn_law:
  assumes "inv_nn h" and "k \<noteq> 0"
  shows "\<exists>h'. clht_remove_nn h k = Done (val_or_0 (map_nn h k), h') \<and> inv_nn h' \<and> map_nn h' = (map_nn h)(k := None)"
proof -
  let ?t = "cur_table h" and ?b = "rt_table (cur_table h) ! rt_bin (cur_table h) k"
  from assms(1) obtain e where o: "open_nn e h" and sl: "rc_status_lock h = LOCK_FREE" by (auto simp: inv_nn_def)
  then have ti: "tinv_nn ?t" by (simp add: open_nn_def)
  note bi = tinv_nn_bucket [OF ti, of k]
  have at: "map_nn h k = bmap_nn ?b k" by (simp add: map_nn_def tmap_nn_at)
  show ?thesis
  proof (cases "find_key ?b k")
    case None
    then have "map_nn h k = None" using exists_nn [OF bi assms(2)] at by (auto simp: bucket_exists_nn_def)
    moreover have "set_table (rc_ht h) ?t h = h" using o by (simp add: set_table_def cur_table_def)
    ultimately show ?thesis
      using None assms(1) by (auto simp: clht_remove_nn_def remove_table_nn_def bin_nn bucket_exists_nn_def Let_def)
  next
    case (Some j)
    note c = clear_nn_law [OF bi assms(2) Some]
    let ?h = "set_table (rc_ht h) (?t\<lparr>rt_table := (rt_table ?t)[rt_bin ?t k := ?b\<lparr>key := (key ?b)[j := 0]\<rparr>]\<rparr>) h"
    have lk: "?b\<lparr>key := (key ?b)[j := 0], lock := LOCK_FREE\<rparr> = ?b\<lparr>key := (key ?b)[j := 0]\<rparr>"
      using bi by (cases ?b) (simp add: binv_nn_def)
    have "clht_remove_nn h k = Done (val ?b ! j, ?h)"
      using Some lk by (simp add: clht_remove_nn_def remove_table_nn_def bin_nn bucket_exists_nn_def Let_def
          acquire_nn_free [OF bi])
    with put_slot_nn [OF o refl _ _ refl, of "?b\<lparr>key := (key ?b)[j := 0]\<rparr>" k None] c at sl show ?thesis
      by (auto simp: inv_nn_def)
  qed
qed

interpretation nn_store: kv_store inv_nn map_nn "\<lambda>h. clht_get_nn (cur_table h)"
  "clht_put_nn ts" clht_remove_nn "\<lambda>k. k \<noteq> 0" "\<lambda>_. True" for ts
proof unfold_locales
  fix h :: clht_nn and k :: u64
  assume "inv_nn h" "k \<noteq> 0"
  then show "clht_get_nn (cur_table h) k = val_or_0 (map_nn h k)"
    using get_nn [OF tinv_nn_bucket [of "cur_table h" k], of k]
    by (auto simp: inv_nn_def open_nn_def clht_get_nn_def bin_nn map_nn_def tmap_nn_at Let_def split: option.splits)
qed (use clht_put_nn_law clht_remove_nn_law in blast)+

lemma run_nn_not_spins:
  assumes "inv_nn h" and "\<forall>x\<in>set xs. op_key x \<noteq> 0"
  shows "table_run (\<lambda>h. clht_get_nn (cur_table h)) (clht_put_nn ts) clht_remove_nn (h, m) xs \<noteq> Spins"
  using assms
proof (induction xs arbitrary: h m)
  case (Cons x xs)
  have "table_step (\<lambda>h. clht_get_nn (cur_table h)) (clht_put_nn ts) clht_remove_nn (h, m) x \<noteq> Spins"
    using Cons.prems clht_put_nn_not_spins clht_remove_nn_law [of h]
    by (cases x) (auto simp: bind_outcome_Spins_iff, fastforce)
  moreover have "inv_nn h'" if "table_step (\<lambda>h. clht_get_nn (cur_table h)) (clht_put_nn ts)
      clht_remove_nn (h, m) x = Done (r, h', m')" for r h' m'
    using nn_store.step_refines [OF Cons.prems(1) _ that] Cons.prems(2) by (simp add: op_ok_any)
  ultimately show ?case
    using Cons.IH Cons.prems(2) by (auto simp: bind_outcome_Spins_iff)
qed simp

text \<open>
  C30. On a well-formed table without chains whose size is a power of two, a run of any operations
  with keys other than 0 never waits for ever: an insertion resizes at most 33 times; if it returns,
  the answers and the final content are those of the abstract map. No resize drops an entry, because
  every bucket of the larger table takes its entries from one bucket of the smaller.
\<close>

theorem clht_nn_refines_map:
  assumes "inv_nn h" and "\<forall>x\<in>set xs. op_key x \<noteq> 0"
  shows "case table_run (\<lambda>h. clht_get_nn (cur_table h)) (clht_put_nn ts) clht_remove_nn (h, m) xs of
      Done (rs, h', m') \<Rightarrow> inv_nn h' \<and> kv_run (map_nn h) xs = (rs, map_nn h')
    | Spins \<Rightarrow> False
    | Faults \<Rightarrow> True"
  using nn_store.run_refines [OF assms(1), of xs ts m] run_nn_not_spins [OF assms, of ts m] assms(2)
  by (auto simp: op_ok_any split: outcome.splits)

lemma created_nn:
  assumes "e < 32"
  shows "inv_nn (new_rclht (new_rtable empty_bucket (2 ^ e) th))"
    and "map_nn (new_rclht (new_rtable empty_bucket (2 ^ e) th)) = Map.empty"
proof -
  let ?t = "new_rtable empty_bucket (2 ^ e) th :: table_nn"
  have c: "cur_table (new_rclht ?t) = ?t" by (simp add: cur_table_def new_rclht_def)
  have n: "(2 ^ e :: u32) \<noteq> 0" using assms by (simp add: exp_eq_zero_iff)
  have "pow2_nn e ?t" using assms by (simp add: pow2_nn_def new_rtable_def word_unat_eq_iff unat_ucast_u32 unat_exp2)
  with new_nn [OF n, of th] show "inv_nn (new_rclht ?t)" "map_nn (new_rclht ?t) = Map.empty"
    by (auto simp: inv_nn_def open_nn_def map_nn_def c) (simp_all add: new_rclht_def)
qed

section \<open>Witnesses\<close>

text \<open>A table of one bucket and a registered thread; the fourth key sets off resizes.\<close>

definition example_nn :: clht_nn where
  "example_nn = (new_rclht (new_rtable empty_bucket 1 (expands_threshold 1)))\<lparr>rc_version_list := [\<lparr>ts_version = 0, ts_id = 0\<rparr>]\<rparr>"

lemma example_nn_inv: "inv_nn example_nn"
  using created_nn(1) [of 0 "expands_threshold 1"]
  by (simp add: example_nn_def inv_nn_def open_nn_def cur_table_def)

lemma example_run_nn:
  "case table_run (\<lambda>h. clht_get_nn (cur_table h)) (clht_put_nn (Some 0)) clht_remove_nn (example_nn, example_mem)
     [Put 1 10, Put 2 20, Put 3 30, Put 4 40, Get 3, Remove 4, Get 4] of
   Done (rs, h', m') \<Rightarrow> rc_ht h' > 0 | _ \<Rightarrow> False"
  by code_simp

theorem clht_nn_refines_map_witness:
  "\<exists>rs h' m'. table_run (\<lambda>h. clht_get_nn (cur_table h)) (clht_put_nn (Some 0)) clht_remove_nn
      (example_nn, example_mem) [Put 1 10, Put 2 20, Put 3 30, Put 4 40, Get 3, Remove 4, Get 4] =
      Done (rs, h', m') \<and> rc_ht h' > 0 \<and> inv_nn h' \<and>
    kv_run (map_nn example_nn) [Put 1 10, Put 2 20, Put 3 30, Put 4 40, Get 3, Remove 4, Get 4] =
      (rs, map_nn h')"
  using clht_nn_refines_map [OF example_nn_inv, of "[Put 1 10, Put 2 20, Put 3 30, Put 4 40, Get 3,
      Remove 4, Get 4]" "Some 0" example_mem] example_run_nn
  by (auto split: outcome.splits)

end
