(* ===== verification/Clht_lb_lock_ins.thy ===== *)
theory Clht_lb_lock_ins
  imports Chain Rtable
begin

text \<open>
  \<open>CLHT-LB-LOCK-INS\<close> (\<open>src/src/clht/src/clht_lb_lock_ins.c\<close>, \<open>include/clht_lb_lock_ins.h\<close>): the
  chains of theory Chain, where only insertions take the lock of a bucket; a removal claims a slot
  by replacing its key with \<open>KEY_BLCK\<close>. \<open>clht_hashtable_create\<close> leaves the fields of the resizing
  table uninitialised: they hold the words that the memory block came with. One thread runs at a time.
\<close>

section \<open>State\<close>

definition KEY_BLCK :: u64 where
  "KEY_BLCK = - 1"

type_synonym chain_ins = "u8 bucket list"

text \<open>The pointer \<open>table_prev\<close> is a raw word: 0 is NULL, nothing lives at any other value.\<close>

record hashtable_ins =
  num_buckets_ins :: u64
  table_ins :: "chain_ins list"
  hash_ins :: u64
  num_expands_ins :: u32
  is_helper_ins :: u32
  helper_done_ins :: u32
  table_prev_ins :: u64

record clht_ins =
  ht_ins :: hashtable_ins

definition clht_hashtable_create_ins :: "u32 \<Rightarrow> mem \<Rightarrow> hashtable_ins option \<times> mem" where
  "clht_hashtable_create_ins num_buckets m =
     (if num_buckets = 0 then (None, m)
      else case memalign m of
        (None, m1) \<Rightarrow> (None, m1)
      | (Some (g0, g1, g2), m1) \<Rightarrow>
          (case memalign m1 of
             (None, m2) \<Rightarrow> (None, mfree m2)
           | (Some _, m2) \<Rightarrow>
               (Some \<lparr>num_buckets_ins = ucast num_buckets,
                      table_ins = replicate (unat num_buckets) [empty_bucket],
                      hash_ins = ucast (num_buckets - 1), num_expands_ins = ucast g0,
                      is_helper_ins = ucast g1, helper_done_ins = ucast (drop_bit 32 g1),
                      table_prev_ins = g2\<rparr>, m2)))"

definition clht_create_ins :: "u32 \<Rightarrow> mem \<Rightarrow> clht_ins option \<times> mem" where
  "clht_create_ins num_buckets m =
     (case memalign m of
        (None, m1) \<Rightarrow> (None, m1)
      | (Some _, m1) \<Rightarrow>
          (case clht_hashtable_create_ins num_buckets m1 of
             (None, m2) \<Rightarrow> (None, mfree m2)
           | (Some t, m2) \<Rightarrow> (Some \<lparr>ht_ins = t\<rparr>, m2)))"

definition clht_hash_ins :: "hashtable_ins \<Rightarrow> u64 \<Rightarrow> u32" where
  "clht_hash_ins hashtable k = mask_bin (hash_ins hashtable) k"

section \<open>The lock\<close>

text \<open>This \<open>lock_acq_chk_resize\<close> takes no notice of \<open>LOCK_RESIZE\<close>: it returns 1 without the lock.\<close>

definition lock_acq_ins :: "u8 \<Rightarrow> u8 outcome" where
  "lock_acq_ins lock_word =
     (let (l, stored) = CAS lock_word LOCK_FREE LOCK_UPDATE in if l = LOCK_UPDATE then Spins else Done stored)"

definition lock_acq_resize_ins :: "u8 \<Rightarrow> (bool \<times> u8) outcome" where
  "lock_acq_resize_ins lock_word =
     (let (l, stored) = CAS lock_word LOCK_FREE LOCK_RESIZE
      in if l = LOCK_UPDATE then Spins else if l = LOCK_RESIZE then Done (False, stored) else Done (True, stored))"

section \<open>Operations\<close>

definition clht_get_ins :: "hashtable_ins \<Rightarrow> u64 \<Rightarrow> u64" where
  "clht_get_ins hashtable k =
     (let bin = unat (clht_hash_ins hashtable k) in chain_get (table_ins hashtable ! bin) k)"

definition put_chain_ins :: "chain_ins \<Rightarrow> u64 \<Rightarrow> u64 \<Rightarrow> mem \<Rightarrow> (bool \<times> chain_ins \<times> mem) outcome" where
  "put_chain_ins bs k v m =
     (if bucket_exists bs k then Done (False, bs, m)
      else bind_outcome (lock_acq_ins (lock (hd bs)))
        (\<lambda>l. bind_outcome (chain_insert (set_lock bs l) k v m)
           (\<lambda>(r, bs', m'). Done (r, set_lock bs' LOCK_FREE, m'))))"

definition clht_put_ins :: "clht_ins \<Rightarrow> u64 \<Rightarrow> u64 \<Rightarrow> mem \<Rightarrow> (bool \<times> clht_ins \<times> mem) outcome" where
  "clht_put_ins h k v m =
     (let t = ht_ins h; bin = unat (clht_hash_ins t k)
      in bind_outcome (put_chain_ins (table_ins t ! bin) k v m)
           (\<lambda>(r, bs, m'). Done (r, h\<lparr>ht_ins := t\<lparr>table_ins := (table_ins t)[bin := bs]\<rparr>\<rparr>, m')))"

text \<open>The loop of \<open>clht_remove\<close>: claim the slot, read the value, clear the key.\<close>

fun chain_remove_ins :: "chain_ins \<Rightarrow> u64 \<Rightarrow> u64 \<times> chain_ins" where
  "chain_remove_ins [] k = (0, [])"
| "chain_remove_ins (b # bs) k =
     (case find_key b k of
        Some j \<Rightarrow>
          (let (old, stored) = CAS (key b ! j) k KEY_BLCK; b1 = b\<lparr>key := (key b)[j := stored]\<rparr>
           in if old = k then (let v = val b1 ! j in (v, b1\<lparr>key := (key b1)[j := 0]\<rparr> # bs))
              else (0, b1 # bs))
      | None \<Rightarrow> (let (v, bs') = chain_remove_ins bs k in (v, b # bs')))"

definition clht_remove_ins :: "clht_ins \<Rightarrow> u64 \<Rightarrow> (u64 \<times> clht_ins) outcome" where
  "clht_remove_ins h k =
     (let t = ht_ins h; bin = unat (clht_hash_ins t k);
          (v, bs) = chain_remove_ins (table_ins t ! bin) k
      in Done (v, h\<lparr>ht_ins := t\<lparr>table_ins := (table_ins t)[bin := bs]\<rparr>\<rparr>))"

definition clht_size_ins :: "hashtable_ins \<Rightarrow> u64" where
  "clht_size_ins hashtable =
     (let num_buckets = (ucast (num_buckets_ins hashtable) :: u32)
      in of_nat (\<Sum>bin\<leftarrow>[0..<unat num_buckets]. chain_size (table_ins hashtable ! bin)))"

section \<open>Copying for a resize, memory accounting\<close>

definition clht_put_seq_ins ::
  "hashtable_ins \<Rightarrow> u64 \<Rightarrow> u64 \<Rightarrow> u32 \<Rightarrow> mem \<Rightarrow> (hashtable_ins \<times> mem) outcome" where
  "clht_put_seq_ins t k v bin m =
     (let i = unat bin; bs = table_ins t ! i
      in case chain_empty bs 0 of
           Some (h, j) \<Rightarrow> Done (t\<lparr>table_ins := (table_ins t)[i := write_slot bs h j k v]\<rparr>, m)
         | None \<Rightarrow>
             (case clht_bucket_create m of
                (None, _) \<Rightarrow> Faults
              | (Some b, m') \<Rightarrow>
                  Done (t\<lparr>table_ins := (table_ins t)[i := write_slot (bs @ [b]) (length bs) 0 k v]\<rparr>, m')))"

fun bucket_cpy_loop_ins ::
  "(u64 \<times> u64) list \<Rightarrow> hashtable_ins \<Rightarrow> mem \<Rightarrow> (hashtable_ins \<times> mem) outcome" where
  "bucket_cpy_loop_ins [] ht_new m = Done (ht_new, m)"
| "bucket_cpy_loop_ins ((k, v) # es) ht_new m =
     (let bin = clht_hash_ins ht_new k
      in bind_outcome (clht_put_seq_ins ht_new k v bin m) (\<lambda>(t, m'). bucket_cpy_loop_ins es t m'))"

definition bucket_cpy_ins ::
  "chain_ins \<Rightarrow> hashtable_ins \<Rightarrow> mem \<Rightarrow> (bool \<times> chain_ins \<times> hashtable_ins \<times> mem) outcome" where
  "bucket_cpy_ins bs ht_new m =
     bind_outcome (lock_acq_resize_ins (lock (hd bs)))
       (\<lambda>(ok, l). if \<not> ok then Done (False, bs, ht_new, m)
         else bind_outcome (bucket_cpy_loop_ins (chain_entries bs) ht_new m)
                (\<lambda>(t, m'). Done (True, set_lock bs l, t, m')))"

text \<open>The loop of \<open>ht_resize_help\<close> runs down from bucket \<open>hash\<close>; the first argument is \<open>b + 1\<close>.\<close>

fun resize_help_loop_ins ::
  "nat \<Rightarrow> chain_ins list \<Rightarrow> hashtable_ins \<Rightarrow> mem \<Rightarrow> (chain_ins list \<times> hashtable_ins \<times> mem) outcome" where
  "resize_help_loop_ins 0 bss ht_new m = Done (bss, ht_new, m)"
| "resize_help_loop_ins (Suc b) bss ht_new m =
     bind_outcome (bucket_cpy_ins (bss ! b) ht_new m)
       (\<lambda>(ok, bs, t, m'). if \<not> ok then Done (bss[b := bs], t, m')
          else resize_help_loop_ins b (bss[b := bs]) t m')"

definition ht_resize_help_ins ::
  "hashtable_ins \<Rightarrow> hashtable_ins \<Rightarrow> mem \<Rightarrow> (hashtable_ins \<times> hashtable_ins \<times> mem) outcome" where
  "ht_resize_help_ins h table_tmp m =
     (let (old, stored) = FAD (is_helper_ins h); h = h\<lparr>is_helper_ins := stored\<rparr>
      in if sint old \<le> 0 then Done (h, table_tmp, m)
         else bind_outcome (resize_help_loop_ins (nat (sint (ucast (hash_ins h) :: u32) + 1)) (table_ins h) table_tmp m)
                (\<lambda>(bss, t, m'). Done (h\<lparr>table_ins := bss, helper_done_ins := 1\<rparr>, t, m')))"

definition clht_size_mem_ins :: "hashtable_ins \<Rightarrow> u64" where
  "clht_size_mem_ins h = 8 + (num_buckets_ins h + ucast (num_expands_ins h)) * 64"

definition clht_size_mem_garbage_ins :: "hashtable_ins \<Rightarrow> u64 outcome" where
  "clht_size_mem_garbage_ins h = (if table_prev_ins h = 0 then Done 0 else Faults)"

section \<open>Invariant and abstraction\<close>

definition shape_ins :: "clht_ins \<Rightarrow> bool" where
  "shape_ins h \<longleftrightarrow> (let t = ht_ins h in num_buckets_ins t \<noteq> 0 \<and> unat (num_buckets_ins t) < 2 ^ 32 \<and>
     hash_ins t = num_buckets_ins t - 1 \<and> length (table_ins t) = unat (num_buckets_ins t))"

definition chain_inv_ins :: "chain_ins \<Rightarrow> bool" where
  "chain_inv_ins bs \<longleftrightarrow> chain_inv bs \<and> lock (hd bs) = LOCK_FREE"

definition bin_ins :: "clht_ins \<Rightarrow> u64 \<Rightarrow> nat" where
  "bin_ins h k = unat (clht_hash_ins (ht_ins h) k)"

definition inv_ins :: "clht_ins \<Rightarrow> bool" where
  "inv_ins h \<longleftrightarrow> shape_ins h \<and> chains_inv chain_inv_ins chain_map (bin_ins h) (table_ins (ht_ins h))"

definition map_ins :: "clht_ins \<Rightarrow> kv" where
  "map_ins h = chains_map chain_map (bin_ins h) (table_ins (ht_ins h))"

section \<open>One chain\<close>

lemma acq_ins_free: "lock_acq_ins LOCK_FREE = Done LOCK_UPDATE"
  by (simp add: lock_acq_ins_def CAS_def LOCK_FREE_def LOCK_UPDATE_def)

lemma chain_inv_insD: "chain_inv_ins bs \<Longrightarrow> chain_inv bs \<and> lock (hd bs) = LOCK_FREE"
  by (simp add: chain_inv_ins_def)

lemma put_chain_ins_law:
  assumes "chain_inv_ins bs" and "k \<noteq> 0" and "put_chain_ins bs k v m = Done (r, bs', m')"
  shows "chain_inv_ins bs' \<and> r = (chain_map bs k = None) \<and>
    chain_map bs' = (if r then (chain_map bs)(k \<mapsto> v) else chain_map bs)"
proof (cases "bucket_exists bs k")
  case True
  with assms chain_map_exists [of bs k] chain_inv_insD [OF assms(1)] show ?thesis
    by (auto simp: put_chain_ins_def)
next
  case False
  note i = chain_inv_insD [OF assms(1)]
  with False assms(3) obtain ds where ds: "chain_insert (set_lock bs LOCK_UPDATE) k v m = Done (r, ds, m')"
    and bs': "bs' = set_lock ds LOCK_FREE" by (auto simp: put_chain_ins_def acq_ins_free bind_outcome_Done_iff)
  from i chain_insert_law [OF _ assms(2) ds] show ?thesis
    by (auto simp: bs' chain_inv_ins_def lock_set_lock chain_inv_def chain_ok_def)
qed

lemma put_chain_ins_total:
  assumes "chain_inv_ins bs" and "ready (Suc n) m"
  shows "\<exists>r bs' m'. put_chain_ins bs k v m = Done (r, bs', m') \<and> ready n m'"
  using chain_insert_total [of "set_lock bs LOCK_UPDATE" n m k v] chain_inv_insD [OF assms(1)] assms(2)
  by (auto simp: put_chain_ins_def acq_ins_free dest: ready_SucD)

text \<open>Undisturbed, the removal without lock has the effect of the one with lock.\<close>

lemma chain_remove_ins_eq:
  assumes "\<forall>b\<in>set bs. bucket_ok b"
  shows "chain_remove_ins bs k = (case chain_remove bs k of Some r \<Rightarrow> r | None \<Rightarrow> (0, bs))"
  using assms
proof (induction bs)
  case (Cons b bs)
  then show ?case
    using find_key_Some [of b k]
    by (auto simp: CAS_def bucket_ok_def Let_def split: option.splits prod.splits)
qed simp

lemma chain_remove_ins_law:
  assumes "chain_inv_ins bs" and "k \<noteq> 0"
  shows "\<exists>bs'. chain_remove_ins bs k = (val_or_0 (chain_map bs k), bs') \<and> chain_inv_ins bs' \<and>
    chain_map bs' = (chain_map bs)(k := None)"
proof -
  note i = chain_inv_insD [OF assms(1)]
  then have ok: "\<forall>b\<in>set bs. bucket_ok b" "bs \<noteq> []" by (auto simp: chain_inv_def chain_ok_def)
  show ?thesis
  proof (cases "chain_remove bs k")
    case None
    then have "chain_map bs k = None"
      using chain_map_exists [of bs k] i assms(2) by (simp add: chain_remove_None)
    with None assms(1) show ?thesis
      by (auto simp: chain_remove_ins_eq [OF ok(1)])
  next
    case (Some r)
    obtain v bs' where r: "r = (v, bs')" by (cases r)
    have "map lock bs' = map lock bs" using chain_remove_Some [OF Some [unfolded r] ok(1) assms(2)] by blast
    then have "lock (hd bs') = lock (hd bs)" using ok(2) by (cases bs; cases bs') auto
    with chain_remove_correct [of bs k v bs'] Some r i assms(2) show ?thesis
      by (simp add: chain_remove_ins_eq [OF ok(1)] chain_inv_ins_def)
  qed
qed

interpretation ins_chain: kv_total chain_inv_ins chain_map chain_get put_chain_ins
  "\<lambda>bs k. Done (chain_remove_ins bs k)" "\<lambda>k. k \<noteq> 0 \<and> k \<noteq> KEY_BLCK" "\<lambda>_. True"
proof unfold_locales
  fix bs :: chain_ins and k :: u64
  assume "chain_inv_ins bs" "k \<noteq> 0 \<and> k \<noteq> KEY_BLCK"
  then show "chain_get bs k = val_or_0 (chain_map bs k)"
    by (simp add: chain_get_map chain_inv_ins_def chain_inv_def chain_ok_def)
qed (use put_chain_ins_law put_chain_ins_total chain_remove_ins_law in fastforce)+

section \<open>The table\<close>

interpretation ins: hashed_total chain_inv_ins chain_map chain_get put_chain_ins
  "\<lambda>bs k. Done (chain_remove_ins bs k)" "\<lambda>k. k \<noteq> 0 \<and> k \<noteq> KEY_BLCK" "\<lambda>_. True"
  shape_ins "\<lambda>h. table_ins (ht_ins h)" bin_ins
  "\<lambda>h. clht_get_ins (ht_ins h)" clht_put_ins clht_remove_ins
proof unfold_locales
  fix h :: clht_ins and k :: u64
  assume "shape_ins h"
  then show "bin_ins h k < length (table_ins (ht_ins h))"
    using mask_bin_less [of "num_buckets_ins (ht_ins h)" k]
    by (simp add: shape_ins_def Let_def bin_ins_def clht_hash_ins_def)
qed (auto simp: bin_ins_def clht_hash_ins_def shape_ins_def Let_def clht_get_ins_def
    clht_put_ins_def clht_remove_ins_def fun_eq_iff bind_outcome_Done_iff)

lemma inv_ins_eq: "inv_ins = ins.tinv" and map_ins_eq: "map_ins = ins.tmap"
  by (simp_all add: fun_eq_iff inv_ins_def map_ins_def ins.tinv_def ins.tmap_def)

text \<open>
  C37. With keys other than 0 and \<open>KEY_BLCK\<close>, a run of lookups, locked insertions and lock-free
  removals by one thread returns and gives the answers and the final content of the abstract map, as
  long as one block of memory is available per operation.
\<close>

theorem clht_ins_refines_map:
  assumes "inv_ins h" and "\<forall>x\<in>set xs. op_key x \<noteq> 0 \<and> op_key x \<noteq> KEY_BLCK" and "ready (length xs) m"
  shows "\<exists>rs h' m'. table_run (\<lambda>h. clht_get_ins (ht_ins h)) clht_put_ins clht_remove_ins (h, m) xs =
      Done (rs, h', m') \<and> inv_ins h' \<and> kv_run (map_ins h) xs = (rs, map_ins h')"
  using assms unfolding inv_ins_eq map_ins_eq by (rule ins.table_total.run_total_refines [unfolded op_ok_any])

section \<open>Creation and memory accounting\<close>

lemma created_ins:
  fixes n :: u32
  assumes "n \<noteq> 0" and "num_buckets_ins (ht_ins h) = ucast n" and "hash_ins (ht_ins h) = ucast (n - 1)"
    and "table_ins (ht_ins h) = replicate (unat n) [empty_bucket]"
  shows "inv_ins h \<and> map_ins h = Map.empty"
proof -
  have "ucast (n - 1) = (ucast n - 1 :: u64)"
    using assms(1) by (simp add: word_unat_eq_iff unat_ucast_u32 unat_pred)
  then have sh: "shape_ins h"
    using assms unat_bound [of n] unat_ucast_u32 [of n]
    by (auto simp: shape_ins_def Let_def unat_eq_zero [symmetric])
  have less: "bin_ins h k < unat n" for k
    using ins.hash_less [OF sh, of k] assms(4) by simp
  have cinv: "chain_inv_ins [empty_bucket]"
    by (simp add: chain_inv_ins_def empty_chain empty_bucket_facts LOCK_FREE_def)
  from chains_empty [of chain_inv_ins "unat n" "table_ins (ht_ins h)" "bin_ins h"] cinv less assms(4) sh
  show ?thesis by (simp add: inv_ins_def map_ins_def)
qed

text \<open>
  The memory accounting reads fields that creation does not set: for every word \<open>w\<close> there is a
  memory in which a fresh, empty, well-formed table of the requested size counts \<open>w\<close> expanded buckets
  in \<open>clht_size_mem\<close> and in which \<open>clht_size_mem_garbage\<close> follows a wild pointer.
\<close>

theorem clht_size_mem_ins_uninitialised:
  "\<exists>m h m'. clht_create_ins 4 m = (Some h, m') \<and> inv_ins h \<and> map_ins h = Map.empty \<and>
    clht_size_mem_ins (ht_ins h) = 8 + (4 + ucast (w :: u32)) * 64 \<and>
    clht_size_mem_garbage_ins (ht_ins h) = Faults"
proof -
  let ?m = "\<lparr>answers = [Some (0, 0, 0), Some (ucast w, 0, 1), Some (0, 0, 0)], live = 0\<rparr>"
  let ?h = "\<lparr>ht_ins = \<lparr>num_buckets_ins = ucast (4 :: u32), table_ins = replicate (unat (4 :: u32)) [empty_bucket],
     hash_ins = ucast (4 - 1 :: u32), num_expands_ins = w, is_helper_ins = 0, helper_done_ins = 0,
     table_prev_ins = 1\<rparr>\<rparr>"
  have "ucast (ucast w :: u64) = w" by transfer simp
  then have "clht_create_ins 4 ?m = (Some ?h, \<lparr>answers = [], live = 3\<rparr>)"
    by (simp add: clht_create_ins_def clht_hashtable_create_ins_def memalign_def)
  moreover have "inv_ins ?h \<and> map_ins ?h = Map.empty" by (rule created_ins [of 4]) simp_all
  ultimately show ?thesis
    by (intro exI [of _ ?m] exI [of _ ?h] exI [of _ "\<lparr>answers = [], live = 3\<rparr>"])
      (simp add: clht_size_mem_ins_def clht_size_mem_garbage_ins_def)
qed

section \<open>Witnesses\<close>

definition example_ins :: clht_ins where
  "example_ins = \<lparr>ht_ins = \<lparr>num_buckets_ins = ucast (2 :: u32), table_ins = replicate (unat (2 :: u32)) [empty_bucket],
     hash_ins = ucast (2 - 1 :: u32), num_expands_ins = 0, is_helper_ins = 0, helper_done_ins = 0,
     table_prev_ins = 0\<rparr>\<rparr>"

lemma example_ins_inv: "inv_ins example_ins"
  using created_ins [of 2 example_ins] by (simp add: example_ins_def)

theorem clht_ins_refines_map_witness:
  "\<exists>rs h' m'. table_run (\<lambda>h. clht_get_ins (ht_ins h)) clht_put_ins clht_remove_ins (example_ins, example_mem)
      [Put 5 50, Put 7 70, Get 5, Remove 7, Get 7] = Done (rs, h', m') \<and> inv_ins h' \<and>
    kv_run (map_ins example_ins) [Put 5 50, Put 7 70, Get 5, Remove 7, Get 7] = (rs, map_ins h')"
  by (rule clht_ins_refines_map) (simp_all add: example_ins_inv example_mem_ready KEY_BLCK_def)

end
