(* ===== verification/Clht_lb_linked.thy ===== *)
theory Clht_lb_linked
  imports Chain Clht_gc
begin

text \<open>
  \<open>CLHT-LB-LINKED\<close> (\<open>src/src/clht/src/clht_lb_linked.c\<close>, \<open>include/clht_lb_linked.h\<close>): a table
  without extra buckets. A full bucket overflows into the buckets that follow it in the array:
  \<open>hops\<close> of a bucket says how many of them its keys may occupy, and the array has
  \<open>CLHT_LINKED_MAX_EXPANSIONS_HARD\<close> buckets more than the table has bins. An update locks all the
  buckets it looks at. The options are those of the header (\<open>CLHT_READ_ONLY_FAIL 1\<close>,
  \<open>CLHT_HELP_RESIZE 0\<close>, \<open>CLHT_DO_GC 0\<close>, \<open>CLHT_DO_CHECK_STATUS 0\<close>, no transactions). One thread runs
  at a time; \<open>double\<close> values are compared exactly.
\<close>

section \<open>Parameters and state\<close>

definition CLHT_LINKED_PERC_FULL_DOUBLE :: nat where
  "CLHT_LINKED_PERC_FULL_DOUBLE = 75"

definition CLHT_LINKED_MAX_AVG_EXPANSION :: nat where
  "CLHT_LINKED_MAX_AVG_EXPANSION = 1"

definition CLHT_LINKED_MAX_EXPANSIONS :: nat where
  "CLHT_LINKED_MAX_EXPANSIONS = 7"

definition CLHT_LINKED_MAX_EXPANSIONS_HARD :: nat where
  "CLHT_LINKED_MAX_EXPANSIONS_HARD = 16"

definition CLHT_LINKED_EMERGENCY_RESIZE :: u32 where
  "CLHT_LINKED_EMERGENCY_RESIZE = 4"

definition CLHT_PERC_FULL_HALVE_lk :: nat where
  "CLHT_PERC_FULL_HALVE_lk = 5"

definition CLHT_RATIO_HALVE_lk :: u64 where
  "CLHT_RATIO_HALVE_lk = 8"

text \<open>The field \<open>next\<close> of a bucket is the bucket after it in the array, NULL for the last one.\<close>

record bucket_lk = "u8 bucket" +
  hops_lk :: u32

type_synonym table_lk = "bucket_lk rtable"
type_synonym clht_lk = "bucket_lk rclht"

text \<open>
  \<open>num_buckets + CLHT_LINKED_MAX_EXPANSIONS_HARD\<close> is computed with 32 bits. When it wraps, the
  \<open>memset\<close> of \<open>num_buckets\<close> buckets leaves the block (\<open>Faults\<close>). The values of the buckets after
  \<open>num_buckets\<close> are not initialised. \<open>num_expands_threshold\<close> and \<open>num_buckets_prev\<close> are one cell.
\<close>

definition empty_bucket_lk :: "u64 list \<Rightarrow> bucket_lk" where
  "empty_bucket_lk vs = \<lparr>lock = LOCK_FREE, key = replicate ENTRIES_PER_BUCKET 0, val = vs, hops_lk = 0\<rparr>"

definition new_table_lk :: "u32 \<Rightarrow> fresh_block \<Rightarrow> table_lk" where
  "new_table_lk num_buckets g =
     (let cells = replicate (unat num_buckets) (empty_bucket_lk (replicate ENTRIES_PER_BUCKET 0)) @
            replicate CLHT_LINKED_MAX_EXPANSIONS_HARD (empty_bucket_lk (case g of (g0, g1, g2) \<Rightarrow> [g0, g1, g2]));
          threshold = 1 * num_buckets
      in \<lparr>rt_num_buckets = ucast num_buckets, rt_table = cells, rt_hash = ucast (num_buckets - 1),
          rt_version = 0, rt_table_tmp = None, rt_table_prev = None, rt_table_new = None,
          rt_num_expands = 0, rt_threshold = (if threshold = 0 then 1 else threshold),
          rt_is_helper = 1, rt_helper_done = 0\<rparr>)"

definition clht_hashtable_create_lk :: "u32 \<Rightarrow> mem \<Rightarrow> (table_lk option \<times> mem) outcome" where
  "clht_hashtable_create_lk num_buckets m =
     (if num_buckets = 0 then Done (None, m)
      else case memalign m of
        (None, m1) \<Rightarrow> Done (None, m1)
      | (Some _, m1) \<Rightarrow>
          (let num_buckets_linked = num_buckets + of_nat CLHT_LINKED_MAX_EXPANSIONS_HARD
           in case memalign m1 of
                (None, m2) \<Rightarrow> Done (None, mfree m2)
              | (Some g, m2) \<Rightarrow>
                  (if num_buckets_linked < num_buckets then Faults
                   else Done (Some (new_table_lk num_buckets g), m2))))"

definition clht_create_lk :: "u32 \<Rightarrow> mem \<Rightarrow> (clht_lk option \<times> mem) outcome" where
  "clht_create_lk num_buckets m =
     (let num_buckets = (if num_buckets = 1 then num_buckets + 1 else num_buckets)
      in case memalign m of
           (None, m1) \<Rightarrow> Done (None, m1)
         | (Some _, m1) \<Rightarrow>
             bind_outcome (clht_hashtable_create_lk num_buckets m1)
               (\<lambda>(w, m2). case w of
                   None \<Rightarrow> Done (None, mfree m2)
                 | Some t \<Rightarrow> Done (Some (new_rclht t), m2)))"

definition clht_hash_lk :: "table_lk \<Rightarrow> u64 \<Rightarrow> u32" where
  "clht_hash_lk hashtable k = mask_bin (rt_hash hashtable) k"

section \<open>The locks\<close>

definition lock_acq_lk :: "u8 \<Rightarrow> (bool \<times> u8) outcome" where
  "lock_acq_lk lock_word =
     (let (l, stored) = CAS lock_word LOCK_FREE LOCK_UPDATE
      in if l = LOCK_UPDATE then Spins else if l = LOCK_RESIZE then Done (False, stored) else Done (True, stored))"

definition lock_acq_resize_lk :: "u8 \<Rightarrow> (bool \<times> u8) outcome" where
  "lock_acq_resize_lk lock_word =
     (let (l, stored) = CAS lock_word LOCK_FREE LOCK_RESIZE
      in if l = LOCK_UPDATE then Spins else if l = LOCK_RESIZE then Done (False, stored) else Done (True, stored))"

text \<open>The buckets from the key's bin on are a list; \<open>lock_release_n\<close> unlocks the first \<open>n\<close> of them.\<close>

fun lock_release_n :: "bucket_lk list \<Rightarrow> nat \<Rightarrow> bucket_lk list" where
  "lock_release_n [] n = []"
| "lock_release_n (b # bs) 0 = b # bs"
| "lock_release_n (b # bs) (Suc n) = b\<lparr>lock := LOCK_FREE\<rparr> # lock_release_n bs n"

section \<open>Operations\<close>

text \<open>The buckets that the keys of a bin may occupy, from the bin's own bucket on.\<close>

definition window_lk :: "bucket_lk list \<Rightarrow> bucket_lk list" where
  "window_lk bs = take (Suc (unat (hops_lk (hd bs)))) bs"

definition clht_get_lk :: "table_lk \<Rightarrow> u64 \<Rightarrow> u64" where
  "clht_get_lk hashtable k =
     (let bin = unat (clht_hash_lk hashtable k) in chain_get (window_lk (drop bin (rt_table hashtable))) k)"

definition bucket_exists_lk :: "bucket_lk list \<Rightarrow> u64 \<Rightarrow> bool" where
  "bucket_exists_lk bs k = bucket_exists (window_lk bs) k"

text \<open>
  The first loop of \<open>clht_put\<close>, over \<open>n\<close> buckets: lock a bucket, look for the key, remember the
  first empty slot. The last component of the result counts the locks taken. A walk past the
  end of the array is a fault.
\<close>

datatype scan_lk = Refused | Present | Free "(nat \<times> nat) option"

fun put_scan_lk ::
  "bucket_lk list \<Rightarrow> nat \<Rightarrow> u64 \<Rightarrow> nat \<Rightarrow> (nat \<times> nat) option \<Rightarrow> (scan_lk \<times> bucket_lk list \<times> nat) outcome" where
  "put_scan_lk bs 0 k h e = Done (Free e, bs, 0)"
| "put_scan_lk [] (Suc n) k h e = Faults"
| "put_scan_lk (b # bs) (Suc n) k h e =
     bind_outcome (lock_acq_lk (lock b))
       (\<lambda>(ok, l). if \<not> ok then Done (Refused, b # bs, 0)
          else let b = b\<lparr>lock := l\<rparr>
               in case put_scan b k h [0..<ENTRIES_PER_BUCKET] e of
                    Inl _ \<Rightarrow> Done (Present, b # bs, 1)
                  | Inr e' \<Rightarrow> bind_outcome (put_scan_lk bs n k (Suc h) e')
                                (\<lambda>(r, bs', i). Done (r, b # bs', Suc i)))"

text \<open>The second loop: go on to the next buckets until one has an empty slot.\<close>

datatype spot_lk = NoLock | TooFar | Spot nat nat

fun put_spot_lk :: "bucket_lk list \<Rightarrow> nat \<Rightarrow> (spot_lk \<times> bucket_lk list \<times> nat) outcome" where
  "put_spot_lk [] tot_hops =
     (if Suc tot_hops > CLHT_LINKED_MAX_EXPANSIONS_HARD then Done (TooFar, [], 0) else Faults)"
| "put_spot_lk (b # bs) tot_hops =
     (if Suc tot_hops > CLHT_LINKED_MAX_EXPANSIONS_HARD then Done (TooFar, b # bs, 0)
      else bind_outcome (lock_acq_lk (lock b))
        (\<lambda>(ok, l). if \<not> ok then Done (NoLock, b # bs, 0)
           else let b = b\<lparr>lock := l\<rparr>
                in case find_key b 0 of
                     Some j \<Rightarrow> Done (Spot (Suc tot_hops) j, b # bs, 1)
                   | None \<Rightarrow> bind_outcome (put_spot_lk bs (Suc tot_hops))
                               (\<lambda>(r, bs', i). Done (r, b # bs', Suc i))))"

text \<open>One round of \<open>clht_put\<close> on the buckets from the key's bin on.\<close>

datatype round_lk = Exists | Inserted | Again | Emergency

definition set_hops_lk :: "bucket_lk list \<Rightarrow> nat \<Rightarrow> bucket_lk list" where
  "set_hops_lk bs n = (case bs of [] \<Rightarrow> [] | b # bs' \<Rightarrow> b\<lparr>hops_lk := of_nat n\<rparr> # bs')"

definition put_round_lk :: "bucket_lk list \<Rightarrow> u64 \<Rightarrow> u64 \<Rightarrow> (round_lk \<times> bucket_lk list) outcome" where
  "put_round_lk bs k v =
     (if bucket_exists_lk bs k then Done (Exists, bs)
      else let tot_hops = unat (hops_lk (hd bs))
           in bind_outcome (put_scan_lk bs (Suc tot_hops) k 0 None)
                (\<lambda>(r, bs1, l).
                   case r of
                     Refused \<Rightarrow> Done (Again, lock_release_n bs1 l)
                   | Present \<Rightarrow> Done (Exists, lock_release_n bs1 l)
                   | Free (Some (h, j)) \<Rightarrow> Done (Inserted, lock_release_n (write_slot bs1 h j k v) l)
                   | Free None \<Rightarrow>
                       bind_outcome (put_spot_lk (drop (Suc tot_hops) bs1) tot_hops)
                         (\<lambda>(s, rest, l2).
                            let bs2 = take (Suc tot_hops) bs1 @ rest; l = l + l2
                            in case s of
                                 NoLock \<Rightarrow> Done (Again, lock_release_n bs2 l)
                               | TooFar \<Rightarrow> Done (Emergency, lock_release_n bs2 l)
                               | Spot h j \<Rightarrow>
                                   Done (Inserted, lock_release_n (write_slot (set_hops_lk bs2 h) h j k v) l))))"

definition put_table_lk :: "table_lk \<Rightarrow> u64 \<Rightarrow> u64 \<Rightarrow> (round_lk \<times> table_lk) outcome" where
  "put_table_lk t k v =
     (let bin = unat (clht_hash_lk t k)
      in bind_outcome (put_round_lk (drop bin (rt_table t)) k v)
           (\<lambda>(r, bs). Done (r, t\<lparr>rt_table := take bin (rt_table t) @ bs\<rparr>)))"

text \<open>The loop of \<open>clht_remove\<close>: \<open>Inl\<close> when a lock is refused, else the value that was removed.\<close>

fun remove_scan_lk ::
  "bucket_lk list \<Rightarrow> nat \<Rightarrow> u64 \<Rightarrow> ((unit + u64) \<times> bucket_lk list \<times> nat) outcome" where
  "remove_scan_lk bs 0 k = Done (Inr 0, bs, 0)"
| "remove_scan_lk [] (Suc n) k = Faults"
| "remove_scan_lk (b # bs) (Suc n) k =
     bind_outcome (lock_acq_lk (lock b))
       (\<lambda>(ok, l). if \<not> ok then Done (Inl (), b # bs, 0)
          else let b = b\<lparr>lock := l\<rparr>
               in case find_key b k of
                    Some j \<Rightarrow> Done (Inr (val b ! j), b\<lparr>key := (key b)[j := 0]\<rparr> # bs, 1)
                  | None \<Rightarrow> bind_outcome (remove_scan_lk bs n k)
                              (\<lambda>(r, bs', i). Done (r, b # bs', Suc i)))"

text \<open>\<open>goto again\<close> after a refused lock reads \<open>h->ht\<close> again: with no other thread it stays, for ever.\<close>

definition remove_table_lk :: "table_lk \<Rightarrow> u64 \<Rightarrow> (u64 \<times> table_lk) outcome" where
  "remove_table_lk t k =
     (let bin = unat (clht_hash_lk t k); bs = drop bin (rt_table t)
      in if \<not> bucket_exists_lk bs k then Done (0, t)
         else bind_outcome (remove_scan_lk bs (Suc (unat (hops_lk (hd bs)))) k)
           (\<lambda>(r, bs1, l). case r of
               Inl _ \<Rightarrow> Spins
             | Inr v \<Rightarrow> Done (v, t\<lparr>rt_table := take bin (rt_table t) @ lock_release_n bs1 l\<rparr>)))"

definition clht_remove_lk :: "clht_lk \<Rightarrow> u64 \<Rightarrow> (u64 \<times> clht_lk) outcome" where
  "clht_remove_lk h k =
     bind_outcome (remove_table_lk (cur_table h) k) (\<lambda>(r, t). Done (r, set_table (rc_ht h) t h))"

definition scan_bound_lk :: "table_lk \<Rightarrow> nat" where
  "scan_bound_lk t = unat ((ucast (rt_num_buckets t) :: u32) + of_nat CLHT_LINKED_MAX_EXPANSIONS_HARD)"

definition elems_lk :: "table_lk \<Rightarrow> nat" where
  "elems_lk t = chain_size (take (scan_bound_lk t) (rt_table t))"

definition clht_size_lk :: "table_lk \<Rightarrow> u64" where
  "clht_size_lk t = of_nat (elems_lk t)"

section \<open>Copying and resizing\<close>

text \<open>
  \<open>clht_put_seq\<close> follows \<open>next\<close> to the first empty slot, however far, and through the NULL at the end
  of the array.
\<close>

definition clht_put_seq_lk :: "table_lk \<Rightarrow> u64 \<Rightarrow> u64 \<Rightarrow> u32 \<Rightarrow> table_lk outcome" where
  "clht_put_seq_lk t k v bin =
     (let i = unat bin; bs = drop i (rt_table t)
      in case chain_empty bs 0 of
           None \<Rightarrow> Faults
         | Some (tr, j) \<Rightarrow>
             (let diff = of_nat tr - hops_lk (hd bs); bs1 = write_slot bs tr j k v
              in Done (if 0 <s diff
                 then t\<lparr>rt_table := take i (rt_table t) @ set_hops_lk bs1 tr, rt_num_expands := rt_num_expands t + diff\<rparr>
                 else t\<lparr>rt_table := take i (rt_table t) @ bs1\<rparr>)))"

fun bucket_cpy_loop_lk :: "(u64 \<times> u64) list \<Rightarrow> table_lk \<Rightarrow> table_lk outcome" where
  "bucket_cpy_loop_lk [] ht_new = Done ht_new"
| "bucket_cpy_loop_lk ((k, v) # es) ht_new =
     (let bin = clht_hash_lk ht_new k
      in bind_outcome (clht_put_seq_lk ht_new k v bin) (\<lambda>t. bucket_cpy_loop_lk es t))"

definition bucket_cpy_lk :: "bucket_lk \<Rightarrow> table_lk \<Rightarrow> (bool \<times> bucket_lk \<times> table_lk) outcome" where
  "bucket_cpy_lk b ht_new =
     bind_outcome (lock_acq_resize_lk (lock b))
       (\<lambda>(ok, l). if \<not> ok then Done (False, b, ht_new)
         else bind_outcome (bucket_cpy_loop_lk (bucket_entries b) ht_new)
                (\<lambda>t. Done (True, b\<lparr>lock := l\<rparr>, t)))"

text \<open>
  The loop of \<open>ht_resize_pes\<close> over all buckets of the old array.
  The source counts with \<open>int32_t b\<close>, which overflows (undefined) for more than 2 to the 31 buckets, 128 GB of
  them; here the count has no bound, so the model is the code for tables of at most 2 to the 31 buckets.
\<close>

fun copy_buckets_lk :: "bucket_lk list \<Rightarrow> table_lk \<Rightarrow> (bucket_lk list \<times> table_lk) outcome" where
  "copy_buckets_lk [] ht_new = Done ([], ht_new)"
| "copy_buckets_lk (b # bs) ht_new =
     bind_outcome (bucket_cpy_lk b ht_new)
       (\<lambda>(_, b', t). bind_outcome (copy_buckets_lk bs t) (\<lambda>(bs', t'). Done (b' # bs', t')))"

text \<open>The loop of \<open>ht_resize_help\<close> runs down; the first argument is \<open>b + 1\<close>.\<close>

fun resize_help_loop_lk :: "nat \<Rightarrow> bucket_lk list \<Rightarrow> table_lk \<Rightarrow> (bucket_lk list \<times> table_lk) outcome" where
  "resize_help_loop_lk 0 bs table_tmp = Done (bs, table_tmp)"
| "resize_help_loop_lk (Suc b) bs table_tmp =
     bind_outcome (bucket_cpy_lk (bs ! b) table_tmp)
       (\<lambda>(ok, b', t). if \<not> ok then Done (bs[b := b'], t) else resize_help_loop_lk b (bs[b := b']) t)"

definition ht_resize_help_lk :: "table_lk \<Rightarrow> table_lk \<Rightarrow> (table_lk \<times> table_lk) outcome" where
  "ht_resize_help_lk h table_tmp =
     (let (old, stored) = FAD (rt_is_helper h); h = h\<lparr>rt_is_helper := stored\<rparr>
      in if sint old \<le> 0 then Done (h, table_tmp)
         else bind_outcome
                (resize_help_loop_lk (nat (sint (ucast (rt_hash h + of_nat CLHT_LINKED_MAX_EXPANSIONS_HARD) :: u32) + 1))
                   (rt_table h) table_tmp)
                (\<lambda>(bs, t). Done (h\<lparr>rt_table := bs, rt_helper_done := 1\<rparr>, t)))"

definition swap_table_lk :: "clht_lk \<Rightarrow> bucket_lk list \<Rightarrow> table_lk \<Rightarrow> clht_lk" where
  "swap_table_lk h bs ht_new =
     (let p = rc_ht h; q = length (rc_tables h);
          ht_new = ht_new\<lparr>rt_table_prev := Some p\<rparr>;
          ht_old = (cur_table h)\<lparr>rt_table := bs, rt_table_new := Some q\<rparr>
      in h\<lparr>rc_tables := (rc_tables h)[p := ht_old] @ [ht_new], rc_ht := q, rc_resize_lock := LOCK_FREE\<rparr>)"

text \<open>
  \<open>ht_resize_pes\<close> up to its last step: whether it resized, whether the new table is so crowded that
  \<open>ht_status\<close> is called again (\<open>avg_expands \<ge> 1\<close>), the wrapper.
\<close>

definition resize_table_lk ::
  "nat option \<Rightarrow> clht_lk \<Rightarrow> bool \<Rightarrow> u32 \<Rightarrow> mem \<Rightarrow> (bool \<times> bool \<times> clht_lk \<times> mem) outcome" where
  "resize_table_lk clht_ts_thread h is_increase by m =
     (let (taken, l) = TRYLOCK_ACQ (rc_resize_lock h); h = h\<lparr>rc_resize_lock := l\<rparr>
      in if taken then Done (False, False, h, m)
         else let ht_old = cur_table h;
                  num_buckets_new = (if is_increase then scast by * rt_num_buckets ht_old
                                     else rt_num_buckets ht_old div CLHT_RATIO_HALVE_lk)
              in bind_outcome (clht_hashtable_create_lk (ucast num_buckets_new) m)
                   (\<lambda>(w, m1). case w of
                      None \<Rightarrow> Faults
                    | Some ht_new \<Rightarrow>
                        bind_outcome
                          (copy_buckets_lk (rt_table ht_old)
                             (ht_new\<lparr>rt_version := rt_version ht_old + 1,
                                     rt_threshold := ucast (rt_num_buckets ht_old)\<rparr>))
                          (\<lambda>(bs, ht_new).
                             let again = (unat (rt_num_expands ht_new) \<ge> unat (rt_num_buckets ht_new));
                                 h = swap_table_lk h bs ht_new
                             in bind_outcome (clht_gc_get_id clht_ts_thread h)
                                  (\<lambda>_. Done (True, again, snd (clht_gc_collect h), m1)))))"

text \<open>
  What \<open>ht_status\<close> decides without \<open>emergency_increase\<close>: to shrink, to grow by a factor, or nothing.
  \<open>expands\<close> is a signed 32-bit sum.
\<close>

definition expands_lk :: "table_lk \<Rightarrow> u32" where
  "expands_lk t = (\<Sum>b\<leftarrow>take (scan_bound_lk t) (rt_table t). hops_lk b)"

definition expands_max_lk :: "table_lk \<Rightarrow> nat" where
  "expands_max_lk t = foldl max 0 (map (\<lambda>b. unat (hops_lk b)) (take (scan_bound_lk t) (rt_table t)))"

definition increase_by_lk :: "table_lk \<Rightarrow> bool \<Rightarrow> u32" where
  "increase_by_lk t resize_increase =
     pow2roundup (of_nat (100 * elems_lk t div (30 * (unat (rt_num_buckets t) * ENTRIES_PER_BUCKET)) +
       of_bool resize_increase + of_bool (rt_num_buckets t = ucast (rt_threshold t))))"

definition status_decision_lk :: "table_lk \<Rightarrow> bool \<Rightarrow> (bool \<times> u32) option" where
  "status_decision_lk t resize_increase =
     (let elems = elems_lk t; capacity = unat (rt_num_buckets t) * ENTRIES_PER_BUCKET
      in if elems > 0 \<and> 100 * elems < CLHT_PERC_FULL_HALVE_lk * capacity then Some (False, 33)
         else if (elems > 0 \<and> 100 * elems > CLHT_LINKED_PERC_FULL_DOUBLE * capacity) \<or>
             expands_max_lk t > CLHT_LINKED_MAX_EXPANSIONS \<or>
             sint (expands_lk t) > int (CLHT_LINKED_MAX_AVG_EXPANSION * unat (rt_num_buckets t)) \<or>
             resize_increase
         then Some (True, increase_by_lk t resize_increase)
         else None)"

text \<open>
  \<open>ht_status\<close> and \<open>ht_resize_pes\<close> call each other; nothing bounds the depth of these calls, so the
  result is an option whose value \<open>None\<close> means that they do not return.
\<close>

partial_function (option) ht_status_lk ::
  "nat option \<Rightarrow> clht_lk \<Rightarrow> bool \<Rightarrow> u32 \<Rightarrow> bool \<Rightarrow> mem \<Rightarrow> (u64 \<times> clht_lk \<times> mem) outcome option" where
  "ht_status_lk clht_ts_thread h resize_increase emergency_increase just_print m =
     (let (taken, l) = TRYLOCK_ACQ (rc_status_lock h); h = h\<lparr>rc_status_lock := l\<rparr>
      in if taken \<and> \<not> resize_increase then Some (Done (0, h, m))
         else let t = cur_table h; size_now = (if emergency_increase \<noteq> 0 then 0 else of_nat (elems_lk t))
              in case (if emergency_increase \<noteq> 0 then Some (True, pow2roundup emergency_increase)
                       else if just_print then None else status_decision_lk t resize_increase) of
                   None \<Rightarrow> Some (Done (size_now, h\<lparr>rc_status_lock := LOCK_FREE\<rparr>, m))
                 | Some (is_increase, by) \<Rightarrow>
                     (case bind_outcome (clht_gc_get_id clht_ts_thread h)
                             (\<lambda>_. resize_table_lk clht_ts_thread h is_increase by m) of
                        Spins \<Rightarrow> Some Spins
                      | Faults \<Rightarrow> Some Faults
                      | Done (_, again, h, m) \<Rightarrow>
                          Option.bind
                            (if again then ht_status_lk clht_ts_thread h True 0 False m else Some (Done (0, h, m)))
                            (\<lambda>out. Some (bind_outcome out
                               (\<lambda>(_, h, m). Done (size_now, (snd (clht_gc_collect h))\<lparr>rc_status_lock := LOCK_FREE\<rparr>, m))))))"

definition ht_resize_pes_lk ::
  "nat option \<Rightarrow> clht_lk \<Rightarrow> bool \<Rightarrow> u32 \<Rightarrow> mem \<Rightarrow> (bool \<times> clht_lk \<times> mem) outcome option" where
  "ht_resize_pes_lk clht_ts_thread h is_increase by m =
     (case resize_table_lk clht_ts_thread h is_increase by m of
        Spins \<Rightarrow> Some Spins
      | Faults \<Rightarrow> Some Faults
      | Done (resized, again, h, m) \<Rightarrow>
          Option.bind (if again then ht_status_lk clht_ts_thread h True 0 False m else Some (Done (0, h, m)))
            (\<lambda>out. Some (bind_outcome out (\<lambda>(_, h, m). Done (resized, h, m)))))"

text \<open>\<open>clht_put\<close> with its label \<open>again\<close>; a call that does not return is \<open>Spins\<close>.\<close>

partial_function (option) put_again_lk ::
  "nat option \<Rightarrow> clht_lk \<Rightarrow> u64 \<Rightarrow> u64 \<Rightarrow> mem \<Rightarrow> (bool \<times> clht_lk \<times> mem) outcome option" where
  "put_again_lk clht_ts_thread h k v m =
     (case put_table_lk (cur_table h) k v of
        Spins \<Rightarrow> Some Spins
      | Faults \<Rightarrow> Some Faults
      | Done (r, t) \<Rightarrow>
          (let p = rc_ht h; bin = unat (clht_hash_lk (cur_table h) k); h = set_table p t h
           in case r of
                Exists \<Rightarrow> Some (Done (False, h, m))
              | Inserted \<Rightarrow>
                  (if unat (hops_lk (rt_table t ! bin)) > CLHT_LINKED_MAX_EXPANSIONS
                   then Option.bind (ht_status_lk clht_ts_thread h False 0 False m)
                          (\<lambda>out. Some (bind_outcome out (\<lambda>(_, h, m). Done (True, h, m))))
                   else Some (Done (True, h, m)))
              | Again \<Rightarrow>
                  (if rt_table_new t = None then Some Spins else put_again_lk clht_ts_thread h k v m)
              | Emergency \<Rightarrow>
                  Option.bind (ht_status_lk clht_ts_thread h False CLHT_LINKED_EMERGENCY_RESIZE False m)
                    (\<lambda>out. case out of
                        Spins \<Rightarrow> Some Spins
                      | Faults \<Rightarrow> Some Faults
                      | Done (_, h, m) \<Rightarrow>
                          (if rt_table_new (rc_tables h ! p) = None then Some Spins
                           else put_again_lk clht_ts_thread h k v m))))"

definition clht_put_lk ::
  "nat option \<Rightarrow> clht_lk \<Rightarrow> u64 \<Rightarrow> u64 \<Rightarrow> mem \<Rightarrow> (bool \<times> clht_lk \<times> mem) outcome" where
  "clht_put_lk clht_ts_thread h k v m =
     (case put_again_lk clht_ts_thread h k v m of None \<Rightarrow> Spins | Some out \<Rightarrow> out)"

section \<open>Memory accounting\<close>

definition clht_size_mem_lk :: "table_lk \<Rightarrow> u64" where
  "clht_size_mem_lk t = 8 + (rt_num_buckets t + of_nat CLHT_LINKED_MAX_EXPANSIONS_HARD) * 64"

partial_function (option) garbage_loop_lk :: "table_lk list \<Rightarrow> nat option \<Rightarrow> u64 \<Rightarrow> u64 option" where
  "garbage_loop_lk ts cur size_tot =
     (case cur of
        None \<Rightarrow> Some size_tot
      | Some p \<Rightarrow> garbage_loop_lk ts (rt_table_prev (ts ! p)) (size_tot + clht_size_mem_lk (ts ! p)))"

definition clht_size_mem_garbage_lk :: "table_lk list \<Rightarrow> nat \<Rightarrow> u64 option" where
  "clht_size_mem_garbage_lk ts p = garbage_loop_lk ts (rt_table_prev (ts ! p)) 0"

end
