(* ===== verification/Copy_target.thy ===== *)
theory Copy_target
  imports Kv_store
begin

text \<open>
  The interface of a table that a resize fills: entries are added one by one by a \<open>put_seq\<close> that does
  not look for the key (\<open>step\<close>), in a loop over a list of entries (\<open>loop\<close>). What a single
  addition promises gives the effect of the whole copy. \<open>same\<close> is what the copy leaves alone.
\<close>

lemma all_fst_entries: "\<forall>k\<in>fst ` set es. P k \<Longrightarrow> \<forall>(k, v)\<in>set es. P k"
  by force

locale copy_target =
  fixes inv :: "'s \<Rightarrow> bool"
    and absm :: "'s \<Rightarrow> kv"
    and ok :: "u64 \<Rightarrow> u64 \<Rightarrow> bool"
    and step :: "u64 \<Rightarrow> u64 \<Rightarrow> 's \<Rightarrow> 's outcome"
    and loop :: "(u64 \<times> u64) list \<Rightarrow> 's \<Rightarrow> 's outcome"
    and same :: "'s \<Rightarrow> 's \<Rightarrow> bool"
  assumes loop_Nil: "loop [] s = Done s"
    and loop_Cons: "loop ((k, v) # es) s = bind_outcome (step k v s) (loop es)"
    and step_law: "inv s \<Longrightarrow> ok k v \<Longrightarrow> absm s k = None \<Longrightarrow> step k v s = Done s' \<Longrightarrow>
       inv s' \<and> absm s' = (absm s)(k \<mapsto> v) \<and> same s s'"
    and same_refl: "same s s"
    and same_trans: "same s s' \<Longrightarrow> same s' s'' \<Longrightarrow> same s s''"
begin

lemma loop_law:
  assumes "inv s" and "\<forall>(k, v)\<in>set es. ok k v" and "distinct (map fst es)"
    and "dom (absm s) \<inter> fst ` set es = {}" and "loop es s = Done s'"
  shows "inv s' \<and> absm s' = absm s ++ map_of es \<and> same s s'"
  using assms
proof (induction es arbitrary: s)
  case Nil
  then show ?case by (simp add: loop_Nil same_refl)
next
  case (Cons e es)
  obtain k v where e: "e = (k, v)" by (cases e)
  from Cons.prems(5) obtain s1 where p: "step k v s = Done s1" and rest: "loop es s1 = Done s'"
    by (auto simp: e loop_Cons bind_outcome_Done_iff)
  from Cons.prems have k: "ok k v" "absm s k = None" and es: "\<forall>(k, v)\<in>set es. ok k v" "distinct (map fst es)"
    and kes: "k \<notin> fst ` set es" by (auto simp: e)
  from step_law [OF Cons.prems(1) k p] have l: "inv s1" "absm s1 = (absm s)(k \<mapsto> v)" "same s s1" by auto
  have "dom (absm s1) \<inter> fst ` set es = {}" using l(2) kes Cons.prems(4) by (auto simp: e)
  from Cons.IH [OF l(1) es this rest] same_trans [OF l(3)] have
    r: "inv s' \<and> absm s' = (absm s)(k \<mapsto> v) ++ map_of es \<and> same s s'" unfolding l(2) by blast
  have eq: "(absm s)(k \<mapsto> v) ++ map_of es = absm s ++ map_of (e # es)"
    using kes [folded map_of_eq_None_iff] by (auto simp: e fun_eq_iff map_add_def split: option.splits)
  show ?case using r unfolding eq .
qed

lemma loop_append: "loop (as @ bs) s = bind_outcome (loop as s) (loop bs)"
proof (induction as arbitrary: s)
  case Nil
  then show ?case by (simp add: loop_Nil)
next
  case (Cons a as)
  then show ?case by (cases a; cases "step (fst a) (snd a) s") (simp_all add: loop_Cons)
qed

lemma loop_not_spins: "(\<And>k v s. step k v s \<noteq> Spins) \<Longrightarrow> loop es s \<noteq> Spins"
proof (induction es arbitrary: s)
  case Nil
  then show ?case by (simp add: loop_Nil)
next
  case (Cons e es)
  then show ?case by (cases e) (auto simp: loop_Cons bind_outcome_Spins_iff)
qed

end

text \<open>With the promise that an addition always succeeds the whole copy does.\<close>

locale copy_total = copy_target +
  assumes step_total: "inv s \<Longrightarrow> ok k v \<Longrightarrow> absm s k = None \<Longrightarrow> \<exists>s'. step k v s = Done s'"
begin

lemma loop_total:
  assumes "inv s" and "\<forall>(k, v)\<in>set es. ok k v" and "distinct (map fst es)"
    and "dom (absm s) \<inter> fst ` set es = {}"
  shows "\<exists>s'. loop es s = Done s'"
  using assms
proof (induction es arbitrary: s)
  case Nil
  then show ?case by (simp add: loop_Nil)
next
  case (Cons e es)
  obtain k v where e: "e = (k, v)" by (cases e)
  from Cons.prems have k: "ok k v" "absm s k = None" and es: "\<forall>(k, v)\<in>set es. ok k v" "distinct (map fst es)"
    and kes: "k \<notin> fst ` set es" by (auto simp: e)
  from step_total [OF Cons.prems(1) k] obtain s1 where s1: "step k v s = Done s1" by blast
  from step_law [OF Cons.prems(1) k s1] have l: "inv s1" "absm s1 = (absm s)(k \<mapsto> v)" by auto
  have "dom (absm s1) \<inter> fst ` set es = {}" using l(2) kes Cons.prems(4) by (auto simp: e)
  from Cons.IH [OF l(1) es this] show ?case by (simp add: e loop_Cons s1)
qed

end

end
