(* ===== verification/Clht_lb_linked_map.thy ===== *)
theory Clht_lb_linked_map
  imports Clht_lb_linked Copy_target
begin

text \<open>
  The linked table implements the map, one table at a time. While no thread works on it all locks are
  free; the walks of \<open>clht_put\<close> and \<open>clht_remove\<close> lock a prefix of the buckets and unlock it again.
  The array is one chain of buckets in which the keys of bin \<open>b\<close> are at most \<open>hops\<close> buckets after
  bucket \<open>b\<close> (\<open>cells_inv\<close>). The last section adds the entries of an old table to a new one.
\<close>

section \<open>Walks over unlocked buckets\<close>

definition free_lk :: "bucket_lk list \<Rightarrow> bool" where
  "free_lk bs \<longleftrightarrow> (\<forall>b\<in>set bs. lock b = LOCK_FREE)"

fun lock_n :: "bucket_lk list \<Rightarrow> nat \<Rightarrow> bucket_lk list" where
  "lock_n [] n = []"
| "lock_n (b # bs) 0 = b # bs"
| "lock_n (b # bs) (Suc n) = b\<lparr>lock := LOCK_UPDATE\<rparr> # lock_n bs n"

lemma free_lk_simps [simp]:
  "free_lk []" "free_lk (b # bs) \<longleftrightarrow> lock b = LOCK_FREE \<and> free_lk bs"
  by (simp_all add: free_lk_def)

lemma free_lk_drop: "free_lk bs \<Longrightarrow> free_lk (drop n bs)"
  by (auto simp: free_lk_def dest: in_set_dropD)

lemma acq_lk_free: "lock_acq_lk LOCK_FREE = Done (True, LOCK_UPDATE)"
  by (simp add: lock_acq_lk_def CAS_def LOCK_FREE_def LOCK_UPDATE_def LOCK_RESIZE_def)

lemma acq_resize_lk_free: "lock_acq_resize_lk LOCK_FREE = Done (True, LOCK_RESIZE)"
  by (simp add: lock_acq_resize_lk_def CAS_def LOCK_FREE_def LOCK_UPDATE_def LOCK_RESIZE_def)

lemma lock_simps_lk [simp]:
  "find_key (b\<lparr>lock := l\<rparr>) k = find_key b k"
  "put_scan (b\<lparr>lock := l\<rparr>) k h js e = put_scan b k h js e"
  by (simp_all add: find_key_def put_scan_result)

lemma lock_n_0 [simp]: "lock_n bs 0 = bs"
  by (cases bs) simp_all

lemma release_0 [simp]: "lock_release_n bs 0 = bs"
  by (cases bs) simp_all

lemma length_lock_n [simp]: "length (lock_n bs n) = length bs" "length (lock_release_n bs n) = length bs"
  by (induction bs n rule: lock_n.induct) simp_all

lemma release_lock_n: "free_lk bs \<Longrightarrow> lock_release_n (lock_n bs n) n = bs"
  by (induction bs n rule: lock_n.induct) auto

lemma lock_n_split:
  "n \<le> length bs \<Longrightarrow> take n (lock_n bs n) @ lock_n (drop n bs) l = lock_n bs (n + l)"
  by (induction bs n rule: lock_n.induct) auto

lemma drop_lock_n: "drop n (lock_n bs n) = drop n bs"
  by (induction bs n rule: lock_n.induct) auto

lemma release_write: "lock_release_n (write_slot bs i j k v) n = write_slot (lock_release_n bs n) i j k v"
proof (induction bs n arbitrary: i rule: lock_n.induct)
  case (3 b bs n)
  then show ?case by (cases i) (auto simp: write_slot_def Let_def)
qed (auto simp: write_slot_def Let_def)

lemma release_hops: "lock_release_n (set_hops_lk bs x) n = set_hops_lk (lock_release_n bs n) x"
  by (induction bs n rule: lock_n.induct) (auto simp: set_hops_lk_def)

lemma put_walk_Cons:
  "put_walk (b # bs) k h e =
    (case put_scan b k h [0..<ENTRIES_PER_BUCKET] e of Inl u \<Rightarrow> Inl u | Inr e' \<Rightarrow> put_walk bs k (Suc h) e')"
  by (cases bs) (auto split: sum.splits)

lemma put_scan_free:
  assumes "free_lk bs" and "n \<le> length bs"
  shows "\<exists>l. put_scan_lk bs n k h e =
    (case put_walk (take n bs) k h e of
       Inl _ \<Rightarrow> Done (Present, lock_n bs l, l) | Inr e' \<Rightarrow> Done (Free e', lock_n bs n, n))"
  using assms
proof (induction bs n k h e rule: put_scan_lk.induct)
  case (3 b bs n k h e)
  show ?case
  proof (cases "put_scan b k h [0..<ENTRIES_PER_BUCKET] e")
    case (Inl u)
    with 3 show ?thesis by (auto simp: acq_lk_free intro!: exI [of _ 1])
  next
    case (Inr e')
    with 3 obtain l where l: "put_scan_lk bs n k (Suc h) e' =
      (case put_walk (take n bs) k (Suc h) e' of
        Inl _ \<Rightarrow> Done (Present, lock_n bs l, l) | Inr e'' \<Rightarrow> Done (Free e'', lock_n bs n, n))"
      by (fastforce simp: acq_lk_free)
    from Inr 3 show ?thesis
      by (auto simp: acq_lk_free l put_walk_Cons simp del: put_walk.simps(2) split: sum.splits
          intro!: exI [of _ "Suc l"])
  qed
qed auto

lemma chain_empty_Suc: "chain_empty bs (Suc h) = map_option (\<lambda>(i, j). (Suc i, j)) (chain_empty bs h)"
  by (induction bs arbitrary: h) (auto split: option.splits)

lemma put_spot_free:
  assumes "free_lk bs" and "CLHT_LINKED_MAX_EXPANSIONS_HARD \<le> tot + length bs"
  shows "(\<exists>l. put_spot_lk bs tot = Done (TooFar, lock_n bs l, l) \<and>
      (\<forall>i j. chain_empty bs 0 = Some (i, j) \<longrightarrow> CLHT_LINKED_MAX_EXPANSIONS_HARD \<le> tot + i)) \<or>
    (\<exists>i j. put_spot_lk bs tot = Done (Spot (Suc (tot + i)) j, lock_n bs (Suc i), Suc i) \<and>
       chain_empty bs 0 = Some (i, j) \<and> tot + i < CLHT_LINKED_MAX_EXPANSIONS_HARD)"
  using assms
proof (induction bs tot rule: put_spot_lk.induct)
  case (1 tot)
  then show ?case by auto
next
  case (2 b bs tot)
  show ?case
  proof (cases "Suc tot > CLHT_LINKED_MAX_EXPANSIONS_HARD")
    case True
    then show ?thesis by (auto intro!: exI [of _ 0])
  next
    case False
    show ?thesis
    proof (cases "find_key b 0")
      case None
      with 2 False show ?thesis
        by (fastforce simp: acq_lk_free chain_empty_Suc)
    next
      case (Some j)
      with 2 False show ?thesis by (auto simp: acq_lk_free)
    qed
  qed
qed

lemma set_hops_same: "bs \<noteq> [] \<Longrightarrow> set_hops_lk bs (unat (hops_lk (hd bs))) = bs"
  by (cases bs) (auto simp: set_hops_lk_def)

text \<open>The first empty slot from the bin on, when there is one at most 16 buckets away, is where a new key goes.\<close>

lemma chain_empty_split:
  "chain_empty bs h = (case chain_empty (take n bs) h of
     Some e \<Rightarrow> Some e | None \<Rightarrow> chain_empty (drop n bs) (h + n))"
proof (induction bs arbitrary: h n)
  case (Cons b bs)
  show ?case
  proof (cases n)
    case (Suc n')
    with Cons.IH [of "Suc h" n'] show ?thesis by (auto split: option.splits)
  qed simp
qed simp

lemma chain_empty_shift: "chain_empty bs h = map_option (\<lambda>(i, j). (i + h, j)) (chain_empty bs 0)"
proof (induction h)
  case 0
  show ?case by (cases "chain_empty bs 0") auto
next
  case (Suc h)
  show ?case unfolding chain_empty_Suc Suc.IH by (cases "chain_empty bs 0") auto
qed

lemma chain_empty_near:
  "d < length bs \<Longrightarrow> find_key (bs ! d) 0 \<noteq> None \<Longrightarrow> \<exists>i j. chain_empty bs 0 = Some (i, j) \<and> i \<le> d"
proof (induction bs arbitrary: d)
  case (Cons b bs)
  show ?case
  proof (cases "find_key b 0")
    case None
    with Cons.prems obtain d' where d: "d = Suc d'" by (cases d) auto
    with Cons.IH [of d'] Cons.prems None show ?thesis by (auto simp: chain_empty_Suc)
  qed simp
qed simp

lemma put_round_lk_law:
  assumes free: "free_lk bs" and ok: "\<forall>b\<in>set bs. bucket_ok b"
    and w: "unat (hops_lk (hd bs)) < length bs" and len: "CLHT_LINKED_MAX_EXPANSIONS_HARD < length bs"
  shows "\<exists>r bs'. put_round_lk bs k v = Done (r, bs') \<and>
    (if bucket_exists_lk bs k then r = Exists \<and> bs' = bs
     else (r = Emergency \<and> bs' = bs \<and>
         (\<forall>i j. chain_empty bs 0 = Some (i, j) \<longrightarrow> CLHT_LINKED_MAX_EXPANSIONS_HARD < i)) \<or>
       (r = Inserted \<and> (\<exists>i j n. chain_empty bs 0 = Some (i, j) \<and> n = max (unat (hops_lk (hd bs))) i \<and> bs' = write_slot (set_hops_lk bs n) i j k v \<and> i \<le> n \<and> n < length bs \<and>
          n < 2 ^ 32 \<and> unat (hops_lk (hd bs)) \<le> n \<and> j < ENTRIES_PER_BUCKET \<and> key (bs ! i) ! j = 0)))"
proof (cases "bucket_exists_lk bs k")
  case True
  then show ?thesis by (simp add: put_round_lk_def)
next
  case False
  let ?t = "unat (hops_lk (hd bs))"
  let ?w = "take (Suc ?t) bs"
  have bs: "bs \<noteq> []" using w by auto
  have okw: "\<forall>b\<in>set ?w. bucket_ok b" using ok by (meson in_set_takeD)
  have walk: "put_walk ?w k 0 None = Inr (chain_empty ?w 0)"
    using put_walk_result [OF okw, of k 0 None] False by (simp add: bucket_exists_lk_def window_lk_def)
  from put_scan_free [OF free, of "Suc ?t" k 0 None] w walk
  have scan: "put_scan_lk bs (Suc ?t) k 0 None = Done (Free (chain_empty ?w 0), lock_n bs (Suc ?t), Suc ?t)"
    by auto
  have bound: "?t < 2 ^ 32" using unat_bound [of "hops_lk (hd bs)"] by simp
  show ?thesis
  proof (cases "chain_empty ?w 0")
    case (Some e)
    obtain i j where e: "e = (i, j)" by (cases e)
    from chain_empty_Some [OF Some [unfolded e]] w have ij: "i \<le> ?t" "j < ENTRIES_PER_BUCKET" "key (bs ! i) ! j = 0"
      by auto
    have "put_round_lk bs k v = Done (Inserted, write_slot (set_hops_lk bs ?t) i j k v)"
      using False by (simp add: put_round_lk_def scan Some e release_write release_lock_n [OF free] set_hops_same [OF bs])
    moreover have "chain_empty bs 0 = Some (i, j)" using Some by (simp add: chain_empty_split [of bs 0 "Suc ?t"] e)
    ultimately show ?thesis using False ij w bound by (auto simp: max_def)
  next
    case None
    let ?r = "drop (Suc ?t) bs"
    have l: "CLHT_LINKED_MAX_EXPANSIONS_HARD \<le> ?t + length ?r" using len by simp
    have join: "take (Suc ?t) (lock_n bs (Suc ?t)) @ lock_n ?r l = lock_n bs (Suc (?t + l))" for l
      using lock_n_split [of "Suc ?t" bs l] w by simp
    have shift: "chain_empty bs 0 = map_option (\<lambda>(i, j). (i + Suc ?t, j)) (chain_empty ?r 0)"
      using chain_empty_split [of bs 0 "Suc ?t"] chain_empty_shift [of ?r "Suc ?t"] by (simp add: None)
    from put_spot_free [OF free_lk_drop [OF free] l] show ?thesis
    proof (elim disjE exE conjE)
      fix l assume "put_spot_lk ?r ?t = Done (TooFar, lock_n ?r l, l)"
        and far: "\<forall>i j. chain_empty ?r 0 = Some (i, j) \<longrightarrow> CLHT_LINKED_MAX_EXPANSIONS_HARD \<le> ?t + i"
      then have "put_round_lk bs k v = Done (Emergency, bs)"
        using False by (simp add: put_round_lk_def scan None Let_def drop_lock_n join release_lock_n [OF free])
      moreover have "\<forall>i j. chain_empty bs 0 = Some (i, j) \<longrightarrow> CLHT_LINKED_MAX_EXPANSIONS_HARD < i"
        using far unfolding shift by fastforce
      ultimately show ?thesis using False by simp
    next
      fix i j assume s: "put_spot_lk ?r ?t = Done (Spot (Suc (?t + i)) j, lock_n ?r (Suc i), Suc i)"
        and e: "chain_empty ?r 0 = Some (i, j)" and i: "?t + i < CLHT_LINKED_MAX_EXPANSIONS_HARD"
      let ?n = "Suc (?t + i)"
      from chain_empty_Some [OF e] have ij: "?n < length bs" "j < ENTRIES_PER_BUCKET" "key (bs ! ?n) ! j = 0"
        by auto
      have "put_round_lk bs k v = Done (Inserted, write_slot (set_hops_lk bs ?n) ?n j k v)"
        using False join [of "Suc i"]
        by (simp add: put_round_lk_def scan None s Let_def drop_lock_n release_write release_hops release_lock_n [OF free])
      moreover have "\<exists>i' j' n. chain_empty bs 0 = Some (i', j') \<and> n = max ?t i' \<and> write_slot (set_hops_lk bs ?n) ?n j k v = write_slot (set_hops_lk bs n) i' j' k v \<and>
          i' \<le> n \<and> n < length bs \<and> n < 2 ^ 32 \<and> ?t \<le> n \<and> j' < ENTRIES_PER_BUCKET \<and> key (bs ! i') ! j' = 0"
        using ij i by (intro exI [of _ ?n] exI [of _ j]) (simp add: CLHT_LINKED_MAX_EXPANSIONS_HARD_def shift e)
      ultimately show ?thesis using False by auto
    qed
  qed
qed

lemma remove_scan_free:
  assumes "free_lk bs" and "n \<le> length bs" and "bucket_exists (take n bs) k"
  shows "\<exists>i j bs' l. remove_scan_lk bs n k = Done (Inr (val (bs ! i) ! j), bs', l) \<and>
    lock_release_n bs' l = bs[i := (bs ! i)\<lparr>key := (key (bs ! i))[j := 0]\<rparr>] \<and>
    i < n \<and> j < ENTRIES_PER_BUCKET \<and> key (bs ! i) ! j = k"
  using assms
proof (induction bs n k rule: remove_scan_lk.induct)
  case (3 b bs n k)
  show ?case
  proof (cases "find_key b k")
    case None
    with 3 obtain i j bs' l where r: "remove_scan_lk bs n k = Done (Inr (val (bs ! i) ! j), bs', l)"
      "lock_release_n bs' l = bs[i := (bs ! i)\<lparr>key := (key (bs ! i))[j := 0]\<rparr>]"
      "i < n" "j < ENTRIES_PER_BUCKET" "key (bs ! i) ! j = k"
      by (fastforce simp: acq_lk_free)
    have "lock_release_n (b\<lparr>lock := LOCK_UPDATE\<rparr> # bs') (Suc l) =
        (b # bs)[Suc i := (bs ! i)\<lparr>key := (key (bs ! i))[j := 0]\<rparr>]" using r(2) 3(2) by simp
    with None 3 r show ?thesis
      by (intro exI [of _ "Suc i"] exI [of _ j] exI [of _ "b\<lparr>lock := LOCK_UPDATE\<rparr> # bs'"] exI [of _ "Suc l"])
        (simp add: acq_lk_free)
  next
    case (Some j)
    with 3 find_key_Some [OF Some] show ?thesis
      by (intro exI [of _ 0] exI [of _ j] exI [of _ "b\<lparr>lock := LOCK_UPDATE, key := (key b)[j := 0]\<rparr> # bs"] exI [of _ 1])
        (simp add: acq_lk_free)
  qed
qed auto

section \<open>The array of buckets\<close>

text \<open>
  The array is one chain: its entries are the table's map. The keys of bin \<open>b\<close> stay within
  the \<open>hops\<close> of bucket \<open>b\<close>, which stay inside the array.
\<close>

definition in_window_lk :: "(u64 \<Rightarrow> nat) \<Rightarrow> bucket_lk list \<Rightarrow> bool" where
  "in_window_lk h cs \<longleftrightarrow>
     (\<forall>i<length cs. \<forall>k\<in>set (key (cs ! i)). k \<noteq> 0 \<longrightarrow> h k \<le> i \<and> i \<le> h k + unat (hops_lk (cs ! h k)))"

definition cells_inv :: "(u64 \<Rightarrow> nat) \<Rightarrow> nat \<Rightarrow> bucket_lk list \<Rightarrow> bool" where
  "cells_inv h n cs \<longleftrightarrow> chain_inv cs \<and> (\<forall>i<n. i + unat (hops_lk (cs ! i)) < length cs) \<and> in_window_lk h cs"

lemma cells_ok: "cells_inv h n cs \<Longrightarrow> \<forall>b\<in>set cs. bucket_ok b"
  by (simp add: cells_inv_def chain_inv_def chain_ok_def)

lemma in_chain_entries: "(k, v) \<in> set (chain_entries cs) \<longleftrightarrow> (\<exists>i<length cs. (k, v) \<in> set (bucket_entries (cs ! i)))"
  by (simp add: chain_entries_def) (metis in_set_conv_nth)

lemma window_entries:
  assumes "cells_inv h n cs" and "h k < n" and "n \<le> length cs" and "k \<noteq> 0"
  shows "(k, v) \<in> set (chain_entries (window_lk (drop (h k) cs))) \<longleftrightarrow> (k, v) \<in> set (chain_entries cs)"
proof
  let ?w = "window_lk (drop (h k) cs)"
  have sub: "set ?w \<subseteq> set cs" by (auto simp: window_lk_def dest: in_set_takeD in_set_dropD)
  then show "(k, v) \<in> set (chain_entries ?w) \<Longrightarrow> (k, v) \<in> set (chain_entries cs)"
    by (auto simp: chain_entries_def)
  assume "(k, v) \<in> set (chain_entries cs)"
  then obtain i where i: "i < length cs" "(k, v) \<in> set (bucket_entries (cs ! i))" by (auto simp: in_chain_entries)
  then have "k \<in> set (key (cs ! i))" by (auto simp: bucket_entries_def dest: set_zip_leftD)
  with assms i(1) have b: "h k \<le> i" "i \<le> h k + unat (hops_lk (cs ! h k))"
    by (auto simp: cells_inv_def in_window_lk_def)
  have hd: "hd (drop (h k) cs) = cs ! h k" using assms(2,3) by (simp add: hd_drop_conv_nth)
  have "i - h k < length ?w" "?w ! (i - h k) = cs ! i"
    using b i(1) assms(2,3) by (auto simp: window_lk_def hd)
  with i(2) show "(k, v) \<in> set (chain_entries ?w)" by (auto simp: in_chain_entries)
qed

lemma window_inv:
  assumes "cells_inv h n cs"
  shows "\<forall>b\<in>set (window_lk (drop i cs)). bucket_ok b"
    and "distinct (map fst (chain_entries (window_lk (drop i cs))))"
proof -
  show "\<forall>b\<in>set (window_lk (drop i cs)). bucket_ok b"
    using cells_ok [OF assms] by (auto simp: window_lk_def dest!: in_set_takeD dest: in_set_dropD)
  have "distinct (map fst (chain_entries (drop i cs)))"
    using assms chain_entries_simps(3) [of "take i cs" "drop i cs"]
    by (auto simp: cells_inv_def chain_inv_def simp del: chain_entries_simps)
  then show "distinct (map fst (chain_entries (window_lk (drop i cs))))"
    using chain_entries_simps(3) [of "window_lk (drop i cs)" "drop (Suc (unat (hops_lk (hd (drop i cs))))) (drop i cs)"]
    by (auto simp: window_lk_def simp del: chain_entries_simps drop_drop)
qed

lemma window_map:
  assumes "cells_inv h n cs" and "h k < n" and "n \<le> length cs" and "k \<noteq> 0"
  shows "chain_map (window_lk (drop (h k) cs)) k = chain_map cs k"
proof (rule option.expand)
  have d: "distinct (map fst (chain_entries cs))" using assms(1) by (simp add: cells_inv_def chain_inv_def)
  note d' = window_inv(2) [OF assms(1), of "h k"]
  have eq: "chain_map (window_lk (drop (h k) cs)) k = Some v \<longleftrightarrow> chain_map cs k = Some v" for v
    unfolding chain_map_def map_of_eq_Some_iff [OF d] map_of_eq_Some_iff [OF d'] by (rule window_entries [OF assms])
  then show "(chain_map (window_lk (drop (h k) cs)) k = None) = (chain_map cs k = None)"
    by (metis option.exhaust option.distinct(1))
  from eq show "the (chain_map (window_lk (drop (h k) cs)) k) = the (chain_map cs k)"
    by (metis option.exhaust_sel option.sel \<open>(chain_map (window_lk (drop (h k) cs)) k = None) = (chain_map cs k = None)\<close>)
qed

lemma get_lk_map:
  assumes "cells_inv h n cs" and "h k < n" and "n \<le> length cs" and "k \<noteq> 0"
  shows "chain_get (window_lk (drop (h k) cs)) k = val_or_0 (chain_map cs k)"
    and "bucket_exists_lk (drop (h k) cs) k \<longleftrightarrow> chain_map cs k \<noteq> None"
  using chain_get_map [OF window_inv [OF assms(1)] assms(4), of "h k"]
    chain_map_None [OF window_inv(1) [OF assms(1), of "h k"] assms(4)] window_map [OF assms]
  by (simp_all add: bucket_exists_lk_def)

text \<open>Buckets that differ in locks and hops only.\<close>

lemma same_content:
  assumes "length cs' = length cs"
    and "\<And>i. i < length cs \<Longrightarrow> key (cs' ! i) = key (cs ! i) \<and> val (cs' ! i) = val (cs ! i)"
  shows "chain_entries cs' = chain_entries cs" and "chain_inv cs' = chain_inv cs" and "chain_map cs' = chain_map cs"
proof -
  have "map bucket_entries cs' = map bucket_entries cs"
    using assms by (intro nth_equalityI) (simp_all add: bucket_entries_def)
  then show e: "chain_entries cs' = chain_entries cs" by (simp add: chain_entries_def)
  have "(\<forall>b\<in>set cs'. bucket_ok b) = (\<forall>b\<in>set cs. bucket_ok b)"
    using assms by (simp add: all_set_conv_all_nth bucket_ok_def)
  then show "chain_inv cs' = chain_inv cs" using assms(1) by (auto simp: chain_inv_def chain_ok_def e)
  show "chain_map cs' = chain_map cs" by (simp add: chain_map_def e)
qed

text \<open>Writing an absent key into an empty slot of its window, which may grow.\<close>

definition inserted_lk :: "bucket_lk list \<Rightarrow> nat \<Rightarrow> nat \<Rightarrow> nat \<Rightarrow> nat \<Rightarrow> u64 \<Rightarrow> u64 \<Rightarrow> bucket_lk list" where
  "inserted_lk cs b x i j k v = write_slot (cs[b := (cs ! b)\<lparr>hops_lk := of_nat x\<rparr>]) (b + i) j k v"

lemma take_drop_update: "b \<le> length cs \<Longrightarrow> take b cs @ (drop b cs)[i := y] = cs[b + i := y]"
  using list_update_append [of "take b cs" "drop b cs" "b + i" y] by simp

lemma inserted_lk_eq:
  assumes "b < length cs" and "b + i < length cs"
  shows "take b cs @ write_slot (set_hops_lk (drop b cs) x) i j k v = inserted_lk cs b x i j k v"
proof -
  have s: "set_hops_lk (drop b cs) x = (drop b cs)[0 := (cs ! b)\<lparr>hops_lk := of_nat x\<rparr>]"
    using assms(1) by (simp add: set_hops_lk_def Cons_nth_drop_Suc [symmetric])
  have d: "drop b (cs[b := y]) = (drop b cs)[0 := y]" for y
    using assms(1) by (simp add: drop_update_swap)
  have "take b cs @ write_slot (drop b (cs[b := y])) i j k v = write_slot (cs[b := y]) (b + i) j k v" for y
    using assms take_drop_update [of b "cs[b := y]" i] by (simp add: write_slot_def Let_def)
  then show ?thesis by (simp add: s d inserted_lk_def)
qed

lemma inserted_lk_nth:
  assumes "b < length cs" and "b + i < length cs" and "m < length cs"
  shows "hops_lk (inserted_lk cs b x i j k v ! m) = (if m = b then of_nat x else hops_lk (cs ! m))"
    and "key (inserted_lk cs b x i j k v ! m) = (if m = b + i then (key (cs ! m))[j := k] else key (cs ! m))"
    and "lock (inserted_lk cs b x i j k v ! m) = lock (cs ! m)"
  using assms by (auto simp: inserted_lk_def write_slot_def Let_def nth_list_update)

lemma inserted_lk_law:
  assumes inv: "cells_inv h n cs" and b: "h k = b" "b < n" "n \<le> length cs" and k: "k \<noteq> 0" "chain_map cs k = None"
    and x: "unat (hops_lk (cs ! b)) \<le> x" "b + x < length cs" "x < 2 ^ 32"
    and i: "i \<le> x" "j < ENTRIES_PER_BUCKET" "key (cs ! (b + i)) ! j = 0"
  shows "cells_inv h n (inserted_lk cs b x i j k v)"
    and "chain_map (inserted_lk cs b x i j k v) = (chain_map cs)(k \<mapsto> v)"
proof -
  let ?cs1 = "cs[b := (cs ! b)\<lparr>hops_lk := of_nat x\<rparr>]" and ?cs = "inserted_lk cs b x i j k v"
  have len: "b < length cs" "b + i < length cs" "length ?cs = length cs"
    using b x i by (simp_all add: inserted_lk_def)
  have same: "key (?cs1 ! m) = key (cs ! m) \<and> val (?cs1 ! m) = val (cs ! m)" for m
    using len(1) by (cases "m = b") simp_all
  note c = same_content [of ?cs1 cs, OF _ same, simplified]
  have inv1: "chain_inv ?cs1" "chain_map ?cs1 k = None" using inv k c by (auto simp: cells_inv_def)
  have ok: "chain_ok ?cs1" using inv1(1) by (simp add: chain_inv_def)
  have "mset (chain_entries ?cs) = add_mset (k, v) (mset (chain_entries ?cs1))"
    unfolding inserted_lk_def
    using write_slot_entries [OF ok _ i(2) _ k(1), of "b + i" v] len same [of "b + i"] i(3) by simp
  from chain_entry_added [OF inv1(1) _ inv1(2) this] write_slot_ok [OF ok]
  have added: "chain_inv ?cs" "chain_map ?cs = (chain_map cs)(k \<mapsto> v)"
    by (auto simp: inserted_lk_def c)
  have ux: "unat (of_nat x :: u32) = x" using x(3) by (simp add: unat_of_nat take_bit_nat_eq_self)
  have hops: "unat (hops_lk (cs ! m)) \<le> unat (hops_lk (?cs ! m))" if "m < length cs" for m
    using inserted_lk_nth(1) [OF len(1,2) that, of x j k v] x(1) ux by simp
  have "in_window_lk h ?cs"
    unfolding in_window_lk_def
  proof (intro allI impI ballI)
    fix m k' assume m: "m < length ?cs" and k': "k' \<in> set (key (?cs ! m))" "k' \<noteq> 0"
    show "h k' \<le> m \<and> m \<le> h k' + unat (hops_lk (?cs ! h k'))"
    proof (cases "k' \<in> set (key (cs ! m))")
      case True
      with inv m k'(2) len have w: "h k' \<le> m" "m \<le> h k' + unat (hops_lk (cs ! h k'))"
        by (auto simp: cells_inv_def in_window_lk_def)
      with hops [of "h k'"] m len show ?thesis by simp
    next
      case False
      with k' inserted_lk_nth(2) [OF len(1,2), of m x j k v] m len have "m = b + i \<and> k' = k"
        by (auto split: if_splits dest!: set_update_subset_insert [THEN subsetD])
      with inserted_lk_nth(1) [OF len(1,2), of b x j k v] b(1) i(1) len ux show ?thesis by simp
    qed
  qed
  moreover have "m + unat (hops_lk (?cs ! m)) < length ?cs" if "m < n" for m
    using inserted_lk_nth(1) [OF len(1,2), of m x j k v] that inv b x len ux by (auto simp: cells_inv_def)
  ultimately show "cells_inv h n ?cs" using added(1) by (simp add: cells_inv_def)
  show "chain_map ?cs = (chain_map cs)(k \<mapsto> v)" by (rule added(2))
qed

text \<open>Clearing the slot of a key.\<close>

definition cleared_lk :: "bucket_lk list \<Rightarrow> nat \<Rightarrow> nat \<Rightarrow> bucket_lk list" where
  "cleared_lk cs m j = cs[m := (cs ! m)\<lparr>key := (key (cs ! m))[j := 0]\<rparr>]"

lemma cleared_lk_law:
  assumes inv: "cells_inv h n cs" and m: "m < length cs" "j < ENTRIES_PER_BUCKET" and k: "key (cs ! m) ! j = k" "k \<noteq> 0"
  shows "cells_inv h n (cleared_lk cs m j)" and "chain_map cs k = Some (val (cs ! m) ! j)"
    and "chain_map (cleared_lk cs m j) = (chain_map cs)(k := None)"
proof -
  let ?cs = "cleared_lk cs m j"
  have ok: "bucket_ok (cs ! m)" using cells_ok [OF inv] m(1) by simp
  have d: "distinct (map fst (chain_entries cs))" using inv by (simp add: cells_inv_def chain_inv_def)
  have e: "mset (chain_entries cs) = add_mset (k, val (cs ! m) ! j) (mset (chain_entries ?cs))"
    unfolding cleared_lk_def mset_chain_entries_update [OF m(1)] mset_chain_entries_split [OF m(1)]
      bucket_clear_entries [OF ok m(2) k] by simp
  note r = map_of_del_entry [OF e d]
  from r show "chain_map cs k = Some (val (cs ! m) ! j)" "chain_map ?cs = (chain_map cs)(k := None)"
    by (simp_all add: chain_map_def)
  have okc: "\<forall>b\<in>set ?cs. bucket_ok b"
    using cells_ok [OF inv] ok unfolding cleared_lk_def
    by (auto simp: bucket_ok_def dest!: set_update_subset_insert [THEN subsetD])
  have hops: "hops_lk (?cs ! i) = hops_lk (cs ! i)" for i
    using m(1) by (cases "i = m") (simp_all add: cleared_lk_def)
  have keys: "set (key (?cs ! i)) \<subseteq> insert 0 (set (key (cs ! i)))" if "i < length cs" for i
    using m(1) set_update_subset_insert [of "key (cs ! m)" j 0] by (cases "i = m") (auto simp: cleared_lk_def)
  have "chain_inv ?cs" using r okc inv by (auto simp: chain_inv_def chain_ok_def cells_inv_def cleared_lk_def)
  then show "cells_inv h n ?cs"
    using inv keys unfolding cells_inv_def in_window_lk_def hops by (auto simp: cleared_lk_def) blast+
qed

section \<open>One table\<close>

definition shape_lk :: "table_lk \<Rightarrow> bool" where
  "shape_lk t \<longleftrightarrow> rt_num_buckets t \<noteq> 0 \<and> unat (rt_num_buckets t) + CLHT_LINKED_MAX_EXPANSIONS_HARD < 2 ^ 32 \<and>
     rt_hash t = rt_num_buckets t - 1 \<and>
     length (rt_table t) = unat (rt_num_buckets t) + CLHT_LINKED_MAX_EXPANSIONS_HARD \<and> rt_table_new t = None"

definition tinv_lk :: "table_lk \<Rightarrow> bool" where
  "tinv_lk t \<longleftrightarrow> shape_lk t \<and> free_lk (rt_table t) \<and> cells_inv (rt_bin t) (unat (rt_num_buckets t)) (rt_table t)"

definition tmap_lk :: "table_lk \<Rightarrow> kv" where
  "tmap_lk t = chain_map (rt_table t)"

lemma bin_lk: "unat (clht_hash_lk t k) = rt_bin t k"
  by (simp add: clht_hash_lk_def rt_bin_def)

lemma shape_lkD:
  assumes "shape_lk t"
  shows "rt_bin t k < unat (rt_num_buckets t)" and "unat (rt_num_buckets t) \<le> length (rt_table t)"
    and "rt_bin t k < length (rt_table t)" and "CLHT_LINKED_MAX_EXPANSIONS_HARD < length (drop (rt_bin t k) (rt_table t))"
  using assms mask_bin_less [of "rt_num_buckets t" k] by (auto simp: shape_lk_def rt_bin_def)

lemma tinv_lkD:
  assumes "tinv_lk t"
  shows "shape_lk t" and "free_lk (rt_table t)" and "cells_inv (rt_bin t) (unat (rt_num_buckets t)) (rt_table t)"
  using assms by (auto simp: tinv_lk_def)

lemma tinv_lk_hops:
  "tinv_lk t \<Longrightarrow> rt_bin t k + unat (hops_lk (rt_table t ! rt_bin t k)) < length (rt_table t)"
  using shape_lkD(1) [of t k] by (auto simp: tinv_lk_def cells_inv_def)

lemma tinv_lk_update:
  assumes "tinv_lk t" and "length cs = length (rt_table t)" and "free_lk cs"
    and "cells_inv (rt_bin t) (unat (rt_num_buckets t)) cs"
    and "t' = t\<lparr>rt_table := cs\<rparr> \<or> t' = t\<lparr>rt_table := cs, rt_num_expands := x\<rparr>"
  shows "tinv_lk t'"
proof -
  have "rt_bin t' = rt_bin t" using assms(5) by (auto simp: rt_bin_def fun_eq_iff)
  then show ?thesis using assms by (auto simp: tinv_lk_def shape_lk_def)
qed

lemma tmap_lk_0: "tmap_lk t 0 = None"
  by (simp add: tmap_lk_def chain_map_0)

lemma get_table_lk:
  assumes "tinv_lk t" and "k \<noteq> 0"
  shows "clht_get_lk t k = val_or_0 (tmap_lk t k)"
    and "bucket_exists_lk (drop (rt_bin t k) (rt_table t)) k \<longleftrightarrow> tmap_lk t k \<noteq> None"
  using get_lk_map [OF tinv_lkD(3) [OF assms(1)] shape_lkD(1,2) [OF tinv_lkD(1) [OF assms(1)]] assms(2)]
  by (simp_all add: clht_get_lk_def bin_lk tmap_lk_def)

lemma inserted_lk_length [simp]: "length (inserted_lk cs b x i j k v) = length cs"
  by (simp add: inserted_lk_def)

lemma inserted_lk_free:
  assumes "b < length cs" and "b + i < length cs" and "free_lk cs"
  shows "free_lk (inserted_lk cs b x i j k v)"
  using inserted_lk_nth(3) [OF assms(1,2)] assms(3)
  unfolding free_lk_def all_set_conv_all_nth by (simp add: inserted_lk_def)

lemma put_table_lk_slot:
  assumes t: "tinv_lk t" and k: "k \<noteq> 0"
  shows "\<exists>r t'. put_table_lk t k v = Done (r, t') \<and> tinv_lk t' \<and> rt_table_new t' = None \<and>
    (case r of Exists \<Rightarrow> tmap_lk t k \<noteq> None \<and> t' = t
     | Inserted \<Rightarrow> tmap_lk t k = None \<and> tmap_lk t' = (tmap_lk t)(k \<mapsto> v) \<and>
         (\<exists>i j. chain_empty (drop (rt_bin t k) (rt_table t)) 0 = Some (i, j) \<and>
            unat (hops_lk (rt_table t' ! rt_bin t k)) = max (unat (hops_lk (rt_table t ! rt_bin t k))) i)
     | Again \<Rightarrow> False
     | Emergency \<Rightarrow> tmap_lk t k = None \<and> t' = t \<and>
         (\<forall>i j. chain_empty (drop (rt_bin t k) (rt_table t)) 0 = Some (i, j) \<longrightarrow> CLHT_LINKED_MAX_EXPANSIONS_HARD < i))"
proof -
  let ?b = "rt_bin t k" and ?cs = "rt_table t"
  let ?bs = "drop ?b ?cs"
  note sh = shape_lkD [OF tinv_lkD(1) [OF t]] and inv = tinv_lkD [OF t] and hops = tinv_lk_hops [OF t, of k]
  have hd: "hd ?bs = ?cs ! ?b" using sh(3) [of k] by (simp add: hd_drop_conv_nth)
  have ok: "\<forall>b\<in>set ?bs. bucket_ok b" using cells_ok [OF inv(3)] by (auto dest: in_set_dropD)
  have w: "unat (hops_lk (hd ?bs)) < length ?bs" using hops by (simp add: hd)
  from put_round_lk_law [OF free_lk_drop [OF inv(2)] ok w sh(4), of k v] obtain r bs' where
    p: "put_round_lk ?bs k v = Done (r, bs')" and
    c: "if bucket_exists_lk ?bs k then r = Exists \<and> bs' = ?bs
      else (r = Emergency \<and> bs' = ?bs \<and>
         (\<forall>i j. chain_empty ?bs 0 = Some (i, j) \<longrightarrow> CLHT_LINKED_MAX_EXPANSIONS_HARD < i)) \<or>
       (r = Inserted \<and> (\<exists>i j n. chain_empty ?bs 0 = Some (i, j) \<and> n = max (unat (hops_lk (hd ?bs))) i \<and> bs' = write_slot (set_hops_lk ?bs n) i j k v \<and> i \<le> n \<and> n < length ?bs \<and>
          n < 2 ^ 32 \<and> unat (hops_lk (hd ?bs)) \<le> n \<and> j < ENTRIES_PER_BUCKET \<and> key (?bs ! i) ! j = 0))"
    by blast
  have put: "put_table_lk t k v = Done (r, t\<lparr>rt_table := take ?b ?cs @ bs'\<rparr>)"
    by (simp add: put_table_lk_def Let_def bin_lk p)
  note ex = get_table_lk(2) [OF t k]
  consider (same) "r = Exists" "bs' = ?bs" "tmap_lk t k \<noteq> None"
    | (emergency) "r = Emergency" "bs' = ?bs" "tmap_lk t k = None"
      "\<forall>i j. chain_empty ?bs 0 = Some (i, j) \<longrightarrow> CLHT_LINKED_MAX_EXPANSIONS_HARD < i"
    | (ins) i j n where "r = Inserted" "tmap_lk t k = None" "bs' = write_slot (set_hops_lk ?bs n) i j k v"
      "i \<le> n" "n < length ?bs" "n < 2 ^ 32" "unat (hops_lk (?cs ! ?b)) \<le> n" "j < ENTRIES_PER_BUCKET" "key (?bs ! i) ! j = 0"
      "chain_empty ?bs 0 = Some (i, j)" "n = max (unat (hops_lk (?cs ! ?b))) i"
    using c ex unfolding hd by (auto split: if_splits)
  then show ?thesis
  proof cases
    case same
    with put t inv(1) show ?thesis by (auto simp: shape_lk_def)
  next
    case emergency
    with put t inv(1) show ?thesis by (auto simp: shape_lk_def)
  next
    case ins
    have i: "?b + i < length ?cs" "?b + n < length ?cs" "key (?cs ! (?b + i)) ! j = 0" using ins by auto
    have cs': "take ?b ?cs @ bs' = inserted_lk ?cs ?b n i j k v"
      using inserted_lk_eq [OF sh(3) [of k] i(1)] ins(3) by simp
    have none: "chain_map ?cs k = None" using ins(2) by (simp add: tmap_lk_def)
    note law = inserted_lk_law [OF inv(3) refl sh(1,2) k none ins(7) i(2) ins(6,4,8) i(3), of v]
    have "tinv_lk (t\<lparr>rt_table := take ?b ?cs @ bs'\<rparr>)"
      by (rule tinv_lk_update [OF t _ _ law(1)])
        (simp_all add: cs' inserted_lk_free [OF sh(3) [of k] i(1) inv(2)])
    moreover have "unat (hops_lk (inserted_lk ?cs ?b n i j k v ! ?b)) = n"
      using inserted_lk_nth(1) [OF sh(3) [of k] i(1)] sh(3) [of k] ins(6)
      by (simp add: unat_of_nat take_bit_nat_eq_self)
    ultimately show ?thesis using put ins(1,2,10,11) law(2) inv(1)
      by (auto simp: tmap_lk_def cs' shape_lk_def)
  qed
qed

lemma put_table_lk_law:
  assumes "tinv_lk t" and "k \<noteq> 0"
  shows "\<exists>r t'. put_table_lk t k v = Done (r, t') \<and> tinv_lk t' \<and> rt_table_new t' = None \<and>
    (case r of Exists \<Rightarrow> tmap_lk t k \<noteq> None \<and> t' = t
     | Inserted \<Rightarrow> tmap_lk t k = None \<and> tmap_lk t' = (tmap_lk t)(k \<mapsto> v)
     | Again \<Rightarrow> False
     | Emergency \<Rightarrow> tmap_lk t k = None \<and> t' = t)"
proof -
  from put_table_lk_slot [OF assms, of v] obtain r t' where "put_table_lk t k v = Done (r, t')" "tinv_lk t'"
    "rt_table_new t' = None" "case r of Exists \<Rightarrow> tmap_lk t k \<noteq> None \<and> t' = t
     | Inserted \<Rightarrow> tmap_lk t k = None \<and> tmap_lk t' = (tmap_lk t)(k \<mapsto> v)
     | Again \<Rightarrow> False
     | Emergency \<Rightarrow> tmap_lk t k = None \<and> t' = t"
    by (auto split: round_lk.splits) (metis round_lk.exhaust)
  then show ?thesis by blast
qed

lemma remove_table_lk_law:
  assumes t: "tinv_lk t" and k: "k \<noteq> 0"
  shows "\<exists>t'. remove_table_lk t k = Done (val_or_0 (tmap_lk t k), t') \<and> tinv_lk t' \<and>
    tmap_lk t' = (tmap_lk t)(k := None)"
proof (cases "tmap_lk t k")
  case None
  then have "(tmap_lk t)(k := None) = tmap_lk t" by auto
  with t None get_table_lk(2) [OF t k] show ?thesis by (simp add: remove_table_lk_def Let_def bin_lk)
next
  case (Some w)
  let ?b = "rt_bin t k" and ?cs = "rt_table t"
  let ?bs = "drop ?b ?cs"
  note sh = shape_lkD [OF tinv_lkD(1) [OF t]] and inv = tinv_lkD [OF t] and hops = tinv_lk_hops [OF t, of k]
  have hd: "hd ?bs = ?cs ! ?b" using sh(3) [of k] by (simp add: hd_drop_conv_nth)
  let ?n = "Suc (unat (hops_lk (hd ?bs)))"
  have n: "?n \<le> length ?bs" using hops by (simp add: hd)
  have e: "bucket_exists_lk ?bs k" using get_table_lk(2) [OF t k] Some by simp
  then have "bucket_exists (take ?n ?bs) k" by (simp add: bucket_exists_lk_def window_lk_def)
  from remove_scan_free [OF free_lk_drop [OF inv(2)] n this] obtain i j bs' l where
    r: "remove_scan_lk ?bs ?n k = Done (Inr (val (?bs ! i) ! j), bs', l)" and
    rel: "lock_release_n bs' l = ?bs[i := (?bs ! i)\<lparr>key := (key (?bs ! i))[j := 0]\<rparr>]" and
    i: "i < ?n" "j < ENTRIES_PER_BUCKET" "key (?bs ! i) ! j = k" by blast
  have bi: "?b + i < length ?cs" using i(1) n by auto
  have cs': "take ?b ?cs @ lock_release_n bs' l = cleared_lk ?cs (?b + i) j"
    using take_drop_update [of ?b ?cs] sh(3) [of k] bi by (simp add: rel cleared_lk_def)
  have kk: "key (?cs ! (?b + i)) ! j = k" using i(3) bi by simp
  note law = cleared_lk_law [OF inv(3) bi i(2) kk k]
  have "tinv_lk (t\<lparr>rt_table := cleared_lk ?cs (?b + i) j\<rparr>)"
  proof (rule tinv_lk_update [OF t _ _ law(1)])
    show "free_lk (cleared_lk ?cs (?b + i) j)"
      using inv(2) bi unfolding free_lk_def cleared_lk_def
      by (auto dest!: set_update_subset_insert [THEN subsetD])
  qed (simp_all add: cleared_lk_def)
  moreover have "remove_table_lk t k = Done (val (?cs ! (?b + i)) ! j, t\<lparr>rt_table := cleared_lk ?cs (?b + i) j\<rparr>)"
    using r bi by (simp add: remove_table_lk_def Let_def bin_lk e cs')
  ultimately show ?thesis using law(2,3) by (simp add: tmap_lk_def)
qed

section \<open>Copying into a new table\<close>

lemma chain_empty_full:
  assumes "chain_empty bs h = Some (h', j)" and "\<forall>b\<in>set bs. bucket_ok b"
  shows "length (chain_entries (take (h' - h) bs)) = ENTRIES_PER_BUCKET * (h' - h)"
  using assms
proof (induction bs arbitrary: h)
  case (Cons b bs)
  show ?case
  proof (cases "find_key b 0")
    case None
    with Cons.prems(1) have e: "chain_empty bs (Suc h) = Some (h', j)" by simp
    have "0 \<notin> set (key b)" using None Cons.prems(2) by (simp add: find_key_None)
    then have "filter (\<lambda>k. k \<noteq> 0) (key b) = key b" by (simp add: filter_id_conv) metis
    then have "length (bucket_entries b) = ENTRIES_PER_BUCKET"
      using bucket_keys [of b] Cons.prems(2) by (metis bucket_ok_def length_map list.set_intros(1))
    moreover obtain d where "h' = Suc h + d" using chain_empty_Some [OF e] le_Suc_ex by blast
    ultimately show ?thesis using Cons.IH [OF e] Cons.prems(2) by simp
  next
    case (Some i)
    with Cons.prems(1) show ?thesis by simp
  qed
qed simp

lemma chain_entries_part:
  "length (chain_entries (take n bs)) \<le> length (chain_entries bs)"
  "length (chain_entries (drop n bs)) \<le> length (chain_entries bs)"
proof -
  have "length (chain_entries bs) = length (chain_entries (take n bs @ drop n bs))" by simp
  then show "length (chain_entries (take n bs)) \<le> length (chain_entries bs)"
    "length (chain_entries (drop n bs)) \<le> length (chain_entries bs)"
    unfolding chain_entries_simps(3) length_append by simp_all
qed

definition small_hops_lk :: "bucket_lk list \<Rightarrow> bool" where
  "small_hops_lk cs \<longleftrightarrow> (\<forall>b\<in>set cs. unat (hops_lk b) < 2 ^ 31)"

text \<open>\<open>int diff = tr - bucket_first->hops\<close> has the sign of the difference when both are small.\<close>

lemma diff_sign:
  fixes a :: u32
  assumes "x < 2 ^ 31" and "unat a < 2 ^ 31"
  shows "0 <s of_nat x - a \<longleftrightarrow> unat a < x"
proof -
  have "of_nat x - a = (word_of_int (int x - int (unat a)) :: u32)" by simp
  then have "sint (of_nat x - a) = signed_take_bit 31 (int x - int (unat a))"
    by (simp only: sint_sbintrunc') simp
  also have "\<dots> = int x - int (unat a)"
  proof (rule signed_take_bit_int_eq_self)
    have "x < 2147483648" "unat a < 2147483648" using assms by simp_all
    then have "int x < 2147483648" "int (unat a) < 2147483648" by linarith+
    moreover have "(2 :: int) ^ 31 = 2147483648" by simp
    ultimately show "- (2 ^ 31) \<le> int x - int (unat a)" "int x - int (unat a) < 2 ^ 31" by linarith+
  qed
  finally have "sint (of_nat x - a) = int x - int (unat a)" .
  moreover have "0 <s of_nat x - a \<longleftrightarrow> 0 < sint (of_nat x - a)" by (simp add: word_sless_alt)
  moreover have "0 < int x - int (unat a) \<longleftrightarrow> unat a < x" by linarith
  ultimately show ?thesis by (simp only:)
qed

text \<open>A table under construction: the number of its keys, those still to come included, has 32 bits.\<close>

definition filling_lk :: "u64 set \<Rightarrow> table_lk \<Rightarrow> bool" where
  "filling_lk K t \<longleftrightarrow> tinv_lk t \<and> small_hops_lk (rt_table t) \<and> dom (tmap_lk t) \<subseteq> K \<and> card K < 2 ^ 32"

definition same_but_expands :: "table_lk \<Rightarrow> table_lk \<Rightarrow> bool" where
  "same_but_expands t t' \<longleftrightarrow> t'\<lparr>rt_table := [], rt_num_expands := 0\<rparr> = t\<lparr>rt_table := [], rt_num_expands := 0\<rparr>"

lemma put_seq_lk_slot:
  assumes t: "tinv_lk t" and card: "card (dom (tmap_lk t)) < 2 ^ 32" and small: "small_hops_lk (rt_table t)"
    and p: "clht_put_seq_lk t k v (clht_hash_lk t k) = Done t'"
  obtains tr j where "rt_bin t k + tr < length (rt_table t)" and "j < ENTRIES_PER_BUCKET"
    and "key (rt_table t ! (rt_bin t k + tr)) ! j = 0" and "tr < 2 ^ 31"
    and "chain_empty (drop (rt_bin t k) (rt_table t)) 0 = Some (tr, j)"
    and "rt_table t' = inserted_lk (rt_table t) (rt_bin t k) (max tr (unat (hops_lk (rt_table t ! rt_bin t k)))) tr j k v"
    and "same_but_expands t t'"
proof -
  let ?b = "rt_bin t k" and ?cs = "rt_table t"
  let ?bs = "drop ?b ?cs"
  note sh = shape_lkD [OF tinv_lkD(1) [OF t]] and inv = tinv_lkD [OF t]
  from p obtain tr j where e: "chain_empty ?bs 0 = Some (tr, j)"
    by (auto simp: clht_put_seq_lk_def Let_def bin_lk split: option.splits)
  have hd: "hd ?bs = ?cs ! ?b" and ne: "?bs \<noteq> []" using sh(3) [of k] by (auto simp: hd_drop_conv_nth)
  from chain_empty_Some [OF e] have s: "?b + tr < length ?cs" "j < ENTRIES_PER_BUCKET" "key (?cs ! (?b + tr)) ! j = 0"
    by auto
  have "\<forall>b\<in>set ?bs. bucket_ok b" using cells_ok [OF inv(3)] by (auto dest: in_set_dropD)
  from chain_empty_full [OF e this] have "3 * tr = length (chain_entries (take tr ?bs))"
    by (simp add: ENTRIES_PER_BUCKET_def)
  also have "\<dots> \<le> length (chain_entries ?cs)"
    using chain_entries_part(1) [of tr ?bs] chain_entries_part(2) [of ?b ?cs] by (rule le_trans)
  also have "\<dots> < 2 ^ 32"
    using card inv(3) chain_size_card [of ?cs] chain_size_entries [OF cells_ok [OF inv(3)]]
    by (simp add: tmap_lk_def cells_inv_def)
  finally have tr: "tr < 2 ^ 31" by simp
  let ?h = "unat (hops_lk (?cs ! ?b))"
  have "?h < 2 ^ 31" using small sh(3) [of k] by (simp add: small_hops_lk_def)
  note sign = diff_sign [OF tr this]
  have w0: "set_hops_lk (write_slot ?bs tr j k v) tr = write_slot (set_hops_lk ?bs tr) tr j k v"
    by (cases tr; cases ?bs) (auto simp: set_hops_lk_def write_slot_def Let_def)
  have keep: "write_slot ?bs tr j k v = write_slot (set_hops_lk ?bs ?h) tr j k v"
    using set_hops_same [OF ne] by (simp add: hd)
  have "rt_table t' = take ?b ?cs @ write_slot (set_hops_lk ?bs (max tr ?h)) tr j k v"
  proof (cases "?h < tr")
    case True
    with p sign show ?thesis by (auto simp: clht_put_seq_lk_def Let_def bin_lk e hd w0 max_def)
  next
    case False
    with p sign show ?thesis
      using keep by (auto simp: clht_put_seq_lk_def Let_def bin_lk e hd max_def)
  qed
  then have "rt_table t' = inserted_lk ?cs ?b (max tr ?h) tr j k v"
    using inserted_lk_eq [OF sh(3) s(1)] by simp
  moreover have "same_but_expands t t'"
    using p by (auto simp: clht_put_seq_lk_def Let_def bin_lk e same_but_expands_def)
  ultimately show thesis using s tr e by (intro that [of tr j]) auto
qed

lemma put_seq_lk_law:
  assumes f: "filling_lk K t" and k: "k \<noteq> 0 \<and> k \<in> K" "tmap_lk t k = None"
    and p: "clht_put_seq_lk t k v (clht_hash_lk t k) = Done t'"
  shows "filling_lk K t' \<and> tmap_lk t' = (tmap_lk t)(k \<mapsto> v) \<and> same_but_expands t t'"
proof -
  let ?b = "rt_bin t k" and ?cs = "rt_table t"
  let ?h = "unat (hops_lk (?cs ! ?b))"
  from f have t: "tinv_lk t" and small: "small_hops_lk ?cs" and dom: "dom (tmap_lk t) \<subseteq> K" "card K < 2 ^ 32"
    by (auto simp: filling_lk_def)
  have "card (dom (tmap_lk t)) < 2 ^ 32" using card_mono [OF _ dom(1)] dom(2) by simp
  from put_seq_lk_slot [OF t this small p] obtain tr j where
    s: "?b + tr < length ?cs" "j < ENTRIES_PER_BUCKET" "key (?cs ! (?b + tr)) ! j = 0" and tr: "tr < 2 ^ 31" and
    cs': "rt_table t' = inserted_lk ?cs ?b (max tr ?h) tr j k v" and same: "same_but_expands t t'" .
  note sh = shape_lkD [OF tinv_lkD(1) [OF t]] and inv = tinv_lkD [OF t]
  have h: "?h < 2 ^ 31" using small sh(3) [of k] by (simp add: small_hops_lk_def)
  have x: "?h \<le> max tr ?h" "?b + max tr ?h < length ?cs" "max tr ?h < 2 ^ 32" "tr \<le> max tr ?h" "max tr ?h < 2 ^ 31"
    using s(1) tinv_lk_hops [OF t, of k] tr h by auto
  have none: "chain_map ?cs k = None" using k(2) by (simp add: tmap_lk_def)
  note law = inserted_lk_law [OF inv(3) refl sh(1,2) conjunct1 [OF k(1)] none x(1-4) s(2,3), of v]
  have t': "t' = t\<lparr>rt_table := rt_table t', rt_num_expands := rt_num_expands t'\<rparr>"
    using same by (cases t; cases t') (simp add: same_but_expands_def)
  have "tinv_lk t'"
  proof (rule tinv_lk_update [OF t _ _ law(1)])
    show "t' = t\<lparr>rt_table := inserted_lk ?cs ?b (max tr ?h) tr j k v\<rparr> \<or>
      t' = t\<lparr>rt_table := inserted_lk ?cs ?b (max tr ?h) tr j k v, rt_num_expands := rt_num_expands t'\<rparr>"
      using t' unfolding cs' by (rule disjI2)
  qed (simp_all add: inserted_lk_free [OF sh(3) s(1) inv(2)])
  moreover have "small_hops_lk (rt_table t')"
    using inserted_lk_nth(1) [OF sh(3) [of k] s(1)] small x(5)
    unfolding small_hops_lk_def all_set_conv_all_nth cs'
    by (simp add: unat_of_nat take_bit_nat_eq_self)
  ultimately show ?thesis
    using law(2) dom k(1) same by (auto simp: filling_lk_def tmap_lk_def cs')
qed

end
