(* ===== verification/Clht_lb_linked_resize.thy ===== *)
theory Clht_lb_linked_resize
  imports Clht_lb_linked_map
begin

text \<open>
  Resizing of the linked table: what a resize keeps, the recursion of \<open>ht_status\<close> and
  \<open>ht_resize_pes\<close>, the contract of the whole structure, and when a copy runs off the end of the
  array: a table that is being filled has no gaps, so that the full buckets at its end hold keys of
  their own bins only.
\<close>

unbundle bit_operations_syntax

interpretation lk_copy: copy_target "filling_lk K" tmap_lk "\<lambda>k v. k \<noteq> 0 \<and> k \<in> K"
  "\<lambda>k v t. clht_put_seq_lk t k v (clht_hash_lk t k)" bucket_cpy_loop_lk same_but_expands for K
proof unfold_locales
  fix t t' k v
  assume "filling_lk K t" "k \<noteq> 0 \<and> k \<in> K" "tmap_lk t k = None" "clht_put_seq_lk t k v (clht_hash_lk t k) = Done t'"
  then show "filling_lk K t' \<and> tmap_lk t' = (tmap_lk t)(k \<mapsto> v) \<and> same_but_expands t t'"
    by (rule put_seq_lk_law)
qed (simp_all add: same_but_expands_def Let_def)

lemma copy_buckets_lk_eq:
  "free_lk bs \<Longrightarrow> copy_buckets_lk bs t =
    bind_outcome (bucket_cpy_loop_lk (chain_entries bs) t) (\<lambda>t'. Done (map (\<lambda>b. b\<lparr>lock := LOCK_RESIZE\<rparr>) bs, t'))"
proof (induction bs arbitrary: t)
  case (Cons b bs)
  have l: "lock b = LOCK_FREE" and f: "free_lk bs" using Cons.prems by (simp_all add: free_lk_def)
  show ?case
  proof (cases "bucket_cpy_loop_lk (bucket_entries b) t")
    case (Done u)
    then show ?thesis
      using Cons.IH [OF f, of u]
      by (cases "bucket_cpy_loop_lk (chain_entries bs) u")
        (simp_all add: bucket_cpy_lk_def acq_resize_lk_free l lk_copy.loop_append)
  qed (simp_all add: bucket_cpy_lk_def acq_resize_lk_free l lk_copy.loop_append)
qed simp

lemma linked_no_wrap:
  fixes n :: u32
  shows "n + of_nat CLHT_LINKED_MAX_EXPANSIONS_HARD < n \<longleftrightarrow> 2 ^ 32 \<le> unat n + CLHT_LINKED_MAX_EXPANSIONS_HARD"
proof -
  have "unat (n + of_nat CLHT_LINKED_MAX_EXPANSIONS_HARD) = (unat n + 16) mod 2 ^ 32"
    by (simp add: unat_word_ariths CLHT_LINKED_MAX_EXPANSIONS_HARD_def)
  also have "\<dots> = (if unat n + 16 < 2 ^ 32 then unat n + 16 else unat n + 16 - 2 ^ 32)"
    using unat_bound [of n] by (simp add: mod_if)
  finally show ?thesis
    using unat_bound [of n] by (simp add: word_less_nat_alt CLHT_LINKED_MAX_EXPANSIONS_HARD_def)
qed

lemma new_table_lk:
  fixes n :: u32 and g :: fresh_block
  assumes "n \<noteq> 0" and "unat n + CLHT_LINKED_MAX_EXPANSIONS_HARD < 2 ^ 32"
  defines "t \<equiv> new_table_lk n g"
  shows "tinv_lk t" and "tmap_lk t = Map.empty" and "small_hops_lk (rt_table t)" and "rt_num_buckets t = ucast n"
proof -
  obtain g0 g1 g2 where g: "g = (g0, g1, g2)" by (cases g)
  let ?cs = "rt_table t"
  have cell: "\<exists>vs. b = empty_bucket_lk vs \<and> length vs = ENTRIES_PER_BUCKET" if "b \<in> set ?cs" for b
    using that by (auto simp: t_def new_table_lk_def Let_def g ENTRIES_PER_BUCKET_def)
  have nb: "unat (rt_num_buckets t) = unat n" by (simp add: t_def new_table_lk_def Let_def unat_ucast_u32)
  have len: "length ?cs = unat n + CLHT_LINKED_MAX_EXPANSIONS_HARD" by (simp add: t_def new_table_lk_def Let_def)
  have hash: "rt_hash t = rt_num_buckets t - 1"
    using assms(1) by (simp add: t_def new_table_lk_def Let_def word_unat_eq_iff unat_ucast_u32 unat_pred)
  have "rt_num_buckets t \<noteq> 0" using assms(1) nb by (metis unat_eq_zero)
  with assms(2) nb len hash have sh: "shape_lk t" by (simp add: shape_lk_def) (simp add: t_def new_table_lk_def Let_def)
  have es: "bucket_entries b = []" if "b \<in> set ?cs" for b
    using cell [OF that] by (auto simp: bucket_entries_def empty_bucket_lk_def filter_empty_conv dest: set_zip_leftD)
  then have e: "chain_entries ?cs = []" by (simp add: chain_entries_def)
  then show "tmap_lk t = Map.empty" by (simp add: tmap_lk_def chain_map_def)
  have ok: "\<forall>b\<in>set ?cs. bucket_ok b \<and> lock b = LOCK_FREE \<and> hops_lk b = 0 \<and> (\<forall>k\<in>set (key b). k = 0)"
    using cell by (fastforce simp: bucket_ok_def empty_bucket_lk_def)
  then show "small_hops_lk ?cs" by (simp add: small_hops_lk_def)
  have "?cs \<noteq> []" using len by (auto simp: CLHT_LINKED_MAX_EXPANSIONS_HARD_def)
  then have "cells_inv (rt_bin t) (unat (rt_num_buckets t)) ?cs"
    using ok e len nb by (auto simp: cells_inv_def chain_inv_def chain_ok_def in_window_lk_def CLHT_LINKED_MAX_EXPANSIONS_HARD_def)
  with sh ok show "tinv_lk t" by (simp add: tinv_lk_def free_lk_def)
  show "rt_num_buckets t = ucast n" by (simp add: t_def new_table_lk_def Let_def)
qed

lemma create_lk_Some:
  assumes "clht_hashtable_create_lk n m = Done (Some t, m')"
  obtains g where "t = new_table_lk n g" and "n \<noteq> 0" and "unat n + CLHT_LINKED_MAX_EXPANSIONS_HARD < 2 ^ 32"
    and "live m' = live m + 2"
  using assms linked_no_wrap [of n]
  by (auto simp: clht_hashtable_create_lk_def memalign_def Let_def split: if_splits option.splits list.splits)

lemma tinv_lk_header: "tinv_lk (t\<lparr>rt_version := x, rt_threshold := y\<rparr>) = tinv_lk t"
  "tinv_lk (t\<lparr>rt_table_prev := z\<rparr>) = tinv_lk t"
  by (simp_all add: tinv_lk_def shape_lk_def rt_bin_def [abs_def])

section \<open>Resizing\<close>

definition inv_lk :: "u64 set \<Rightarrow> clht_lk \<Rightarrow> bool" where
  "inv_lk K h \<longleftrightarrow> rc_ht h < length (rc_tables h) \<and> tinv_lk (cur_table h) \<and>
     dom (tmap_lk (cur_table h)) \<subseteq> K \<and> card K < 2 ^ 32"

definition map_lk :: "clht_lk \<Rightarrow> kv" where
  "map_lk h = tmap_lk (cur_table h)"

lemma inv_lk_locks [simp]:
  "inv_lk K (h\<lparr>rc_resize_lock := l\<rparr>) = inv_lk K h" "inv_lk K (h\<lparr>rc_status_lock := l\<rparr>) = inv_lk K h"
  "map_lk (h\<lparr>rc_resize_lock := l\<rparr>) = map_lk h" "map_lk (h\<lparr>rc_status_lock := l\<rparr>) = map_lk h"
  by (simp_all add: inv_lk_def map_lk_def cur_table_def)

lemma copied_lk:
  assumes t: "tinv_lk t" and K: "dom (tmap_lk t) \<subseteq> K" "card K < 2 ^ 32"
    and new: "clht_hashtable_create_lk n m = Done (Some u, m')"
    and c: "copy_buckets_lk (rt_table t) (u\<lparr>rt_version := x, rt_threshold := y\<rparr>) = Done (bs, u')"
  shows "tinv_lk u' \<and> tmap_lk u' = tmap_lk t \<and> small_hops_lk (rt_table u') \<and>
    same_but_expands (u\<lparr>rt_version := x, rt_threshold := y\<rparr>) u'"
proof -
  let ?es = "chain_entries (rt_table t)" and ?u = "u\<lparr>rt_version := x, rt_threshold := y\<rparr>"
  obtain g where g: "u = new_table_lk n g" "n \<noteq> 0" "unat n + CLHT_LINKED_MAX_EXPANSIONS_HARD < 2 ^ 32"
    using create_lk_Some [OF new] .
  note nt = new_table_lk [OF g(2,3), of g, folded g(1)]
  have u: "tmap_lk ?u = Map.empty" using nt(2) by (simp add: tmap_lk_def)
  have f: "filling_lk K ?u" using nt K by (simp add: filling_lk_def tinv_lk_header u)
  note ti = tinv_lkD [OF t]
  have d: "distinct (map fst ?es)" using ti(3) by (simp add: cells_inv_def chain_inv_def)
  have sub: "fst ` set ?es \<subseteq> K" using K(1) by (simp add: tmap_lk_def dom_chain_map)
  have zero: "0 \<notin> fst ` set ?es" using zero_no_entry by force
  have kes: "\<forall>k\<in>fst ` set ?es. k \<noteq> 0 \<and> k \<in> K"
  proof
    fix k
    assume k: "k \<in> fst ` set ?es"
    moreover from k zero have "k \<noteq> 0" by (cases "k = 0") (simp only:, simp only: simp_thms)
    ultimately show "k \<noteq> 0 \<and> k \<in> K" using subsetD [OF sub k] by (intro conjI)
  qed
  from c have "bucket_cpy_loop_lk ?es ?u = Done u'"
    by (auto simp: copy_buckets_lk_eq [OF ti(2)] bind_outcome_Done_iff)
  from lk_copy.loop_law [OF f all_fst_entries [OF kes] d _ this] u have
    l: "filling_lk K u'" "tmap_lk u' = Map.empty ++ map_of ?es" "same_but_expands ?u u'" by simp_all
  then have "tmap_lk u' = tmap_lk t" by (simp add: tmap_lk_def [of t] chain_map_def)
  with l(1,3) show ?thesis by (simp add: filling_lk_def)
qed

lemma resize_table_lk_Done:
  assumes "resize_table_lk ts h is_increase by m = Done (r, again, h', m')"
  shows "(\<exists>l. h' = h\<lparr>rc_resize_lock := l\<rparr>) \<or>
    (\<exists>n u x y bs u'. clht_hashtable_create_lk n m = Done (Some u, m') \<and>
       copy_buckets_lk (rt_table (cur_table h)) (u\<lparr>rt_version := x, rt_threshold := y\<rparr>) = Done (bs, u') \<and>
       (\<exists>l. h' = swap_table_lk (h\<lparr>rc_resize_lock := l\<rparr>) bs u'))"
  using assms
  by (fastforce simp: resize_table_lk_def Let_def bind_outcome_Done_iff clht_gc_collect_def cur_table_def
      split: prod.splits option.splits if_splits)

lemma swap_table_lk:
  "rc_ht (swap_table_lk h bs u) = length (rc_tables h)"
  "rc_tables (swap_table_lk h bs u) ! rc_ht (swap_table_lk h bs u) = u\<lparr>rt_table_prev := Some (rc_ht h)\<rparr>"
  "rc_ht (swap_table_lk h bs u) < length (rc_tables (swap_table_lk h bs u))"
  by (simp_all add: swap_table_lk_def Let_def nth_append)

lemma resize_table_lk_law:
  assumes i: "inv_lk K h" and r: "resize_table_lk ts h is_increase by m = Done (r, again, h', m')"
  shows "inv_lk K h' \<and> map_lk h' = map_lk h"
  using resize_table_lk_Done [OF r]
proof (elim disjE exE conjE)
  fix l
  assume "h' = h\<lparr>rc_resize_lock := l\<rparr>"
  with i show ?thesis by simp
next
  fix n u x y bs u' l
  assume c: "clht_hashtable_create_lk n m = Done (Some u, m')"
    "copy_buckets_lk (rt_table (cur_table h)) (u\<lparr>rt_version := x, rt_threshold := y\<rparr>) = Done (bs, u')"
    and h': "h' = swap_table_lk (h\<lparr>rc_resize_lock := l\<rparr>) bs u'"
  from i have "tinv_lk (cur_table h)" "dom (tmap_lk (cur_table h)) \<subseteq> K" "card K < 2 ^ 32" by (auto simp: inv_lk_def)
  from copied_lk [OF this c] have u: "tinv_lk u'" "tmap_lk u' = tmap_lk (cur_table h)" by simp_all
  have cur: "cur_table h' = u'\<lparr>rt_table_prev := Some (rc_ht h)\<rparr>" "rc_ht h' < length (rc_tables h')"
    unfolding h' cur_table_def using swap_table_lk [of "h\<lparr>rc_resize_lock := l\<rparr>" bs u'] by simp_all
  have "tmap_lk (cur_table h') = tmap_lk (cur_table h)" by (simp add: cur(1)) (simp add: tmap_lk_def u(2) [unfolded tmap_lk_def])
  with cur u i show ?thesis by (simp add: inv_lk_def map_lk_def tinv_lk_header)
qed

section \<open>\<open>ht_status\<close> and \<open>clht_put\<close>\<close>

text \<open>A call that returns keeps the invariant and the content, however deep the recursion.\<close>

definition keeps_lk :: "u64 set \<Rightarrow> clht_lk \<Rightarrow> ('r \<times> clht_lk \<times> mem) outcome \<Rightarrow> bool" where
  "keeps_lk K h out \<longleftrightarrow> (case out of Done (_, h', _) \<Rightarrow> inv_lk K h \<longrightarrow> inv_lk K h' \<and> map_lk h' = map_lk h | _ \<Rightarrow> True)"

lemma keeps_lkD: "keeps_lk K h (Done (n, h', m')) \<Longrightarrow> inv_lk K h \<Longrightarrow> inv_lk K h' \<and> map_lk h' = map_lk h"
  by (simp add: keeps_lk_def)

lemma ht_status_lk_law: "ht_status_lk ts h inc em prt m = Some out \<Longrightarrow> keeps_lk K h out"
proof (rule ht_status_lk.raw_induct [where P = "\<lambda>ts h inc em prt m out. keeps_lk K h out"])
  fix f ts h inc em prt m out
  assume rec: "\<And>ts h inc em prt m out. f ts h inc em prt m = Some out \<Longrightarrow> keeps_lk K h out"
    and body: "(let (taken, l) = TRYLOCK_ACQ (rc_status_lock h); h = h\<lparr>rc_status_lock := l\<rparr>
      in if taken \<and> \<not> inc then Some (Done (0, h, m))
         else let t = cur_table h; size_now = (if em \<noteq> 0 then 0 else of_nat (elems_lk t))
              in case (if em \<noteq> 0 then Some (True, pow2roundup em)
                       else if prt then None else status_decision_lk t inc) of
                   None \<Rightarrow> Some (Done (size_now, h\<lparr>rc_status_lock := LOCK_FREE\<rparr>, m))
                 | Some (is_increase, by) \<Rightarrow>
                     (case bind_outcome (clht_gc_get_id ts h)
                             (\<lambda>_. resize_table_lk ts h is_increase by m) of
                        Spins \<Rightarrow> Some Spins
                      | Faults \<Rightarrow> Some Faults
                      | Done (_, again, h, m) \<Rightarrow>
                          Option.bind
                            (if again then f ts h True 0 False m else Some (Done (0, h, m)))
                            (\<lambda>out. Some (bind_outcome out
                               (\<lambda>(_, h, m). Done (size_now, (snd (clht_gc_collect h))\<lparr>rc_status_lock := LOCK_FREE\<rparr>, m))))))
      = Some out"
  define ht where "ht = h\<lparr>rc_status_lock := snd (TRYLOCK_ACQ (rc_status_lock h))\<rparr>"
  define w where "w = (if em \<noteq> 0 then Some (True, pow2roundup em) else if prt then None
    else status_decision_lk (cur_table ht) inc)"
  note body' = body [unfolded Let_def case_prod_beta, folded ht_def, folded w_def]
  have ht: "keeps_lk K h (Done (n, ht\<lparr>rc_status_lock := l\<rparr>, m'))" "keeps_lk K h (Done (n, ht, m'))" for n l m'
    by (simp_all add: keeps_lk_def ht_def)
  show "keeps_lk K h out"
  proof (cases "(fst (TRYLOCK_ACQ (rc_status_lock h)) \<and> \<not> inc) \<or> w = None")
    case True
    with body' ht show ?thesis by (auto split: if_splits)
  next
    case False
    then obtain d b where w: "w = Some (d, b)" by auto
    from False have go: "(fst (TRYLOCK_ACQ (rc_status_lock h)) \<and> \<not> inc) = False" by blast
    define z where "z = bind_outcome (clht_gc_get_id ts ht) (\<lambda>_. resize_table_lk ts ht d b m)"
    show ?thesis
    proof (cases z)
      case (Done y)
      obtain r again u m2 where y: "y = (r, again, u, m2)" by (cases y) simp
      from Done y have "resize_table_lk ts ht d b m = Done (r, again, u, m2)"
        by (auto simp: z_def bind_outcome_Done_iff)
      from resize_table_lk_law [OF _ this] have u: "inv_lk K h \<Longrightarrow> inv_lk K u \<and> map_lk u = map_lk h"
        by (simp add: ht_def)
      obtain out2 where o: "(if again then f ts u True 0 False m2 else Some (Done (0, u, m2))) = Some out2"
        and out: "out = bind_outcome out2 (\<lambda>x. Done (if em \<noteq> 0 then 0 else of_nat (elems_lk (cur_table ht)),
          (snd (clht_gc_collect (fst (snd x))))\<lparr>rc_status_lock := LOCK_FREE\<rparr>, snd (snd x)))"
        using body' Done by (simp only: go if_False) (auto simp: w z_def [symmetric] y bind_eq_Some_conv cong: if_cong)
      have "keeps_lk K u out2" using o rec by (auto simp: keeps_lk_def split: if_splits)
      with u out show ?thesis by (cases out2) (auto simp: keeps_lk_def clht_gc_collect_def)
    qed (use body' in \<open>simp_all only: go if_False, simp_all add: w z_def [symmetric] keeps_lk_def\<close>)
  qed
qed

definition put_keeps_lk :: "u64 set \<Rightarrow> clht_lk \<Rightarrow> u64 \<Rightarrow> u64 \<Rightarrow> (bool \<times> clht_lk \<times> mem) outcome \<Rightarrow> bool" where
  "put_keeps_lk K h k v out \<longleftrightarrow> (case out of
     Done (r, h', m') \<Rightarrow> inv_lk K h \<longrightarrow> k \<noteq> 0 \<longrightarrow> k \<in> K \<longrightarrow> inv_lk K h' \<and> r = (map_lk h k = None) \<and>
       map_lk h' = (if r then (map_lk h)(k \<mapsto> v) else map_lk h)
   | _ \<Rightarrow> True)"

lemma put_keeps_lk_after:
  assumes "inv_lk K h \<Longrightarrow> inv_lk K u \<and> map_lk u = map_lk h" and "put_keeps_lk K u k v out"
  shows "put_keeps_lk K h k v out"
  using assms by (auto simp: put_keeps_lk_def split: outcome.splits)

lemma set_table_lk:
  assumes "inv_lk K h" and "tinv_lk t" and "dom (tmap_lk t) \<subseteq> K"
  shows "inv_lk K (set_table (rc_ht h) t h) \<and> map_lk (set_table (rc_ht h) t h) = tmap_lk t"
  using assms by (simp add: inv_lk_def map_lk_def set_table_def cur_table_def)

lemma put_again_lk_law: "put_again_lk ts h k v m = Some out \<Longrightarrow> put_keeps_lk K h k v out"
proof (rule put_again_lk.raw_induct [where P = "\<lambda>ts h k v m out. put_keeps_lk K h k v out"])
  fix f ts h k v m out
  assume rec: "\<And>ts h k v m out. f ts h k v m = Some out \<Longrightarrow> put_keeps_lk K h k v out"
    and body: "(case put_table_lk (cur_table h) k v of
        Done (r, t) \<Rightarrow>
          (let p = rc_ht h; bin = unat (clht_hash_lk (cur_table h) k); h = set_table p t h
           in case r of
                Exists \<Rightarrow> Some (Done (False, h, m))
              | Inserted \<Rightarrow>
                  (if CLHT_LINKED_MAX_EXPANSIONS < unat (hops_lk (rt_table t ! bin))
                   then Option.bind (ht_status_lk ts h False 0 False m)
                          (\<lambda>out. Some (bind_outcome out (\<lambda>(_, h, m). Done (True, h, m))))
                   else Some (Done (True, h, m)))
              | Again \<Rightarrow>
                  (if rt_table_new t = None then Some Spins else f ts h k v m)
              | Emergency \<Rightarrow>
                  Option.bind (ht_status_lk ts h False CLHT_LINKED_EMERGENCY_RESIZE False m)
                    (\<lambda>out. case out of
                        Done (_, h, m) \<Rightarrow>
                          (if rt_table_new (rc_tables h ! p) = None then Some Spins
                           else f ts h k v m)
                      | Spins \<Rightarrow> Some Spins
                      | Faults \<Rightarrow> Some Faults))
      | Spins \<Rightarrow> Some Spins | Faults \<Rightarrow> Some Faults) = Some out"
  show "put_keeps_lk K h k v out"
  proof (cases "inv_lk K h \<and> k \<noteq> 0 \<and> k \<in> K")
    case True
    then have t: "tinv_lk (cur_table h)" and d: "dom (tmap_lk (cur_table h)) \<subseteq> K" and k: "k \<in> K" "k \<noteq> 0"
      by (auto simp: inv_lk_def)
    from put_table_lk_law [OF t k(2), of v] obtain r t' where p: "put_table_lk (cur_table h) k v = Done (r, t')"
      and t': "tinv_lk t'" and c: "case r of Exists \<Rightarrow> tmap_lk (cur_table h) k \<noteq> None \<and> t' = cur_table h
       | Inserted \<Rightarrow> tmap_lk (cur_table h) k = None \<and> tmap_lk t' = (tmap_lk (cur_table h))(k \<mapsto> v)
       | Again \<Rightarrow> False
       | Emergency \<Rightarrow> tmap_lk (cur_table h) k = None \<and> t' = cur_table h" by blast
    define u where "u = set_table (rc_ht h) t' h"
    have dk: "dom (tmap_lk t') \<subseteq> K" using c d k by (cases r) auto
    with set_table_lk [of K h t'] True t' have u: "inv_lk K u" "map_lk u = tmap_lk t'" by (simp_all add: u_def)
    note body' = body [unfolded p outcome.case prod.case Let_def, folded u_def]
    note mh = map_lk_def [of h]
    show ?thesis
    proof (cases r)
      case Exists
      with body' c u True show ?thesis by (auto simp: put_keeps_lk_def mh)
    next
      case Inserted
      have "case out of Done (b, h', m') \<Rightarrow> b \<and> inv_lk K h' \<and> map_lk h' = map_lk u | _ \<Rightarrow> True"
      proof (cases "CLHT_LINKED_MAX_EXPANSIONS < unat (hops_lk (rt_table t' ! unat (clht_hash_lk (cur_table h) k)))")
        case True
        with body' obtain o1 where s: "ht_status_lk ts u False 0 False m = Some o1"
          and o: "out = bind_outcome o1 (\<lambda>(_, h, m). Done (True, h, m))"
          by (auto simp: Inserted bind_eq_Some_conv)
        from ht_status_lk_law [OF s, of K] u(1) show ?thesis
          unfolding o by (cases o1) (auto simp: keeps_lk_def)
      next
        case False
        with body' u(1) show ?thesis by (auto simp: Inserted)
      qed
      with c u(2) show ?thesis
        by (auto simp: Inserted put_keeps_lk_def mh split: outcome.splits)
    next
      case Again
      with c show ?thesis by simp
    next
      case Emergency
      with c u(2) have hu: "map_lk u = map_lk h" by (simp add: mh)
      from body' obtain out1 where s: "ht_status_lk ts u False CLHT_LINKED_EMERGENCY_RESIZE False m = Some out1"
        and o: "(case out1 of
                        Done (_, h', m) \<Rightarrow>
                          (if rt_table_new (rc_tables h' ! rc_ht h) = None then Some Spins
                           else f ts h' k v m)
                      | Spins \<Rightarrow> Some Spins
                      | Faults \<Rightarrow> Some Faults) = Some out"
        by (auto simp: Emergency bind_eq_Some_conv)
      note kp = ht_status_lk_law [OF s, of K]
      show ?thesis
      proof (cases out1)
        case (Done y)
        obtain n w m2 where y: "y = (n, w, m2)" by (cases y) simp
        from keeps_lkD [OF kp [unfolded Done y] u(1)] have w: "inv_lk K w \<and> map_lk w = map_lk h" using hu by simp
        from o have "out = Spins \<or> f ts w k v m2 = Some out" by (auto simp: Done y split: if_splits)
        then show ?thesis
        proof
          assume "f ts w k v m2 = Some out"
          from rec [OF this] show ?thesis by (rule put_keeps_lk_after [rotated]) (rule w)
        qed (simp add: put_keeps_lk_def)
      qed (use o in \<open>auto simp: put_keeps_lk_def\<close>)
    qed
  qed (auto simp: put_keeps_lk_def split: outcome.splits)
qed

section \<open>The store\<close>

interpretation lk_store: kv_store "inv_lk K" map_lk "\<lambda>h. clht_get_lk (cur_table h)"
  "clht_put_lk ts" clht_remove_lk "\<lambda>k. k \<noteq> 0 \<and> k \<in> K" "\<lambda>_. True" for K ts
proof unfold_locales
  fix h :: clht_lk and k :: u64
  assume i: "inv_lk K h" and k: "k \<noteq> 0 \<and> k \<in> K"
  then have t: "tinv_lk (cur_table h)" and d: "dom (tmap_lk (cur_table h)) \<subseteq> K" by (simp_all add: inv_lk_def)
  from get_table_lk(1) [OF t] k show "clht_get_lk (cur_table h) k = val_or_0 (map_lk h k)" by (simp add: map_lk_def)
  from remove_table_lk_law [OF t] k obtain t' where
    r: "remove_table_lk (cur_table h) k = Done (val_or_0 (map_lk h k), t')" "tinv_lk t'"
      "tmap_lk t' = (map_lk h)(k := None)" by (auto simp: map_lk_def)
  with d have "dom (tmap_lk t') \<subseteq> K" by (auto simp: map_lk_def)
  with set_table_lk [OF i r(2)] r show "\<exists>t. clht_remove_lk h k = Done (val_or_0 (map_lk h k), t) \<and> inv_lk K t \<and>
      map_lk t = (map_lk h)(k := None)" by (simp add: clht_remove_lk_def)
next
  fix h k v m r h' m'
  assume i: "inv_lk K h" "k \<noteq> 0 \<and> k \<in> K" and p: "clht_put_lk ts h k v m = Done (r, h', m')"
  from p have "put_again_lk ts h k v m = Some (Done (r, h', m'))" by (auto simp: clht_put_lk_def split: option.splits)
  from put_again_lk_law [OF this, of K] i show "inv_lk K h' \<and> r = (map_lk h k = None) \<and>
    map_lk h' = (if r then (map_lk h)(k \<mapsto> v) else map_lk h)" by (simp add: put_keeps_lk_def)
qed

section \<open>Capacity\<close>

lemma bucket_entries_at_most: "bucket_ok b \<Longrightarrow> length (bucket_entries b) \<le> ENTRIES_PER_BUCKET"
  using bucket_keys [of b] length_filter_le [of "\<lambda>k. k \<noteq> 0" "key b"] by (metis bucket_ok_def length_map)

lemma chain_entries_at_most: "\<forall>b\<in>set bs. bucket_ok b \<Longrightarrow> length (chain_entries bs) \<le> ENTRIES_PER_BUCKET * length bs"
proof (induction bs)
  case (Cons b bs)
  with bucket_entries_at_most [of b] show ?case by simp
qed simp

text \<open>The keys whose bin is \<open>s\<close> or later are in the buckets from \<open>s\<close> on.\<close>

lemma tail_capacity:
  assumes t: "tinv_lk t"
  shows "card {k \<in> dom (tmap_lk t). s \<le> rt_bin t k} \<le> ENTRIES_PER_BUCKET * (length (rt_table t) - s)"
proof -
  let ?cs = "rt_table t"
  note inv = tinv_lkD(3) [OF t]
  have sub: "{k \<in> dom (tmap_lk t). s \<le> rt_bin t k} \<subseteq> fst ` set (chain_entries (drop s ?cs))"
  proof
    fix k
    assume "k \<in> {k \<in> dom (tmap_lk t). s \<le> rt_bin t k}"
    then obtain v where k: "(k, v) \<in> set (chain_entries ?cs)" and b: "s \<le> rt_bin t k"
      by (auto simp: tmap_lk_def chain_map_def dest: map_of_SomeD)
    from k obtain i where i: "i < length ?cs" "(k, v) \<in> set (bucket_entries (?cs ! i))" by (auto simp: in_chain_entries)
    then have "k \<noteq> 0" "k \<in> set (key (?cs ! i))" by (auto simp: bucket_entries_def dest: set_zip_leftD)
    with inv i(1) b have "s \<le> i" by (fastforce simp: cells_inv_def in_window_lk_def)
    then have "drop s ?cs ! (i - s) = ?cs ! i" "i - s < length (drop s ?cs)" using i(1) by auto
    with i(2) have "(k, v) \<in> set (chain_entries (drop s ?cs))" unfolding in_chain_entries by metis
    then show "k \<in> fst ` set (chain_entries (drop s ?cs))" by force
  qed
  have "card {k \<in> dom (tmap_lk t). s \<le> rt_bin t k} \<le> card (fst ` set (chain_entries (drop s ?cs)))"
    by (rule card_mono [OF _ sub]) simp
  also have "\<dots> \<le> length (chain_entries (drop s ?cs))"
    using card_image_le [of "set (chain_entries (drop s ?cs))" fst] card_length by (meson List.finite_set le_trans)
  also have "\<dots> \<le> ENTRIES_PER_BUCKET * length (drop s ?cs)"
    using cells_ok [OF inv] by (intro chain_entries_at_most) (auto dest: in_set_dropD)
  finally show ?thesis by simp
qed

section \<open>A resize that cannot succeed\<close>

lemma loop_lk_not_spins: "bucket_cpy_loop_lk es t \<noteq> Spins"
  by (rule lk_copy.loop_not_spins) (simp add: clht_put_seq_lk_def Let_def split: option.splits)

definition new_buckets_lk :: "clht_lk \<Rightarrow> bool \<Rightarrow> u32 \<Rightarrow> u32" where
  "new_buckets_lk h is_increase by = ucast (if is_increase then scast by * rt_num_buckets (cur_table h)
     else rt_num_buckets (cur_table h) div CLHT_RATIO_HALVE_lk)"

lemma cur_table_resize_lock: "cur_table (h\<lparr>rc_resize_lock := l\<rparr>) = cur_table h"
  by (simp add: cur_table_def)

lemma resize_lk_crowded:
  fixes h inc d
  defines "n \<equiv> new_buckets_lk h inc d"
  assumes i: "inv_lk K h" and free: "rc_resize_lock h = LOCK_FREE"
    and crowd: "ENTRIES_PER_BUCKET * (unat n + CLHT_LINKED_MAX_EXPANSIONS_HARD - s) <
      card {k \<in> dom (map_lk h). s \<le> unat (mask_bin (ucast n - 1 :: u64) k)}"
  shows "resize_table_lk ts h inc d m = Faults"
proof (cases "\<exists>u m1. clht_hashtable_create_lk n m = Done (Some u, m1)")
  case False
  then show ?thesis
    by (auto simp: resize_table_lk_def Let_def free n_def new_buckets_lk_def clht_hashtable_create_lk_def cur_table_def
      collect_trylock split: if_splits option.splits prod.splits outcome.splits)
next
  case True
  then obtain u m1 where c: "clht_hashtable_create_lk n m = Done (Some u, m1)" by blast
  let ?u = "u\<lparr>rt_version := rt_version (cur_table h) + 1, rt_threshold := ucast (rt_num_buckets (cur_table h))\<rparr>"
  have t: "tinv_lk (cur_table h)" "dom (tmap_lk (cur_table h)) \<subseteq> K" "card K < 2 ^ 32" using i by (auto simp: inv_lk_def)
  have "copy_buckets_lk (rt_table (cur_table h)) ?u = Faults"
  proof (cases "copy_buckets_lk (rt_table (cur_table h)) ?u")
    case Spins
    with tinv_lkD(2) [OF t(1)] loop_lk_not_spins show ?thesis by (simp add: copy_buckets_lk_eq bind_outcome_Spins_iff)
  next
    case (Done r)
    obtain bs u' where r: "r = (bs, u')" by (cases r)
    from copied_lk [OF t c] Done r have u': "tinv_lk u'" "tmap_lk u' = map_lk h" "same_but_expands ?u u'"
      by (simp_all add: map_lk_def)
    from create_lk_Some [OF c] obtain g where g: "u = new_table_lk n g" "n \<noteq> 0"
      "unat n + CLHT_LINKED_MAX_EXPANSIONS_HARD < 2 ^ 32" .
    note nt = new_table_lk [OF g(2,3), of g, folded g(1)]
    have sh: "rt_num_buckets u' = ucast n" using u'(3) nt(4) by (cases u'; cases u) (simp add: same_but_expands_def)
    have l: "rt_hash u' = ucast n - 1" "length (rt_table u') = unat n + CLHT_LINKED_MAX_EXPANSIONS_HARD"
      using tinv_lkD(1) [OF u'(1)] by (simp_all add: shape_lk_def sh unat_ucast_u32)
    from tail_capacity [OF u'(1), of s] crowd show ?thesis by (simp add: u'(2) l rt_bin_def)
  qed
  with c show ?thesis
    by (cases inc) (simp_all add: resize_table_lk_def Let_def free n_def new_buckets_lk_def cur_table_resize_lock collect_trylock)
qed


section \<open>When a copy succeeds\<close>

text \<open>
  While a new table is filled there are no gaps: the buckets between a key's bin and the bucket it is
  in are full.
\<close>

definition full_lk :: "bucket_lk \<Rightarrow> bool" where
  "full_lk b \<longleftrightarrow> 0 \<notin> set (key b)"

definition gapless_lk :: "table_lk \<Rightarrow> bool" where
  "gapless_lk t \<longleftrightarrow> (\<forall>i<length (rt_table t). \<forall>k\<in>set (key (rt_table t ! i)). k \<noteq> 0 \<longrightarrow>
     (\<forall>m. rt_bin t k \<le> m \<and> m < i \<longrightarrow> full_lk (rt_table t ! m)))"

definition roomy_lk :: "u64 set \<Rightarrow> table_lk \<Rightarrow> bool" where
  "roomy_lk K t \<longleftrightarrow> finite K \<and>
     (\<forall>s. card {k \<in> K. s \<le> rt_bin t k} \<le> ENTRIES_PER_BUCKET * (length (rt_table t) - s))"

lemma chain_empty_None: "\<forall>b\<in>set bs. bucket_ok b \<Longrightarrow> chain_empty bs h = None \<longleftrightarrow> (\<forall>b\<in>set bs. full_lk b)"
proof (induction bs arbitrary: h)
  case (Cons b bs)
  have ok: "bucket_ok b" using Cons.prems by simp
  show ?case
  proof (cases "find_key b 0")
    case None
    with find_key_None [OF ok, of 0] Cons show ?thesis by (simp add: full_lk_def)
  next
    case (Some j)
    then have "find_key b 0 \<noteq> None" by simp
    with Some find_key_None [OF ok, of 0] show ?thesis by (simp add: full_lk_def)
  qed
qed simp

lemma full_bucket_entries: "bucket_ok b \<Longrightarrow> full_lk b \<Longrightarrow> length (bucket_entries b) = ENTRIES_PER_BUCKET"
proof -
  assume ok: "bucket_ok b" and f: "full_lk b"
  from f have "filter (\<lambda>k. k \<noteq> 0) (key b) = key b" by (auto simp: full_lk_def filter_id_conv)
  then show ?thesis using bucket_keys [of b] ok by (metis bucket_ok_def length_map)
qed

lemma full_chain_entries:
  "\<forall>b\<in>set bs. bucket_ok b \<and> full_lk b \<Longrightarrow> length (chain_entries bs) = ENTRIES_PER_BUCKET * length bs"
proof (induction bs)
  case (Cons b bs)
  with full_bucket_entries [of b] show ?case by simp
qed simp

text \<open>The full buckets at the end of the array hold the keys of their own bins only.\<close>

lemma full_tail_keys:
  assumes t: "tinv_lk t" and g: "gapless_lk t" and b: "b \<le> length (rt_table t)"
    and full: "\<forall>i. b \<le> i \<and> i < length (rt_table t) \<longrightarrow> full_lk (rt_table t ! i)"
  obtains s where "s \<le> b" and "card {k \<in> dom (tmap_lk t). s \<le> rt_bin t k} = ENTRIES_PER_BUCKET * (length (rt_table t) - s)"
proof -
  let ?cs = "rt_table t"
  let ?F = "\<lambda>s. \<forall>i. s \<le> i \<and> i < length ?cs \<longrightarrow> full_lk (?cs ! i)"
  define s where "s = (LEAST s. ?F s)"
  have F: "?F s" unfolding s_def by (rule LeastI [of ?F b]) (rule full)
  have sb: "s \<le> b" unfolding s_def by (rule Least_le) (rule full)
  let ?d = "drop s ?cs"
  note inv = tinv_lkD(3) [OF t]
  have ok: "\<forall>b\<in>set ?d. bucket_ok b \<and> full_lk b"
  proof
    fix c
    assume "c \<in> set ?d"
    then obtain i where "i < length ?d" "c = ?d ! i" by (auto simp: in_set_conv_nth)
    then show "bucket_ok c \<and> full_lk c" using F cells_ok [OF inv] by (auto simp: algebra_simps)
  qed
  have di: "distinct (map fst (chain_entries ?d))"
    using inv chain_entries_simps(3) [of "take s ?cs" ?d]
    by (auto simp: cells_inv_def chain_inv_def simp del: chain_entries_simps)
  have "fst ` set (chain_entries ?d) \<subseteq> {k \<in> dom (tmap_lk t). s \<le> rt_bin t k}"
  proof
    fix k
    assume "k \<in> fst ` set (chain_entries ?d)"
    then obtain v i where i: "i < length ?d" "(k, v) \<in> set (bucket_entries (?d ! i))" by (auto simp: in_chain_entries)
    then have si: "s + i < length ?cs" "(k, v) \<in> set (bucket_entries (?cs ! (s + i)))" by auto
    then have kk: "k \<noteq> 0" "k \<in> set (key (?cs ! (s + i)))" by (auto simp: bucket_entries_def dest: set_zip_leftD)
    have "s \<le> rt_bin t k"
    proof (rule ccontr)
      assume lt: "\<not> s \<le> rt_bin t k"
      then have m: "rt_bin t k \<le> s - 1" "s - 1 < s + i" "0 < s" by auto
      from g si(1) kk m(1,2) have f: "full_lk (?cs ! (s - 1))" unfolding gapless_lk_def by blast
      have "?F (s - 1)"
      proof (intro allI impI)
        fix j
        assume "s - 1 \<le> j \<and> j < length ?cs"
        then show "full_lk (?cs ! j)" using F f by (cases "j = s - 1") auto
      qed
      then have "s \<le> s - 1" unfolding s_def by (rule Least_le)
      with lt show False by simp
    qed
    moreover have "(k, v) \<in> set (chain_entries ?cs)" using si unfolding in_chain_entries by blast
    from imageI [OF this, of fst] have "k \<in> dom (tmap_lk t)" unfolding tmap_lk_def dom_chain_map by simp
    ultimately show "k \<in> {k \<in> dom (tmap_lk t). s \<le> rt_bin t k}" by (intro CollectI conjI)
  qed
  then have "card (fst ` set (chain_entries ?d)) \<le> card {k \<in> dom (tmap_lk t). s \<le> rt_bin t k}"
    by (intro card_mono) (simp_all add: tmap_lk_def finite_dom_chain_map)
  moreover have "card (fst ` set (chain_entries ?d)) = ENTRIES_PER_BUCKET * (length ?cs - s)"
    using full_chain_entries [OF ok] distinct_card [OF di] by simp
  ultimately show thesis using tail_capacity [OF t, of s] sb by (intro that [of s]) simp_all
qed

lemma put_seq_lk_total:
  assumes "filling_lk K t" and "gapless_lk t" and room: "roomy_lk K t" and "k \<noteq> 0 \<and> k \<in> K" and "tmap_lk t k = None"
  shows "\<exists>t'. clht_put_seq_lk t k v (clht_hash_lk t k) = Done t'"
proof (rule ccontr)
  assume n: "\<not> ?thesis"
  let ?b = "rt_bin t k" and ?cs = "rt_table t"
  have t: "tinv_lk t" and dom: "dom (tmap_lk t) \<subseteq> K" using assms(1) by (simp_all add: filling_lk_def)
  note sh = shape_lkD [OF tinv_lkD(1) [OF t]]
  from n have "chain_empty (drop ?b ?cs) 0 = None"
    by (auto simp: clht_put_seq_lk_def Let_def bin_lk split: option.splits)
  moreover have "\<forall>b\<in>set (drop ?b ?cs). bucket_ok b" using cells_ok [OF tinv_lkD(3) [OF t]] by (auto dest: in_set_dropD)
  ultimately have f: "\<forall>b\<in>set (drop ?b ?cs). full_lk b" by (simp add: chain_empty_None)
  have "\<forall>i. ?b \<le> i \<and> i < length ?cs \<longrightarrow> full_lk (?cs ! i)"
  proof (intro allI impI)
    fix i
    assume "?b \<le> i \<and> i < length ?cs"
    then have "?cs ! i = drop ?b ?cs ! (i - ?b)" "i - ?b < length (drop ?b ?cs)" by auto
    with f show "full_lk (?cs ! i)" by (metis nth_mem)
  qed
  from full_tail_keys [OF t assms(2) less_imp_le [OF sh(3)] this] obtain s where
    s: "s \<le> ?b" "card {k \<in> dom (tmap_lk t). s \<le> rt_bin t k} = ENTRIES_PER_BUCKET * (length ?cs - s)" .
  let ?D = "{k \<in> dom (tmap_lk t). s \<le> rt_bin t k}"
  have "insert k ?D \<subseteq> {k \<in> K. s \<le> rt_bin t k}" using dom assms(4) s(1) by auto
  moreover have "k \<notin> ?D" "finite ?D" using assms(5) by (auto simp: tmap_lk_def finite_dom_chain_map)
  ultimately have "Suc (card ?D) \<le> card {k \<in> K. s \<le> rt_bin t k}"
    using card_mono [of "{k \<in> K. s \<le> rt_bin t k}" "insert k ?D"] room by (simp add: roomy_lk_def)
  moreover have "card {k \<in> K. s \<le> rt_bin t k} \<le> ENTRIES_PER_BUCKET * (length ?cs - s)"
    using room by (simp add: roomy_lk_def)
  ultimately show False using s(2) by simp
qed

lemma same_but_expandsD:
  assumes "same_but_expands t t'"
  shows "rt_bin t' = rt_bin t" and "rt_num_buckets t' = rt_num_buckets t"
  using assms by (cases t; cases t'; simp add: same_but_expands_def rt_bin_def fun_eq_iff)+

lemma full_lk_write: "full_lk b \<Longrightarrow> key b' = (key b)[j := k] \<Longrightarrow> k \<noteq> 0 \<Longrightarrow> full_lk b'"
  unfolding full_lk_def using set_update_subset_insert [of "key b" j k] by auto

lemma put_seq_lk_gapless:
  assumes f: "filling_lk K t" and g: "gapless_lk t" and k: "k \<noteq> 0 \<and> k \<in> K" "tmap_lk t k = None"
    and p: "clht_put_seq_lk t k v (clht_hash_lk t k) = Done t'"
  shows "gapless_lk t'"
proof -
  let ?b = "rt_bin t k" and ?cs = "rt_table t" and ?cs' = "rt_table t'"
  from f have t: "tinv_lk t" and small: "small_hops_lk ?cs" and dom: "dom (tmap_lk t) \<subseteq> K" "card K < 2 ^ 32"
    by (auto simp: filling_lk_def)
  have "card (dom (tmap_lk t)) < 2 ^ 32" using card_mono [OF _ dom(1)] dom(2) by simp
  from put_seq_lk_slot [OF t this small p] obtain tr j where
    s: "?b + tr < length ?cs" "j < ENTRIES_PER_BUCKET" and z: "chain_empty (drop ?b ?cs) 0 = Some (tr, j)" and
    cs': "?cs' = inserted_lk ?cs ?b (max tr (unat (hops_lk (?cs ! ?b)))) tr j k v" and same: "same_but_expands t t'" .
  note sh = shape_lkD [OF tinv_lkD(1) [OF t]]
  have len: "length ?cs' = length ?cs" by (simp add: cs')
  have key: "key (?cs' ! i) = (if i = ?b + tr then (key (?cs ! i))[j := k] else key (?cs ! i))" if "i < length ?cs" for i
    using inserted_lk_nth(2) [OF sh(3) s(1) that] by (simp add: cs')
  have still: "full_lk (?cs' ! i)" if "i < length ?cs" "full_lk (?cs ! i)" for i
  proof (cases "i = ?b + tr")
    case True
    with key [OF that(1)] have "key (?cs' ! i) = (key (?cs ! i))[j := k]" by simp
    from full_lk_write [OF that(2) this] k(1) show ?thesis by blast
  next
    case False
    with key [OF that(1)] that(2) show ?thesis by (simp add: full_lk_def)
  qed
  have before: "full_lk (?cs ! i)" if "?b \<le> i" "i < ?b + tr" for i
  proof -
    have "drop ?b ?cs ! (i - ?b) = ?cs ! i" "i - ?b < tr" "i - ?b < length (drop ?b ?cs)" using that s(1) by auto
    with chain_empty_near [of "i - ?b" "drop ?b ?cs"] z have "find_key (?cs ! i) 0 = None" by fastforce
    moreover have "bucket_ok (?cs ! i)" using cells_ok [OF tinv_lkD(3) [OF t]] that s(1) by simp
    ultimately show ?thesis by (simp add: find_key_None full_lk_def)
  qed
  show ?thesis unfolding gapless_lk_def len same_but_expandsD(1) [OF same]
  proof (intro allI impI ballI)
    fix i k' m
    assume i: "i < length ?cs" and k': "k' \<in> set (key (?cs' ! i))" "k' \<noteq> 0" and m: "rt_bin t k' \<le> m \<and> m < i"
    then have ml: "m < length ?cs" by simp
    show "full_lk (?cs' ! m)"
    proof (cases "k' \<in> set (key (?cs ! i))")
      case True
      with g i k'(2) m have "full_lk (?cs ! m)" unfolding gapless_lk_def by blast
      with still [OF ml] show ?thesis .
    next
      case False
      with k'(1) key [OF i] have "i = ?b + tr" "k' = k"
        using set_update_subset_insert [of "key (?cs ! i)" j k] by (auto split: if_splits)
      with before m have "full_lk (?cs ! m)" by blast
      with still [OF ml] show ?thesis .
    qed
  qed
qed

text \<open>A table to be filled with keys from \<open>K\<close>, all of which have room.\<close>

definition roomy_filling_lk :: "u64 set \<Rightarrow> table_lk \<Rightarrow> bool" where
  "roomy_filling_lk K t \<longleftrightarrow> filling_lk K t \<and> gapless_lk t \<and> roomy_lk K t"

interpretation lk_room: copy_total "roomy_filling_lk K" tmap_lk "\<lambda>k v. k \<noteq> 0 \<and> k \<in> K"
  "\<lambda>k v t. clht_put_seq_lk t k v (clht_hash_lk t k)" bucket_cpy_loop_lk same_but_expands for K
proof unfold_locales
  fix t t' k v
  assume a: "roomy_filling_lk K t" "k \<noteq> 0 \<and> k \<in> K" "tmap_lk t k = None"
  show "\<exists>t'. clht_put_seq_lk t k v (clht_hash_lk t k) = Done t'"
    using a put_seq_lk_total [of K t k v] by (simp add: roomy_filling_lk_def)
  assume p: "clht_put_seq_lk t k v (clht_hash_lk t k) = Done t'"
  from a(1) have f: "filling_lk K t" by (simp add: roomy_filling_lk_def)
  note l = put_seq_lk_law [OF f a(2,3) p]
  have "length (rt_table t') = length (rt_table t)"
    using tinv_lkD(1) [of t] tinv_lkD(1) [of t'] f l same_but_expandsD(2) [of t t']
    by (simp add: filling_lk_def shape_lk_def)
  with a p l show "roomy_filling_lk K t' \<and> tmap_lk t' = (tmap_lk t)(k \<mapsto> v) \<and> same_but_expands t t'"
    using put_seq_lk_gapless [OF f] same_but_expandsD(1) [of t t'] by (auto simp: roomy_filling_lk_def roomy_lk_def)
qed (simp_all add: same_but_expands_def Let_def)

section \<open>When a resize succeeds\<close>

definition overcrowded_lk :: "clht_lk \<Rightarrow> u32 \<Rightarrow> nat \<Rightarrow> bool" where
  "overcrowded_lk h n s \<longleftrightarrow> ENTRIES_PER_BUCKET * (unat n + CLHT_LINKED_MAX_EXPANSIONS_HARD - s) <
     card {k \<in> dom (map_lk h). s \<le> unat (mask_bin (ucast n - 1 :: u64) k)}"

lemma new_table_gapless: "gapless_lk (new_table_lk n g)"
  by (auto simp: gapless_lk_def new_table_lk_def Let_def empty_bucket_lk_def nth_append split: prod.splits if_splits)

lemma create_lk_ready:
  assumes "n \<noteq> 0" and "unat n + CLHT_LINKED_MAX_EXPANSIONS_HARD < 2 ^ 32" and "ready 2 m"
  shows "\<exists>u m'. clht_hashtable_create_lk n m = Done (Some u, m')"
proof -
  from assms(3) have "ready (Suc (Suc 0)) m" by (simp add: numeral_2_eq_2)
  from ready_Suc_memalign [OF this] obtain g1 m1 where 1: "memalign m = (Some g1, m1)" "ready (Suc 0) m1" by blast
  from ready_Suc_memalign [OF 1(2)] obtain g2 m2 where 2: "memalign m1 = (Some g2, m2)" by blast
  have "\<not> n + of_nat CLHT_LINKED_MAX_EXPANSIONS_HARD < n" using assms(2) unfolding linked_no_wrap by simp
  with 1 2 assms(1) show ?thesis by (simp add: clht_hashtable_create_lk_def Let_def)
qed

lemma resize_lk_uncrowded:
  fixes h inc d
  defines "n \<equiv> new_buckets_lk h inc d"
  assumes i: "inv_lk K h" and free: "rc_resize_lock h = LOCK_FREE" and ts: "ts \<noteq> None"
    and n: "n \<noteq> 0" "unat n + CLHT_LINKED_MAX_EXPANSIONS_HARD < 2 ^ 32" and m: "ready 2 m"
    and room: "\<And>s. \<not> overcrowded_lk h n s"
  shows "\<exists>again h' m'. resize_table_lk ts h inc d m = Done (True, again, h', m')"
proof -
  obtain id where ts: "ts = Some id" using ts by blast
  from create_lk_ready [OF n m] obtain u m1 where c: "clht_hashtable_create_lk n m = Done (Some u, m1)" by blast
  from create_lk_Some [OF c] obtain g where g: "u = new_table_lk n g" .
  note nt = new_table_lk [OF n, of g, folded g]
  let ?D = "dom (map_lk h)" and ?es = "chain_entries (rt_table (cur_table h))"
  let ?u = "u\<lparr>rt_version := rt_version (cur_table h) + 1, rt_threshold := ucast (rt_num_buckets (cur_table h))\<rparr>"
  have t: "tinv_lk (cur_table h)" "?D \<subseteq> K" "card K < 2 ^ 32" using i by (auto simp: inv_lk_def map_lk_def)
  have fin: "finite ?D" by (simp add: map_lk_def tmap_lk_def finite_dom_chain_map)
  have "card ?D < 2 ^ 32" using card_mono [OF _ t(2)] t(3) by simp
  have u: "tmap_lk ?u = Map.empty" using nt(2) by (simp add: tmap_lk_def)
  have f: "filling_lk ?D ?u" using nt \<open>card ?D < 2 ^ 32\<close> by (simp add: filling_lk_def tinv_lk_header u)
  have bin: "rt_bin ?u k = unat (mask_bin (ucast n - 1 :: u64) k)" "length (rt_table ?u) = unat n + CLHT_LINKED_MAX_EXPANSIONS_HARD" for k
    using tinv_lkD(1) [OF nt(1)] nt(4) by (simp_all add: rt_bin_def shape_lk_def unat_ucast_u32)
  have "gapless_lk ?u" using new_table_gapless [of n g] by (simp add: g gapless_lk_def rt_bin_def)
  moreover have "roomy_lk ?D ?u" using room fin unfolding roomy_lk_def bin overcrowded_lk_def not_less by blast
  ultimately have "roomy_filling_lk ?D ?u" using f by (simp add: roomy_filling_lk_def)
  moreover have "\<forall>k\<in>fst ` set ?es. k \<noteq> 0 \<and> k \<in> ?D"
    using chain_map_0 [of "rt_table (cur_table h)"]
    by (auto simp: map_lk_def tmap_lk_def dom_chain_map) (metis domIff dom_chain_map fst_conv image_eqI)
  moreover have "distinct (map fst ?es)" using tinv_lkD(3) [OF t(1)] by (simp add: cells_inv_def chain_inv_def)
  ultimately obtain u' where "bucket_cpy_loop_lk ?es ?u = Done u'"
    using lk_room.loop_total [of ?D ?u ?es, OF _ all_fst_entries] by (auto simp: u)
  then have "copy_buckets_lk (rt_table (cur_table h)) ?u =
      Done (map (\<lambda>b. b\<lparr>lock := LOCK_RESIZE\<rparr>) (rt_table (cur_table h)), u')"
    by (simp add: copy_buckets_lk_eq [OF tinv_lkD(2) [OF t(1)]])
  with c show ?thesis
    by (cases inc) (simp_all add: resize_table_lk_def Let_def free n_def new_buckets_lk_def cur_table_resize_lock
      collect_trylock ts clht_gc_get_id_def)
qed

lemma unat_p2_u64: "c < 64 \<Longrightarrow> unat (2 ^ c :: u64) = 2 ^ c"
  using unat_of_nat_u64 [of "2 ^ c"] power_strict_increasing [of c 64 "2 :: nat"] by simp

lemma power_split:
  assumes "a \<le> c"
  shows "\<exists>e. (2 :: nat) ^ c = 2 ^ a + e * 2 ^ a"
proof -
  from assms obtain b where "c = a + b" using le_Suc_ex by blast
  moreover have "(2 :: nat) ^ b = Suc (2 ^ b - 1)" by simp
  ultimately have "(2 :: nat) ^ c = 2 ^ a + (2 ^ b - 1) * 2 ^ a" by (metis mult.commute mult_Suc power_add)
  then show ?thesis by blast
qed

lemma mod_top:
  fixes x :: nat
  assumes "e * n \<le> x" and "x < n + e * n"
  shows "x mod n = x - e * n"
proof -
  obtain y where "x = y + e * n" using assms(1) le_Suc_ex by (metis add.commute)
  with assms(2) show ?thesis by simp
qed

lemma grown_not_overcrowded:
  assumes i: "inv_lk K h" and a: "rt_num_buckets (cur_table h) = 2 ^ a" "unat n = 2 ^ c" and ac: "a \<le> c" "c < 32"
  shows "\<not> overcrowded_lk h n s"
proof -
  let ?t = "cur_table h" and ?D = "dom (map_lk h)" and ?H = CLHT_LINKED_MAX_EXPANSIONS_HARD
  have t: "tinv_lk ?t" and D: "?D = dom (tmap_lk ?t)" using i by (auto simp: inv_lk_def map_lk_def)
  have fin: "finite ?D" by (simp add: D tmap_lk_def finite_dom_chain_map)
  have n: "ucast n = (2 ^ c :: u64)" using a(2) ac(2) by (simp add: word_unat_eq_iff unat_ucast_u32 unat_p2_u64)
  have nb: "unat (rt_num_buckets ?t) = 2 ^ a" using a(1) ac by (simp add: unat_p2_u64)
  have len: "length (rt_table ?t) = 2 ^ a + ?H" using tinv_lkD(1) [OF t] by (simp add: shape_lk_def nb)
  have bin: "rt_bin ?t k = unat k mod 2 ^ a" "unat (mask_bin (ucast n - 1 :: u64) k) = unat k mod 2 ^ c" for k
    using tinv_lkD(1) [OF t] ac mask_bin_mod [of a k] mask_bin_mod [of c k] by (simp_all add: rt_bin_def shape_lk_def a(1) n)
  let ?C = "{k \<in> ?D. s \<le> unat k mod 2 ^ c}"
  have pow: "(2 :: nat) ^ a \<le> 2 ^ c" using ac by simp
  have all: "card ?D \<le> ENTRIES_PER_BUCKET * (2 ^ a + ?H)"
    using tail_capacity [OF t, of 0] by (simp add: D len)
  have "card ?C \<le> ENTRIES_PER_BUCKET * (2 ^ c + ?H - s)"
  proof (cases "2 ^ c - 2 ^ a \<le> s")
    case False
    have "card ?C \<le> card ?D" using fin by (intro card_mono) auto
    also note all
    also have "ENTRIES_PER_BUCKET * (2 ^ a + ?H) \<le> ENTRIES_PER_BUCKET * (2 ^ c + ?H - s)"
      using False pow by (intro mult_le_mono2) linarith
    finally show ?thesis .
  next
    case True
    let ?s = "s - (2 ^ c - 2 ^ a)"
    have "?C \<subseteq> {k \<in> dom (tmap_lk ?t). ?s \<le> rt_bin ?t k}"
    proof
      fix k
      assume k: "k \<in> ?C"
      obtain e where e: "2 ^ c = (2 :: nat) ^ a + e * 2 ^ a" using power_split [OF ac(1)] by blast
      let ?x = "unat k mod 2 ^ c"
      have x: "?x < 2 ^ c" "s \<le> ?x" using k by simp_all
      have "?x mod 2 ^ a = unat k mod 2 ^ a" using ac(1) by (simp add: mod_mod_cancel le_imp_power_dvd)
      moreover have "?x mod 2 ^ a = ?x - e * 2 ^ a"
        using mod_top [of e "2 ^ a" ?x] x True e by simp
      ultimately show "k \<in> {k \<in> dom (tmap_lk ?t). ?s \<le> rt_bin ?t k}" using k x e by (simp add: bin D) linarith
    qed
    then have "card ?C \<le> card {k \<in> dom (tmap_lk ?t). ?s \<le> rt_bin ?t k}" using fin by (intro card_mono) (simp_all add: D)
    also have "\<dots> \<le> ENTRIES_PER_BUCKET * (2 ^ a + ?H - ?s)" using tail_capacity [OF t] by (simp add: len)
    also have "2 ^ a + ?H - ?s \<le> 2 ^ c + ?H - s" using True pow by linarith
    finally show ?thesis by (simp add: mult_le_mono2)
  qed
  then show ?thesis by (simp add: overcrowded_lk_def bin a(2) not_less)
qed

text \<open>Creation faults when the bucket count and the extra buckets do not fit into 32 bits.\<close>

lemma create_lk_faults:
  fixes n :: u32
  assumes "n \<noteq> 0" and "ready 2 m"
  shows "clht_hashtable_create_lk n m = Faults \<longleftrightarrow> 2 ^ 32 \<le> unat n + CLHT_LINKED_MAX_EXPANSIONS_HARD"
proof -
  from assms(2) have "ready (Suc (Suc 0)) m" by (simp add: numeral_2_eq_2)
  from ready_Suc_memalign [OF this] obtain g1 m1 where 1: "memalign m = (Some g1, m1)" "ready (Suc 0) m1" by blast
  from ready_Suc_memalign [OF 1(2)] obtain g2 m2 where 2: "memalign m1 = (Some g2, m2)" by blast
  show ?thesis unfolding linked_no_wrap [symmetric] using 1 2 assms(1) by (simp add: clht_hashtable_create_lk_def Let_def)
qed

section \<open>Properties\<close>

text \<open>
  C33. A run of lookups, insertions and removals on a well-formed linked table with keys other than 0
  that returns gives the answers and the final content of the abstract map, whatever resizes the
  insertions set off.
\<close>

theorem clht_lk_refines_map:
  assumes "inv_lk K h" and "\<forall>x\<in>set xs. op_key x \<noteq> 0 \<and> op_key x \<in> K"
    and "table_run (\<lambda>h. clht_get_lk (cur_table h)) (clht_put_lk ts) clht_remove_lk (h, m) xs = Done (rs, h', m')"
  shows "inv_lk K h' \<and> kv_run (map_lk h) xs = (rs, map_lk h')"
  using lk_store.run_refines [OF assms(1) _ assms(3)] assms(2) by (simp add: op_ok_any)

text \<open>
  A new key is inserted, at once and without a resize, when one of the eight buckets from its bin
  on has an empty slot and the bin's \<open>hops\<close> is not above \<open>CLHT_LINKED_MAX_EXPANSIONS\<close>.
\<close>

theorem clht_put_lk_near:
  assumes "inv_lk K h" and "k \<noteq> 0" and "k \<in> K" and "map_lk h k = None"
    and "rt_bin (cur_table h) k = bin" and "unat (hops_lk (rt_table (cur_table h) ! bin)) \<le> CLHT_LINKED_MAX_EXPANSIONS"
    and "bin + d < length (rt_table (cur_table h))" and "d \<le> CLHT_LINKED_MAX_EXPANSIONS"
    and "0 \<in> set (key (rt_table (cur_table h) ! (bin + d)))"
  shows "\<exists>h'. clht_put_lk ts h k v m = Done (True, h', m) \<and> rc_ht h' = rc_ht h \<and>
    map_lk h' = (map_lk h)(k \<mapsto> v) \<and> inv_lk K h'"
proof -
  let ?t = "cur_table h"
  let ?bs = "drop bin (rt_table ?t)"
  from assms(1) have t: "tinv_lk ?t" and d: "dom (tmap_lk ?t) \<subseteq> K" and ht: "rc_ht h < length (rc_tables h)"
    by (auto simp: inv_lk_def)
  have "find_key (?bs ! d) 0 \<noteq> None" using cells_ok [OF tinv_lkD(3) [OF t]] assms(7,9) by (simp add: find_key_None)
  moreover have "d < length ?bs" using assms(7) by simp
  ultimately obtain i j where e: "chain_empty ?bs 0 = Some (i, j)" "i \<le> d" using chain_empty_near by blast
  from put_table_lk_slot [OF t assms(2), of v] assms(4,8) e obtain t' where
    p: "put_table_lk ?t k v = Done (Inserted, t')" "tinv_lk t'" "tmap_lk t' = (tmap_lk ?t)(k \<mapsto> v)"
    and h: "unat (hops_lk (rt_table t' ! bin)) = max (unat (hops_lk (rt_table ?t ! bin))) i"
    by (fastforce simp: map_lk_def assms(5) CLHT_LINKED_MAX_EXPANSIONS_def CLHT_LINKED_MAX_EXPANSIONS_HARD_def
        split: round_lk.splits)
  have dom': "dom (tmap_lk t') \<subseteq> K" using d assms(3) by (simp add: p(3))
  let ?h = "set_table (rc_ht h) t' h"
  have "unat (hops_lk (rt_table t' ! bin)) \<le> CLHT_LINKED_MAX_EXPANSIONS" using assms(6,8) e(2) h by simp
  then have "put_again_lk ts h k v m = Some (Done (True, ?h, m))"
    by (subst put_again_lk.simps) (simp add: p(1) bin_lk assms(5) Let_def not_less)
  with set_table_lk [OF assms(1) p(2) dom'] p(3) show ?thesis
    by (simp add: clht_put_lk_def set_table_def map_lk_def)
qed

text \<open>
  C32. When the requests for memory are granted, a resize faults exactly when, for some \<open>s\<close>, more keys
  have a bin from \<open>s\<close> on in the new table than the buckets from \<open>s\<close> to the end of the array have
  slots: then \<open>clht_put_seq\<close> follows the NULL \<open>next\<close> of the last bucket.
\<close>

theorem resize_table_lk_faults_iff:
  assumes "inv_lk K h" and "rc_resize_lock h = LOCK_FREE" and "ready 2 m"
    and "new_buckets_lk h inc d \<noteq> 0" and "unat (new_buckets_lk h inc d) + CLHT_LINKED_MAX_EXPANSIONS_HARD < 2 ^ 32"
  shows "resize_table_lk (Some i) h inc d m = Faults \<longleftrightarrow> (\<exists>s. overcrowded_lk h (new_buckets_lk h inc d) s)"
proof
  assume f: "resize_table_lk (Some i) h inc d m = Faults"
  show "\<exists>s. overcrowded_lk h (new_buckets_lk h inc d) s"
  proof (rule ccontr)
    assume "\<not> ?thesis"
    with resize_lk_uncrowded [OF assms(1,2) _ assms(4,5,3), of "Some i"] f show False by auto
  qed
qed (use resize_lk_crowded [OF assms(1,2)] in \<open>auto simp: overcrowded_lk_def\<close>)

text \<open>
  A table that grows from a power of two of bins to another keeps its content and cannot run off
  the end of its array, whatever the keys.
\<close>

theorem resize_table_lk_grows:
  assumes "inv_lk K h" and "rc_resize_lock h = LOCK_FREE" and "ready 2 m"
    and "rt_num_buckets (cur_table h) = 2 ^ a" and "unat (new_buckets_lk h True d) = 2 ^ c" and "a \<le> c" and "c < 32"
  shows "\<exists>again h' m'. resize_table_lk (Some i) h True d m = Done (True, again, h', m') \<and>
    inv_lk K h' \<and> map_lk h' = map_lk h"
proof -
  have "2 ^ c \<le> (2 :: nat) ^ 31" using assms(7) by (intro power_increasing) simp_all
  then have "new_buckets_lk h True d \<noteq> 0"
    "unat (new_buckets_lk h True d) + CLHT_LINKED_MAX_EXPANSIONS_HARD < 2 ^ 32"
    using assms(5) by (auto simp: CLHT_LINKED_MAX_EXPANSIONS_HARD_def)
  from resize_lk_uncrowded [OF assms(1,2) _ this assms(3), of "Some i"]
    grown_not_overcrowded [OF assms(1,4,5,6,7)] obtain again h' m' where
    r: "resize_table_lk (Some i) h True d m = Done (True, again, h', m')" by auto
  with resize_table_lk_law [OF assms(1) r] show ?thesis by blast
qed

section \<open>Witnesses\<close>

declare put_again_lk.simps [code] ht_status_lk.simps [code]

text \<open>Two bins: the 25 odd keys fill bin 1 and seven buckets after it; the last of them sets off a resize.\<close>

definition example_lk :: clht_lk where
  "example_lk = new_rclht (new_table_lk 2 (0, 0, 0))"

definition example_ops_lk :: "kv_op list" where
  "example_ops_lk = map (\<lambda>i. Put (1 + 2 * of_nat i) (of_nat i)) [0..<25] @ [Get 7, Remove 7, Get 7, Put 9 0]"

definition example_reg_lk :: clht_lk where
  "example_reg_lk = example_lk\<lparr>rc_version_list := [\<lparr>ts_version = 0, ts_id = 0\<rparr>]\<rparr>"

definition example_keys_lk :: "u64 list" where
  "example_keys_lk = map (\<lambda>i. 7 + 8 * of_nat i) [0..<52]"

lemma example_run_lk:
  "case table_run (\<lambda>h. clht_get_lk (cur_table h)) (clht_put_lk (Some 0)) clht_remove_lk
     (example_reg_lk, example_mem) example_ops_lk of
   Done (rs, h', m') \<Rightarrow> rs = replicate 25 (RBool True) @ [RVal 3, RVal 3, RVal 0, RBool False] \<and>
     rc_ht h' = 1 \<and> rt_num_buckets (cur_table h') = 32
   | _ \<Rightarrow> False"
  by code_simp

lemma new_lk_inv:
  fixes n :: u32
  assumes "n \<noteq> 0" and "unat n + CLHT_LINKED_MAX_EXPANSIONS_HARD < 2 ^ 32" and "length xs < 2 ^ 32"
  shows "inv_lk (set xs) (new_rclht (new_table_lk n g)\<lparr>rc_version_list := l\<rparr>)"
    and "map_lk (new_rclht (new_table_lk n g)\<lparr>rc_version_list := l\<rparr>) = Map.empty"
  using new_table_lk [OF assms(1,2), of g] card_length [of xs] assms(3)
  by (simp_all add: inv_lk_def map_lk_def cur_table_def new_rclht_def)

lemma example_ops_lk: "length (map op_key example_ops_lk) < 2 ^ 32" "list_all (\<lambda>x. op_key x \<noteq> 0) example_ops_lk"
  by (simp add: example_ops_lk_def) code_simp

lemma example_reg_lk:
  assumes "length ks < 2 ^ 32"
  shows "inv_lk (set ks) example_reg_lk" and "map_lk example_reg_lk = Map.empty"
  using new_lk_inv [of 2 ks, where g = "(0, 0, 0)"] assms
  by (simp_all add: example_reg_lk_def example_lk_def CLHT_LINKED_MAX_EXPANSIONS_HARD_def)

theorem clht_lk_refines_map_witness:
  "\<exists>rs h' m'. table_run (\<lambda>h. clht_get_lk (cur_table h)) (clht_put_lk (Some 0)) clht_remove_lk
      (example_reg_lk, example_mem) example_ops_lk = Done (rs, h', m') \<and> rc_ht h' = 1 \<and>
      kv_run Map.empty example_ops_lk = (rs, map_lk h')"
proof -
  note i = example_reg_lk [OF example_ops_lk(1)]
  have ks: "\<forall>x\<in>set example_ops_lk. op_key x \<noteq> 0 \<and> op_key x \<in> set (map op_key example_ops_lk)"
    using example_ops_lk(2) by (simp add: list_all_iff)
  from example_run_lk obtain rs h' m' where r: "table_run (\<lambda>h. clht_get_lk (cur_table h)) (clht_put_lk (Some 0)) clht_remove_lk
      (example_reg_lk, example_mem) example_ops_lk = Done (rs, h', m')" "rc_ht h' = 1" by (auto split: outcome.splits)
  from clht_lk_refines_map [OF i(1) ks r(1)] r i(2) show ?thesis by auto
qed

text \<open>64 bins with 52 keys that end in binary 111: they do not fit into the 51 slots that bin 7 of a table of
  eight bins can use.\<close>

definition example_wide_lk :: clht_lk where
  "example_wide_lk = new_rclht (new_table_lk 64 (0, 0, 0))\<lparr>rc_version_list := [\<lparr>ts_version = 0, ts_id = 0\<rparr>]\<rparr>"

definition example_puts_lk :: "kv_op list" where
  "example_puts_lk = map (\<lambda>k. Put k k) example_keys_lk"

lemma example_wide_run:
  "case table_run (\<lambda>h. clht_get_lk (cur_table h)) (clht_put_lk (Some 0)) clht_remove_lk
     (example_wide_lk, example_mem) example_puts_lk of
   Done (rs, h', m') \<Rightarrow> m' = example_mem \<and> rc_resize_lock h' = LOCK_FREE \<and> rt_num_buckets (cur_table h') = 64
   | _ \<Rightarrow> False"
  by code_simp

lemma run_puts: "dom (snd (kv_run m (map (\<lambda>k. Put k k) ks))) = dom m \<union> set ks"
proof (induction ks arbitrary: m)
  case (Cons k ks)
  then show ?case by (auto simp: split_beta insert_absorb domIff)
qed simp

lemma example_crowd:
  "card {k \<in> set example_keys_lk. 7 \<le> unat (mask_bin 7 k)} = 52"
proof -
  have "{k \<in> set example_keys_lk. 7 \<le> unat (mask_bin 7 k)} = set (filter (\<lambda>k. 7 \<le> unat (mask_bin 7 k)) example_keys_lk)" by auto
  also have "card \<dots> = 52"
  proof -
    have "filter (\<lambda>k. 7 \<le> unat (mask_bin 7 k)) example_keys_lk = example_keys_lk" by code_simp
    moreover have "distinct example_keys_lk"
    proof -
      have "unat (7 + 8 * of_nat i :: u64) = 7 + 8 * i" if "i < 52" for i
        using unat_of_nat_u64 [of "7 + 8 * i"] that by simp
      then show ?thesis by (auto simp: example_keys_lk_def distinct_map inj_on_def) (metis add_left_cancel mult_left_cancel zero_neq_numeral)
    qed
    ultimately show ?thesis using distinct_card [of example_keys_lk] by (simp add: example_keys_lk_def)
  qed
  finally show ?thesis .
qed

lemma example_wide:
  obtains h where "inv_lk (set example_keys_lk) h" and "rc_resize_lock h = LOCK_FREE" and "rt_num_buckets (cur_table h) = 64"
    and "dom (map_lk h) = set example_keys_lk"
proof -
  note n = new_lk_inv [of 64 example_keys_lk, where g = "(0, 0, 0)"]
  have i: "inv_lk (set example_keys_lk) example_wide_lk" "map_lk example_wide_lk = Map.empty"
    using n by (simp_all add: example_wide_lk_def CLHT_LINKED_MAX_EXPANSIONS_HARD_def example_keys_lk_def)
  have "list_all (\<lambda>x. op_key x \<noteq> 0) example_puts_lk" by code_simp
  then have ks: "\<forall>x\<in>set example_puts_lk. op_key x \<noteq> 0 \<and> op_key x \<in> set example_keys_lk"
    by (auto simp: list_all_iff example_puts_lk_def)
  from example_wide_run obtain rs h m' where r: "table_run (\<lambda>h. clht_get_lk (cur_table h)) (clht_put_lk (Some 0)) clht_remove_lk
      (example_wide_lk, example_mem) example_puts_lk = Done (rs, h, m')" "rc_resize_lock h = LOCK_FREE"
      "rt_num_buckets (cur_table h) = 64" by (auto split: outcome.splits)
  have "inv_lk (set example_keys_lk) h \<and> kv_run (map_lk example_wide_lk) example_puts_lk = (rs, map_lk h)"
    using lk_store.run_refines [OF i(1) _ r(1)] ks by (simp add: op_ok_any)
  moreover have "dom (snd (kv_run Map.empty example_puts_lk)) = set example_keys_lk"
    by (simp add: example_puts_lk_def run_puts)
  ultimately show thesis using r(2,3) i(2) by (intro that [of h]) simp_all
qed

theorem resize_table_lk_faults_iff_witness:
  "\<exists>h. inv_lk (set example_keys_lk) h \<and> rt_num_buckets (cur_table h) = 64 \<and>
    resize_table_lk (Some 0) h False 1 example_mem = Faults"
proof -
  obtain h where h: "inv_lk (set example_keys_lk) h" "rc_resize_lock h = LOCK_FREE" "rt_num_buckets (cur_table h) = 64"
    "dom (map_lk h) = set example_keys_lk" by (rule example_wide)
  have n: "new_buckets_lk h False 1 = 8" by (simp add: new_buckets_lk_def h(3) CLHT_RATIO_HALVE_lk_def)
  have "overcrowded_lk h 8 7"
    using example_crowd by (simp add: overcrowded_lk_def h(4) ENTRIES_PER_BUCKET_def CLHT_LINKED_MAX_EXPANSIONS_HARD_def)
  moreover have "ready 2 example_mem" by (simp add: example_mem_ready)
  ultimately have "resize_table_lk (Some 0) h False 1 example_mem = Faults"
    using resize_table_lk_faults_iff [OF h(1,2), of example_mem False 1 0] n
    by (auto simp: CLHT_LINKED_MAX_EXPANSIONS_HARD_def)
  with h show ?thesis by blast
qed

theorem resize_table_lk_grows_witness:
  "\<exists>h again h' m'. resize_table_lk (Some 0) h True 2 example_mem = Done (True, again, h', m') \<and>
    dom (map_lk h') = set example_keys_lk"
proof -
  obtain h where h: "inv_lk (set example_keys_lk) h" "rc_resize_lock h = LOCK_FREE" "rt_num_buckets (cur_table h) = 64"
    "dom (map_lk h) = set example_keys_lk" by (rule example_wide)
  have n: "unat (new_buckets_lk h True 2) = 2 ^ 7" by (simp add: new_buckets_lk_def h(3))
  have "ready 2 example_mem" by (simp add: example_mem_ready)
  from resize_table_lk_grows [OF h(1,2) this, of 6 2 7 0] n h(3) obtain again h' m' where
    "resize_table_lk (Some 0) h True 2 example_mem = Done (True, again, h', m')" "map_lk h' = map_lk h" by auto
  with h(4) show ?thesis by (intro exI [of _ h] exI [of _ again] exI [of _ h'] exI [of _ m']) simp
qed

theorem clht_put_lk_near_witness:
  "\<exists>h'. clht_put_lk (Some 0) example_reg_lk 5 50 example_mem = Done (True, h', example_mem) \<and>
    map_lk h' = [5 \<mapsto> 50]"
proof -
  note i = example_reg_lk [of "[5]"]
  have "rt_bin (cur_table example_reg_lk) 5 = 1"
    "unat (hops_lk (rt_table (cur_table example_reg_lk) ! 1)) \<le> CLHT_LINKED_MAX_EXPANSIONS"
    "1 + 0 < length (rt_table (cur_table example_reg_lk))" "0 \<in> set (key (rt_table (cur_table example_reg_lk) ! (1 + 0)))"
    by code_simp+
  from clht_put_lk_near [OF i(1) _ _ _ this(1-3) _ this(4), of "Some 0" 50 example_mem] i(2)
  show ?thesis by auto
qed

end
