(* ===== verification/Clht_lf_res.thy ===== *)
theory Clht_lf_res
  imports Chain Clht_lf Clht_gc
begin

text \<open>
  \<open>CLHT-LF-RES\<close> (\<open>src/src/clht/src/clht_lf_res.c\<close>, \<open>include/clht_lf_res.h\<close>): the lock-free table with
  resizing, as one thread sees it when no other runs. Buckets, snapshots and the functions on one
  bucket are those of theory Clht_lf. An update raises the version of its thread's record to the
  maximum when it ends, a lookup sets it to the version of the table and leaves it there; a
  resize waits until no record has the version of the table it replaces. The other threads are the
  other records in the list: they do not move. \<open>double\<close> values are compared exactly. The collector
  is compiled with \<open>clht_lb_res.h\<close>, so \<open>clht_gc_collect\<close> does nothing (theory Clht_gc), whatever
  \<open>CLHT_DO_GC\<close> is in \<open>clht_lf_res.h\<close>.
\<close>

section \<open>Parameters and state\<close>

definition CLHT_PERC_FULL_HALVE_lr :: nat where
  "CLHT_PERC_FULL_HALVE_lr = 2"

definition CLHT_PERC_FULL_DOUBLE_lr :: nat where
  "CLHT_PERC_FULL_DOUBLE_lr = 15"

definition CLHT_OCCUP_AFTER_RES_lr :: nat where
  "CLHT_OCCUP_AFTER_RES_lr = 40"

definition CLHT_NO_EMPTY_SLOT_TRIES :: nat where
  "CLHT_NO_EMPTY_SLOT_TRIES = 16"

definition CLHT_LOCK_FREE :: u8 where
  "CLHT_LOCK_FREE = 0"

definition CLHT_LOCK_ACQR :: u8 where
  "CLHT_LOCK_ACQR = 1"

type_synonym table_lr = "bucket_lf rtable"
type_synonym clht_lr = "bucket_lf rclht"

text \<open>
  \<open>clht_hashtable_create\<close> does not set the version (nor fields that are not used before they are
  written): the version is what the block held.
\<close>

definition new_table_lr :: "u32 \<Rightarrow> fresh_block \<Rightarrow> table_lr" where
  "new_table_lr num_buckets g =
     \<lparr>rt_num_buckets = ucast num_buckets, rt_table = replicate (unat num_buckets) empty_bucket_lf,
      rt_hash = ucast (num_buckets - 1), rt_version = fst g, rt_table_tmp = None, rt_table_prev = None,
      rt_table_new = None, rt_num_expands = 0, rt_threshold = 0, rt_is_helper = 0, rt_helper_done = 0\<rparr>"

definition clht_hashtable_create_lr :: "u32 \<Rightarrow> mem \<Rightarrow> table_lr option \<times> mem" where
  "clht_hashtable_create_lr num_buckets m =
     (if num_buckets = 0 then (None, m)
      else case memalign m of
        (None, m1) \<Rightarrow> (None, m1)
      | (Some g, m1) \<Rightarrow>
          (case memalign m1 of
             (None, m2) \<Rightarrow> (None, mfree m2)
           | (Some _, m2) \<Rightarrow> (Some (new_table_lr num_buckets g), m2)))"

text \<open>
  \<open>clht_create\<close> does not look at the result of \<open>clht_hashtable_create\<close>. A NULL \<open>h->ht\<close> is an
  address that is not in the list of tables.
\<close>

definition clht_create_lr :: "u32 \<Rightarrow> mem \<Rightarrow> clht_lr option \<times> mem" where
  "clht_create_lr num_buckets m =
     (case memalign m of
        (None, m1) \<Rightarrow> (None, m1)
      | (Some _, m1) \<Rightarrow>
          (let (t, m2) = clht_hashtable_create_lr num_buckets m1
           in (Some \<lparr>rc_ht = 0, rc_ht_oldest = 0, rc_version_list = [], rc_version_min = 0,
                     rc_resize_lock = CLHT_LOCK_FREE, rc_gc_lock = CLHT_LOCK_FREE, rc_status_lock = CLHT_LOCK_FREE,
                     rc_tables = (case t of None \<Rightarrow> [] | Some t \<Rightarrow> [t]), rc_released = [], rc_freed = []\<rparr>, m2)))"

definition has_table :: "clht_lr \<Rightarrow> bool" where
  "has_table h \<longleftrightarrow> rc_ht h < length (rc_tables h)"

definition clht_hash_lr :: "table_lr \<Rightarrow> u64 \<Rightarrow> u32" where
  "clht_hash_lr hashtable k = mask_bin (rt_hash hashtable) k"

definition CLHT_GC_HT_VERSION_USED :: "nat option \<Rightarrow> clht_lr \<Rightarrow> clht_lr outcome" where
  "CLHT_GC_HT_VERSION_USED clht_ts_thread h =
     (if has_table h then clht_gc_thread_version clht_ts_thread (rt_version (cur_table h)) h else Faults)"

text \<open>\<open>CLHT_CHECK_RESIZE\<close> waits while the resize lock is taken.\<close>

definition CLHT_CHECK_RESIZE :: "clht_lr \<Rightarrow> unit outcome" where
  "CLHT_CHECK_RESIZE h = (if rc_resize_lock h = CLHT_LOCK_ACQR then Spins else Done ())"

section \<open>Operations\<close>

definition search_table_lr :: "table_lr \<Rightarrow> u64 \<Rightarrow> u64" where
  "search_table_lr t k = clht_bucket_search_lf (rt_table t ! unat (clht_hash_lr t k)) k"

definition clht_get_lr :: "nat option \<Rightarrow> clht_lr \<Rightarrow> u64 \<Rightarrow> (u64 \<times> clht_lr) outcome" where
  "clht_get_lr clht_ts_thread h k =
     bind_outcome (CLHT_GC_HT_VERSION_USED clht_ts_thread h) (\<lambda>h. Done (search_table_lr (cur_table h) k, h))"

text \<open>
  One round of \<open>clht_put\<close> on the bucket: \<open>None\<close> when the key is not there and no slot is free;
  otherwise the round is that of \<open>clht_lf.c\<close>.
\<close>

definition put_round_lr :: "bucket_lf \<Rightarrow> u64 \<Rightarrow> u64 \<Rightarrow> (bool option \<times> bucket_lf) outcome" where
  "put_round_lr b k v =
     (if clht_bucket_search_lf b k = 0 \<and> snap_get_empty_index (snapshot_lf b) = None then Done (None, b)
      else bind_outcome (put_bucket_lf b k v) (\<lambda>(r, b). Done (Some r, b)))"

definition set_bucket_lr :: "clht_lr \<Rightarrow> nat \<Rightarrow> bucket_lf \<Rightarrow> clht_lr" where
  "set_bucket_lr h bin b =
     set_table (rc_ht h) ((cur_table h)\<lparr>rt_table := (rt_table (cur_table h))[bin := b]\<rparr>) h"

definition clht_remove_lr :: "nat option \<Rightarrow> clht_lr \<Rightarrow> u64 \<Rightarrow> (u64 \<times> clht_lr) outcome" where
  "clht_remove_lr clht_ts_thread h k =
     bind_outcome (CLHT_CHECK_RESIZE h)
       (\<lambda>_. if \<not> has_table h then Faults
            else let bin = unat (clht_hash_lr (cur_table h) k)
                 in bind_outcome (remove_bucket_lf (rt_table (cur_table h) ! bin) k)
                      (\<lambda>(r, b). bind_outcome (clht_gc_thread_version_max clht_ts_thread (set_bucket_lr h bin b))
                         (\<lambda>h. Done (r, h))))"

section \<open>Copying and resizing\<close>

definition clht_put_seq_lr :: "table_lr \<Rightarrow> u64 \<Rightarrow> u64 \<Rightarrow> u32 \<Rightarrow> bool \<times> table_lr" where
  "clht_put_seq_lr t k v bin =
     (let i = unat bin; b = rt_table t ! i
      in case List.find (\<lambda>j. key_lf b ! j = 0) [0..<KEY_BUCKT] of
           Some j \<Rightarrow>
             (let b = b\<lparr>val_lf := (val_lf b)[j := v]\<rparr>;
                  b = b\<lparr>key_lf := (key_lf b)[j := k]\<rparr>;
                  b = b\<lparr>snapshot_lf := snap_set_map (snapshot_lf b) j MAP_VALID\<rparr>
              in (True, t\<lparr>rt_table := (rt_table t)[i := b]\<rparr>))
         | None \<Rightarrow> (False, t))"

fun bucket_cpy_loop_lr :: "(u64 \<times> u64) list \<Rightarrow> table_lr \<Rightarrow> table_lr" where
  "bucket_cpy_loop_lr [] ht_new = ht_new"
| "bucket_cpy_loop_lr ((k, v) # es) ht_new =
     bucket_cpy_loop_lr es (snd (clht_put_seq_lr ht_new k v (clht_hash_lr ht_new k)))"

definition bucket_cpy_lr :: "bucket_lf \<Rightarrow> table_lr \<Rightarrow> table_lr" where
  "bucket_cpy_lr b ht_new = bucket_cpy_loop_lr (entries_lf b) ht_new"

text \<open>
  The loop of the resize over the buckets of the old table. The source counts with \<open>int32_t b\<close>, which overflows
  (undefined) for more than 2 to the 31 buckets; the model is the code for tables of at most that size.
\<close>

fun copy_buckets_lr :: "bucket_lf list \<Rightarrow> table_lr \<Rightarrow> table_lr" where
  "copy_buckets_lr [] ht_new = ht_new"
| "copy_buckets_lr (b # bs) ht_new = copy_buckets_lr bs (bucket_cpy_lr b ht_new)"

definition swap_table_lr :: "clht_lr \<Rightarrow> table_lr \<Rightarrow> clht_lr" where
  "swap_table_lr h ht_new =
     (let p = rc_ht h; q = length (rc_tables h);
          ht_new = ht_new\<lparr>rt_table_prev := Some p\<rparr>;
          ht_old = (cur_table h)\<lparr>rt_table_new := Some q\<rparr>
      in h\<lparr>rc_tables := (rc_tables h)[p := ht_old] @ [ht_new], rc_ht := q, rc_resize_lock := CLHT_LOCK_FREE\<rparr>)"

text \<open>
  \<open>ht_resize_pes\<close>: the loop that waits until \<open>version_min\<close> is above the version of the old table
  never ends when it does not hold at once, since no other thread moves.
\<close>

definition ht_resize_pes_lr ::
  "nat option \<Rightarrow> clht_lr \<Rightarrow> bool \<Rightarrow> u32 \<Rightarrow> mem \<Rightarrow> (bool \<times> clht_lr \<times> mem) outcome" where
  "ht_resize_pes_lr clht_ts_thread h is_increase by m =
     (let (old, l) = CAS (rc_resize_lock h) CLHT_LOCK_FREE CLHT_LOCK_ACQR; h = h\<lparr>rc_resize_lock := l\<rparr>
      in if old \<noteq> CLHT_LOCK_FREE then Done (False, h, m)
         else if \<not> has_table h then Faults
         else let ht_old = cur_table h;
                  num_buckets_new = (if is_increase then scast by * rt_num_buckets ht_old else rt_num_buckets ht_old div 2);
                  (w, m) = clht_hashtable_create_lr (ucast num_buckets_new) m;
                  cur_version = rt_version ht_old;
                  h = set_table (rc_ht h) (ht_old\<lparr>rt_version := cur_version + 1\<rparr>) h
              in bind_outcome (CLHT_GC_HT_VERSION_USED clht_ts_thread h)
                   (\<lambda>h. if cur_version \<ge> clht_gc_min_version_used h then Spins
                        else case w of
                          None \<Rightarrow> Faults
                        | Some ht_new \<Rightarrow>
                            (let ht_new = copy_buckets_lr (rt_table ht_old) (ht_new\<lparr>rt_version := cur_version + 2\<rparr>)
                             in Done (True, swap_table_lr h ht_new, m))))"

definition elems_lr :: "table_lr \<Rightarrow> nat" where
  "elems_lr t = (\<Sum>bin\<leftarrow>[0..<unat (ucast (rt_num_buckets t) :: u32)]. bucket_size_lf (rt_table t ! bin))"

definition clht_size_lr :: "table_lr \<Rightarrow> u64" where
  "clht_size_lr t = of_nat (elems_lr t)"

definition increase_by_lr :: "nat \<Rightarrow> nat \<Rightarrow> u32" where
  "increase_by_lr elems capacity =
     (let inc_by_pow2 = pow2roundup (of_nat (100 * elems div (CLHT_OCCUP_AFTER_RES_lr * capacity)))
      in if inc_by_pow2 \<le>s 1 then 2 else inc_by_pow2)"

text \<open>
  What \<open>ht_status\<close> decides: a table less than \<open>CLHT_PERC_FULL_HALVE\<close> percent full is never
  resized (the call that would shrink it is commented out), not even in an emergency.
\<close>

definition status_decision_lr :: "table_lr \<Rightarrow> bool \<Rightarrow> u32 \<Rightarrow> u32 option" where
  "status_decision_lr t resize_increase emergency_increase =
     (let elems = elems_lr t; capacity = unat (rt_num_buckets t) * ENTRIES_PER_BUCKET
      in if elems > 0 \<and> 100 * elems < CLHT_PERC_FULL_HALVE_lr * capacity then None
         else if (elems > 0 \<and> 100 * elems > CLHT_PERC_FULL_DOUBLE_lr * capacity) \<or> emergency_increase \<noteq> 0 \<or> resize_increase
         then Some (increase_by_lr elems capacity)
         else None)"

definition ht_status_lr ::
  "nat option \<Rightarrow> clht_lr \<Rightarrow> bool \<Rightarrow> u32 \<Rightarrow> bool \<Rightarrow> mem \<Rightarrow> (u64 \<times> clht_lr \<times> mem) outcome" where
  "ht_status_lr clht_ts_thread h resize_increase emergency_increase just_print m =
     (let (taken, l) = TRYLOCK_ACQ (rc_status_lock h); h = h\<lparr>rc_status_lock := l\<rparr>
      in if taken \<and> \<not> resize_increase then Done (0, h, m)
         else if \<not> has_table h then Faults
         else let t = cur_table h; size_now = clht_size_lr t
              in bind_outcome
                   (case if just_print then None else status_decision_lr t resize_increase emergency_increase of
                      None \<Rightarrow> Done (False, h, m)
                    | Some by \<Rightarrow> ht_resize_pes_lr clht_ts_thread h True by m)
                   (\<lambda>(_, h, m). Done (size_now, (snd (clht_gc_collect h))\<lparr>rc_status_lock := CLHT_LOCK_FREE\<rparr>, m)))"

text \<open>
  \<open>clht_put\<close>: nothing bounds the number of its rounds, so the result is an option whose value
  \<open>None\<close> means that the call does not return; \<open>n\<close> is \<open>empty_retries\<close>.
\<close>

partial_function (option) put_retry_lr ::
  "nat option \<Rightarrow> clht_lr \<Rightarrow> u64 \<Rightarrow> u64 \<Rightarrow> nat \<Rightarrow> mem \<Rightarrow> (bool \<times> clht_lr \<times> mem) outcome option" where
  "put_retry_lr clht_ts_thread h k v n m =
     (if CLHT_CHECK_RESIZE h = Spins then Some Spins
      else if \<not> has_table h then Some Faults
      else let bin = unat (clht_hash_lr (cur_table h) k)
           in case put_round_lr (rt_table (cur_table h) ! bin) k v of
                Spins \<Rightarrow> Some Spins
              | Faults \<Rightarrow> Some Faults
              | Done (Some r, b) \<Rightarrow>
                  Some (bind_outcome (clht_gc_thread_version_max clht_ts_thread (set_bucket_lr h bin b))
                          (\<lambda>h. Done (r, h, m)))
              | Done (None, b) \<Rightarrow>
                  (if n \<ge> CLHT_NO_EMPTY_SLOT_TRIES
                   then case ht_status_lr clht_ts_thread h False 2 False m of
                          Spins \<Rightarrow> Some Spins
                        | Faults \<Rightarrow> Some Faults
                        | Done (_, h, m) \<Rightarrow> put_retry_lr clht_ts_thread h k v 0 m
                   else put_retry_lr clht_ts_thread h k v (Suc n) m))"

definition clht_put_lr ::
  "nat option \<Rightarrow> clht_lr \<Rightarrow> u64 \<Rightarrow> u64 \<Rightarrow> mem \<Rightarrow> (bool \<times> clht_lr \<times> mem) outcome" where
  "clht_put_lr clht_ts_thread h k v m =
     (case put_retry_lr clht_ts_thread h k v 0 m of None \<Rightarrow> Spins | Some out \<Rightarrow> out)"

section \<open>Memory accounting\<close>

definition clht_size_mem_lr :: "table_lr \<Rightarrow> u64" where
  "clht_size_mem_lr t = 8 + rt_num_buckets t * 64"

partial_function (option) garbage_loop_lr :: "table_lr list \<Rightarrow> nat option \<Rightarrow> u64 \<Rightarrow> u64 option" where
  "garbage_loop_lr ts cur size_tot =
     (case cur of
        None \<Rightarrow> Some size_tot
      | Some p \<Rightarrow> garbage_loop_lr ts (rt_table_prev (ts ! p)) (size_tot + clht_size_mem_lr (ts ! p)))"

definition clht_size_mem_garbage_lr :: "table_lr list \<Rightarrow> nat \<Rightarrow> u64 option" where
  "clht_size_mem_garbage_lr ts p = garbage_loop_lr ts (rt_table_prev (ts ! p)) 0"

end
