(* ===== verification/Clht_lf_res_map.thy ===== *)
theory Clht_lf_res_map
  imports Clht_lf_res Copy_target
begin

text \<open>
  \<open>CLHT-LF-RES\<close> refines a map. The tables are a \<open>hashed_store\<close> on the bucket laws of theory Clht_lf; the
  sequential copy is a \<open>copy_total\<close> (a doubled table has room for every entry, and a bucket filled
  from the left has key 0 exactly in its free slots when no key is 0); the operations on the whole
  structure are an \<open>op_store\<close>. \<open>clht_put\<close> is reasoned about with the induction rule of its
  \<open>partial_function\<close>.
\<close>

section \<open>One table\<close>

text \<open>An update of one table that spins where \<open>clht_put\<close> starts again.\<close>

definition put_plain_lr :: "table_lr \<Rightarrow> u64 \<Rightarrow> u64 \<Rightarrow> mem \<Rightarrow> (bool \<times> table_lr \<times> mem) outcome" where
  "put_plain_lr t k v m = bind_outcome (put_chain_lf (rt_table t ! rt_bin t k) k v m)
     (\<lambda>(r, b, m). Done (r, t\<lparr>rt_table := (rt_table t)[rt_bin t k := b]\<rparr>, m))"

definition remove_plain_lr :: "table_lr \<Rightarrow> u64 \<Rightarrow> (u64 \<times> table_lr) outcome" where
  "remove_plain_lr t k = bind_outcome (remove_bucket_lf (rt_table t ! rt_bin t k) k)
     (\<lambda>(r, b). Done (r, t\<lparr>rt_table := (rt_table t)[rt_bin t k := b]\<rparr>))"

lemma bin_lr: "unat (clht_hash_lr t k) = rt_bin t k"
  by (simp add: clht_hash_lr_def rt_bin_def)

interpretation lr: hashed_store bucket_inv_lf bucket_map_lf clht_bucket_search_lf put_chain_lf
  remove_bucket_lf "\<lambda>_. True" "\<lambda>v. v \<noteq> 0" rt_shape rt_table rt_bin search_table_lr put_plain_lr remove_plain_lr
proof unfold_locales
  fix t :: table_lr and k :: u64
  assume "rt_shape t"
  then show "rt_bin t k < length (rt_table t)" by (rule rt_bin_less)
qed (auto simp: search_table_lr_def bin_lr put_plain_lr_def remove_plain_lr_def bind_outcome_Done_iff
    rt_shape_def rt_bin_def fun_eq_iff)

lemma header_bin_lr:
  "rt_bin (t\<lparr>rt_version := x\<rparr>) = rt_bin t" "rt_bin (t\<lparr>rt_table_prev := y\<rparr>) = rt_bin t"
  "rt_bin (t\<lparr>rt_table_new := y\<rparr>) = rt_bin t" "rt_bin (t\<lparr>rt_table := z\<rparr>) = rt_bin t"
  by (simp_all add: rt_bin_def fun_eq_iff)

lemma header_lr:
  "lr.tinv (t\<lparr>rt_version := x\<rparr>) = lr.tinv t" "lr.tmap (t\<lparr>rt_version := x\<rparr>) = lr.tmap t"
  "lr.tinv (t\<lparr>rt_table_prev := y\<rparr>) = lr.tinv t" "lr.tmap (t\<lparr>rt_table_prev := y\<rparr>) = lr.tmap t"
  by (simp_all add: lr.tinv_def lr.tmap_def rt_shape_def header_bin_lr)

lemma update_lr:
  assumes t: "lr.tinv t" and b: "bucket_inv_lf b" "bucket_map_lf b = (bucket_map_lf (rt_table t ! rt_bin t k))(k := x)"
  shows "lr.tinv (t\<lparr>rt_table := (rt_table t)[rt_bin t k := b]\<rparr>)"
    and "lr.tmap (t\<lparr>rt_table := (rt_table t)[rt_bin t k := b]\<rparr>) = (lr.tmap t)(k := x)"
proof -
  let ?t = "t\<lparr>rt_table := (rt_table t)[rt_bin t k := b]\<rparr>"
  have h: "rt_shape ?t" "rt_bin ?t = rt_bin t" "rt_table ?t = (rt_table t)[rt_bin t k := b]"
    using t by (simp_all add: lr.tinv_def rt_shape_def rt_bin_def fun_eq_iff)
  have "dom (bucket_map_lf b) \<subseteq> insert k (dom (bucket_map_lf (rt_table t ! rt_bin t k)))"
    by (auto simp: b(2) split: if_splits)
  from lr.tinv_upd [OF t b(1) this h] lr.tmap_upd [OF t b(2) h(2,3)]
  show "lr.tinv ?t" "lr.tmap ?t = (lr.tmap t)(k := x)" .
qed

section \<open>Copying\<close>

text \<open>
  In a table that is being filled a slot is valid when its key is not 0; \<open>K\<close> are the keys it will
  hold, at most \<open>KEY_BUCKT\<close> of which have the same bin.
\<close>

definition filling_lr :: "u64 set \<Rightarrow> table_lr \<Rightarrow> bool" where
  "filling_lr K t \<longleftrightarrow> lr.tinv t \<and>
     (\<forall>b\<in>set (rt_table t). \<forall>i<KEY_BUCKT. valid_lf b i \<longleftrightarrow> key_lf b ! i \<noteq> 0) \<and>
     dom (lr.tmap t) \<subseteq> K \<and> (\<forall>i. card {k \<in> K. rt_bin t k = i} \<le> KEY_BUCKT)"

definition same_frame_lr :: "table_lr \<Rightarrow> table_lr \<Rightarrow> bool" where
  "same_frame_lr t t' \<longleftrightarrow> t'\<lparr>rt_table := []\<rparr> = t\<lparr>rt_table := []\<rparr>"

lemma bucket_dom_lr:
  assumes "lr.tinv t" and "i < length (rt_table t)"
  shows "dom (bucket_map_lf (rt_table t ! i)) = {k \<in> dom (lr.tmap t). rt_bin t k = i}"
  using assms chains_inv_dom [of bucket_inv_lf bucket_map_lf "rt_bin t" "rt_table t" i]
  by (auto simp: lr.tinv_def lr.tmap_at) fastforce

lemma card_bucket_lr: "bucket_inv_lf b \<Longrightarrow> card (dom (bucket_map_lf b)) = length (filter (valid_lf b) [0..<KEY_BUCKT])"
  by (simp add: bucket_slots slots_card bucket_inv_lf_def)

lemma seq_slot_lr:
  assumes f: "filling_lr K t" and k: "k \<in> K" "lr.tmap t k = None"
  shows "\<exists>j. List.find (\<lambda>j. key_lf (rt_table t ! rt_bin t k) ! j = 0) [0..<KEY_BUCKT] = Some j"
proof (rule ccontr)
  let ?b = "rt_table t ! rt_bin t k"
  assume "\<not> ?thesis"
  then have z: "\<forall>j<KEY_BUCKT. key_lf ?b ! j \<noteq> 0" by (auto simp: find_None_iff)
  from f have t: "lr.tinv t" and dom: "dom (lr.tmap t) \<subseteq> K" by (simp_all add: filling_lr_def)
  have l: "rt_bin t k < length (rt_table t)" using t by (simp add: lr.tinv_def rt_bin_less)
  have "\<forall>j<KEY_BUCKT. valid_lf ?b j" using f l z by (simp add: filling_lr_def)
  then have "card (dom (bucket_map_lf ?b)) = KEY_BUCKT"
    using card_bucket_lr [OF lr.tinv_chain [OF t, of k]] by simp
  moreover have "insert k (dom (bucket_map_lf ?b)) \<subseteq> {k' \<in> K. rt_bin t k' = rt_bin t k}"
    using bucket_dom_lr [OF t l] dom k(1) by auto
  moreover have "k \<notin> dom (bucket_map_lf ?b)" using bucket_dom_lr [OF t l] k(2) by auto
  ultimately have "Suc KEY_BUCKT \<le> card {k' \<in> K. rt_bin t k' = rt_bin t k}"
    using card_mono [of "{k' \<in> K. rt_bin t k' = rt_bin t k}" "insert k (dom (bucket_map_lf ?b))"]
      finite_bucket_map_lf [of ?b] by simp
  moreover have "card {k' \<in> K. rt_bin t k' = rt_bin t k} \<le> KEY_BUCKT" using f by (simp add: filling_lr_def)
  ultimately show False by simp
qed

lemma put_seq_lr_law:
  assumes f: "filling_lr K t" and k: "k \<noteq> 0 \<and> k \<in> K \<and> v \<noteq> 0" "lr.tmap t k = None"
    and p: "Done (snd (clht_put_seq_lr t k v (clht_hash_lr t k))) = Done t'"
  shows "filling_lr K t' \<and> lr.tmap t' = (lr.tmap t)(k \<mapsto> v) \<and> same_frame_lr t t'"
proof -
  let ?b = "rt_table t ! rt_bin t k"
  from seq_slot_lr [OF f _ k(2)] k(1) obtain j where
    j: "List.find (\<lambda>j. key_lf ?b ! j = 0) [0..<KEY_BUCKT] = Some j" by blast
  then have j0: "j < KEY_BUCKT" "key_lf ?b ! j = 0" by (auto simp: find_Some_iff)
  from f have t: "lr.tinv t" by (simp add: filling_lr_def)
  have l: "rt_bin t k < length (rt_table t)" using t by (simp add: lr.tinv_def rt_bin_less)
  have vk: "\<forall>i<KEY_BUCKT. valid_lf ?b i \<longleftrightarrow> key_lf ?b ! i \<noteq> 0" using f l by (simp add: filling_lr_def)
  have inv: "bucket_inv_lf ?b" using lr.tinv_chain [OF t] .
  have free: "snap_map (snapshot_lf ?b) j = MAP_INVLD"
    using inv vk j0 by (auto simp: bucket_inv_lf_def valid_lf_def)
  have none: "bucket_map_lf ?b k = None" using k(2) by (simp add: lr.tmap_at)
  let ?c = "?b\<lparr>val_lf := (val_lf ?b)[j := v], key_lf := (key_lf ?b)[j := k],
    snapshot_lf := snap_set_map (snapshot_lf ?b) j MAP_VALID\<rparr>"
  have t': "t' = t\<lparr>rt_table := (rt_table t)[rt_bin t k := ?c]\<rparr>"
    using p by (simp add: clht_put_seq_lr_def Let_def bin_lr j)
  have map': "snap_map (snapshot_lf ?c) i = (if i = j then MAP_VALID else snap_map (snapshot_lf ?b) i)" if "i < KEY_BUCKT" for i
    using that j0(1) by (simp add: KEY_BUCKT_less)
  have keys: "key_lf ?c = (key_lf ?b)[j := k]" "val_lf ?c = (val_lf ?b)[j := v]" by simp_all
  note law = filled_lf_law [OF inv j0(1) free _ none keys map']
  have c: "bucket_inv_lf ?c" "bucket_map_lf ?c = (bucket_map_lf ?b)(k \<mapsto> v)" "\<And>i. valid_lf ?c i \<longleftrightarrow> valid_lf ?b i \<or> i = j"
    using law k(1) by blast+
  note u = update_lr [OF t c(1,2)]
  have vc: "\<forall>i<KEY_BUCKT. valid_lf ?c i \<longleftrightarrow> key_lf ?c ! i \<noteq> 0"
    unfolding c(3) keys using vk k(1) inv j0(1) by (auto simp: nth_list_update bucket_inv_lf_def)
  have "\<forall>b\<in>set (rt_table t'). \<forall>i<KEY_BUCKT. valid_lf b i \<longleftrightarrow> key_lf b ! i \<noteq> 0"
  proof
    fix b
    assume "b \<in> set (rt_table t')"
    then have "b = ?c \<or> b \<in> set (rt_table t)" using set_update_subset_insert [of "rt_table t"] by (auto simp: t')
    with f vc show "\<forall>i<KEY_BUCKT. valid_lf b i \<longleftrightarrow> key_lf b ! i \<noteq> 0" by (auto simp only: filling_lr_def)
  qed
  moreover have "rt_bin t' = rt_bin t" by (simp add: t' rt_bin_def fun_eq_iff)
  ultimately show ?thesis
    using f k(1) u unfolding filling_lr_def by (simp add: t' same_frame_lr_def) 
qed

interpretation lr_copy: copy_total "filling_lr K" lr.tmap "\<lambda>k v. k \<noteq> 0 \<and> k \<in> K \<and> v \<noteq> 0"
  "\<lambda>k v t. Done (snd (clht_put_seq_lr t k v (clht_hash_lr t k)))" "\<lambda>es t. Done (bucket_cpy_loop_lr es t)"
  same_frame_lr for K
proof unfold_locales
  fix t t' k v
  assume "filling_lr K t" "k \<noteq> 0 \<and> k \<in> K \<and> v \<noteq> 0" "lr.tmap t k = None"
    "Done (snd (clht_put_seq_lr t k v (clht_hash_lr t k))) = Done t'"
  then show "filling_lr K t' \<and> lr.tmap t' = (lr.tmap t)(k \<mapsto> v) \<and> same_frame_lr t t'"
    by (rule put_seq_lr_law)
qed (simp_all add: same_frame_lr_def Let_def)

lemma copy_buckets_lr_eq: "copy_buckets_lr bs t = bucket_cpy_loop_lr (concat (map entries_lf bs)) t"
proof (induction bs arbitrary: t)
  case (Cons b bs)
  then show ?case
    using lr_copy.loop_append [of "entries_lf b" "concat (map entries_lf bs)" t] by (simp add: bucket_cpy_lr_def)
qed simp

lemma entries_lr: "bucket_inv_lf b \<Longrightarrow> distinct (map fst (entries_lf b)) \<and> bucket_map_lf b = map_of (entries_lf b)"
  using distinct_entries_lf by (simp add: bucket_inv_lf_def bucket_map_lf_def)

lemma entries_value_lr: "bucket_inv_lf b \<Longrightarrow> (k, v) \<in> set (entries_lf b) \<Longrightarrow> v \<noteq> 0"
  by (auto simp: entries_lf_def bucket_inv_lf_def valid_lf_less)

lemma new_table_lr:
  fixes n :: u32
  assumes "n \<noteq> 0"
  shows "lr.tinv (new_table_lr n g)" and "lr.tmap (new_table_lr n g) = Map.empty"
    and "\<forall>b\<in>set (rt_table (new_table_lr n g)). \<forall>i<KEY_BUCKT. valid_lf b i \<longleftrightarrow> key_lf b ! i \<noteq> 0"
    and "rt_num_buckets (new_table_lr n g) = ucast n"
proof -
  let ?t = "new_table_lr n g"
  have "ucast (n - 1) = (ucast n - 1 :: u64)"
    using assms by (simp add: word_unat_eq_iff unat_ucast_u32 unat_pred)
  moreover have "(ucast n :: u64) \<noteq> 0" using assms unat_ucast_u32 [of n] by (metis unat_eq_zero)
  ultimately have sh: "rt_shape ?t"
    using unat_bound [of n] unat_ucast_u32 [of n] by (simp add: rt_shape_def new_table_lr_def)
  have tb: "rt_table ?t = replicate (unat n) empty_bucket_lf" by (simp add: new_table_lr_def)
  have less: "rt_bin ?t k < unat n" for k using rt_bin_less [OF sh, of k] by (simp add: tb)
  show "lr.tinv ?t" using sh empty_bucket_lf_facts by (simp add: lr.tinv_def chains_inv_def tb)
  show "lr.tmap ?t = Map.empty" using less empty_bucket_lf_facts by (simp add: fun_eq_iff lr.tmap_at tb)
  show "\<forall>b\<in>set (rt_table ?t). \<forall>i<KEY_BUCKT. valid_lf b i \<longleftrightarrow> key_lf b ! i \<noteq> 0"
    by (auto simp: tb empty_bucket_lf_def valid_lf_def map_codes)
  show "rt_num_buckets ?t = ucast n" by (simp add: new_table_lr_def)
qed

lemma bin_pow2_lr:
  assumes "lr.tinv t" and "rt_num_buckets t = 2 ^ e" and "e < 32"
  shows "rt_bin t k = unat k mod 2 ^ e"
  using assms mask_bin_mod [of e k] by (simp add: rt_bin_def lr.tinv_def rt_shape_def)

text \<open>The whole copy, into a table with a larger power of two of bins.\<close>

lemma copied_lr:
  assumes t: "lr.tinv t" and z: "lr.tmap t 0 = None" and e: "rt_num_buckets t = 2 ^ e" "e \<le> e'" "e' < 32"
    and n: "n = 2 ^ e'" and u: "u = (new_table_lr n g)\<lparr>rt_version := x\<rparr>"
  defines "w \<equiv> copy_buckets_lr (rt_table t) u"
  shows "lr.tinv w" and "lr.tmap w = lr.tmap t" and "same_frame_lr u w" and "rt_num_buckets w = 2 ^ e'"
proof -
  let ?es = "concat (map entries_lf (rt_table t))" and ?K = "dom (lr.tmap t)"
  have ci: "chains_inv bucket_inv_lf bucket_map_lf (rt_bin t) (rt_table t)" and sh: "rt_shape t"
    using t by (simp_all add: lr.tinv_def)
  note es = all_entries_distinct [OF ci entries_lr] all_entries_map [OF ci entries_lr rt_bin_less [OF sh]]
  have m: "map_of ?es = lr.tmap t" using es(2) by (simp add: lr.tmap_def)
  have n0: "n \<noteq> 0" using e(3) by (simp add: n)
  note nt = new_table_lr [OF n0, of g]
  have ue: "rt_num_buckets u = 2 ^ e'" using nt(4) e(3) by (simp add: u n word_unat_eq_iff unat_ucast_u32 unat_exp2)
  have ui: "lr.tinv u" "lr.tmap u = Map.empty" using nt by (simp_all add: u header_lr)
  have room: "card {k \<in> ?K. rt_bin u k = i} \<le> KEY_BUCKT" for i
  proof -
    let ?b = "rt_table t ! (i mod 2 ^ e)"
    have "length (rt_table t) = 2 ^ e" using sh e by (simp add: rt_shape_def unat_exp2)
    then have l: "i mod 2 ^ e < length (rt_table t)" by simp
    have "rt_bin t k = i mod 2 ^ e" if "rt_bin u k = i" for k
      using that bin_pow2_lr [OF t e(1)] bin_pow2_lr [OF ui(1) ue e(3)] e(2,3)
      by (auto simp: mod_mod_cancel le_imp_power_dvd)
    then have "{k \<in> ?K. rt_bin u k = i} \<subseteq> dom (bucket_map_lf ?b)" unfolding bucket_dom_lr [OF t l] by blast
    then have "card {k \<in> ?K. rt_bin u k = i} \<le> card (dom (bucket_map_lf ?b))"
      by (rule card_mono [OF finite_bucket_map_lf])
    also have "\<dots> \<le> KEY_BUCKT"
      using card_bucket_lr [OF chains_inv_nth [OF ci l]] length_filter_le [of "valid_lf ?b" "[0..<KEY_BUCKT]"] by simp
    finally show ?thesis .
  qed
  have f: "filling_lr ?K u" using ui nt(3) room by (simp add: filling_lr_def u)
  have "k \<noteq> 0 \<and> k \<in> ?K \<and> v \<noteq> 0" if kv: "(k, v) \<in> set ?es" for k v
  proof -
    from map_of_is_SomeI [OF es(1) kv] m have "lr.tmap t k = Some v" by simp
    moreover obtain i where "i < length (rt_table t)" "(k, v) \<in> set (entries_lf (rt_table t ! i))"
      using kv by (auto simp: in_set_conv_nth [of _ "rt_table t"])
    then have "v \<noteq> 0" using entries_value_lr chains_inv_nth [OF ci] by blast
    ultimately show ?thesis using z by auto
  qed
  then have "\<forall>(k, v)\<in>set ?es. k \<noteq> 0 \<and> k \<in> ?K \<and> v \<noteq> 0" by blast
  from lr_copy.loop_law [OF f this es(1), of w] have "filling_lr ?K w \<and> lr.tmap w = map_of ?es \<and> same_frame_lr u w"
    by (simp add: ui w_def copy_buckets_lr_eq)
  then show "lr.tinv w" "lr.tmap w = lr.tmap t" and s: "same_frame_lr u w" by (simp_all add: filling_lr_def m)
  from s show "rt_num_buckets w = 2 ^ e'" using ue by (cases u; cases w) (simp add: same_frame_lr_def)
qed

section \<open>The whole structure\<close>

text \<open>
  \<open>open_lr e h\<close>: no resize is under way and the current table has \<open>2 ^ e\<close> bins, none of whose keys
  is 0 (a copy overwrites an entry whose key is 0).
\<close>

definition open_lr :: "nat \<Rightarrow> clht_lr \<Rightarrow> bool" where
  "open_lr e h \<longleftrightarrow> has_table h \<and> lr.tinv (cur_table h) \<and> rt_num_buckets (cur_table h) = 2 ^ e \<and> e < 32 \<and>
     lr.tmap (cur_table h) 0 = None \<and> rc_resize_lock h = CLHT_LOCK_FREE"

definition map_lr :: "clht_lr \<Rightarrow> kv" where
  "map_lr h = lr.tmap (cur_table h)"

definition inv_lr :: "clht_lr \<Rightarrow> bool" where
  "inv_lr h \<longleftrightarrow> (\<exists>e. open_lr e h)"

lemma cur_table_fields [simp]:
  "cur_table (h\<lparr>rc_status_lock := l\<rparr>) = cur_table h" "cur_table (h\<lparr>rc_version_list := vs\<rparr>) = cur_table h"
  "cur_table (h\<lparr>rc_resize_lock := l\<rparr>) = cur_table h"
  by (simp_all add: cur_table_def)

lemma irrelevant_lr [simp]:
  "open_lr e (h\<lparr>rc_status_lock := l\<rparr>) = open_lr e h" "open_lr e (h\<lparr>rc_version_list := vs\<rparr>) = open_lr e h"
  "map_lr (h\<lparr>rc_status_lock := l\<rparr>) = map_lr h" "map_lr (h\<lparr>rc_version_list := vs\<rparr>) = map_lr h"
  by (simp_all add: open_lr_def map_lr_def has_table_def)

lemma thread_version_Done:
  "clht_gc_thread_version ts v h = Done h' \<Longrightarrow> \<exists>vs. h' = h\<lparr>rc_version_list := vs\<rparr>"
  "clht_gc_thread_version_max ts h = Done h' \<Longrightarrow> \<exists>vs. h' = h\<lparr>rc_version_list := vs\<rparr>"
  by (auto simp: clht_gc_thread_version_max_def clht_gc_thread_version_def split: option.splits)

lemma version_used_Done:
  "CLHT_GC_HT_VERSION_USED ts h = Done h' \<Longrightarrow> \<exists>vs. h' = h\<lparr>rc_version_list := vs\<rparr>"
  using thread_version_Done(1) by (auto simp: CLHT_GC_HT_VERSION_USED_def split: if_splits)

lemma set_bucket_lr:
  assumes h: "open_lr e h" and b: "bucket_inv_lf b"
    "bucket_map_lf b = (bucket_map_lf (rt_table (cur_table h) ! rt_bin (cur_table h) k))(k := x)"
    and k: "k \<noteq> 0"
  shows "open_lr e (set_bucket_lr h (rt_bin (cur_table h) k) b)"
    and "map_lr (set_bucket_lr h (rt_bin (cur_table h) k) b) = (map_lr h)(k := x)"
proof -
  let ?t = "(cur_table h)\<lparr>rt_table := (rt_table (cur_table h))[rt_bin (cur_table h) k := b]\<rparr>"
  let ?h = "set_bucket_lr h (rt_bin (cur_table h) k) b"
  have c: "cur_table ?h = ?t" using h by (simp add: set_bucket_lr_def set_table_def cur_table_def open_lr_def has_table_def)
  have "lr.tinv (cur_table h)" using h by (simp add: open_lr_def)
  from update_lr [OF this b] show "map_lr ?h = (map_lr h)(k := x)" "open_lr e ?h"
    using h k unfolding open_lr_def map_lr_def c
    by (simp_all add: set_bucket_lr_def set_table_def has_table_def)
qed

section \<open>Resizing\<close>

lemma bucket_size_at_most: "bucket_size_lf b \<le> KEY_BUCKT"
  using length_filter_le [of _ "[0..<KEY_BUCKT]"] by (simp add: bucket_size_lf_def)

lemma elems_at_most:
  assumes "lr.tinv t"
  shows "elems_lr t \<le> unat (rt_num_buckets t) * ENTRIES_PER_BUCKET"
proof -
  have "elems_lr t \<le> (\<Sum>bin\<leftarrow>[0..<unat (ucast (rt_num_buckets t) :: u32)]. KEY_BUCKT)"
    unfolding elems_lr_def by (rule sum_list_mono) (rule bucket_size_at_most)
  also have "\<dots> = unat (rt_num_buckets t) * ENTRIES_PER_BUCKET"
    using assms
    by (simp add: lr.tinv_def rt_shape_def unsigned_ucast_eq take_bit_nat_eq_self sum_list_triv KEY_BUCKT_def ENTRIES_PER_BUCKET_def)
  finally show ?thesis .
qed

text \<open>A table is never more than full, so a resize doubles it.\<close>

lemma increase_by_lr_2:
  assumes "elems \<le> capacity"
  shows "increase_by_lr elems capacity = 2"
proof -
  let ?q = "100 * elems div (40 * capacity)"
  have "?q \<le> 100 * capacity div (40 * capacity)" by (rule div_le_mono) (use assms in simp)
  also have "\<dots> \<le> 2" by (cases "capacity = 0") simp_all
  finally consider "?q = 0" | "?q = 1" | "?q = 2" by linarith
  then show ?thesis
  proof cases
    case 1
    have "pow2roundup 0 \<le>s 1" by code_simp
    with 1 show ?thesis by (simp add: increase_by_lr_def CLHT_OCCUP_AFTER_RES_lr_def)
  next
    case 2
    have "pow2roundup 1 \<le>s 1" by code_simp
    with 2 show ?thesis by (simp add: increase_by_lr_def CLHT_OCCUP_AFTER_RES_lr_def)
  next
    case 3
    have "pow2roundup 2 = 2" by code_simp
    with 3 show ?thesis by (simp add: increase_by_lr_def CLHT_OCCUP_AFTER_RES_lr_def)
  qed
qed

lemma swap_table_lr:
  "cur_table (swap_table_lr h t) = t\<lparr>rt_table_prev := Some (rc_ht h)\<rparr>"
  "has_table (swap_table_lr h t)" "rc_resize_lock (swap_table_lr h t) = CLHT_LOCK_FREE"
  by (simp_all add: swap_table_lr_def Let_def cur_table_def has_table_def nth_append)

lemma create_lr_Some:
  "clht_hashtable_create_lr n m = (Some t, m') \<Longrightarrow> n \<noteq> 0 \<and> (\<exists>g. t = new_table_lr n g)"
  by (auto simp: clht_hashtable_create_lr_def split: if_splits option.splits prod.splits)

lemma resize_lr_Done:
  assumes h: "open_lr e h" and r: "ht_resize_pes_lr ts h True 2 m = Done (r, h', m')"
  shows "r \<and> open_lr (Suc e) h' \<and> map_lr h' = map_lr h"
proof -
  let ?t = "cur_table h" and ?n = "ucast (scast (2 :: u32) * rt_num_buckets (cur_table h)) :: u32"
  have hs: "has_table h" "lr.tinv ?t" "rt_num_buckets ?t = 2 ^ e" "e < 32" "lr.tmap ?t 0 = None" "rc_resize_lock h = CLHT_LOCK_FREE"
    using h by (simp_all add: open_lr_def)
  from r hs(1,6) obtain vs u m1 where c: "clht_hashtable_create_lr ?n m = (Some u, m1)" and rt: "r"
    and h': "h' = swap_table_lr vs (copy_buckets_lr (rt_table ?t) (u\<lparr>rt_version := rt_version ?t + 2\<rparr>))"
    by (auto simp: ht_resize_pes_lr_def Let_def CAS_def has_table_def bind_outcome_Done_iff
        split: prod.splits option.splits if_splits)
  from create_lr_Some [OF c] obtain g where n: "?n \<noteq> 0" and u: "u = new_table_lr ?n g" by blast
  have nn: "?n = 2 ^ Suc e" by (simp only: hs(3) ucast_scast_mult ucast_power [OF hs(4)] power_Suc)
  then have e: "Suc e < 32" using n unfolding nn exp_eq_zero_iff by simp
  note w = copied_lr [OF hs(2,5,3) _ e nn refl, where g = g and x = "rt_version ?t + 2", folded u]
  show ?thesis
    using w e rt hs(5) by (simp add: h' open_lr_def map_lr_def swap_table_lr header_lr)
qed

lemma status_lr_Done:
  assumes h: "open_lr e h" and r: "ht_status_lr ts h inc em prt m = Done (n, h', m')"
  shows "\<exists>e'. open_lr e' h' \<and> map_lr h' = map_lr h"
proof -
  let ?h = "h\<lparr>rc_status_lock := snd (TRYLOCK_ACQ (rc_status_lock h))\<rparr>"
  have "lr.tinv (cur_table h)" using h by (simp add: open_lr_def)
  from elems_at_most [OF this] have by2: "status_decision_lr (cur_table h) inc em = Some d \<Longrightarrow> d = 2" for d
    by (auto simp: status_decision_lr_def Let_def increase_by_lr_2 split: if_splits)
  have "h' = ?h \<or> h' = ?h\<lparr>rc_status_lock := CLHT_LOCK_FREE\<rparr> \<or>
    (\<exists>r u m2. ht_resize_pes_lr ts ?h True 2 m = Done (r, u, m2) \<and> h' = u\<lparr>rc_status_lock := CLHT_LOCK_FREE\<rparr>)"
    using r by2 by (auto simp: ht_status_lr_def Let_def case_prod_beta bind_outcome_Done_iff clht_gc_collect_def
      split: if_splits option.splits)
  then show ?thesis
  proof (elim disjE exE conjE)
    fix r u m2
    assume "ht_resize_pes_lr ts ?h True 2 m = Done (r, u, m2)" "h' = u\<lparr>rc_status_lock := CLHT_LOCK_FREE\<rparr>"
    with resize_lr_Done [of e ?h ts m r u m2] h show ?thesis by auto
  qed (use h in auto)
qed

section \<open>The operations\<close>

lemma bucket_at_lr:
  assumes "open_lr e h"
  shows "bucket_inv_lf (rt_table (cur_table h) ! rt_bin (cur_table h) k)"
    and "map_lr h k = bucket_map_lf (rt_table (cur_table h) ! rt_bin (cur_table h) k) k"
  using assms lr.tinv_chain by (simp_all add: open_lr_def map_lr_def lr.tmap_at)

text \<open>One round of an insertion.\<close>

lemma put_round_lr:
  assumes b: "bucket_inv_lf b" and v: "v \<noteq> 0"
  shows "(bucket_map_lf b k \<noteq> None \<and> put_round_lr b k v = Done (Some False, b)) \<or>
    (bucket_map_lf b k = None \<and> put_round_lr b k v = Done (None, b) \<and> KEY_BUCKT \<le> card (dom (bucket_map_lf b))) \<or>
    (bucket_map_lf b k = None \<and> card (dom (bucket_map_lf b)) < KEY_BUCKT \<and>
      (\<exists>b'. put_round_lr b k v = Done (Some True, b') \<and> bucket_inv_lf b' \<and>
        bucket_map_lf b' = (bucket_map_lf b)(k \<mapsto> v)))"
proof (cases "bucket_map_lf b k = None")
  case True
  note s = search_lf_0_iff [OF b, of k]
  show ?thesis
  proof (cases "snap_get_empty_index (snapshot_lf b)")
    case None
    with True s put_full_lf [OF b] show ?thesis by (simp add: put_round_lr_def)
  next
    case (Some e)
    with inserted_lf_law [OF b _ _ v True] snap_empty_Some [OF Some] True s put_full_lf [OF b]
    show ?thesis by (simp add: put_round_lr_def put_bucket_lf_eq)
  qed
next
  case False
  with search_lf_0_iff [OF b, of k] show ?thesis by (simp add: put_round_lr_def put_bucket_lf_eq)
qed

definition put_keeps_lr :: "clht_lr \<Rightarrow> u64 \<Rightarrow> u64 \<Rightarrow> (bool \<times> clht_lr \<times> mem) outcome \<Rightarrow> bool" where
  "put_keeps_lr h k v out \<longleftrightarrow> (case out of
     Done (r, h', m') \<Rightarrow> inv_lr h \<longrightarrow> k \<noteq> 0 \<longrightarrow> v \<noteq> 0 \<longrightarrow> inv_lr h' \<and> r = (map_lr h k = None) \<and>
       map_lr h' = (if r then (map_lr h)(k \<mapsto> v) else map_lr h)
   | _ \<Rightarrow> True)"

lemma put_keeps_lr_after:
  assumes "inv_lr h \<Longrightarrow> inv_lr u \<and> map_lr u = map_lr h" and "put_keeps_lr u k v out"
  shows "put_keeps_lr h k v out"
  using assms by (auto simp: put_keeps_lr_def split: outcome.splits)

lemma set_bucket_same:
  "open_lr e h \<Longrightarrow> set_bucket_lr h (rt_bin (cur_table h) k) (rt_table (cur_table h) ! rt_bin (cur_table h) k) = h"
  by (simp add: set_bucket_lr_def set_table_def cur_table_def)

lemma put_retry_lr_law: "put_retry_lr ts h k v n m = Some out \<Longrightarrow> put_keeps_lr h k v out"
proof (rule put_retry_lr.raw_induct [where P = "\<lambda>ts h k v n m out. put_keeps_lr h k v out"])
  fix f ts h k v n m out
  assume rec: "\<And>ts h k v n m out. f ts h k v n m = Some out \<Longrightarrow> put_keeps_lr h k v out"
    and body: "(if CLHT_CHECK_RESIZE h = Spins then Some Spins
      else if \<not> has_table h then Some Faults
      else let bin = unat (clht_hash_lr (cur_table h) k)
           in case put_round_lr (rt_table (cur_table h) ! bin) k v of
                Done (Some r, b) \<Rightarrow>
                  Some (bind_outcome (clht_gc_thread_version_max ts (set_bucket_lr h bin b)) (\<lambda>h. Done (r, h, m)))
              | Done (None, b) \<Rightarrow>
                  (if n \<ge> CLHT_NO_EMPTY_SLOT_TRIES
                   then case ht_status_lr ts h False 2 False m of
                          Done (_, h, m) \<Rightarrow> f ts h k v 0 m
                        | Spins \<Rightarrow> Some Spins
                        | Faults \<Rightarrow> Some Faults
                   else f ts h k v (Suc n) m)
              | Spins \<Rightarrow> Some Spins
              | Faults \<Rightarrow> Some Faults) = Some out"
  show "put_keeps_lr h k v out"
  proof (cases "inv_lr h \<and> k \<noteq> 0 \<and> v \<noteq> 0")
    case True
    then obtain e where h: "open_lr e h" and k: "k \<noteq> 0" and v: "v \<noteq> 0" by (auto simp: inv_lr_def)
    let ?b = "rt_table (cur_table h) ! rt_bin (cur_table h) k"
    note b = bucket_at_lr [OF h, of k]
    have go: "CLHT_CHECK_RESIZE h \<noteq> Spins" "has_table h"
      using h by (simp_all add: open_lr_def CLHT_CHECK_RESIZE_def CLHT_LOCK_FREE_def CLHT_LOCK_ACQR_def)
    have done_case: "put_keeps_lr h k v out"
      if "put_round_lr ?b k v = Done (Some r, b')" "bucket_inv_lf b'" "bucket_map_lf b' = (bucket_map_lf ?b)(k := x)"
        "r = (map_lr h k = None)" "x = (if r then Some v else map_lr h k)" for r b' x
    proof -
      have o: "out = bind_outcome (clht_gc_thread_version_max ts (set_bucket_lr h (rt_bin (cur_table h) k) b')) (\<lambda>h. Done (r, h, m))"
        using body go that(1) by (simp add: bin_lr)
      note s = set_bucket_lr [OF h that(2,3) k]
      show ?thesis
      proof (cases "clht_gc_thread_version_max ts (set_bucket_lr h (rt_bin (cur_table h) k) b')")
        case (Done h')
        from thread_version_Done(2) [OF this] s have "inv_lr h'" "map_lr h' = (map_lr h)(k := x)"
          by (auto simp: inv_lr_def)
        with that(4,5) show ?thesis by (auto simp: o Done put_keeps_lr_def)
      qed (simp_all add: o put_keeps_lr_def)
    qed
    from put_round_lr [OF b(1) v, of k] consider
      (present) "bucket_map_lf ?b k \<noteq> None" "put_round_lr ?b k v = Done (Some False, ?b)"
      | (full) "put_round_lr ?b k v = Done (None, ?b)"
      | (new) b' where "bucket_map_lf ?b k = None" "put_round_lr ?b k v = Done (Some True, b')" "bucket_inv_lf b'"
        "bucket_map_lf b' = (bucket_map_lf ?b)(k \<mapsto> v)" by blast
    then show ?thesis
    proof cases
      case present
      then show ?thesis using b by (intro done_case [of False ?b "map_lr h k"]) auto
    next
      case new
      then show ?thesis using b by (intro done_case [of True b' "Some v"]) auto
    next
      case full
      with body go have o: "(if n \<ge> CLHT_NO_EMPTY_SLOT_TRIES
                   then case ht_status_lr ts h False 2 False m of
                          Done (_, h, m) \<Rightarrow> f ts h k v 0 m
                        | Spins \<Rightarrow> Some Spins
                        | Faults \<Rightarrow> Some Faults
                   else f ts h k v (Suc n) m) = Some out" by (simp add: bin_lr)
      show ?thesis
      proof (cases "n \<ge> CLHT_NO_EMPTY_SLOT_TRIES")
        case False
        with o rec show ?thesis by simp
      next
        case True
        show ?thesis
        proof (cases "ht_status_lr ts h False 2 False m")
          case (Done y)
          obtain s u m2 where y: "y = (s, u, m2)" by (cases y) simp
          from status_lr_Done [OF h Done [unfolded y]] have u: "inv_lr u \<and> map_lr u = map_lr h" by (auto simp: inv_lr_def)
          from o True Done have "f ts u k v 0 m2 = Some out" by (simp add: y)
          from rec [OF this] show ?thesis by (rule put_keeps_lr_after [rotated]) (rule u)
        qed (use o True in \<open>auto simp: put_keeps_lr_def\<close>)
      qed
    qed
  qed (auto simp: put_keeps_lr_def split: outcome.splits)
qed

lemma clht_put_lr_law:
  assumes "inv_lr h" and "k \<noteq> 0" and "v \<noteq> 0" and "clht_put_lr ts h k v m = Done (r, h', m')"
  shows "inv_lr h' \<and> r = (map_lr h k = None) \<and> map_lr h' = (if r then (map_lr h)(k \<mapsto> v) else map_lr h)"
proof -
  from assms(4) have "put_retry_lr ts h k v 0 m = Some (Done (r, h', m'))"
    by (auto simp: clht_put_lr_def split: option.splits)
  from put_retry_lr_law [OF this] assms(1-3) show ?thesis by (simp add: put_keeps_lr_def)
qed

lemma clht_get_lr_law:
  assumes "inv_lr h" and "clht_get_lr ts h k = Done (r, h')"
  shows "inv_lr h' \<and> r = val_or_0 (map_lr h k) \<and> map_lr h' = map_lr h"
proof -
  from assms(1) obtain e where h: "open_lr e h" by (auto simp: inv_lr_def)
  from assms(2) obtain u where u: "CLHT_GC_HT_VERSION_USED ts h = Done u" "h' = u" "r = search_table_lr (cur_table u) k"
    by (auto simp: clht_get_lr_def bind_outcome_Done_iff)
  from version_used_Done [OF u(1)] obtain vs where vs: "u = h\<lparr>rc_version_list := vs\<rparr>" by blast
  have "lr.tinv (cur_table h)" using h by (simp add: open_lr_def)
  from lr.table_get_law [OF this, of k] u(2,3) vs h show ?thesis by (auto simp: inv_lr_def map_lr_def)
qed

lemma clht_remove_lr_law:
  assumes "inv_lr h" and "k \<noteq> 0" and "clht_remove_lr ts h k = Done (r, h')"
  shows "inv_lr h' \<and> r = val_or_0 (map_lr h k) \<and> map_lr h' = (map_lr h)(k := None)"
proof -
  from assms(1) obtain e where h: "open_lr e h" by (auto simp: inv_lr_def)
  let ?b = "rt_table (cur_table h) ! rt_bin (cur_table h) k"
  note b = bucket_at_lr [OF h, of k]
  from remove_bucket_lf_law [OF b(1), of k] obtain b' where
    b': "remove_bucket_lf ?b k = Done (val_or_0 (bucket_map_lf ?b k), b')" "bucket_inv_lf b'"
      "bucket_map_lf b' = (bucket_map_lf ?b)(k := None)" by blast
  from assms(3) b'(1) have "clht_gc_thread_version_max ts (set_bucket_lr h (rt_bin (cur_table h) k) b') = Done h'"
    and r: "r = val_or_0 (map_lr h k)"
    by (auto simp: clht_remove_lr_def bind_outcome_Done_iff bin_lr b(2) Let_def split: if_splits)
  from thread_version_Done(2) [OF this(1)] set_bucket_lr [OF h b'(2,3) assms(2)] r show ?thesis
    by (auto simp: inv_lr_def)
qed

section \<open>Runs\<close>

text \<open>The operations of a thread; a lookup writes the thread's version record.\<close>

fun step_lr :: "nat option \<Rightarrow> clht_lr \<times> mem \<Rightarrow> kv_op \<Rightarrow> (kv_res \<times> clht_lr \<times> mem) outcome" where
  "step_lr ts (h, m) (Get k) = bind_outcome (clht_get_lr ts h k) (\<lambda>(v, h). Done (RVal v, h, m))"
| "step_lr ts (h, m) (Put k v) = bind_outcome (clht_put_lr ts h k v m) (\<lambda>(r, h, m). Done (RBool r, h, m))"
| "step_lr ts (h, m) (Remove k) = bind_outcome (clht_remove_lr ts h k) (\<lambda>(v, h). Done (RVal v, h, m))"

interpretation lr_ops: op_store "\<lambda>s. inv_lr (fst s)" "\<lambda>s. map_lr (fst s)" "step_lr ts"
  "op_ok (\<lambda>k. k \<noteq> 0) (\<lambda>v. v \<noteq> 0)" for ts
proof
  fix s x r s'
  assume i: "inv_lr (fst s)" and ok: "op_ok (\<lambda>k. k \<noteq> 0) (\<lambda>v. v \<noteq> 0) x" and st: "step_lr ts s x = Done (r, s')"
  show "inv_lr (fst s') \<and> kv_step (map_lr (fst s)) x = (r, map_lr (fst s'))"
  proof (cases x)
    case (Get k)
    with st i clht_get_lr_law show ?thesis by (cases s) (force simp: bind_outcome_Done_iff)
  next
    case (Put k v)
    with st obtain b h' m' where "clht_put_lr ts (fst s) k v (snd s) = Done (b, h', m')" "r = RBool b" "s' = (h', m')"
      by (cases s) (auto simp: bind_outcome_Done_iff)
    with clht_put_lr_law [OF i, of k v ts "snd s" b h' m'] ok Put show ?thesis by auto
  next
    case (Remove k)
    with st i ok clht_remove_lr_law show ?thesis by (cases s) (force simp: bind_outcome_Done_iff)
  qed
qed

end
