(* ===== verification/Clht_lf_res_run.thy ===== *)
theory Clht_lf_res_run
  imports Clht_lf_res_map Bounded_store
begin

text \<open>
  The properties of \<open>CLHT-LF-RES\<close>: runs, the outcome of an insertion, when a resize ends, and the
  entry that a resize loses.
\<close>

section \<open>Properties\<close>

text \<open>
  C34. A run of lookups, insertions and removals by one thread on a resizing lock-free table with a
  power of two of bins, with keys and values other than 0, that returns gives the answers and the
  final content of the abstract map, whatever resizes the insertions set off.
\<close>

theorem clht_lr_refines_map:
  assumes "inv_lr h" and "\<forall>x\<in>set xs. op_ok (\<lambda>k. k \<noteq> 0) (\<lambda>v. v \<noteq> 0) x"
    and "steps_run (step_lr ts) (h, m) xs = Done (rs, h', m')"
  shows "inv_lr h' \<and> kv_run (map_lr h) xs = (rs, map_lr h')"
  using lr_ops.run_law [of "(h, m)" xs ts rs "(h', m')"] assms by simp

lemma elems_card_lr:
  assumes "open_lr e h"
  shows "elems_lr (cur_table h) = card (dom (map_lr h))"
proof -
  let ?t = "cur_table h"
  from assms have t: "lr.tinv ?t" and z: "lr.tmap ?t 0 = None" by (simp_all add: open_lr_def)
  then have sh: "rt_shape ?t" and ci: "chains_inv bucket_inv_lf bucket_map_lf (rt_bin ?t) (rt_table ?t)"
    by (simp_all add: lr.tinv_def)
  have len: "unat (ucast (rt_num_buckets ?t) :: u32) = length (rt_table ?t)"
    using sh by (simp add: rt_shape_def unsigned_ucast_eq take_bit_nat_eq_self)
  have nz: "nonzero_keys (lr.tmap ?t) = lr.tmap ?t" using z by (auto simp: nonzero_keys_def)
  have "elems_lr ?t = (\<Sum>b\<leftarrow>rt_table ?t. bucket_size_lf b)" by (simp add: elems_lr_def len map_index_eq)
  moreover have "unat (of_nat (\<Sum>b\<leftarrow>rt_table ?t. bucket_size_lf b) :: u64) = card (dom (lr.tmap ?t))"
    using chains_size [OF ci rt_bin_less [OF sh] bucket_size_lf_card finite_bucket_map_lf]
    unfolding lr.tmap_def [symmetric] nz by simp
  moreover have "elems_lr ?t < 2 ^ 64"
    using elems_at_most [OF t] sh by (simp add: rt_shape_def ENTRIES_PER_BUCKET_def)
  ultimately show ?thesis by (simp add: unat_of_nat_u64 map_lr_def)
qed

text \<open>A table that is too empty to be resized: a call that meets a full bucket changes only a lock.\<close>

definition stuck_lr :: "clht_lr \<Rightarrow> u64 \<Rightarrow> u64 \<Rightarrow> bool" where
  "stuck_lr h k v \<longleftrightarrow> has_table h \<and> rc_resize_lock h = CLHT_LOCK_FREE \<and>
     status_decision_lr (cur_table h) False 2 = None \<and>
     put_round_lr (rt_table (cur_table h) ! rt_bin (cur_table h) k) k v =
       Done (None, rt_table (cur_table h) ! rt_bin (cur_table h) k)"

lemma stuck_status:
  assumes "stuck_lr h k v" and "ht_status_lr ts h False 2 False m = Done (n, h', m')"
  shows "stuck_lr h' k v"
proof -
  have "\<exists>l. h' = h\<lparr>rc_status_lock := l\<rparr>"
    using assms by (auto simp: stuck_lr_def ht_status_lr_def Let_def case_prod_beta clht_gc_collect_def split: if_splits)
  with assms(1) show ?thesis by (auto simp: stuck_lr_def has_table_def)
qed

lemma stuck_status_Done:
  assumes "stuck_lr h k v"
  shows "\<exists>n h' m'. ht_status_lr ts h False 2 False m = Done (n, h', m')"
  using assms by (auto simp: stuck_lr_def has_table_def ht_status_lr_def Let_def case_prod_beta)

lemma stuck_put: "put_retry_lr ts h k v n m = Some out \<Longrightarrow> \<not> stuck_lr h k v"
proof (rule put_retry_lr.raw_induct [where P = "\<lambda>ts h k v n m out. \<not> stuck_lr h k v"])
  fix f ts h k v n m out
  assume rec: "\<And>ts h k v n m out. f ts h k v n m = Some out \<Longrightarrow> \<not> stuck_lr h k v"
    and body: "(if CLHT_CHECK_RESIZE h = Spins then Some Spins
      else if \<not> has_table h then Some Faults
      else let bin = unat (clht_hash_lr (cur_table h) k)
           in case put_round_lr (rt_table (cur_table h) ! bin) k v of
                Done (Some r, b) \<Rightarrow>
                  Some (bind_outcome (clht_gc_thread_version_max ts (set_bucket_lr h bin b)) (\<lambda>h. Done (r, h, m)))
              | Done (None, b) \<Rightarrow>
                  (if n \<ge> CLHT_NO_EMPTY_SLOT_TRIES
                   then case ht_status_lr ts h False 2 False m of
                          Done (_, h, m) \<Rightarrow> f ts h k v 0 m
                        | Spins \<Rightarrow> Some Spins
                        | Faults \<Rightarrow> Some Faults
                   else f ts h k v (Suc n) m)
              | Spins \<Rightarrow> Some Spins
              | Faults \<Rightarrow> Some Faults) = Some out"
  show "\<not> stuck_lr h k v"
  proof
    assume s: "stuck_lr h k v"
    then have p: "CLHT_CHECK_RESIZE h \<noteq> Spins" "has_table h"
      "put_round_lr (rt_table (cur_table h) ! rt_bin (cur_table h) k) k v =
        Done (None, rt_table (cur_table h) ! rt_bin (cur_table h) k)"
      by (simp_all add: stuck_lr_def CLHT_CHECK_RESIZE_def CLHT_LOCK_FREE_def CLHT_LOCK_ACQR_def)
    from stuck_status_Done [OF s, of ts m] obtain y h' m' where st: "ht_status_lr ts h False 2 False m = Done (y, h', m')"
      by blast
    from body p have "f ts h k v (Suc n) m = Some out \<or> f ts h' k v 0 m' = Some out"
      by (simp add: bin_lr st split: if_splits)
    with rec s stuck_status [OF s st] show False by blast
  qed
qed

text \<open>
  C35. An insertion by a registered thread returns at once when the key is in the table or its bucket
  has a free slot. When the key is absent, its bucket full and less than \<open>CLHT_PERC_FULL_HALVE\<close>
  percent of the table in use, it never returns: \<open>ht_status\<close> refuses the resize that it asks for.
\<close>

theorem clht_put_lr_outcome:
  assumes "open_lr e h" and "k \<noteq> 0" and "v \<noteq> 0"
  shows "if map_lr h k \<noteq> None \<or> bin_has_room KEY_BUCKT (rt_bin (cur_table h)) (map_lr h) k
    then \<exists>h'. clht_put_lr (Some i) h k v m = Done (map_lr h k = None, h', m) \<and> rc_ht h' = rc_ht h
    else 100 * card (dom (map_lr h)) < CLHT_PERC_FULL_HALVE_lr * (KEY_BUCKT * 2 ^ e) \<longrightarrow>
      clht_put_lr (Some i) h k v m = Spins"
proof -
  let ?t = "cur_table h"
  let ?b = "rt_table ?t ! rt_bin ?t k"
  note b = bucket_at_lr [OF assms(1), of k]
  from assms(1) have t: "lr.tinv ?t" and n: "rt_num_buckets ?t = 2 ^ e" "e < 32" and lk: "rc_resize_lock h = CLHT_LOCK_FREE"
    and ht: "has_table h" by (simp_all add: open_lr_def)
  have go: "CLHT_CHECK_RESIZE h \<noteq> Spins" using lk by (simp add: CLHT_CHECK_RESIZE_def CLHT_LOCK_FREE_def CLHT_LOCK_ACQR_def)
  have l: "rt_bin ?t k < length (rt_table ?t)" using t by (simp add: lr.tinv_def rt_bin_less)
  have room: "bin_has_room KEY_BUCKT (rt_bin ?t) (map_lr h) k \<longleftrightarrow> card (dom (bucket_map_lf ?b)) < KEY_BUCKT"
    using bucket_dom_lr [OF t l] by (simp add: bin_has_room_def map_lr_def)
  from put_round_lr [OF b(1) assms(3), of k] consider
    (ret) b' where "put_round_lr ?b k v = Done (Some (map_lr h k = None), b')"
      "map_lr h k \<noteq> None \<or> card (dom (bucket_map_lf ?b)) < KEY_BUCKT"
    | (full) "map_lr h k = None" "put_round_lr ?b k v = Done (None, ?b)" "KEY_BUCKT \<le> card (dom (bucket_map_lf ?b))"
    unfolding b(2) by fastforce
  then show ?thesis
  proof cases
    case ret
    have "\<exists>h'. put_retry_lr (Some i) h k v 0 m = Some (Done (map_lr h k = None, h', m)) \<and> rc_ht h' = rc_ht h"
      using go ht ret(1) by (subst put_retry_lr.simps)
        (simp add: bin_lr clht_gc_thread_version_max_def clht_gc_thread_version_def set_bucket_lr_def set_table_def)
    with ret(2) room show ?thesis by (auto simp: clht_put_lr_def)
  next
    case full
    have "stuck_lr h k v" if few: "100 * card (dom (map_lr h)) < CLHT_PERC_FULL_HALVE_lr * (KEY_BUCKT * 2 ^ e)"
    proof -
      have "card (dom (bucket_map_lf ?b)) \<le> card (dom (map_lr h))"
        using bucket_dom_lr [OF t l] elems_card_lr [OF assms(1)] full(3)
        by (intro card_mono) (auto simp: map_lr_def KEY_BUCKT_def intro: ccontr)
      with few full(3) have "0 < elems_lr ?t" "100 * elems_lr ?t < CLHT_PERC_FULL_HALVE_lr * (unat (rt_num_buckets ?t) * ENTRIES_PER_BUCKET)"
        using n by (simp_all add: elems_card_lr [OF assms(1)] KEY_BUCKT_def ENTRIES_PER_BUCKET_def unat_exp2 mult.commute)
      with full(2) lk ht show ?thesis by (simp add: stuck_lr_def status_decision_lr_def)
    qed
    with stuck_put [of "Some i" h k v 0 m] full room show ?thesis
      by (cases "put_retry_lr (Some i) h k v 0 m") (auto simp: clht_put_lr_def)
  qed
qed

lemma min_versions_le_iff: "min_versions tss v0 \<le> v \<longleftrightarrow> v0 \<le> v \<or> (\<exists>ts\<in>set tss. ts_version ts \<le> v)"
  by (induction tss arbitrary: v0) (auto simp: not_less intro: order_trans less_imp_le)

lemma word_Suc_le: "v + 1 \<le> v \<longleftrightarrow> v = - 1" for v :: u64
proof (cases "v = - 1")
  case False
  then have "v + 1 \<noteq> 0" by (metis add_eq_0_iff2)
  then have "unat (v + 1) = Suc (unat v)" by (simp add: unatSuc add.commute)
  with False show ?thesis by (simp add: word_le_nat_alt)
qed simp

text \<open>
  C36. A resize of the lock-free table does not end until every other registered thread has a version
  above that of the table it replaces, so it waits for ever for a thread that is idle after a lookup
  (or after it registered); nor does it end when the version that \<open>clht_create\<close> left
  uninitialised is the largest number.
\<close>

theorem ht_resize_pes_lr_waits:
  assumes "has_table h" and "rc_resize_lock h = CLHT_LOCK_FREE" and "i < length (rc_version_list h)"
  shows "ht_resize_pes_lr (Some i) h inc d m = Spins \<longleftrightarrow>
    rt_version (cur_table h) = - 1 \<or>
    (\<exists>j<length (rc_version_list h). j \<noteq> i \<and> ts_version (rc_version_list h ! j) \<le> rt_version (cur_table h))"
proof -
  let ?v = "rt_version (cur_table h)" and ?vs = "rc_version_list h"
  let ?vs' = "?vs[i := (?vs ! i)\<lparr>ts_version := ?v + 1\<rparr>]"
  let ?h = "(set_table (rc_ht h) ((cur_table h)\<lparr>rt_version := ?v + 1\<rparr>) (h\<lparr>rc_resize_lock := CLHT_LOCK_ACQR\<rparr>))
    \<lparr>rc_version_list := ?vs'\<rparr>"
  have c: "rt_version (cur_table ?h) = ?v + 1"
    using assms(1) by (simp add: set_table_def cur_table_def has_table_def)
  have "ht_resize_pes_lr (Some i) h inc d m = Spins \<longleftrightarrow> clht_gc_min_version_used ?h \<le> ?v"
    using assms(1,2) by (auto simp: ht_resize_pes_lr_def Let_def CAS_def case_prod_beta CLHT_GC_HT_VERSION_USED_def
      has_table_def set_table_def cur_table_def clht_gc_thread_version_def split: option.splits)
  also have "\<dots> \<longleftrightarrow> ?v + 1 \<le> ?v \<or> (\<exists>ts\<in>set ?vs'. ts_version ts \<le> ?v)"
    unfolding clht_gc_min_version_used_def c by (simp add: min_versions_le_iff)
  also have "\<dots> \<longleftrightarrow> ?v = - 1 \<or> (\<exists>j<length ?vs. ts_version (?vs' ! j) \<le> ?v)"
    unfolding word_Suc_le by (metis in_set_conv_nth length_list_update)
  also have "\<dots> \<longleftrightarrow> ?v = - 1 \<or> (\<exists>j<length ?vs. j \<noteq> i \<and> ts_version (?vs ! j) \<le> ?v)"
  proof -
    have "ts_version (?vs' ! j) = (if j = i then ?v + 1 else ts_version (?vs ! j))" if "j < length ?vs" for j
      using that by simp
    then show ?thesis using word_Suc_le [of ?v] assms(3) by metis
  qed
  finally show ?thesis .
qed

section \<open>Examples and witnesses\<close>

declare put_retry_lr.simps [code]

text \<open>A new table of \<open>n\<close> bins with version 7 and one registered thread, which has version \<open>v\<close>.\<close>

definition example_lr :: "u32 \<Rightarrow> u64 \<Rightarrow> clht_lr" where
  "example_lr n v = \<lparr>rc_ht = 0, rc_ht_oldest = 0, rc_version_list = [\<lparr>ts_version = v, ts_id = 0\<rparr>],
     rc_version_min = 0, rc_resize_lock = CLHT_LOCK_FREE, rc_gc_lock = CLHT_LOCK_FREE,
     rc_status_lock = CLHT_LOCK_FREE, rc_tables = [new_table_lr n (7, 7, 7)], rc_released = [], rc_freed = []\<rparr>"

text \<open>
  A resize loses the entry of key 0: three keys fill a table of one bin, the fourth sets off a
  resize, and the sequential insertion of the copy takes the slot with key 0 for an empty one. Before
  the resize, and in a table that is not resized, key 0 is a key like any other.
\<close>

theorem clht_lr_loses_key_0:
  "\<exists>h1 h2 h3 m1. clht_create_lr 1 example_mem = (Some h1, m1) \<and>
     example_lr 1 0 = h1\<lparr>rc_version_list := [\<lparr>ts_version = 0, ts_id = 0\<rparr>]\<rparr> \<and>
     steps_run (step_lr (Some 0)) (example_lr 1 0, m1) [Put 0 5, Put 2 6, Put 4 7, Get 0] =
       Done ([RBool True, RBool True, RBool True, RVal 5], h2, m1) \<and>
     (\<exists>m3. steps_run (step_lr (Some 0)) (h2, m1) [Put 6 8, Get 0, Get 2, Get 4, Get 6] =
       Done ([RBool True, RVal 0, RVal 6, RVal 7, RVal 8], h3, m3))"
proof -
  let ?h1 = "(example_lr 1 0)\<lparr>rc_version_list := []\<rparr>"
  let ?m1 = "snd (clht_create_lr 1 example_mem)"
  let ?run = "steps_run (step_lr (Some 0))"
  let ?xs = "[Put 0 5, Put 2 6, Put 4 7, Get 0]" and ?ys = "[Put 6 8, Get 0, Get 2, Get 4, Get 6]"
  have "fst (clht_create_lr 1 example_mem) = Some ?h1" by code_simp
  then have c: "clht_create_lr 1 example_mem = (Some ?h1, ?m1)" by (metis prod.collapse)
  have r: "case ?run (example_lr 1 0, ?m1) ?xs of
      Done (rs, h2, m2) \<Rightarrow> rs = [RBool True, RBool True, RBool True, RVal 5] \<and> m2 = ?m1 \<and>
        (case ?run (h2, m2) ?ys of Done (rs, h3, m3) \<Rightarrow> rs = [RBool True, RVal 0, RVal 6, RVal 7, RVal 8] | _ \<Rightarrow> False)
    | _ \<Rightarrow> False" by code_simp
  then obtain h2 where "?run (example_lr 1 0, ?m1) ?xs = Done ([RBool True, RBool True, RBool True, RVal 5], h2, ?m1)"
    and q: "case ?run (h2, ?m1) ?ys of Done (rs, h3, m3) \<Rightarrow> rs = [RBool True, RVal 0, RVal 6, RVal 7, RVal 8] | _ \<Rightarrow> False"
    by (cases "?run (example_lr 1 0, ?m1) ?xs") (auto simp del: steps_run.simps step_lr.simps)
  moreover from q obtain h3 m3 where "?run (h2, ?m1) ?ys = Done ([RBool True, RVal 0, RVal 6, RVal 7, RVal 8], h3, m3)"
    by (cases "?run (h2, ?m1) ?ys") (auto simp del: steps_run.simps step_lr.simps)
  moreover have "example_lr 1 0 = ?h1\<lparr>rc_version_list := [\<lparr>ts_version = 0, ts_id = 0\<rparr>]\<rparr>"
    by (simp add: example_lr_def)
  ultimately show ?thesis using c by blast
qed

text \<open>A new table with a power of two of bins is open and empty, whatever threads register.\<close>

lemma new_open_lr:
  assumes "n \<noteq> 0" and "unat n = 2 ^ e" and "rc_tables h = [new_table_lr n g]" and "rc_ht h = 0"
    and "rc_resize_lock h = CLHT_LOCK_FREE"
  shows "open_lr e h" and "map_lr h = Map.empty"
proof -
  have "(2 :: nat) ^ e < 2 ^ 32" using unat_bound [of n] assms(2) by simp
  then have e: "e < 32" by (rule power_less_imp_less_exp [rotated]) simp
  then have "ucast n = (2 ^ e :: u64)" using assms(2) by (simp add: word_unat_eq_iff unat_ucast_u32 unat_exp2)
  with new_table_lr [OF assms(1), of g] e assms(3-5) show "open_lr e h" "map_lr h = Map.empty"
    by (simp_all add: open_lr_def map_lr_def cur_table_def has_table_def)
qed

lemma clht_create_lr_law:
  assumes "clht_create_lr n m = (Some h, m')" and "has_table h" and "unat n = 2 ^ e"
  shows "open_lr e (h\<lparr>rc_version_list := vs\<rparr>)" and "map_lr (h\<lparr>rc_version_list := vs\<rparr>) = Map.empty"
proof -
  obtain g where "n \<noteq> 0" "rc_tables h = [new_table_lr n g]" "rc_ht h = 0" "rc_resize_lock h = CLHT_LOCK_FREE"
    using assms(1,2) by (auto simp: clht_create_lr_def clht_hashtable_create_lr_def Let_def has_table_def
      split: option.splits prod.splits if_splits)
  with new_open_lr [OF _ assms(3)] show "open_lr e (h\<lparr>rc_version_list := vs\<rparr>)" "map_lr (h\<lparr>rc_version_list := vs\<rparr>) = Map.empty"
    by simp_all
qed

lemma example_open_lr: "open_lr 0 (example_lr 1 v)" "map_lr (example_lr 1 v) = Map.empty"
  using new_open_lr [where n = 1 and e = 0 and h = "example_lr 1 v" and g = "(7, 7, 7)"] by (simp_all add: example_lr_def)

definition example_ops_lr :: "kv_op list" where
  "example_ops_lr = [Put 2 6, Put 4 7, Put 6 8, Put 8 9, Get 4, Remove 6, Get 6, Put 8 1]"

theorem clht_lr_refines_map_witness:
  "\<exists>rs h' m'. steps_run (step_lr (Some 0)) (example_lr 1 0, example_mem) example_ops_lr = Done (rs, h', m') \<and>
     rc_ht h' = 2 \<and> kv_run Map.empty example_ops_lr = (rs, map_lr h')"
proof -
  have r: "case steps_run (step_lr (Some 0)) (example_lr 1 0, example_mem) example_ops_lr of
      Done (rs, h', m') \<Rightarrow> rc_ht h' = 2 | _ \<Rightarrow> False" by code_simp
  then obtain rs h' m' where d: "steps_run (step_lr (Some 0)) (example_lr 1 0, example_mem) example_ops_lr = Done (rs, h', m')"
    "rc_ht h' = 2" by (auto split: outcome.splits)
  have o: "open_lr 0 (example_lr 1 0)" "map_lr (example_lr 1 0) = Map.empty" using example_open_lr [of 0] by simp_all
  have "\<forall>x\<in>set example_ops_lr. op_ok (\<lambda>k. k \<noteq> 0) (\<lambda>v. v \<noteq> 0) x" by (simp add: example_ops_lr_def)
  with clht_lr_refines_map [OF _ this d(1)] o d show ?thesis by (auto simp: inv_lr_def)
qed

text \<open>
  64 bins and three keys in the first of them: a fourth key for that bin finds no slot, and 3 of 192 is
  less than 2 percent.
\<close>

lemma example_full_run:
  "case steps_run (step_lr (Some 0)) (example_lr 64 0, example_mem) [Put 64 1, Put 128 2, Put 192 3] of
     Done (rs, h', m') \<Rightarrow> m' = example_mem \<and> rt_num_buckets (cur_table h') = 64 \<and> rt_hash (cur_table h') = 63
   | _ \<Rightarrow> False"
  by code_simp

lemma example_full_lr:
  obtains h where "open_lr 6 h" and "map_lr h = [64 \<mapsto> 1, 128 \<mapsto> 2, 192 \<mapsto> 3]" and "rt_hash (cur_table h) = 63"
proof -
  let ?r = "steps_run (step_lr (Some 0)) (example_lr 64 0, example_mem) [Put 64 1, Put 128 2, Put 192 3]"
  from example_full_run obtain rs h m where r: "?r = Done (rs, h, m)" "rt_num_buckets (cur_table h) = 64" "rt_hash (cur_table h) = 63"
    by (cases ?r) (auto simp del: steps_run.simps step_lr.simps)
  have e: "open_lr 6 (example_lr 64 0)" "map_lr (example_lr 64 0) = Map.empty"
    using new_open_lr [where n = 64 and e = 6 and h = "example_lr 64 0" and g = "(7, 7, 7)"] by (simp_all add: example_lr_def)
  have "inv_lr (example_lr 64 0)" using e(1) by (auto simp: inv_lr_def)
  with lr_ops.run_law [OF _ _ r(1)] e(2) have h: "inv_lr h" "map_lr h = [64 \<mapsto> 1, 128 \<mapsto> 2, 192 \<mapsto> 3]"
    by (simp_all add: eq_commute [of _ "map_lr h"])
  from h(1) obtain c where c: "open_lr c h" "c < 32" "rt_num_buckets (cur_table h) = 2 ^ c" by (auto simp: inv_lr_def open_lr_def)
  with r(2) have "(2 :: nat) ^ c = 2 ^ 6" using unat_exp2 [of c, where 'a = 64] by simp
  then have "c = 6" by (rule power_inject_exp [THEN iffD1, rotated]) simp
  with c(1) h(2) r(3) that show thesis by blast
qed

theorem clht_put_lr_outcome_witness:
  "\<exists>h. open_lr 6 h \<and> map_lr h = [64 \<mapsto> 1, 128 \<mapsto> 2, 192 \<mapsto> 3] \<and>
     clht_put_lr (Some 0) h 256 5 example_mem = Spins"
proof -
  obtain h where h: "open_lr 6 h" "map_lr h = [64 \<mapsto> 1, 128 \<mapsto> 2, 192 \<mapsto> 3]" "rt_hash (cur_table h) = 63"
    by (rule example_full_lr)
  have d: "dom (map_lr h) = {64, 128, 192}" by (auto simp: h(2))
  have b: "rt_bin (cur_table h) k = unat (mask_bin 63 k)" for k by (simp add: rt_bin_def h(3))
  have "mask_bin 63 64 = 0" "mask_bin 63 128 = 0" "mask_bin 63 192 = 0" "mask_bin 63 256 = 0" by code_simp+
  then have "{k' \<in> dom (map_lr h). rt_bin (cur_table h) k' = rt_bin (cur_table h) 256} = {64, 128, 192}"
    unfolding d b by auto
  then have "\<not> bin_has_room KEY_BUCKT (rt_bin (cur_table h)) (map_lr h) 256"
    by (simp add: bin_has_room_def KEY_BUCKT_def)
  with clht_put_lr_outcome [OF h(1), of 256 5 0 example_mem] have "clht_put_lr (Some 0) h 256 5 example_mem = Spins"
    by (simp add: d h(2) CLHT_PERC_FULL_HALVE_lr_def KEY_BUCKT_def)
  with h show ?thesis by blast
qed

theorem ht_resize_pes_lr_waits_witness:
  "ht_resize_pes_lr (Some 0) ((example_lr 1 0)\<lparr>rc_version_list := [\<lparr>ts_version = 0, ts_id = 0\<rparr>, \<lparr>ts_version = 7, ts_id = 1\<rparr>]\<rparr>)
     True 2 example_mem = Spins"
proof (rule ht_resize_pes_lr_waits [THEN iffD2, OF _ _ _ disjI2])
qed (auto simp: example_lr_def has_table_def cur_table_def new_table_lr_def intro!: exI [of _ "Suc 0"])

end
