(* ===== verification/Locks.thy ===== *)
theory Locks
  imports Step_system Prelude Atomic_ops
begin

text \<open>
  The locks of \<open>src/include/lock_if.h\<close> that the header defines itself: test-and-set (\<open>TAS\<close>),
  test-and-test-and-set (\<open>TTAS\<close>) and the ticket lock (\<open>TICKET\<close>), with \<open>PTLOCK_SIZE\<close> 32 and without
  \<open>RETRY_STATS\<close>. Any number of threads use one lock, one access to its memory per step; \<open>PAUSE\<close>,
  prefetches and the proportional waiting of \<open>OPTERON_OPTIMIZE\<close> take no step. The
  locks \<open>HTICKET\<close> and \<open>CLH\<close> are declared in the repository but defined elsewhere.
\<close>

section \<open>Threads on one lock\<close>

text \<open>
  A thread that does not hold the lock may call \<open>LOCK\<close> or \<open>TRYLOCK\<close>; one that holds it may call
  \<open>UNLOCK\<close>: \<open>call\<close> says which program points follow a point at which the thread runs its own code.
\<close>

record ('s, 'p) lock_config =
  word :: 's
  points :: "'p list"

definition lock_run :: "('p \<Rightarrow> 's \<Rightarrow> 'p \<times> 's) \<Rightarrow> nat \<Rightarrow> ('s, 'p) lock_config \<Rightarrow> ('s, 'p) lock_config" where
  "lock_run step t c =
     (let (p, s) = step (points c ! t) (word c) in \<lparr>word = s, points = (points c)[t := p]\<rparr>)"

inductive lock_conc :: "('p \<Rightarrow> 'p \<Rightarrow> bool) \<Rightarrow> ('p \<Rightarrow> bool) \<Rightarrow> ('p \<Rightarrow> 's \<Rightarrow> 'p \<times> 's) \<Rightarrow>
    ('s, 'p) lock_config \<Rightarrow> ('s, 'p) lock_config \<Rightarrow> bool"
  for call :: "'p \<Rightarrow> 'p \<Rightarrow> bool" and busy :: "'p \<Rightarrow> bool" and step :: "'p \<Rightarrow> 's \<Rightarrow> 'p \<times> 's" where
  call: "t < length (points c) \<Longrightarrow> call (points c ! t) p \<Longrightarrow>
    lock_conc call busy step c (c\<lparr>points := (points c)[t := p]\<rparr>)"
| run: "t < length (points c) \<Longrightarrow> busy (points c ! t) \<Longrightarrow> lock_conc call busy step c (lock_run step t c)"

definition lock_init :: "'s \<Rightarrow> 'p \<Rightarrow> ('s, 'p) lock_config \<Rightarrow> bool" where
  "lock_init s idle c \<longleftrightarrow> word c = s \<and> (\<forall>p\<in>set (points c). p = idle)"

inductive_cases lock_concE: "lock_conc call busy step c c'"

section \<open>Locks that are one flag\<close>

locale flag_lock =
  fixes call :: "'p \<Rightarrow> 'p \<Rightarrow> bool"
    and busy :: "'p \<Rightarrow> bool"
    and step :: "'p \<Rightarrow> 's \<Rightarrow> 'p \<times> 's"
    and init :: 's
    and idle :: 'p
    and holds :: "'p \<Rightarrow> bool"
    and locked :: "'s \<Rightarrow> bool"
    and ok :: "'s \<Rightarrow> bool"
  assumes init_free: "ok init \<and> \<not> locked init"
    and idle_out: "\<not> holds idle"
    and call_keeps: "call p q \<Longrightarrow> holds q = holds p"
    and ok_step: "ok s \<Longrightarrow> step p s = (q, u) \<Longrightarrow> ok u"
    and outside: "ok s \<Longrightarrow> step p s = (q, u) \<Longrightarrow> \<not> holds p \<Longrightarrow> if holds q then \<not> locked s \<and> locked u else locked u = locked s"
    and inside: "step p s = (q, u) \<Longrightarrow> holds p \<Longrightarrow> if holds q then locked u = locked s else \<not> locked u"
begin

definition flag_inv :: "('s, 'p) lock_config \<Rightarrow> bool" where
  "flag_inv c \<longleftrightarrow> ok (word c) \<and> (locked (word c) \<longleftrightarrow> (\<exists>t<length (points c). holds (points c ! t))) \<and>
     (\<forall>t<length (points c). \<forall>u<length (points c). holds (points c ! t) \<longrightarrow> holds (points c ! u) \<longrightarrow> t = u)"

lemma flag_inv_init: "lock_init init idle c \<Longrightarrow> flag_inv c"
  using init_free idle_out by (force simp: lock_init_def flag_inv_def)

lemma flag_inv_run:
  assumes inv: "flag_inv c" and t: "t < length (points c)"
  shows "flag_inv (lock_run step t c)"
proof -
  obtain q u where s: "step (points c ! t) (word c) = (q, u)" by (cases "step (points c ! t) (word c)")
  have w: "ok (word c)" using inv by (simp add: flag_inv_def)
  note okw = ok_step [OF w s] and out = outside [OF w s]
  show ?thesis
  proof (cases "holds (points c ! t)")
    case True
    have "\<not> holds (points c ! v)" if "v < length (points c)" "v \<noteq> t" for v
      using that True t inv by (auto simp: flag_inv_def)
    with True t inv okw inside [OF s True] show ?thesis
      by (auto simp: flag_inv_def lock_run_def s nth_list_update split: if_splits)
  next
    case False
    show ?thesis
    proof (cases "holds q")
      case True
      with out [OF False] have "\<not> locked (word c)" "locked u" by simp_all
      then have "\<not> holds (points c ! v)" if "v < length (points c)" for v
        using that inv by (auto simp: flag_inv_def)
      with \<open>locked u\<close> True t okw show ?thesis by (auto simp: flag_inv_def lock_run_def s nth_list_update)
    next
      case F: False
      with out [OF False] have "locked u = locked (word c)" by simp
      with F t False inv okw show ?thesis by (auto simp: flag_inv_def lock_run_def s nth_list_update)
    qed
  qed
qed

lemma flag_inv_step:
  assumes "flag_inv c" and "lock_conc call busy step c c'"
  shows "flag_inv c'"
  using assms(2)
proof (cases rule: lock_conc.cases)
  case (call t p)
  then have "holds ((points c)[t := p] ! u) = holds (points c ! u)" for u
    using call_keeps by (cases "u = t") auto
  with assms(1) call show ?thesis by (auto simp: flag_inv_def)
qed (use flag_inv_run assms(1) in blast)

sublocale flag: step_system "lock_init init idle" "lock_conc call busy step" flag_inv "\<lambda>_. True"
  by unfold_locales (use flag_inv_init flag_inv_step in auto)

lemma flag_exclusive:
  assumes "reachable (lock_init init idle) (lock_conc call busy step) c"
    and "t < length (points c)" and "u < length (points c)"
    and "holds (points c ! t)" and "holds (points c ! u)"
  shows "t = u"
  using flag.reachable_inv [OF assms(1)] assms(2-5) by (auto simp: flag_inv_def)

lemma flag_locked:
  assumes "reachable (lock_init init idle) (lock_conc call busy step) c"
  shows "locked (word c) \<longleftrightarrow> (\<exists>t<length (points c). holds (points c ! t))"
  using flag.reachable_inv [OF assms] by (auto simp: flag_inv_def)

lemma flag_ok: "reachable (lock_init init idle) (lock_conc call busy step) c \<Longrightarrow> ok (word c)"
  using flag.reachable_inv by (auto simp: flag_inv_def)

end

section \<open>Test-and-set\<close>

definition TAS_FREE :: u32 where
  "TAS_FREE = 0"

definition TAS_LCKD :: u32 where
  "TAS_LCKD = 1"

datatype tas_point =
    Outside \<comment> \<open>does not hold the lock\<close>
  | Reading \<comment> \<open>\<open>ttas_lock\<close>, before the load of the inner loop\<close>
  | Swapping \<comment> \<open>\<open>tas_lock\<close> or \<open>ttas_lock\<close>, before the compare-and-swap\<close>
  | Trying \<comment> \<open>\<open>tas_trylock\<close>, before the compare-and-swap\<close>
  | Inside \<comment> \<open>holds the lock\<close>
  | Leaving \<comment> \<open>\<open>tas_unlock\<close>, before the store\<close>

definition tas_init :: u32 where
  "tas_init = TAS_FREE"

fun tas_step :: "tas_point \<Rightarrow> u32 \<Rightarrow> tas_point \<times> u32" where
  "tas_step Swapping l =
     (let (old, new) = CAS l TAS_FREE TAS_LCKD in (if old = TAS_LCKD then Swapping else Inside, new))"
| "tas_step Trying l =
     (let (old, new) = CAS l TAS_FREE TAS_LCKD in (if old = TAS_FREE then Inside else Outside, new))"
| "tas_step Leaving l = (Outside, TAS_FREE)"
| "tas_step p l = (p, l)"

fun tas_call :: "tas_point \<Rightarrow> tas_point \<Rightarrow> bool" where
  "tas_call Outside p = (p = Swapping \<or> p = Trying)"
| "tas_call Inside p = (p = Leaving)"
| "tas_call _ p = False"

fun ttas_step :: "tas_point \<Rightarrow> u32 \<Rightarrow> tas_point \<times> u32" where
  "ttas_step Reading l = (if l = TAS_LCKD then Reading else Swapping, l)"
| "ttas_step Swapping l =
     (let (old, new) = CAS l TAS_FREE TAS_LCKD in (if old = TAS_FREE then Inside else Reading, new))"
| "ttas_step Trying l =
     (let (old, new) = CAS l TAS_FREE TAS_LCKD in (if old = TAS_FREE then Inside else Outside, new))"
| "ttas_step Leaving l = (Outside, TAS_FREE)"
| "ttas_step p l = (p, l)"

fun ttas_call :: "tas_point \<Rightarrow> tas_point \<Rightarrow> bool" where
  "ttas_call Outside p = (p = Reading \<or> p = Trying)"
| "ttas_call Inside p = (p = Leaving)"
| "ttas_call _ p = False"

fun tas_busy :: "tas_point \<Rightarrow> bool" where
  "tas_busy Outside = False"
| "tas_busy Inside = False"
| "tas_busy _ = True"

fun tas_holds :: "tas_point \<Rightarrow> bool" where
  "tas_holds Inside = True"
| "tas_holds Leaving = True"
| "tas_holds _ = False"

abbreviation tas_reachable :: "(u32, tas_point) lock_config \<Rightarrow> bool" where
  "tas_reachable \<equiv> reachable (lock_init tas_init Outside) (lock_conc tas_call tas_busy tas_step)"

abbreviation ttas_reachable :: "(u32, tas_point) lock_config \<Rightarrow> bool" where
  "ttas_reachable \<equiv> reachable (lock_init tas_init Outside) (lock_conc ttas_call tas_busy ttas_step)"

interpretation tas: flag_lock tas_call tas_busy tas_step tas_init Outside tas_holds
  "\<lambda>l. l = TAS_LCKD" "\<lambda>l. l = TAS_FREE \<or> l = TAS_LCKD"
proof unfold_locales
  show "tas_call p q \<Longrightarrow> tas_holds q = tas_holds p" for p q by (cases p) auto
qed (auto simp: tas_init_def TAS_FREE_def TAS_LCKD_def CAS_def Let_def elim!: tas_step.elims split: if_splits)

interpretation ttas: flag_lock ttas_call tas_busy ttas_step tas_init Outside tas_holds
  "\<lambda>l. l = TAS_LCKD" "\<lambda>l. l = TAS_FREE \<or> l = TAS_LCKD"
proof unfold_locales
  show "ttas_call p q \<Longrightarrow> tas_holds q = tas_holds p" for p q by (cases p) auto
qed (auto simp: tas_init_def TAS_FREE_def TAS_LCKD_def CAS_def Let_def elim!: ttas_step.elims split: if_splits)

section \<open>Ticket lock\<close>

record ticket_st =
  ticket :: u32
  curr :: u32

definition ticket_init :: ticket_st where
  "ticket_init = \<lparr>ticket = 0, curr = 0\<rparr>"

datatype ticket_point =
    Away \<comment> \<open>does not hold the lock\<close>
  | Drawing \<comment> \<open>\<open>ticket_lock\<close>, before the fetch-and-increment\<close>
  | Waiting u32 \<comment> \<open>\<open>ticket_lock\<close>, before the load of \<open>curr\<close>; the ticket\<close>
  | Looking \<comment> \<open>\<open>ticket_trylock\<close>, before the load of the whole lock\<close>
  | Claiming ticket_st \<comment> \<open>\<open>ticket_trylock\<close>, before the compare-and-swap; what was loaded\<close>
  | Served \<comment> \<open>holds the lock\<close>
  | Passing \<comment> \<open>\<open>ticket_unlock\<close>, before the load of \<open>curr\<close>\<close>
  | Storing u32 \<comment> \<open>\<open>ticket_unlock\<close>, before the store of \<open>curr\<close>; what was loaded\<close>

fun ticket_step :: "ticket_point \<Rightarrow> ticket_st \<Rightarrow> ticket_point \<times> ticket_st" where
  "ticket_step Drawing l = (let (t, t') = FAI (ticket l) in (Waiting t, l\<lparr>ticket := t'\<rparr>))"
| "ticket_step (Waiting t) l = (if t = curr l then Served else Waiting t, l)"
| "ticket_step Looking l = (if curr l = ticket l then Claiming l else Away, l)"
| "ticket_step (Claiming tc) l =
     (if l = tc then (Served, tc\<lparr>ticket := ticket tc + 1\<rparr>) else (Away, l))"
| "ticket_step Passing l = (Storing (curr l), l)"
| "ticket_step (Storing c) l = (Away, l\<lparr>curr := c + 1\<rparr>)"
| "ticket_step p l = (p, l)"

fun ticket_call :: "ticket_point \<Rightarrow> ticket_point \<Rightarrow> bool" where
  "ticket_call Away p = (p = Drawing \<or> p = Looking)"
| "ticket_call Served p = (p = Passing)"
| "ticket_call _ p = False"

fun ticket_busy :: "ticket_point \<Rightarrow> bool" where
  "ticket_busy Away = False"
| "ticket_busy Served = False"
| "ticket_busy _ = True"

fun ticket_holds :: "ticket_point \<Rightarrow> bool" where
  "ticket_holds Served = True"
| "ticket_holds Passing = True"
| "ticket_holds (Storing c) = True"
| "ticket_holds _ = False"

text \<open>A thread is in the queue from the moment it draws a ticket until it has passed the lock on.\<close>

fun ticket_queued :: "ticket_point \<Rightarrow> bool" where
  "ticket_queued (Waiting t) = True"
| "ticket_queued p = ticket_holds p"

text \<open>
  The queue watches the run and does not influence it: a thread that enters it goes to the end, a
  thread that leaves it is taken out wherever it is.
\<close>

record ticket_config = "(ticket_st, ticket_point) lock_config" +
  queue :: "nat list"

definition ticket_run :: "nat \<Rightarrow> ticket_config \<Rightarrow> ticket_config" where
  "ticket_run t c =
     (let p = points c ! t; (p', l) = ticket_step p (word c)
      in c\<lparr>word := l, points := (points c)[t := p'],
           queue := if ticket_queued p = ticket_queued p' then queue c
                    else if ticket_queued p' then queue c @ [t] else remove1 t (queue c)\<rparr>)"

inductive ticket_conc :: "ticket_config \<Rightarrow> ticket_config \<Rightarrow> bool" where
  call: "t < length (points c) \<Longrightarrow> ticket_call (points c ! t) p \<Longrightarrow>
    ticket_conc c (c\<lparr>points := (points c)[t := p]\<rparr>)"
| run: "t < length (points c) \<Longrightarrow> ticket_busy (points c ! t) \<Longrightarrow> ticket_conc c (ticket_run t c)"

definition ticket_start :: "ticket_config \<Rightarrow> bool" where
  "ticket_start c \<longleftrightarrow> lock_init ticket_init Away (lock_config.truncate c) \<and> queue c = []"

abbreviation ticket_reachable :: "ticket_config \<Rightarrow> bool" where
  "ticket_reachable \<equiv> reachable ticket_start ticket_conc"

subsection \<open>The queue and the tickets\<close>

text \<open>What the point of the thread in position \<open>i\<close> of the queue says about the ticket served.\<close>

fun serves :: "u32 \<Rightarrow> nat \<Rightarrow> ticket_point \<Rightarrow> bool" where
  "serves c i (Waiting t) = (t = c + of_nat i)"
| "serves c i (Storing w) = (i = 0 \<and> w = c)"
| "serves c i p = (ticket_holds p \<and> i = 0)"

definition ticket_inv :: "ticket_config \<Rightarrow> bool" where
  "ticket_inv c \<longleftrightarrow> distinct (queue c) \<and>
     (\<forall>t. t \<in> set (queue c) \<longleftrightarrow> t < length (points c) \<and> ticket_queued (points c ! t)) \<and>
     ticket (word c) = curr (word c) + of_nat (length (queue c)) \<and>
     (\<forall>i<length (queue c). serves (curr (word c)) i (points c ! (queue c ! i))) \<and>
     (\<forall>t<length (points c). \<forall>tc. points c ! t = Claiming tc \<longrightarrow> curr tc = ticket tc)"

lemma ticket_invD:
  assumes "ticket_inv c"
  shows "distinct (queue c)"
    and "t \<in> set (queue c) \<longleftrightarrow> t < length (points c) \<and> ticket_queued (points c ! t)"
    and "ticket (word c) = curr (word c) + of_nat (length (queue c))"
    and "i < length (queue c) \<Longrightarrow> serves (curr (word c)) i (points c ! (queue c ! i))"
    and "t < length (points c) \<Longrightarrow> points c ! t = Claiming tc \<Longrightarrow> curr tc = ticket tc"
  using assms by (auto simp: ticket_inv_def)

lemma ticket_inv_start: "ticket_start c \<Longrightarrow> ticket_inv c"
proof -
  assume "ticket_start c"
  then have c: "word c = ticket_init" "queue c = []" "\<And>t. t < length (points c) \<Longrightarrow> points c ! t = Away"
    by (auto simp: ticket_start_def lock_init_def lock_config.defs)
  then show ?thesis by (auto simp: ticket_inv_def ticket_init_def)
qed

lemma queue_short: "ticket_inv c \<Longrightarrow> length (queue c) \<le> length (points c)"
proof -
  assume "ticket_inv c"
  then have "distinct (queue c)" "set (queue c) \<subseteq> {..<length (points c)}" by (auto simp: ticket_inv_def)
  from card_mono [OF _ this(2)] distinct_card [OF this(1)] show ?thesis by simp
qed

lemma of_nat_small_0:
  assumes "(of_nat n :: u32) = 0" and "n < 2 ^ 32"
  shows "n = 0"
  using arg_cong [OF assms(1), of unat] assms(2) by (simp add: unat_of_nat take_bit_nat_eq_self)

lemma holder_first: "ticket_inv c \<Longrightarrow> t < length (points c) \<Longrightarrow> ticket_holds (points c ! t) \<Longrightarrow>
    \<exists>q. queue c = t # q"
proof -
  assume inv: "ticket_inv c" and t: "t < length (points c)" "ticket_holds (points c ! t)"
  then have "ticket_queued (points c ! t)" by (cases "points c ! t") auto
  with ticket_invD(2) [OF inv] t obtain i where i: "i < length (queue c)" "queue c ! i = t"
    by (metis in_set_conv_nth)
  with ticket_invD(4) [OF inv i(1)] t(2) have "i = 0" by (cases "points c ! t") auto
  with i show ?thesis by (cases "queue c") auto
qed

text \<open>A step that neither enters nor leaves the queue.\<close>

lemma ticket_inv_same:
  assumes inv: "ticket_inv c" and t: "t < length (points c)"
    and q: "ticket_queued p = ticket_queued (points c ! t)"
    and s: "\<And>i. serves (curr (word c)) i (points c ! t) \<Longrightarrow> i < length (queue c) \<Longrightarrow> serves (curr (word c)) i p"
    and cl: "\<And>tc. p = Claiming tc \<Longrightarrow> curr tc = ticket tc"
  shows "ticket_inv (c\<lparr>points := (points c)[t := p]\<rparr>)"
proof -
  have "serves (curr (word c)) i ((points c)[t := p] ! (queue c ! i))" if i: "i < length (queue c)" for i
    using ticket_invD(4) [OF inv i] s [of i] i t by (cases "queue c ! i = t") auto
  then show ?thesis using inv t q cl by (auto simp: ticket_inv_def nth_list_update)
qed

lemma ticket_inv_enter:
  assumes inv: "ticket_inv c" and t: "t < length (points c)"
    and q: "\<not> ticket_queued (points c ! t)" "ticket_queued p"
    and s: "serves (curr (word c)) (length (queue c)) p" and cl: "\<And>tc. p \<noteq> Claiming tc"
  shows "ticket_inv (c\<lparr>word := (word c)\<lparr>ticket := ticket (word c) + 1\<rparr>, points := (points c)[t := p],
    queue := queue c @ [t]\<rparr>)"
proof -
  note d = ticket_invD [OF inv]
  have n: "t \<notin> set (queue c)" using d(2) q(1) by blast
  have "serves (curr (word c)) i ((points c)[t := p] ! ((queue c @ [t]) ! i))" if i: "i < Suc (length (queue c))" for i
  proof (cases "i < length (queue c)")
    case True
    then have "queue c ! i \<noteq> t" using n by (metis nth_mem)
    with d(4) [OF True] True show ?thesis by (simp add: nth_append)
  next
    case False
    with i s t show ?thesis by (simp add: nth_append less_Suc_eq)
  qed
  moreover have "(u \<in> set (queue c @ [t])) = (u < length (points c) \<and> ticket_queued ((points c)[t := p] ! u))" for u
    using d(2) [of u] t q by (cases "u = t") auto
  ultimately show ?thesis using d(1,3,5) n t cl
    by (auto simp: ticket_inv_def nth_list_update add.assoc)
qed

lemma ticket_inv_leave:
  assumes inv: "ticket_inv c" and t: "t < length (points c)" and p: "points c ! t = Storing w"
  shows "ticket_inv (c\<lparr>word := (word c)\<lparr>curr := w + 1\<rparr>, points := (points c)[t := Away],
    queue := remove1 t (queue c)\<rparr>)"
proof -
  note d = ticket_invD [OF inv]
  obtain q where q: "queue c = t # q" using holder_first [OF inv t] p by auto
  have w: "w = curr (word c)" using d(4) [of 0] p by (simp add: q)
  have n: "t \<notin> set q" "distinct q" using d(1) by (simp_all add: q)
  have "serves (w + 1) i ((points c)[t := Away] ! (q ! i))" if i: "i < length q" for i
  proof -
    have "q ! i \<noteq> t" using n i by (metis nth_mem)
    moreover have "serves w (Suc i) (points c ! (q ! i))" using d(4) [of "Suc i"] i by (simp add: q w)
    ultimately show ?thesis by (cases "points c ! (q ! i)") (auto simp: add.commute)
  qed
  moreover have "(u \<in> set q) = (u < length (points c) \<and> ticket_queued ((points c)[t := Away] ! u))" for u
    using d(2) [of u] n t by (cases "u = t") (auto simp: q)
  ultimately show ?thesis using n(2) d(3,5) t
    by (auto simp: ticket_inv_def q w nth_list_update)
qed

lemma ticket_inv_run:
  assumes inv: "ticket_inv c" and t: "t < length (points c)" and b: "length (points c) < 2 ^ 32"
  shows "ticket_inv (ticket_run t c)"
proof -
  note d = ticket_invD [OF inv]
  have small: "length (queue c) < 2 ^ 32" using queue_short [OF inv] b by simp
  show ?thesis
  proof (cases "points c ! t")
    case Drawing
    with ticket_inv_enter [OF inv t, of "Waiting (ticket (word c))"] d(3) show ?thesis
      by (simp add: ticket_run_def FAI_def)
  next
    case (Waiting w)
    show ?thesis
    proof (cases "w = curr (word c)")
      case True
      have "i = 0" if "serves (curr (word c)) i (points c ! t)" "i < length (queue c)" for i
      proof (rule of_nat_small_0)
        from that(1) True show "(of_nat i :: u32) = 0" by (simp add: Waiting)
        from that(2) small show "i < 2 ^ 32" by linarith
      qed
      with ticket_inv_same [OF inv t, of Served] have "ticket_inv (c\<lparr>points := (points c)[t := Served]\<rparr>)"
        by (simp add: Waiting)
      then show ?thesis using True by (simp add: ticket_run_def Waiting)
    next
      case False
      with ticket_inv_same [OF inv t, of "Waiting w"] Waiting show ?thesis by (simp add: ticket_run_def)
    qed
  next
    case Looking
    show ?thesis
    proof (cases "curr (word c) = ticket (word c)")
      case True
      have "ticket_inv (c\<lparr>points := (points c)[t := Claiming (word c)]\<rparr>)"
        by (rule ticket_inv_same [OF inv t]) (use Looking True in simp_all)
      then show ?thesis by (simp add: ticket_run_def Looking True)
    next
      case False
      have "ticket_inv (c\<lparr>points := (points c)[t := Away]\<rparr>)"
        by (rule ticket_inv_same [OF inv t]) (use Looking in simp_all)
      then show ?thesis by (simp add: ticket_run_def Looking False)
    qed
  next
    case (Claiming tc)
    show ?thesis
    proof (cases "word c = tc")
      case True
      then have "of_nat (length (queue c)) = (0 :: u32)" using d(3) d(5) [OF t Claiming] by simp
      with of_nat_small_0 [OF this small] ticket_inv_enter [OF inv t, of Served] True Claiming show ?thesis
        by (simp add: ticket_run_def)
    next
      case False
      with ticket_inv_same [OF inv t, of Away] Claiming show ?thesis by (simp add: ticket_run_def)
    qed
  next
    case Passing
    with ticket_inv_same [OF inv t, of "Storing (curr (word c))"] show ?thesis by (simp add: ticket_run_def)
  next
    case (Storing w)
    with ticket_inv_leave [OF inv t Storing] show ?thesis by (simp add: ticket_run_def)
  qed (use ticket_inv_same [OF inv t, of "points c ! t"] d(5) [OF t] in \<open>simp_all add: ticket_run_def\<close>)
qed

lemma ticket_inv_call:
  assumes inv: "ticket_inv c" and t: "t < length (points c)" and p: "ticket_call (points c ! t) p"
  shows "ticket_inv (c\<lparr>points := (points c)[t := p]\<rparr>)"
proof (rule ticket_inv_same [OF inv t])
  fix i assume "serves (curr (word c)) i (points c ! t)"
  with p show "serves (curr (word c)) i p" by (cases "points c ! t") auto
next
  show "ticket_queued p = ticket_queued (points c ! t)" using p by (cases "points c ! t") auto
next
  fix tc assume "p = Claiming tc"
  with p show "curr tc = ticket tc" by (cases "points c ! t") auto
qed

interpretation ticket_sys: step_system ticket_start ticket_conc ticket_inv "\<lambda>c. length (points c) < 2 ^ 32"
proof unfold_locales
  fix c c' assume "ticket_inv c" and "ticket_conc c c'" and "length (points c') < 2 ^ 32"
  then show "ticket_inv c'"
    by (auto elim!: ticket_conc.cases intro!: ticket_inv_call ticket_inv_run simp: ticket_run_def Let_def split: prod.splits)
next
  fix c c' assume "ticket_conc c c'" and "length (points c') < 2 ^ 32"
  then show "length (points c) < 2 ^ 32"
    by (auto elim!: ticket_conc.cases simp: ticket_run_def Let_def split: prod.splits)
qed (rule ticket_inv_start)

section \<open>Runs along a schedule\<close>

text \<open>An entry of a schedule: the thread, and the point it is called to (\<open>None\<close> for a step of its own).\<close>

definition tas_act :: "nat \<times> tas_point option \<Rightarrow> (u32, tas_point) lock_config \<Rightarrow> (u32, tas_point) lock_config option" where
  "tas_act a c =
     (case a of (t, x) \<Rightarrow> if \<not> t < length (points c) then None else
        (case x of
           None \<Rightarrow> if tas_busy (points c ! t) then Some (lock_run tas_step t c) else None
         | Some p \<Rightarrow> if tas_call (points c ! t) p then Some (c\<lparr>points := (points c)[t := p]\<rparr>) else None))"

lemma tas_act_step: "tas_act a c = Some c' \<Longrightarrow> lock_conc tas_call tas_busy tas_step c c'"
  by (auto simp: tas_act_def intro: lock_conc.intros split: prod.splits option.splits if_splits)

definition ticket_act :: "nat \<times> ticket_point option \<Rightarrow> ticket_config \<Rightarrow> ticket_config option" where
  "ticket_act a c =
     (case a of (t, x) \<Rightarrow> if \<not> t < length (points c) then None else
        (case x of
           None \<Rightarrow> if ticket_busy (points c ! t) then Some (ticket_run t c) else None
         | Some p \<Rightarrow> if ticket_call (points c ! t) p then Some (c\<lparr>points := (points c)[t := p]\<rparr>) else None))"

lemma ticket_act_step: "ticket_act a c = Some c' \<Longrightarrow> ticket_conc c c'"
  by (auto simp: ticket_act_def intro: ticket_conc.intros split: prod.splits option.splits if_splits)

definition ticket_example :: ticket_config where
  "ticket_example = \<lparr>word = ticket_init, points = replicate 2 Away, queue = []\<rparr>"

lemma schedule_reachable:
  assumes "\<And>a c c'. act a c = Some c' \<Longrightarrow> step c c'" and "init c"
    and "case schedule_run act as c of None \<Rightarrow> False | Some cs \<Rightarrow> P (last cs)"
  shows "\<exists>c. reachable init step c \<and> P c"
proof -
  from assms(3) obtain cs where cs: "schedule_run act as c = Some cs" "P (last cs)" by (auto split: option.splits)
  from schedule_run_steps [of act step, OF assms(1) cs(1)] have s: "cs \<noteq> []" "hd cs = c" "successively step cs" by auto
  with assms(2) have "reachable init step (hd cs)" by (simp add: reachable.start)
  from reachable_successively [OF this s(3,1)] cs(2) show ?thesis by blast
qed

lemma ticket_run_reachable:
  assumes "case schedule_run ticket_act as ticket_example of None \<Rightarrow> False | Some cs \<Rightarrow> P (last cs)"
  shows "\<exists>c. ticket_reachable c \<and> P c"
proof (rule schedule_reachable [where act = ticket_act, OF _ _ assms])
  show "ticket_start ticket_example"
    by (simp add: ticket_start_def ticket_example_def lock_init_def lock_config.defs)
qed (rule ticket_act_step)

lemma tas_run_reachable:
  assumes "case schedule_run tas_act as \<lparr>word = tas_init, points = replicate 2 Outside\<rparr> of
    None \<Rightarrow> False | Some cs \<Rightarrow> P (last cs)"
  shows "\<exists>c. tas_reachable c \<and> P c"
  by (rule schedule_reachable [where act = tas_act, OF tas_act_step _ assms]) (simp_all add: lock_init_def)

section \<open>Properties\<close>

text \<open>
  C17. Mutual exclusion of the test-and-set and the test-and-test-and-set lock: whatever the interleaving of any
  number of threads that call \<open>LOCK\<close>, \<open>TRYLOCK\<close> and \<open>UNLOCK\<close>, two threads never hold the lock
  at the same time, and the word is \<open>TAS_LCKD\<close> exactly while some thread holds it.
\<close>

theorem tas_mutual_exclusion:
  assumes "tas_reachable c \<or> ttas_reachable c"
  shows "word c = (if \<exists>t<length (points c). tas_holds (points c ! t) then TAS_LCKD else TAS_FREE) \<and>
    (\<forall>t<length (points c). \<forall>u<length (points c). tas_holds (points c ! t) \<and> tas_holds (points c ! u) \<longrightarrow> t = u)"
  using assms
proof
  assume r: "tas_reachable c"
  from tas.flag_locked [OF r] tas.flag_ok [OF r] tas.flag_exclusive [OF r] show ?thesis by auto
next
  assume r: "ttas_reachable c"
  from ttas.flag_locked [OF r] ttas.flag_ok [OF r] ttas.flag_exclusive [OF r] show ?thesis by auto
qed

text \<open>
  C15. The ticket lock is fair: for any number of threads below 2 to the 32 and any number of calls (the
  tickets may wrap around), the thread that holds the lock is the first of the queue, a step of a thread
  leaves the queue alone, appends the thread to it, or takes the thread away from its front.
\<close>

theorem ticket_lock_fifo:
  assumes "ticket_reachable c" and "length (points c) < 2 ^ 32" and "t < length (points c)"
  shows "distinct (queue c) \<and> (ticket_holds (points c ! t) \<longrightarrow> queue c \<noteq> [] \<and> hd (queue c) = t) \<and>
    (queue (ticket_run t c) = queue c \<or> t \<notin> set (queue c) \<and> queue (ticket_run t c) = queue c @ [t] \<or>
     queue c = t # queue (ticket_run t c))"
proof -
  note inv = ticket_sys.reachable_inv [OF assms(1,2)]
  note h = holder_first [OF inv assms(3)]
  from ticket_invD(2) [OF inv, of t] assms(3) h show ?thesis
    using ticket_invD(1) [OF inv]
    by (cases "points c ! t") (auto simp: ticket_run_def FAI_def Let_def split: if_splits)
qed

text \<open>
  C16. The ticket lock makes progress without luck: the first thread of the queue, if it waits, is served at its next
  look at the lock; and \<open>ticket_trylock\<close> succeeds only when no thread holds the lock or waits for it.
\<close>

theorem ticket_lock_progress:
  assumes "ticket_reachable c" and "length (points c) < 2 ^ 32" and "t < length (points c)"
  shows "(points c ! t = Waiting w \<and> hd (queue c) = t \<longrightarrow> points (ticket_run t c) ! t = Served) \<and>
    (points c ! t = Claiming tc \<and> points (ticket_run t c) ! t = Served \<longrightarrow> queue c = [])"
proof -
  note inv = ticket_sys.reachable_inv [OF assms(1,2)]
  note d = ticket_invD [OF inv]
  have "points (ticket_run t c) ! t = Served" if w: "points c ! t = Waiting w" and "hd (queue c) = t"
  proof -
    from w d(2) [of t] assms(3) have "queue c \<noteq> []" by auto
    with d(4) [of 0] that have "w = curr (word c)" by (simp add: hd_conv_nth)
    then show ?thesis using w assms(3) by (simp add: ticket_run_def)
  qed
  moreover have "queue c = []" if p: "points c ! t = Claiming tc" and "points (ticket_run t c) ! t = Served"
  proof -
    from that assms(3) have "word c = tc" by (simp add: ticket_run_def split: if_splits)
    with d(3) d(5) [OF assms(3) p] have "of_nat (length (queue c)) = (0 :: u32)" by simp
    from of_nat_small_0 [OF this] queue_short [OF inv] assms(2) show ?thesis by simp
  qed
  ultimately show ?thesis by blast
qed

theorem tas_mutual_exclusion_witness:
  "\<exists>(c :: (u32, tas_point) lock_config) (d :: (u32, tas_point) lock_config). points c = [Inside, Swapping] \<and> word c = TAS_LCKD \<and>
     points d = [Outside, Swapping] \<and> word d = TAS_FREE"
proof -
  have "case schedule_run tas_act [(0, Some Swapping), (1, Some Swapping), (0, None), (1, None)]
      \<lparr>word = tas_init, points = replicate 2 Outside\<rparr> of
    None \<Rightarrow> False | Some cs \<Rightarrow> points (last cs) = [Inside, Swapping]" by code_simp
  from tas_run_reachable [OF this] obtain c where c: "tas_reachable c" "points c = [Inside, Swapping]" by blast
  have "case schedule_run tas_act [(0, Some Swapping), (1, Some Swapping), (0, None), (1, None), (0, Some Leaving), (0, None)]
      \<lparr>word = tas_init, points = replicate 2 Outside\<rparr> of
    None \<Rightarrow> False | Some cs \<Rightarrow> points (last cs) = [Outside, Swapping]" by code_simp
  from tas_run_reachable [OF this] obtain d where d: "tas_reachable d" "points d = [Outside, Swapping]" by blast
  have "word c = TAS_LCKD" using tas_mutual_exclusion [of c] c by (auto split: if_splits)
  moreover have "word d = TAS_FREE" using tas_mutual_exclusion [of d] d by (auto simp: less_Suc_eq split: if_splits)
  ultimately show ?thesis using c(2) d(2) by (intro exI [of _ c] exI [of _ d]) simp
qed

theorem ticket_lock_fifo_witness:
  "\<exists>c :: ticket_config. points c = [Waiting 1, Served] \<and> hd (queue c) = 1"
proof -
  have "case schedule_run ticket_act [(1, Some Looking), (1, None), (1, None), (0, Some Drawing), (0, None), (0, None)] ticket_example of
    None \<Rightarrow> False | Some cs \<Rightarrow> points (last cs) = [Waiting 1, Served]" by code_simp
  from ticket_run_reachable [OF this] obtain c where
    c: "ticket_reachable c" "points c = [Waiting 1, Served]" by blast
  with ticket_lock_fifo [of c 1] show ?thesis by auto
qed

theorem ticket_lock_progress_witness:
  "\<exists>c :: ticket_config. points c = [Waiting 0, Away] \<and> points (ticket_run 0 c) ! 0 = Served"
proof -
  have "case schedule_run ticket_act [(0, Some Drawing), (0, None)] ticket_example of
    None \<Rightarrow> False | Some cs \<Rightarrow> points (last cs) = [Waiting 0, Away] \<and> queue (last cs) = [0]" by code_simp
  from ticket_run_reachable [OF this] obtain c where
    c: "ticket_reachable c" "points c = [Waiting 0, Away]" "queue c = [0]" by blast
  with ticket_lock_progress [of c 0 0] show ?thesis by auto
qed

end
