(* ===== verification/Hop_layout.thy ===== *)
theory Hop_layout
  imports Prelude
begin

unbundle bit_operations_syntax

text \<open>
  Hopscotch hashing: an open table in which every key lies in a cell at most \<open>range - 1\<close> after its home
  cell, and every home cell keeps a bit map of the cells after it that hold its keys. \<open>info b i\<close> is
  bit \<open>i\<close> of home cell \<open>b\<close>; \<open>kc c\<close> is the key in cell \<open>c\<close>. The locale has the steps that keep this
  layout: insertion, deletion, and moving a key to a free cell further away.
\<close>

section \<open>The first set bit\<close>

text \<open>The loops \<open>for (i = 0; i < n; ++i, mask <<= 1) if (mask & hop_info)\<close> of both programs.\<close>

definition first_bit :: "nat \<Rightarrow> 'a::len word \<Rightarrow> nat option" where
  "first_bit n w = find (bit w) [0..<n]"

lemma find_upt_SomeI:
  assumes "P i" and "i < n" and "\<And>j. j < i \<Longrightarrow> \<not> P j"
  shows "find P [0..<n] = Some i"
  unfolding find_Some_iff using assms by (intro exI [of _ i]) simp

lemma find_upt_SomeD:
  assumes "find P [0..<n] = Some i"
  shows "P i" and "i < n" and "\<And>j. j < i \<Longrightarrow> \<not> P j"
proof -
  from assms obtain i' where i': "i' < n" "P i'" "i = i'" "\<forall>j<i'. \<not> P j" by (auto simp: find_Some_iff)
  then show "P i" "i < n" "\<And>j. j < i \<Longrightarrow> \<not> P j" by auto
qed

lemma find_upt_None: "find P [0..<n] = None \<longleftrightarrow> (\<forall>i<n. \<not> P i)"
  by (auto simp: find_None_iff)

lemma first_bit_SomeD: "first_bit n w = Some i \<Longrightarrow> bit w i \<and> i < n"
  using find_upt_SomeD(1,2) unfolding first_bit_def by blast

text \<open>At most one candidate: the search finds it.\<close>

lemma find_unique:
  assumes "\<And>i j. i < n \<Longrightarrow> j < n \<Longrightarrow> P i \<Longrightarrow> P j \<Longrightarrow> i = j"
  shows "find P [0..<n] = Some i \<longleftrightarrow> P i \<and> i < n"
proof
  assume i: "P i \<and> i < n"
  have "\<not> P j" if "j < i" for j
  proof
    assume "P j"
    from assms [of i j] i that this have "i = j" by simp
    with that show False by simp
  qed
  with i show "find P [0..<n] = Some i" by (intro find_upt_SomeI) auto
next
  assume "find P [0..<n] = Some i"
  from find_upt_SomeD(1,2) [OF this] show "P i \<and> i < n" by blast
qed

text \<open>\<open>hop_info |= 1 << i\<close> and \<open>hop_info &= ~(1 << i)\<close>.\<close>

definition mark_bit :: "nat \<Rightarrow> u32 \<Rightarrow> u32" where
  "mark_bit i w = w OR push_bit i 1"

definition clear_bit :: "nat \<Rightarrow> u32 \<Rightarrow> u32" where
  "clear_bit i w = w AND NOT (push_bit i 1)"

lemma bit_mark_bit [simp]: "i < 32 \<Longrightarrow> bit (mark_bit i w) j \<longleftrightarrow> j = i \<or> bit w j"
  by (auto simp: mark_bit_def bit_simps)

lemma bit_clear_bit [simp]: "bit (clear_bit i w) j \<longleftrightarrow> j \<noteq> i \<and> bit w j"
  by (auto simp: clear_bit_def bit_simps dest: bit_imp_le_length)

section \<open>The layout\<close>

locale hop_layout =
  fixes home :: "'k \<Rightarrow> nat"
    and range :: nat
begin

definition layout :: "(nat \<Rightarrow> nat \<Rightarrow> bool) \<Rightarrow> (nat \<Rightarrow> 'k option) \<Rightarrow> bool" where
  "layout info kc \<longleftrightarrow>
     (\<forall>b i. info b i \<longrightarrow> i < range \<and> (\<exists>k. kc (b + i) = Some k \<and> home k = b)) \<and>
     (\<forall>c k. kc c = Some k \<longrightarrow> home k \<le> c \<and> info (home k) (c - home k)) \<and>
     (\<forall>c c' k. kc c = Some k \<longrightarrow> kc c' = Some k \<longrightarrow> c = c')"

text \<open>The map of a table whose cells hold the values \<open>vc\<close>.\<close>

definition layout_map :: "(nat \<Rightarrow> 'k option) \<Rightarrow> (nat \<Rightarrow> 'v) \<Rightarrow> 'k \<Rightarrow> 'v option" where
  "layout_map kc vc k = map_option (\<lambda>i. vc (home k + i)) (find (\<lambda>i. kc (home k + i) = Some k) [0..<range])"

lemma layoutD:
  assumes "layout info kc"
  shows "info b i \<Longrightarrow> i < range" and "info b i \<Longrightarrow> \<exists>k. kc (b + i) = Some k \<and> home k = b"
    and "kc c = Some k \<Longrightarrow> home k \<le> c" and "kc c = Some k \<Longrightarrow> info (home k) (c - home k)"
    and "kc c = Some k \<Longrightarrow> kc c' = Some k \<Longrightarrow> c = c'"
  using assms by (auto simp: layout_def)

lemma layout_near: "layout info kc \<Longrightarrow> kc c = Some k \<Longrightarrow> c - home k < range"
  using layoutD(1,4) by blast

lemma layout_info:
  assumes "layout info kc"
  shows "info b i \<longleftrightarrow> (\<exists>k. kc (b + i) = Some k \<and> home k = b)"
  using layoutD(2) [OF assms, of b i] layoutD(4) [OF assms, of "b + i"] by auto

lemma layout_map_cell:
  assumes "layout info kc" and "kc c = Some k"
  shows "layout_map kc vc k = Some (vc c)"
proof -
  note d = layoutD [OF assms(1)]
  have c: "c = home k + (c - home k)" using d(3) [OF assms(2)] by simp
  have "find (\<lambda>i. kc (home k + i) = Some k) [0..<range] = Some (c - home k)"
  proof (rule find_upt_SomeI)
    show "kc (home k + (c - home k)) = Some k" using c assms(2) by simp
    show "\<not> kc (home k + j) = Some k" if "j < c - home k" for j
      using d(5) [OF assms(2), of "home k + j"] that by auto
  qed (rule layout_near [OF assms])
  with c show ?thesis by (simp add: layout_map_def)
qed

lemma layout_map_None:
  assumes "layout info kc"
  shows "layout_map kc vc k = None \<longleftrightarrow> (\<forall>c. kc c \<noteq> Some k)"
proof
  assume n: "layout_map kc vc k = None"
  show "\<forall>c. kc c \<noteq> Some k"
  proof (intro allI notI)
    fix c assume "kc c = Some k"
    from layout_map_cell [OF assms this, of vc] n show False by simp
  qed
qed (auto simp: layout_map_def find_upt_None)

lemma layout_map_cong:
  assumes "layout info kc" and "layout info' kc'"
    and "\<And>c. kc' c = Some k \<longleftrightarrow> kc c = Some k" and "\<And>c. kc c = Some k \<Longrightarrow> vc' c = vc c"
  shows "layout_map kc' vc' k = layout_map kc vc k"
proof (cases "\<exists>c. kc c = Some k")
  case True
  then obtain c where c: "kc c = Some k" by blast
  with assms(3) have "kc' c = Some k" by blast
  from layout_map_cell [OF assms(1) c, of vc] layout_map_cell [OF assms(2) this, of vc'] assms(4) [OF c]
  show ?thesis by simp
next
  case False
  then have "layout_map kc vc k = None" "layout_map kc' vc' k = None"
    using layout_map_None [OF assms(1)] layout_map_None [OF assms(2)] assms(3) by blast+
  then show ?thesis by simp
qed

text \<open>If the \<open>range\<close> cells from \<open>s\<close> on are full, that many keys have their homes near \<open>s\<close>.\<close>

lemma layout_full:
  assumes "layout info kc" and "\<And>d. d < range \<Longrightarrow> kc (s + d) \<noteq> None"
    and "finite {k. (\<exists>c. kc c = Some k) \<and> home k < s + range \<and> s < home k + range}"
  shows "range \<le> card {k. (\<exists>c. kc c = Some k) \<and> home k < s + range \<and> s < home k + range}"
proof -
  let ?K = "{k. (\<exists>c. kc c = Some k) \<and> home k < s + range \<and> s < home k + range}"
  define g where "g d = the (kc (s + d))" for d
  have g: "kc (s + d) = Some (g d)" if "d < range" for d using assms(2) [OF that] by (auto simp: g_def)
  have "inj_on g {..<range}"
  proof (rule inj_onI)
    fix d d' assume "d \<in> {..<range}" "d' \<in> {..<range}" "g d = g d'"
    then show "d = d'" using layoutD(5) [OF assms(1) g [of d], of "s + d'"] g [of d'] by simp
  qed
  moreover have "g ` {..<range} \<subseteq> ?K"
  proof
    fix k assume "k \<in> g ` {..<range}"
    then obtain d where d: "d < range" "k = g d" by auto
    from layoutD(3) [OF assms(1) g [OF d(1)]] layout_near [OF assms(1) g [OF d(1)]] g [OF d(1)] d
    show "k \<in> ?K" by auto
  qed
  ultimately show ?thesis using card_inj_on_le [of g "{..<range}" ?K] assms(3) by simp
qed

text \<open>The bit map of the home cell finds the key.\<close>

lemma layout_find:
  assumes "layout info kc"
  shows "find (\<lambda>i. info (home k) i \<and> kc (home k + i) = Some k) [0..<range] = Some i \<longleftrightarrow> kc (home k + i) = Some k"
proof -
  note d = layoutD [OF assms]
  have "find (\<lambda>i. info (home k) i \<and> kc (home k + i) = Some k) [0..<range] = Some i \<longleftrightarrow>
      (info (home k) i \<and> kc (home k + i) = Some k) \<and> i < range"
    by (rule find_unique) (use d(5) in force)
  also have "\<dots> \<longleftrightarrow> kc (home k + i) = Some k" using d(4) [of "home k + i" k] d(1) by auto
  finally show ?thesis .
qed

lemma layout_find_None:
  assumes "layout info kc"
  shows "find (\<lambda>i. info (home k) i \<and> kc (home k + i) = Some k) [0..<range] = None \<longleftrightarrow> (\<forall>c. kc c \<noteq> Some k)"
proof -
  note d = layoutD [OF assms]
  have "(\<forall>i<range. \<not> (info (home k) i \<and> kc (home k + i) = Some k)) \<longleftrightarrow> (\<forall>c. kc c \<noteq> Some k)"
  proof
    assume n: "\<forall>i<range. \<not> (info (home k) i \<and> kc (home k + i) = Some k)"
    show "\<forall>c. kc c \<noteq> Some k"
    proof (intro allI notI)
      fix c assume c: "kc c = Some k"
      with d(3) [OF c] d(4) [OF c] d(1) n show False by (metis le_add_diff_inverse)
    qed
  qed auto
  then show ?thesis by (simp add: find_upt_None)
qed

definition set_info :: "nat \<Rightarrow> nat \<Rightarrow> bool \<Rightarrow> (nat \<Rightarrow> nat \<Rightarrow> bool) \<Rightarrow> nat \<Rightarrow> nat \<Rightarrow> bool" where
  "set_info b i x info = info(b := (info b)(i := x))"

lemma set_info_apply: "set_info b i x info b' i' = (if b' = b \<and> i' = i then x else info b' i')"
  by (simp add: set_info_def)

lemma layout_insert:
  assumes "layout info kc" and "kc c = None" and "home k \<le> c" and "c - home k < range" and "\<forall>c. kc c \<noteq> Some k"
  shows "layout (set_info (home k) (c - home k) True info) (kc(c \<mapsto> k))"
    and "layout_map (kc(c \<mapsto> k)) (vc(c := v)) = (layout_map kc vc)(k \<mapsto> v)"
proof -
  note d = layoutD [OF assms(1)]
  have far: "b + i \<noteq> c" if "info b i" for b i using d(2) [OF that] assms(2) by auto
  show l: "layout (set_info (home k) (c - home k) True info) (kc(c \<mapsto> k))"
    unfolding layout_def set_info_apply
  proof (intro conjI allI impI)
    fix b i assume i: "if b = home k \<and> i = c - home k then True else info b i"
    show "i < range" using i assms(4) d(1) by (auto split: if_splits)
    show "\<exists>k'. (kc(c \<mapsto> k)) (b + i) = Some k' \<and> home k' = b"
      using i assms(3) d(2) far by (auto split: if_splits)
  next
    fix c' k' assume k': "(kc(c \<mapsto> k)) c' = Some k'"
    show "home k' \<le> c'" using k' assms(3) d(3) by (auto split: if_splits)
    show "if home k' = home k \<and> c' - home k' = c - home k then True else info (home k') (c' - home k')"
      using k' d(4) by (auto split: if_splits)
    fix c'' assume "(kc(c \<mapsto> k)) c'' = Some k'"
    with k' assms(5) d(5) show "c' = c''" by (auto split: if_splits)
  qed
  show "layout_map (kc(c \<mapsto> k)) (vc(c := v)) = (layout_map kc vc)(k \<mapsto> v)"
  proof
    fix k'
    show "layout_map (kc(c \<mapsto> k)) (vc(c := v)) k' = ((layout_map kc vc)(k \<mapsto> v)) k'"
    proof (cases "k' = k")
      case True
      then show ?thesis using layout_map_cell [OF l, of c k "vc(c := v)"] by simp
    next
      case False
      have "layout_map (kc(c \<mapsto> k)) (vc(c := v)) k' = layout_map kc vc k'"
        by (rule layout_map_cong [OF assms(1) l]) (use False assms(2) in auto)
      with False show ?thesis by simp
    qed
  qed
qed

lemma layout_delete:
  assumes "layout info kc" and "kc c = Some k"
  shows "layout (set_info (home k) (c - home k) False info) (kc(c := None))"
    and "layout_map (kc(c := None)) (vc(c := v)) = (layout_map kc vc)(k := None)"
proof -
  note d = layoutD [OF assms(1)]
  show l: "layout (set_info (home k) (c - home k) False info) (kc(c := None))"
    unfolding layout_def set_info_apply
  proof (intro conjI allI impI)
    fix b i assume i: "if b = home k \<and> i = c - home k then False else info b i"
    show "i < range" using i d(1) by (auto split: if_splits)
    from i have b: "info b i" "\<not> (b = home k \<and> i = c - home k)" by (auto split: if_splits)
    from d(2) [OF b(1)] obtain k' where k': "kc (b + i) = Some k'" "home k' = b" by blast
    have "b + i \<noteq> c" using k' b(2) assms(2) by auto
    with k' show "\<exists>k'. (kc(c := None)) (b + i) = Some k' \<and> home k' = b" by auto
  next
    fix c' k' assume k': "(kc(c := None)) c' = Some k'"
    show "home k' \<le> c'" using k' d(3) by (auto split: if_splits)
    show "if home k' = home k \<and> c' - home k' = c - home k then False else info (home k') (c' - home k')"
      using k' d(3,4) [of c' k'] d(3) [OF assms(2)] by (auto split: if_splits)
    fix c'' assume "(kc(c := None)) c'' = Some k'"
    with k' d(5) show "c' = c''" by (auto split: if_splits)
  qed
  show "layout_map (kc(c := None)) (vc(c := v)) = (layout_map kc vc)(k := None)"
  proof
    fix k'
    show "layout_map (kc(c := None)) (vc(c := v)) k' = ((layout_map kc vc)(k := None)) k'"
    proof (cases "k' = k")
      case True
      have "\<forall>c'. (kc(c := None)) c' \<noteq> Some k" using d(5) [OF assms(2)] by auto
      with layout_map_None [OF l] have "layout_map (kc(c := None)) (vc(c := v)) k = None" by blast
      with True show ?thesis by simp
    next
      case False
      have "layout_map (kc(c := None)) (vc(c := v)) k' = layout_map kc vc k'"
        by (rule layout_map_cong [OF assms(1) l]) (use False assms(2) in auto)
      with False show ?thesis by simp
    qed
  qed
qed

text \<open>Cell \<open>b + i\<close> is emptied into the free cell \<open>b + j\<close>.\<close>

lemma layout_move:
  assumes "layout info kc" and "info b i" and "kc (b + j) = None" and "j < range"
  shows "layout (set_info b i False (set_info b j True info)) ((kc(b + j := kc (b + i)))(b + i := None))"
    and "layout_map ((kc(b + j := kc (b + i)))(b + i := None)) ((vc(b + j := vc (b + i)))(b + i := v)) = layout_map kc vc"
proof -
  note d = layoutD [OF assms(1)]
  from d(2) [OF assms(2)] obtain k where k: "kc (b + i) = Some k" "home k = b" by blast
  have ij: "i \<noteq> j" using k assms(3) by auto
  have del: "layout (set_info b i False info) (kc(b + i := None))"
    using layout_delete(1) [OF assms(1) k(1)] k(2) by simp
  have gone: "\<forall>c. (kc(b + i := None)) c \<noteq> Some k" using d(5) [OF k(1)] by auto
  have swap: "set_info b j True (set_info b i False info) = set_info b i False (set_info b j True info)"
    "(kc(b + i := None))(b + j \<mapsto> k) = (kc(b + j := kc (b + i)))(b + i := None)"
    using ij k(1) by (auto simp: set_info_def fun_eq_iff)
  have vswap: "(vc(b + i := v))(b + j := vc (b + i)) = (vc(b + j := vc (b + i)))(b + i := v)"
    using ij by (auto simp: fun_eq_iff)
  have free: "(kc(b + i := None)) (b + j) = None" using assms(3) by simp
  have near: "home k \<le> b + j" "b + j - home k < range" using k(2) assms(4) by simp_all
  note ins = layout_insert [OF del free near gone]
  have dist: "b + j - home k = j" using k(2) by simp
  have 1: "layout (set_info b j True (set_info b i False info)) ((kc(b + i := None))(b + j \<mapsto> k))"
    using ins(1) by (simp only: dist) (simp only: k(2))
  have 2: "layout_map ((kc(b + i := None))(b + j \<mapsto> k)) ((vc(b + i := v))(b + j := vc (b + i))) =
      (layout_map (kc(b + i := None)) (vc(b + i := v)))(k \<mapsto> vc (b + i))" by (rule ins(2))
  show "layout (set_info b i False (set_info b j True info)) ((kc(b + j := kc (b + i)))(b + i := None))"
    using 1 by (simp only: swap)
  show "layout_map ((kc(b + j := kc (b + i)))(b + i := None)) ((vc(b + j := vc (b + i)))(b + i := v)) = layout_map kc vc"
  proof -
    have "(layout_map kc vc)(k := None, k \<mapsto> vc (b + i)) = layout_map kc vc"
      using layout_map_cell [OF assms(1) k(1), of vc] by (simp add: fun_upd_idem)
    with 2 show ?thesis by (simp only: swap vswap layout_delete(2) [OF assms(1) k(1)])
  qed
qed

end

end
