(* ===== verification/Hopscotch.thy ===== *)
theory Hopscotch
  imports Hop_layout
begin

text \<open>
  The class \<open>Hopscotch\<close> (\<open>src/src/hopscotch/data_structures/hopscotch.hpp\<close>): a table of fixed size
  with hopscotch hashing, whose updates run as hardware transactions and fall back to the lock of a
  bucket. One thread runs at a time. The array is a function of the index; the properties say
  that the operations stay below \<open>MAX_SEGMENTS + 256\<close>. The answers that \<open>_xbegin\<close> will give (does the
  transaction start?) are a list; \<open>tx_depth\<close> counts the transactions begun and not ended. \<open>int\<close> has
  32 bits and \<open>intptr_t\<close> 64.
\<close>

unbundle bit_operations_syntax

section \<open>State\<close>

definition HOP_RANGE :: nat where
  "HOP_RANGE = 32"

definition ADD_RANGE :: nat where
  "ADD_RANGE = 256"

definition MAX_SEGMENTS :: nat where
  "MAX_SEGMENTS = 1048576"

definition BUSY_hop :: u32 where
  "BUSY_hop = - 1"

record hop_bucket =
  hop_info :: u32
  hop_key :: u64
  hop_data :: u64
  hop_lock :: bool

record hopscotch =
  buckets :: "nat \<Rightarrow> hop_bucket"
  tx_answers :: "bool list"
  tx_depth :: nat

definition bucket_hop :: hop_bucket where
  "bucket_hop = \<lparr>hop_info = 0, hop_key = - 1, hop_data = - 1, hop_lock = False\<rparr>"

definition create_hop :: "bool list \<Rightarrow> hopscotch" where
  "create_hop as = \<lparr>buckets = \<lambda>_. bucket_hop, tx_answers = as, tx_depth = 0\<rparr>"

definition upd_hop :: "nat \<Rightarrow> (hop_bucket \<Rightarrow> hop_bucket) \<Rightarrow> hopscotch \<Rightarrow> hopscotch" where
  "upd_hop i f h = h\<lparr>buckets := (buckets h)(i := f (buckets h i))\<rparr>"

text \<open>\<open>lock\<close> waits on the condition variable while \<open>_lock\<close> is set; \<open>unlock\<close> clears it, whoever has set it.\<close>

definition lock_hop :: "nat \<Rightarrow> hopscotch \<Rightarrow> hopscotch outcome" where
  "lock_hop i h = (if hop_lock (buckets h i) then Spins else Done (upd_hop i (hop_lock_update (\<lambda>_. True)) h))"

definition unlock_hop :: "nat \<Rightarrow> hopscotch \<Rightarrow> hopscotch" where
  "unlock_hop i = upd_hop i (hop_lock_update (\<lambda>_. False))"

definition xbegin :: "hopscotch \<Rightarrow> bool \<times> hopscotch" where
  "xbegin h =
     (case tx_answers h of
        [] \<Rightarrow> (False, h)
      | a # as \<Rightarrow> (a, h\<lparr>tx_answers := as, tx_depth := (if a then Suc (tx_depth h) else tx_depth h)\<rparr>))"

definition xend :: "hopscotch \<Rightarrow> hopscotch" where
  "xend h = h\<lparr>tx_depth := tx_depth h - 1\<rparr>"

definition hash_hop :: "u32 \<Rightarrow> nat" where
  "hash_hop k = unat (k AND of_nat (MAX_SEGMENTS - 1))"

lemma hash_hop_code [code]: "hash_hop k = unat (k AND 1048575)"
  by (simp add: hash_hop_def MAX_SEGMENTS_def)

section \<open>Operations\<close>

definition contains_hop :: "hopscotch \<Rightarrow> u32 \<Rightarrow> bool \<times> hopscotch" where
  "contains_hop h k =
     (let s = hash_hop k; info = hop_info (buckets h s)
      in case find (\<lambda>i. bit info i \<and> hop_key (buckets h (s + i)) = scast k) [0..<HOP_RANGE] of
           None \<Rightarrow> (False, h)
         | Some i \<Rightarrow> (True, unlock_hop s h))"

text \<open>The body of \<open>remove\<close>, the same in the transaction and under the lock.\<close>

definition take_hop :: "nat \<Rightarrow> nat \<Rightarrow> u32 \<Rightarrow> hopscotch \<Rightarrow> u32 \<times> hopscotch" where
  "take_hop s i k h =
     (if hop_key (buckets h (s + i)) = - 1 then (- 1, h)
      else if hop_key (buckets h (s + i)) = scast k then
        (let rc = ucast (hop_data (buckets h (s + i)));
             h = upd_hop (s + i) (hop_key_update (\<lambda>_. - 1)) h;
             h = upd_hop (s + i) (hop_data_update (\<lambda>_. - 1)) h;
             h = upd_hop s (hop_info_update (clear_bit i)) h
         in (rc, h))
      else (- 1, h))"

definition remove_hop :: "hopscotch \<Rightarrow> u32 \<Rightarrow> (u32 \<times> hopscotch) outcome" where
  "remove_hop h k =
     (let s = hash_hop k
      in case first_bit HOP_RANGE (hop_info (buckets h s)) of
           None \<Rightarrow> Done (- 1, h)
         | Some i \<Rightarrow>
             (let (tx, h) = xbegin h
              in if tx then (let (r, h) = take_hop s i k h in Done (r, xend h))
                 else bind_outcome (lock_hop s h)
                        (\<lambda>h. let (r, h) = take_hop s i k h in Done (r, unlock_hop s h))))"

text \<open>The content of the bucket \<open>i\<close> places after \<open>move\<close> goes into the free bucket, \<open>dist\<close> places after it.\<close>

definition move_hop :: "nat \<Rightarrow> nat \<Rightarrow> nat \<Rightarrow> nat \<Rightarrow> hopscotch \<Rightarrow> hopscotch" where
  "move_hop free move dist i h =
     (let new = move + i;
          h = upd_hop move (hop_info_update (mark_bit dist)) h;
          h = upd_hop free (hop_data_update (\<lambda>_. hop_data (buckets h new))) h;
          h = upd_hop free (hop_key_update (\<lambda>_. hop_key (buckets h new))) h;
          h = upd_hop new (hop_key_update (\<lambda>_. scast BUSY_hop)) h;
          h = upd_hop new (hop_data_update (\<lambda>_. scast BUSY_hop)) h
      in upd_hop move (hop_info_update (clear_bit i)) h)"

text \<open>
  The loop of \<open>find_closer_bucket\<close>, whose first argument is \<open>free_dist\<close>: the result is the free bucket, its
  distance, and whether one was found (\<open>val\<close> is set to 0 if not).
\<close>

fun closer_loop :: "nat \<Rightarrow> nat \<Rightarrow> nat \<Rightarrow> nat \<Rightarrow> hopscotch \<Rightarrow> (nat \<times> nat \<times> bool \<times> hopscotch) outcome" where
  "closer_loop 0 move free distance h =
     Done (free, 0, False, upd_hop free (hop_key_update (\<lambda>_. - 1)) h)"
| "closer_loop (Suc n) move free distance h =
     (let info = hop_info (buckets h move)
      in case first_bit (Suc n) info of
           None \<Rightarrow> closer_loop n (Suc move) free distance h
         | Some i \<Rightarrow>
             (let (tx, h) = xbegin h
              in if tx then
                   (if info = hop_info (buckets h move)
                    then Done (move + i, distance - Suc n + i, True, xend (move_hop free move (Suc n) i h))
                    else closer_loop n (Suc move) free distance h)
                 else bind_outcome (lock_hop move h)
                   (\<lambda>h. if info = hop_info (buckets h move)
                        then Done (move + i, distance - Suc n + i, True,
                                   unlock_hop move (move_hop free move (Suc n) i h))
                        else closer_loop n (Suc move) free distance (unlock_hop move h))))"

definition find_closer_bucket_hop :: "nat \<Rightarrow> nat \<Rightarrow> hopscotch \<Rightarrow> (nat \<times> nat \<times> bool \<times> hopscotch) outcome" where
  "find_closer_bucket_hop free distance h =
     closer_loop (if HOP_RANGE - 1 > distance then distance else HOP_RANGE - 1) (free - (HOP_RANGE - 1)) free distance h"

definition put_hop :: "nat \<Rightarrow> nat \<Rightarrow> nat \<Rightarrow> u32 \<Rightarrow> u32 \<Rightarrow> hopscotch \<Rightarrow> hopscotch" where
  "put_hop s free distance k v h =
     (let h = upd_hop s (hop_info_update (mark_bit distance)) h;
          h = upd_hop free (hop_data_update (\<lambda>_. scast v)) h
      in upd_hop free (hop_key_update (\<lambda>_. scast k)) h)"

text \<open>A transaction that finds the key present is not ended.\<close>

definition commit_hop :: "nat \<Rightarrow> nat \<Rightarrow> u32 \<Rightarrow> u32 \<Rightarrow> hopscotch \<Rightarrow> (bool \<times> hopscotch) outcome" where
  "commit_hop free distance k v h =
     (let s = hash_hop k; (tx, h) = xbegin h
      in if tx then
           (let (c, h) = contains_hop h k
            in if \<not> c then Done (True, xend (put_hop s free distance k v h)) else Done (False, h))
         else bind_outcome (lock_hop s h)
           (\<lambda>h. let (c, h) = contains_hop h k
                in if \<not> c then Done (True, unlock_hop s (put_hop s free distance k v h))
                   else Done (False, unlock_hop s h)))"

lemma first_bit_less: "first_bit n w = Some i \<Longrightarrow> i < n"
  by (auto simp: first_bit_def dest: find_upt_SomeD(2))

lemma closer_loop_distance:
  assumes "closer_loop n move free distance h = Done (free', distance', True, h')" and "n \<le> distance"
  shows "distance' < distance"
  using assms
proof (induction n arbitrary: move h)
  case (Suc n)
  then show ?case
    by (auto simp: Let_def bind_outcome_Done_iff dest: first_bit_less split: option.splits prod.splits if_splits)
qed simp

function add_loop :: "nat \<Rightarrow> nat \<Rightarrow> u32 \<Rightarrow> u32 \<Rightarrow> hopscotch \<Rightarrow> (bool \<times> hopscotch) outcome" where
  "add_loop free distance k v h =
     (if distance < HOP_RANGE then commit_hop free distance k v h
      else case find_closer_bucket_hop free distance h of
             Done (free', distance', found, h') \<Rightarrow>
               if found then add_loop free' distance' k v h' else Done (False, h')
           | Spins \<Rightarrow> Spins
           | Faults \<Rightarrow> Faults)"
  by pat_completeness auto
termination
proof (relation "measure (\<lambda>(free, distance, k, v, h). distance)")
  fix free distance k v h r free' d1 distance' d2 found h'
  assume "\<not> distance < HOP_RANGE" and "find_closer_bucket_hop free distance h = Done r"
    and "(free', d1) = r" and "(distance', d2) = d1" and "(found, h') = d2" and found
  then have "closer_loop 31 (free - 31) free distance h = Done (free', distance', True, h')" and "31 \<le> distance"
    by (auto simp: find_closer_bucket_hop_def HOP_RANGE_def split: if_splits)
  from closer_loop_distance [OF this]
  show "((free', distance', k, v, h'), free, distance, k, v, h) \<in> measure (\<lambda>(free, distance, k, v, h). distance)"
    by simp
qed simp

definition add_hop :: "hopscotch \<Rightarrow> u32 \<Rightarrow> u32 \<Rightarrow> (bool \<times> hopscotch) outcome" where
  "add_hop h k v =
     (let s = hash_hop k
      in case find (\<lambda>d. hop_key (buckets h (s + d)) = - 1) [0..<ADD_RANGE] of
           None \<Rightarrow> Done (False, h)
         | Some d \<Rightarrow> add_loop (s + d) d k v (upd_hop (s + d) (hop_key_update (\<lambda>_. scast BUSY_hop)) h))"

declare add_loop.simps [simp del]

section \<open>The table as a layout\<close>

definition home_hop :: "u64 \<Rightarrow> nat" where
  "home_hop x = unat (x AND 1048575)"

definition kc_hop :: "hopscotch \<Rightarrow> nat \<Rightarrow> u64 option" where
  "kc_hop h c = (if hop_key (buckets h c) = - 1 then None else Some (hop_key (buckets h c)))"

definition vc_hop :: "hopscotch \<Rightarrow> nat \<Rightarrow> u32" where
  "vc_hop h c = ucast (hop_data (buckets h c))"

definition info_hop :: "hopscotch \<Rightarrow> nat \<Rightarrow> nat \<Rightarrow> bool" where
  "info_hop h b i = bit (hop_info (buckets h b)) i"

definition locked_hop :: "hopscotch \<Rightarrow> nat \<Rightarrow> bool" where
  "locked_hop h i = hop_lock (buckets h i)"

interpretation hl: hop_layout home_hop HOP_RANGE .

definition lay_hop :: "hopscotch \<Rightarrow> bool" where
  "lay_hop h \<longleftrightarrow> hl.layout (info_hop h) (kc_hop h) \<and>
     (\<forall>c x. kc_hop h c = Some x \<longrightarrow> x = scast (ucast x :: u32))"

definition inv_hop :: "hopscotch \<Rightarrow> bool" where
  "inv_hop h \<longleftrightarrow> lay_hop h \<and> (\<forall>i. \<not> locked_hop h i)"

definition map_hop :: "hopscotch \<Rightarrow> u32 \<Rightarrow> u32 option" where
  "map_hop h k = hl.layout_map (kc_hop h) (vc_hop h) (scast k)"

lemmas view_hop = kc_hop_def vc_hop_def info_hop_def locked_hop_def

lemma ucast_scast_value [simp]: "ucast (scast (v :: u32) :: u64) = v"
  by (rule bit_eqI) (simp add: bit_simps)

lemma scast_inj [simp]: "(scast (k :: u32) :: u64) = scast k' \<longleftrightarrow> k = k'"
  by (metis ucast_scast_value)

lemma scast_minus_1: "(scast (- 1 :: u32) :: u64) = - 1"
  by simp

lemma scast_free [simp]: "(scast (k :: u32) :: u64) = - 1 \<longleftrightarrow> k = - 1"
  by (metis scast_inj scast_minus_1)

lemma bit_low_20: "bit (1048575 :: int) n \<longleftrightarrow> n < 20"
proof -
  have "(1048575 :: int) = mask 20" by (simp add: mask_eq_exp_minus_1)
  then show ?thesis by (simp only: bit_mask_iff) simp
qed

lemma home_scast: "home_hop (scast k) = hash_hop k"
proof (rule bit_eqI)
  fix n
  show "bit (home_hop (scast k)) n = bit (hash_hop k) n"
    by (auto simp: home_hop_def hash_hop_def MAX_SEGMENTS_def bit_simps bit_low_20)
qed

lemma hash_hop_less: "hash_hop k < MAX_SEGMENTS"
proof -
  have "k AND of_nat (MAX_SEGMENTS - 1) \<le> (1048575 :: u32)" by (simp add: MAX_SEGMENTS_def word_and_le1)
  then show ?thesis by (simp add: hash_hop_def MAX_SEGMENTS_def word_le_nat_alt)
qed

lemma home_hop_less: "home_hop x < MAX_SEGMENTS"
proof -
  have "x AND 1048575 \<le> (1048575 :: u64)" by (simp add: word_and_le1)
  then show ?thesis by (simp add: home_hop_def MAX_SEGMENTS_def word_le_nat_alt)
qed

lemma ucast_minus_1: "(ucast (- 1 :: u64) :: u32) = - 1"
  by (rule bit_eqI) (simp add: bit_simps)

lemma view_create:
  "kc_hop (create_hop as) = Map.empty" "info_hop (create_hop as) = (\<lambda>_ _. False)" "\<not> locked_hop (create_hop as) i"
  by (simp_all add: create_hop_def bucket_hop_def view_hop fun_eq_iff)

text \<open>What the helpers do to the layout.\<close>

lemma view_xbegin [simp]:
  "kc_hop (snd (xbegin h)) = kc_hop h" "vc_hop (snd (xbegin h)) = vc_hop h"
  "info_hop (snd (xbegin h)) = info_hop h" "locked_hop (snd (xbegin h)) = locked_hop h"
  by (simp_all add: xbegin_def view_hop fun_eq_iff split: list.splits)

lemma view_xend [simp]:
  "kc_hop (xend h) = kc_hop h" "vc_hop (xend h) = vc_hop h" "info_hop (xend h) = info_hop h"
  "locked_hop (xend h) = locked_hop h"
  by (simp_all add: xend_def view_hop fun_eq_iff)

lemma view_lock:
  assumes "lock_hop i h = Done h'"
  shows "kc_hop h' = kc_hop h" "vc_hop h' = vc_hop h" "info_hop h' = info_hop h" "locked_hop h' = (locked_hop h)(i := True)"
  using assms by (auto simp: lock_hop_def upd_hop_def view_hop fun_eq_iff split: if_splits)

lemma view_unlock [simp]:
  "kc_hop (unlock_hop i h) = kc_hop h" "vc_hop (unlock_hop i h) = vc_hop h" "info_hop (unlock_hop i h) = info_hop h"
  "locked_hop (unlock_hop i h) = (locked_hop h)(i := False)"
  by (auto simp: unlock_hop_def upd_hop_def view_hop fun_eq_iff)

lemma view_put:
  assumes "d < 32" and "k \<noteq> - 1"
  shows "kc_hop (put_hop s free d k v h) = (kc_hop h)(free \<mapsto> scast k)" "vc_hop (put_hop s free d k v h) = (vc_hop h)(free := v)"
    "info_hop (put_hop s free d k v h) = hl.set_info s d True (info_hop h)" "locked_hop (put_hop s free d k v h) = locked_hop h"
  using assms by (auto simp: put_hop_def upd_hop_def view_hop fun_eq_iff Let_def hl.set_info_apply)

lemma view_busy:
  assumes "kc_hop h c = None"
  shows "kc_hop (upd_hop c (hop_key_update (\<lambda>_. scast BUSY_hop)) h) = kc_hop h"
    "kc_hop (upd_hop c (hop_key_update (\<lambda>_. - 1)) h) = kc_hop h"
  using assms by (auto simp: upd_hop_def view_hop fun_eq_iff BUSY_hop_def split: if_splits)

lemma view_key_update [simp]:
  "vc_hop (upd_hop c (hop_key_update f) h) = vc_hop h" "info_hop (upd_hop c (hop_key_update f) h) = info_hop h"
  "locked_hop (upd_hop c (hop_key_update f) h) = locked_hop h"
  by (auto simp: upd_hop_def view_hop fun_eq_iff)

lemma view_move:
  assumes "free = m + dist" and "i \<noteq> dist" and "dist < 32"
  shows "kc_hop (move_hop free m dist i h) = (kc_hop h)(free := kc_hop h (m + i), m + i := None)"
    "vc_hop (move_hop free m dist i h) = (vc_hop h)(free := vc_hop h (m + i), m + i := - 1)"
    "info_hop (move_hop free m dist i h) = hl.set_info m i False (hl.set_info m dist True (info_hop h))"
    "locked_hop (move_hop free m dist i h) = locked_hop h"
  using assms by (auto simp: move_hop_def upd_hop_def view_hop fun_eq_iff Let_def hl.set_info_apply
      BUSY_hop_def ucast_minus_1)

section \<open>The operations on the layout\<close>

lemma lay_hopD:
  assumes "lay_hop h"
  shows "hl.layout (info_hop h) (kc_hop h)" and "kc_hop h c = Some x \<Longrightarrow> x = scast (ucast x :: u32)"
  using assms by (simp_all add: lay_hop_def)

lemma inv_hopD: "inv_hop h \<Longrightarrow> lay_hop h" "inv_hop h \<Longrightarrow> \<not> locked_hop h i"
  by (simp_all add: inv_hop_def)

lemma create_hop_inv: "inv_hop (create_hop as)" "map_hop (create_hop as) = Map.empty"
  by (auto simp: inv_hop_def lay_hop_def map_hop_def hl.layout_def view_create hl.layout_map_def find_upt_None fun_eq_iff)

lemma kc_hop_key: "(k :: u32) \<noteq> - 1 \<Longrightarrow> hop_key (buckets h c) = scast k \<longleftrightarrow> kc_hop h c = Some (scast k)"
  using scast_free [of k] by (auto simp: kc_hop_def eq_commute [of "- 1"])

lemma map_hop_None: "lay_hop h \<Longrightarrow> map_hop h k = None \<longleftrightarrow> (\<forall>c. kc_hop h c \<noteq> Some (scast k))"
  by (simp only: map_hop_def hl.layout_map_None [OF lay_hopD(1)])

lemma map_lay_same [simp]:
  "map_hop (snd (xbegin h)) = map_hop h" "lay_hop (snd (xbegin h)) = lay_hop h"
  "map_hop (xend h) = map_hop h" "lay_hop (xend h) = lay_hop h" "inv_hop (xend h) = inv_hop h"
  "map_hop (unlock_hop i h) = map_hop h" "lay_hop (unlock_hop i h) = lay_hop h"
  by (simp_all add: map_hop_def lay_hop_def inv_hop_def fun_eq_iff)

lemma inv_unlock: "lay_hop h \<Longrightarrow> (\<And>j. locked_hop h j \<Longrightarrow> j = i) \<Longrightarrow> inv_hop (unlock_hop i h)"
  by (auto simp: inv_hop_def)

text \<open>A transaction or a lock begins in a state with the same table.\<close>

lemma xbegin_same:
  assumes "xbegin h = (tx, h1)"
  shows "kc_hop h1 = kc_hop h" "vc_hop h1 = vc_hop h" "info_hop h1 = info_hop h" "locked_hop h1 = locked_hop h"
    "map_hop h1 = map_hop h" "lay_hop h1 = lay_hop h" "buckets h1 = buckets h"
  using view_xbegin [of h] map_lay_same(1,2) [of h] assms by (auto simp: xbegin_def split: list.splits)

lemma lock_same:
  assumes "\<not> locked_hop h i"
  obtains h1 where "lock_hop i h = Done h1" "kc_hop h1 = kc_hop h" "vc_hop h1 = vc_hop h" "info_hop h1 = info_hop h"
    "\<And>j. locked_hop h1 j = (j = i \<or> locked_hop h j)" "map_hop h1 = map_hop h" "lay_hop h1 = lay_hop h"
    "\<And>j. hop_info (buckets h1 j) = hop_info (buckets h j)" "\<And>j. hop_key (buckets h1 j) = hop_key (buckets h j)"
proof -
  from assms obtain h1 where h1: "lock_hop i h = Done h1" by (simp add: lock_hop_def locked_hop_def)
  note v = view_lock [OF h1]
  have "hop_info (buckets h1 j) = hop_info (buckets h j)" "hop_key (buckets h1 j) = hop_key (buckets h j)" for j
    using h1 by (auto simp: lock_hop_def upd_hop_def split: if_splits)
  moreover have "locked_hop h1 j = (j = i \<or> locked_hop h j)" for j by (simp add: v)
  moreover have "map_hop h1 = map_hop h" "lay_hop h1 = lay_hop h" by (simp_all add: map_hop_def [abs_def] lay_hop_def v)
  ultimately show thesis by (intro that [OF h1 v(1-3)])
qed

lemma contains_hop_eq:
  assumes "lay_hop h" and "k \<noteq> - 1"
  shows "contains_hop h k = (map_hop h k \<noteq> None, if map_hop h k = None then h else unlock_hop (hash_hop k) h)"
proof -
  have "(\<lambda>i. bit (hop_info (buckets h (hash_hop k))) i \<and> hop_key (buckets h (hash_hop k + i)) = scast k) =
      (\<lambda>i. info_hop h (home_hop (scast k)) i \<and> kc_hop h (home_hop (scast k) + i) = Some (scast k))"
    using kc_hop_key [OF assms(2)] by (simp add: info_hop_def home_scast)
  with hl.layout_find_None [OF lay_hopD(1) [OF assms(1)], of "scast k"] show ?thesis
    by (auto simp: contains_hop_def Let_def map_hop_None [OF assms(1)] split: option.splits)
qed

text \<open>An insertion into a free bucket near enough.\<close>

lemma put_hop_law:
  fixes v :: u32
  assumes l: "lay_hop h" and k: "k \<noteq> - 1" "map_hop h k = None" and free: "kc_hop h (hash_hop k + d) = None"
    and d: "d < HOP_RANGE"
  defines "h' \<equiv> put_hop (hash_hop k) (hash_hop k + d) d k v h"
  shows "lay_hop h'" and "map_hop h' = (map_hop h)(k \<mapsto> v)" and "locked_hop h' = locked_hop h"
proof -
  have d32: "d < 32" using d by (simp add: HOP_RANGE_def)
  note view = view_put [OF d32 k(1), of "hash_hop k" "hash_hop k + d" v h, folded h'_def]
  have new: "\<forall>c. kc_hop h c \<noteq> Some (scast k)" using map_hop_None [OF l] k(2) by blast
  note ins = hl.layout_insert [where k = "scast k", OF lay_hopD(1) [OF l] free _ _ new, unfolded home_scast]
  show "lay_hop h'" using ins(1) d lay_hopD(2) [OF l] by (simp add: view lay_hop_def)
  show "map_hop h' = (map_hop h)(k \<mapsto> v)"
  proof
    fix k'
    show "map_hop h' k' = ((map_hop h)(k \<mapsto> v)) k'"
      using ins(2) [of "vc_hop h" v] d by (simp add: map_hop_def view)
  qed
  show "locked_hop h' = locked_hop h" by (simp add: view)
qed

lemma commit_hop_law:
  assumes inv: "inv_hop h" and k: "k \<noteq> - 1" and free: "kc_hop h (hash_hop k + d) = None" and d: "d < HOP_RANGE"
  shows "\<exists>h'. commit_hop (hash_hop k + d) d k v h = Done (map_hop h k = None, h') \<and> inv_hop h' \<and>
    map_hop h' = (if map_hop h k = None then (map_hop h)(k \<mapsto> v) else map_hop h)"
proof -
  obtain tx h1 where x: "xbegin h = (tx, h1)" by fastforce
  note s = xbegin_same [OF x]
  have l: "lay_hop h1" "\<And>i. \<not> locked_hop h1 i" using inv by (auto simp: inv_hop_def s)
  show ?thesis
  proof (cases tx)
    case True
    note c = contains_hop_eq [OF l(1) k]
    have "lay_hop (put_hop (hash_hop k) (hash_hop k + d) d k v h1) \<and>
        map_hop (put_hop (hash_hop k) (hash_hop k + d) d k v h1) = (map_hop h)(k \<mapsto> v) \<and>
        locked_hop (put_hop (hash_hop k) (hash_hop k + d) d k v h1) = locked_hop h1" if "map_hop h k = None"
      using put_hop_law [OF l(1) k _ _ d, of v] that free by (simp add: s)
    with True l inv_unlock [OF l(1)] show ?thesis by (auto simp: commit_hop_def x c s inv_hop_def)
  next
    case False
    from lock_same [OF l(2), of "hash_hop k"] obtain h2 where h2: "lock_hop (hash_hop k) h1 = Done h2"
      "kc_hop h2 = kc_hop h1" "\<And>j. locked_hop h2 j = (j = hash_hop k \<or> locked_hop h1 j)"
      "map_hop h2 = map_hop h1" "lay_hop h2 = lay_hop h1" by metis
    have l2: "lay_hop h2" using l h2 by simp
    note c = contains_hop_eq [OF l2 k]
    have "lay_hop (put_hop (hash_hop k) (hash_hop k + d) d k v h2) \<and>
        map_hop (put_hop (hash_hop k) (hash_hop k + d) d k v h2) = (map_hop h)(k \<mapsto> v) \<and>
        locked_hop (put_hop (hash_hop k) (hash_hop k + d) d k v h2) = locked_hop h2" if "map_hop h k = None"
      using put_hop_law [OF l2 k _ _ d, of v] that free h2 by (simp add: s)
    with False l2 h2 l(2) show ?thesis by (auto simp: commit_hop_def c s x inv_hop_def Let_def)
  qed
qed

lemma move_hop_law:
  assumes l: "lay_hop h" and b: "first_bit (Suc n) (hop_info (buckets h m)) = Some i" and n: "n < 31"
    and free: "kc_hop h (m + Suc n) = None"
  defines "h' \<equiv> move_hop (m + Suc n) m (Suc n) i h"
  shows "lay_hop h'" and "map_hop h' = map_hop h" and "locked_hop h' = locked_hop h" and "kc_hop h' (m + i) = None"
proof -
  have i: "info_hop h m i" "i < Suc n" using first_bit_SomeD [OF b] by (simp_all add: info_hop_def)
  have "i \<noteq> Suc n" "Suc n < 32" using i n by simp_all
  note view = view_move [OF refl this, of m h, folded h'_def]
  note mv = hl.layout_move [OF lay_hopD(1) [OF l] i(1) free]
  show "lay_hop h'" using mv(1) n lay_hopD(2) [OF l] by (auto simp: lay_hop_def view HOP_RANGE_def)
  show "map_hop h' = map_hop h"
  proof
    fix k
    show "map_hop h' k = map_hop h k" using mv(2) [of "vc_hop h" "- 1"] n by (simp add: map_hop_def view HOP_RANGE_def)
  qed
  show "locked_hop h' = locked_hop h" "kc_hop h' (m + i) = None" by (simp_all add: view)
qed

lemma closer_loop_law:
  assumes "inv_hop h" and "kc_hop h free = None" and "free = move + n" and "n \<le> 31" and "n \<le> d"
  shows "\<exists>free' d' found h'. closer_loop n move free d h = Done (free', d', found, h') \<and> inv_hop h' \<and>
    map_hop h' = map_hop h \<and> (found \<longrightarrow> kc_hop h' free' = None \<and> free' + d = free + d' \<and> d' < d)"
  using assms
proof (induction n arbitrary: move)
  case 0
  let ?h = "upd_hop free (hop_key_update (\<lambda>_. - 1)) h"
  have "map_hop ?h = map_hop h" "inv_hop ?h = inv_hop h"
    using view_busy(2) [OF 0(2)] by (simp_all add: map_hop_def [abs_def] inv_hop_def lay_hop_def)
  with 0 show ?case by auto
next
  case (Suc n)
  show ?case
  proof (cases "first_bit (Suc n) (hop_info (buckets h move))")
    case None
    with Suc.IH [of "Suc move"] Suc.prems show ?thesis by (simp add: Let_def)
  next
    case (Some i)
    obtain tx h1 where x: "xbegin h = (tx, h1)" by fastforce
    note s = xbegin_same [OF x]
    have inv: "lay_hop h" "\<And>i. \<not> locked_hop h i" using Suc.prems(1) by (simp_all add: inv_hop_def)
    have i: "i < Suc n" by (rule first_bit_less [OF Some])
    have dist: "move + i + d = free + (d - Suc n + i)" "d - Suc n + i < d" using i Suc.prems by auto
    show ?thesis
    proof (cases tx)
      case True
      have "kc_hop h1 (move + Suc n) = None" using Suc.prems by (simp add: s)
      note mv = move_hop_law [of h1 n move i, OF _ _ _ this]
      from mv inv Some Suc.prems(3,4) dist True show ?thesis by (auto simp: Let_def x s inv_hop_def)
    next
      case False
      have "\<not> locked_hop h1 move" using inv by (simp add: s)
      from lock_same [OF this] obtain h2 where h2: "lock_hop move h1 = Done h2" "kc_hop h2 = kc_hop h"
        "\<And>j. locked_hop h2 j = (j = move \<or> locked_hop h1 j)" "map_hop h2 = map_hop h" "lay_hop h2 = lay_hop h"
        "\<And>j. hop_info (buckets h2 j) = hop_info (buckets h j)" using s by metis
      have "kc_hop h2 (move + Suc n) = None" using Suc.prems by (simp add: h2)
      note mv = move_hop_law [of h2 n move i, OF _ _ _ this]
      from mv inv Some Suc.prems(3,4) dist False show ?thesis by (auto simp: Let_def x s h2 inv_hop_def)
    qed
  qed
qed

lemma add_loop_law:
  assumes "inv_hop h" and "k \<noteq> - 1" and "kc_hop h (hash_hop k + d) = None"
  shows "\<exists>r h'. add_loop (hash_hop k + d) d k v h = Done (r, h') \<and> inv_hop h' \<and>
    (r \<longrightarrow> map_hop h k = None) \<and> map_hop h' = (if r then (map_hop h)(k \<mapsto> v) else map_hop h) \<and>
    (d < HOP_RANGE \<longrightarrow> r = (map_hop h k = None))"
  using assms
proof (induction d arbitrary: h rule: less_induct)
  case (less d)
  show ?case
  proof (cases "d < HOP_RANGE")
    case True
    with commit_hop_law [OF less.prems True, of v] show ?thesis
      by (subst add_loop.simps) auto
  next
    case False
    then have d: "31 \<le> d" by (simp add: HOP_RANGE_def)
    from closer_loop_law [OF less.prems(1,3), of "hash_hop k + d - 31" 31 d] d
    obtain free' d' found h' where c: "closer_loop 31 (hash_hop k + d - 31) (hash_hop k + d) d h = Done (free', d', found, h')"
      "inv_hop h'" "map_hop h' = map_hop h"
      "found \<longrightarrow> kc_hop h' free' = None \<and> free' + d = hash_hop k + d + d' \<and> d' < d" by auto
    have f: "find_closer_bucket_hop (hash_hop k + d) d h = Done (free', d', found, h')"
      using c(1) d by (auto simp: find_closer_bucket_hop_def HOP_RANGE_def)
    have eq: "add_loop (hash_hop k + d) d k v h = (if found then add_loop free' d' k v h' else Done (False, h'))"
      using False f by (subst add_loop.simps) simp
    show ?thesis
    proof (cases found)
      case True
      with c(4) have n: "free' = hash_hop k + d'" "d' < d" "kc_hop h' (hash_hop k + d') = None" by auto
      from less.IH [OF n(2) c(2) less.prems(2) n(3)] False show ?thesis
        by (simp only: eq True if_True n(1) c(3)) blast
    next
      case no: False
      with False c(2,3) show ?thesis by (auto simp: eq)
    qed
  qed
qed

lemma take_hop_law:
  assumes inv: "lay_hop h" and k: "k \<noteq> - 1" and key: "kc_hop h (hash_hop k + i) = Some (scast k)"
  shows "\<exists>w h'. take_hop (hash_hop k) i k h = (w, h') \<and> map_hop h k = Some w \<and> lay_hop h' \<and>
    map_hop h' = (map_hop h)(k := None) \<and> locked_hop h' = locked_hop h"
proof -
  let ?s = "hash_hop k" and ?c = "hash_hop k + i"
  note l = lay_hopD(1) [OF inv]
  have v: "hop_key (buckets h ?c) = scast k" using key kc_hop_key [OF k] by blast
  define h' where "h' = upd_hop ?s (hop_info_update (clear_bit i))
    (upd_hop ?c (hop_data_update (\<lambda>_. - 1)) (upd_hop ?c (hop_key_update (\<lambda>_. - 1)) h))"
  have view: "kc_hop h' = (kc_hop h)(?c := None)" "vc_hop h' = (vc_hop h)(?c := - 1)"
    "info_hop h' = hl.set_info ?s i False (info_hop h)" "locked_hop h' = locked_hop h"
    by (auto simp: h'_def upd_hop_def view_hop fun_eq_iff hl.set_info_apply ucast_minus_1)
  have t: "take_hop ?s i k h = (ucast (hop_data (buckets h ?c)), h')"
    using k by (simp add: take_hop_def v Let_def h'_def)
  note del = hl.layout_delete [OF l key, unfolded home_scast]
  have "lay_hop h'" using del(1) lay_hopD(2) [OF inv] by (simp add: lay_hop_def view)
  moreover have "map_hop h' = (map_hop h)(k := None)"
  proof
    fix k'
    show "map_hop h' k' = ((map_hop h)(k := None)) k'"
      using del(2) [of "vc_hop h" "- 1"] by (simp add: map_hop_def view)
  qed
  moreover have "map_hop h k = Some (ucast (hop_data (buckets h ?c)))"
    using hl.layout_map_cell [OF l key, of "vc_hop h"] by (simp add: map_hop_def vc_hop_def)
  ultimately show ?thesis using t view(4) by blast
qed

text \<open>Another key in the bucket: nothing is taken.\<close>

lemma take_hop_other:
  assumes "hop_key (buckets h (s + i)) \<noteq> scast k"
  shows "take_hop s i k h = (- 1, h)"
  using assms by (simp add: take_hop_def)

lemma remove_hop_law:
  assumes inv: "inv_hop h" and k: "k \<noteq> - 1"
  shows "\<exists>w h'. remove_hop h k = Done (w, h') \<and> inv_hop h' \<and>
    (if \<exists>i. first_bit HOP_RANGE (hop_info (buckets h (hash_hop k))) = Some i \<and> kc_hop h (hash_hop k + i) = Some (scast k)
     then map_hop h k = Some w \<and> map_hop h' = (map_hop h)(k := None) else w = - 1 \<and> map_hop h' = map_hop h)"
proof (cases "first_bit HOP_RANGE (hop_info (buckets h (hash_hop k)))")
  case None
  with inv show ?thesis by (simp add: remove_hop_def)
next
  case (Some i)
  obtain tx h1 where x: "xbegin h = (tx, h1)" by fastforce
  note s = xbegin_same [OF x]
  have l: "lay_hop h1" "\<And>i. \<not> locked_hop h1 i" using inv by (simp_all add: inv_hop_def s)
  from lock_same [OF l(2), of "hash_hop k"] obtain h2 where h2: "lock_hop (hash_hop k) h1 = Done h2"
    "kc_hop h2 = kc_hop h1" "\<And>j. locked_hop h2 j = (j = hash_hop k \<or> locked_hop h1 j)"
    "map_hop h2 = map_hop h1" "lay_hop h2 = lay_hop h1" "\<And>j. hop_key (buckets h2 j) = hop_key (buckets h1 j)" by metis
  define g where "g = (if tx then h1 else h2)"
  have g: "lay_hop g" "kc_hop g = kc_hop h" "map_hop g = map_hop h" "\<And>j. locked_hop g j \<Longrightarrow> \<not> tx \<and> j = hash_hop k"
    using l h2 by (auto simp: g_def s split: if_splits)
  have eq: "remove_hop h k = (let (r, h') = take_hop (hash_hop k) i k g
      in Done (r, if tx then xend h' else unlock_hop (hash_hop k) h'))"
    by (auto simp: remove_hop_def Some x h2 g_def Let_def split: prod.splits)
  have fin: "inv_hop (if tx then xend h' else unlock_hop (hash_hop k) h')"
    if "lay_hop h'" "locked_hop h' = locked_hop g" for h'
    using that g(4) by (auto simp: inv_hop_def)
  show ?thesis
  proof (cases "kc_hop h (hash_hop k + i) = Some (scast k)")
    case True
    with take_hop_law [OF g(1) k, of i] g(2,3) obtain w h' where w: "take_hop (hash_hop k) i k g = (w, h')"
      "map_hop h k = Some w" "lay_hop h'" "map_hop h' = (map_hop h)(k := None)" "locked_hop h' = locked_hop g" by auto
    with fin [OF w(3,5)] True Some show ?thesis by (auto simp: eq)
  next
    case False
    with g(2) kc_hop_key [OF k] have "hop_key (buckets g (hash_hop k + i)) \<noteq> scast k" by metis
    from take_hop_other [OF this] fin [OF g(1) refl] False Some g(3) show ?thesis by (auto simp: eq)
  qed
qed

end
