(* ===== verification/Hopscotch_runs.thy ===== *)
theory Hopscotch_runs
  imports Hopscotch Step_system
begin

text \<open>
  What the class \<open>Hopscotch\<close> does over a run of operations by one thread, which buckets its operations touch,
  and a run of two threads that loses a key.
\<close>

unbundle bit_operations_syntax

section \<open>Runs\<close>

datatype hop_op = Add u32 u32 | Remove u32 | Contains u32

datatype hop_res = Flag bool | Data u32

fun op_key_hop :: "hop_op \<Rightarrow> u32" where
  "op_key_hop (Add k v) = k"
| "op_key_hop (Remove k) = k"
| "op_key_hop (Contains k) = k"

fun op_hop :: "hop_op \<Rightarrow> hopscotch \<Rightarrow> (hop_res \<times> hopscotch) outcome" where
  "op_hop (Add k v) h = bind_outcome (add_hop h k v) (\<lambda>(r, h). Done (Flag r, h))"
| "op_hop (Remove k) h = bind_outcome (remove_hop h k) (\<lambda>(w, h). Done (Data w, h))"
| "op_hop (Contains k) h = (let (r, h) = contains_hop h k in Done (Flag r, h))"

fun run_hop :: "hop_op list \<Rightarrow> hopscotch \<Rightarrow> (hop_res list \<times> hopscotch) outcome" where
  "run_hop [] h = Done ([], h)"
| "run_hop (x # xs) h =
     bind_outcome (op_hop x h) (\<lambda>(r, h). bind_outcome (run_hop xs h) (\<lambda>(rs, h). Done (r # rs, h)))"

text \<open>
  The answer of an operation when the table holds the map \<open>M\<close>, and the map afterwards. An absent key may be refused only
  when at least \<open>HOP_RANGE\<close> keys have their homes less than \<open>HOP_RANGE\<close> buckets from the home of the key, and a
  removal may miss its key only when another key has the same home bucket.
\<close>

definition crowded_hop :: "(u32 \<Rightarrow> u32 option) \<Rightarrow> u32 \<Rightarrow> bool" where
  "crowded_hop M k \<longleftrightarrow> HOP_RANGE \<le> card {k'. M k' \<noteq> None \<and> hash_hop k' < hash_hop k + HOP_RANGE \<and> hash_hop k < hash_hop k' + HOP_RANGE}"

fun hop_spec :: "hop_op \<Rightarrow> hop_res \<Rightarrow> (u32 \<Rightarrow> u32 option) \<Rightarrow> (u32 \<Rightarrow> u32 option) \<Rightarrow> bool" where
  "hop_spec (Add k v) (Flag r) M M' = (M' = (if r then M(k \<mapsto> v) else M) \<and> (if r then M k = None else M k \<noteq> None \<or> crowded_hop M k))"
| "hop_spec (Contains k) (Flag r) M M' = (r = (M k \<noteq> None) \<and> M' = M)"
| "hop_spec (Remove k) (Data w) M M' =
     (M k = Some w \<and> M' = M(k := None) \<or>
      w = - 1 \<and> M' = M \<and> (M k = None \<or> (\<exists>k'. k' \<noteq> k \<and> hash_hop k' = hash_hop k \<and> M k' \<noteq> None)))"
| "hop_spec _ _ M M' = False"

fun hop_accepts :: "hop_op list \<Rightarrow> hop_res list \<Rightarrow> (u32 \<Rightarrow> u32 option) \<Rightarrow> (u32 \<Rightarrow> u32 option) \<Rightarrow> bool" where
  "hop_accepts [] [] M M' = (M' = M)"
| "hop_accepts (x # xs) (r # rs) M M' = (\<exists>M1. hop_spec x r M M1 \<and> hop_accepts xs rs M1 M')"
| "hop_accepts _ _ M M' = False"

lemma add_hop_law:
  assumes inv: "inv_hop h" and k: "k \<noteq> - 1"
  shows "\<exists>r h'. add_hop h k v = Done (r, h') \<and> inv_hop h' \<and> (r \<longrightarrow> map_hop h k = None) \<and>
    map_hop h' = (if r then (map_hop h)(k \<mapsto> v) else map_hop h) \<and>
    ((\<exists>d<HOP_RANGE. kc_hop h (hash_hop k + d) = None) \<longrightarrow> r = (map_hop h k = None))"
proof (cases "find (\<lambda>d. hop_key (buckets h (hash_hop k + d)) = - 1) [0..<ADD_RANGE]")
  case None
  then have n: "\<not> (\<exists>d<HOP_RANGE. kc_hop h (hash_hop k + d) = None)"
    by (auto simp: find_upt_None kc_hop_def HOP_RANGE_def ADD_RANGE_def)
  have a: "add_hop h k v = Done (False, h)" by (simp only: add_hop_def Let_def None option.case)
  show ?thesis by (intro exI [of _ False] exI [of _ h] conjI) (use a inv n in \<open>simp_all only: if_False simp_thms\<close>)
next
  case (Some d)
  note f = find_upt_SomeD [OF Some]
  let ?h = "upd_hop (hash_hop k + d) (hop_key_update (\<lambda>_. scast BUSY_hop)) h"
  from f(1) have free: "kc_hop h (hash_hop k + d) = None" by (simp add: kc_hop_def)
  note v = view_busy(1) [OF free]
  have same: "inv_hop ?h = inv_hop h" "map_hop ?h = map_hop h"
    by (simp_all add: inv_hop_def lay_hop_def map_hop_def [abs_def] v)
  have near: "d < HOP_RANGE" if "d' < HOP_RANGE" "kc_hop h (hash_hop k + d') = None" for d'
  proof (rule ccontr)
    assume "\<not> d < HOP_RANGE"
    with that f(3) [of d'] show False by (auto simp: kc_hop_def split: if_splits)
  qed
  from add_loop_law [of ?h k d v] inv k free same v obtain r h' where
    r: "add_loop (hash_hop k + d) d k v ?h = Done (r, h')" "inv_hop h'" "r \<longrightarrow> map_hop h k = None"
      "map_hop h' = (if r then (map_hop h)(k \<mapsto> v) else map_hop h)" "d < HOP_RANGE \<longrightarrow> r = (map_hop h k = None)"
    by auto
  have a: "add_hop h k v = Done (r, h')" by (simp only: add_hop_def Let_def Some option.case r(1))
  show ?thesis
    by (intro exI [of _ r] exI [of _ h'] conjI) (use a r near in blast)+
qed

lemma full_crowded:
  assumes inv: "inv_hop h" and full: "\<not> (\<exists>d<HOP_RANGE. kc_hop h (hash_hop k + d) = None)"
  shows "crowded_hop (map_hop h) k"
proof -
  note lay = inv_hopD(1) [OF inv]
  let ?K = "{x. (\<exists>c. kc_hop h c = Some x) \<and> home_hop x < hash_hop k + HOP_RANGE \<and> hash_hop k < home_hop x + HOP_RANGE}"
  let ?S = "{k'. map_hop h k' \<noteq> None \<and> hash_hop k' < hash_hop k + HOP_RANGE \<and> hash_hop k < hash_hop k' + HOP_RANGE}"
  have sub: "?K \<subseteq> scast ` ?S"
  proof
    fix x assume x: "x \<in> ?K"
    then obtain c where c: "kc_hop h c = Some x" by blast
    from lay_hopD(2) [OF lay c] obtain k' :: u32 where k': "x = scast k'" by blast
    moreover have "map_hop h k' \<noteq> None" using map_hop_None [OF lay, of k'] c k' by blast
    ultimately show "x \<in> scast ` ?S" using x by (auto simp: home_scast)
  qed
  have "HOP_RANGE \<le> card ?K"
    by (rule hl.layout_full [OF lay_hopD(1) [OF lay]]) (use full in \<open>simp_all add: finite_subset [OF sub]\<close>)
  also have "\<dots> \<le> card (scast ` ?S :: u64 set)" by (rule card_mono [OF _ sub]) simp
  also have "\<dots> \<le> card ?S" by (rule card_image_le) simp
  finally show ?thesis by (simp add: crowded_hop_def)
qed

text \<open>No bit: no key with this home.\<close>

lemma first_bit_None_absent:
  assumes inv: "inv_hop h" and n: "first_bit HOP_RANGE (hop_info (buckets h (hash_hop k))) = None"
  shows "map_hop h k = None"
proof (rule ccontr)
  note lay = inv_hopD(1) [OF inv]
  assume "map_hop h k \<noteq> None"
  with map_hop_None [OF lay, of k] have "\<not> (\<forall>c. kc_hop h c \<noteq> Some (scast k))" by simp
  then obtain c where "kc_hop h c = Some (scast k)" by blast
  from hl.layoutD(4) [OF lay_hopD(1) [OF lay] this] hl.layout_near [OF lay_hopD(1) [OF lay] this] n show False
    by (auto simp: first_bit_def find_upt_None home_scast info_hop_def)
qed

lemma layout_first_other:
  assumes "inv_hop h" and "first_bit HOP_RANGE (hop_info (buckets h (hash_hop k))) = Some i"
    and "kc_hop h (hash_hop k + i) \<noteq> Some (scast k)"
  shows "\<exists>k'. k' \<noteq> k \<and> hash_hop k' = hash_hop k \<and> map_hop h k' \<noteq> None"
proof -
  note lay = inv_hopD(1) [OF assms(1)]
  from first_bit_SomeD [OF assms(2)] have "info_hop h (hash_hop k) i" by (simp add: info_hop_def)
  from hl.layoutD(2) [OF lay_hopD(1) [OF lay] this] obtain x where
    x: "kc_hop h (hash_hop k + i) = Some x" "home_hop x = hash_hop k" by blast
  from lay_hopD(2) [OF lay x(1)] obtain k' :: u32 where k': "x = scast k'" by blast
  with x assms(3) have "k' \<noteq> k" "hash_hop k' = hash_hop k" by (auto simp: home_scast)
  moreover have "map_hop h k' \<noteq> None" using map_hop_None [OF lay, of k'] x(1) k' by blast
  ultimately show ?thesis by blast
qed

lemma op_hop_law:
  assumes inv: "inv_hop h" and k: "op_key_hop x \<noteq> - 1"
  shows "\<exists>r h'. op_hop x h = Done (r, h') \<and> inv_hop h' \<and> hop_spec x r (map_hop h) (map_hop h')"
proof (cases x)
  case (Add k v)
  with k add_hop_law [OF inv, of k v] obtain r h' where "add_hop h k v = Done (r, h')" "inv_hop h'"
    "r \<longrightarrow> map_hop h k = None" "map_hop h' = (if r then (map_hop h)(k \<mapsto> v) else map_hop h)"
    "(\<exists>d<HOP_RANGE. kc_hop h (hash_hop k + d) = None) \<longrightarrow> r = (map_hop h k = None)" by auto
  with Add full_crowded [OF inv, of k] show ?thesis by (intro exI [of _ "Flag r"] exI [of _ h']) auto
next
  case (Remove k')
  with k remove_hop_law [OF inv, of k'] obtain w h' where r: "remove_hop h k' = Done (w, h')" "inv_hop h'"
    and c: "if \<exists>i. first_bit HOP_RANGE (hop_info (buckets h (hash_hop k'))) = Some i \<and> kc_hop h (hash_hop k' + i) = Some (scast k')
     then map_hop h k' = Some w \<and> map_hop h' = (map_hop h)(k' := None) else w = - 1 \<and> map_hop h' = map_hop h" by auto
  have "hop_spec x (Data w) (map_hop h) (map_hop h')"
  proof (cases "first_bit HOP_RANGE (hop_info (buckets h (hash_hop k')))")
    case None
    with c Remove first_bit_None_absent [OF inv None] show ?thesis by simp
  next
    case (Some i)
    with c Remove layout_first_other [OF inv Some] show ?thesis by (auto split: if_splits)
  qed
  with r Remove show ?thesis by (intro exI [of _ "Data w"] exI [of _ h']) simp
next
  case (Contains k')
  have "inv_hop (unlock_hop i h)" for i using inv by (auto intro: inv_unlock simp: inv_hop_def)
  with Contains k inv contains_hop_eq [OF inv_hopD(1) [OF inv], of k'] show ?thesis by auto
qed

lemma run_hop_law:
  assumes "inv_hop h" and "\<forall>x\<in>set xs. op_key_hop x \<noteq> - 1"
  shows "\<exists>rs h'. run_hop xs h = Done (rs, h') \<and> inv_hop h' \<and> hop_accepts xs rs (map_hop h) (map_hop h')"
  using assms
proof (induction xs arbitrary: h)
  case (Cons x xs)
  from op_hop_law [OF Cons.prems(1)] Cons.prems(2) obtain r h1 where
    x: "op_hop x h = Done (r, h1)" "inv_hop h1" "hop_spec x r (map_hop h) (map_hop h1)" by fastforce
  from Cons.IH [OF x(2)] Cons.prems(2) obtain rs h' where
    "run_hop xs h1 = Done (rs, h')" "inv_hop h'" "hop_accepts xs rs (map_hop h1) (map_hop h')" by auto
  with x show ?case by auto
qed simp

section \<open>The array\<close>

definition array_size_hop :: nat where
  "array_size_hop = MAX_SEGMENTS + ADD_RANGE"

text \<open>The same array with nothing behind its end, and what lies behind the end.\<close>

definition trim_hop :: "hopscotch \<Rightarrow> hopscotch" where
  "trim_hop h = h\<lparr>buckets := (\<lambda>i. if i < array_size_hop then buckets h i else bucket_hop)\<rparr>"

definition rest_hop :: "hopscotch \<Rightarrow> nat \<Rightarrow> hop_bucket" where
  "rest_hop h i = buckets h (array_size_hop + i)"

lemma trim_buckets [simp]: "i < array_size_hop \<Longrightarrow> buckets (trim_hop h) i = buckets h i"
  by (simp add: trim_hop_def)

lemma trim_upd [simp]: "i < array_size_hop \<Longrightarrow> upd_hop i f (trim_hop h) = trim_hop (upd_hop i f h)"
  by (auto simp: trim_hop_def upd_hop_def fun_eq_iff)

lemma rest_upd [simp]: "i < array_size_hop \<Longrightarrow> rest_hop (upd_hop i f h) = rest_hop h"
  by (auto simp: rest_hop_def upd_hop_def fun_eq_iff)

lemma trim_tx [simp]: "xbegin (trim_hop h) = (fst (xbegin h), trim_hop (snd (xbegin h)))" "xend (trim_hop h) = trim_hop (xend h)"
  "rest_hop (snd (xbegin h)) = rest_hop h" "rest_hop (xend h) = rest_hop h"
  by (auto simp: xbegin_def xend_def trim_hop_def rest_hop_def fun_eq_iff split: list.splits)

lemma trim_lock [simp]:
  assumes "i < array_size_hop"
  shows "lock_hop i (trim_hop h) = map_outcome trim_hop (lock_hop i h)" "unlock_hop i (trim_hop h) = trim_hop (unlock_hop i h)"
    "rest_hop (unlock_hop i h) = rest_hop h"
  using assms by (auto simp: lock_hop_def unlock_hop_def)

lemma rest_lock: "i < array_size_hop \<Longrightarrow> lock_hop i h = Done h' \<Longrightarrow> rest_hop h' = rest_hop h"
  by (auto simp: lock_hop_def split: if_splits)

lemma hash_in_array: "i < ADD_RANGE \<Longrightarrow> hash_hop k + i < array_size_hop" "hash_hop k < array_size_hop"
  using hash_hop_less [of k] by (simp_all add: array_size_hop_def ADD_RANGE_def)

lemma find_cong_upt: "(\<And>i. i < n \<Longrightarrow> P i = Q i) \<Longrightarrow> find P [0..<n] = find Q [0..<n]"
  by (rule find_cong) auto

lemma contains_trim:
  "contains_hop (trim_hop h) k = map_prod id trim_hop (contains_hop h k) \<and> rest_hop (snd (contains_hop h k)) = rest_hop h"
proof -
  have "find (\<lambda>i. bit (hop_info (buckets (trim_hop h) (hash_hop k))) i \<and>
      hop_key (buckets (trim_hop h) (hash_hop k + i)) = scast k) [0..<HOP_RANGE] =
    find (\<lambda>i. bit (hop_info (buckets h (hash_hop k))) i \<and> hop_key (buckets h (hash_hop k + i)) = scast k) [0..<HOP_RANGE]"
    by (rule find_cong_upt) (simp add: hash_in_array HOP_RANGE_def ADD_RANGE_def)
  then show ?thesis
    by (auto simp: contains_hop_def Let_def hash_in_array split: option.splits)
qed

lemma put_trim:
  "s < array_size_hop \<Longrightarrow> free < array_size_hop \<Longrightarrow>
    put_hop s free d k v (trim_hop h) = trim_hop (put_hop s free d k v h) \<and> rest_hop (put_hop s free d k v h) = rest_hop h"
  by (simp add: put_hop_def Let_def)

lemma take_trim:
  "i < HOP_RANGE \<Longrightarrow> take_hop (hash_hop k) i k (trim_hop h) = map_prod id trim_hop (take_hop (hash_hop k) i k h) \<and>
    rest_hop (snd (take_hop (hash_hop k) i k h)) = rest_hop h"
  by (auto simp: take_hop_def Let_def hash_in_array HOP_RANGE_def ADD_RANGE_def)

lemma move_trim:
  "move + i < free \<Longrightarrow> free < array_size_hop \<Longrightarrow>
    move_hop free move d i (trim_hop h) = trim_hop (move_hop free move d i h) \<and>
    rest_hop (move_hop free move d i h) = rest_hop h"
  by (simp add: move_hop_def Let_def)

text \<open>An operation stays in the array: it does not see what lies behind it and does not change it.\<close>

definition confined :: "(hopscotch \<Rightarrow> ('a \<times> hopscotch) outcome) \<Rightarrow> hopscotch \<Rightarrow> bool" where
  "confined f h \<longleftrightarrow> f (trim_hop h) = map_outcome (map_prod id trim_hop) (f h) \<and>
     map_outcome (\<lambda>(_, h'). rest_hop h') (f h) = map_outcome (\<lambda>_. rest_hop h) (f h)"

lemma confined_cases:
  assumes "confined f h"
  obtains (Done) r h' where "f h = Done (r, h')" "f (trim_hop h) = Done (r, trim_hop h')" "rest_hop h' = rest_hop h"
  | (Spins) "f h = Spins" "f (trim_hop h) = Spins"
  | (Faults) "f h = Faults" "f (trim_hop h) = Faults"
  using assms by (cases "f h") (auto simp: confined_def)

lemma confined_pure: "f (trim_hop h) = map_prod id trim_hop (f h) \<Longrightarrow> rest_hop (snd (f h)) = rest_hop h \<Longrightarrow>
    confined (\<lambda>h. Done (f h)) h"
  by (cases "f h") (simp add: confined_def)

lemma contains_rest: "contains_hop h k = (b, h') \<Longrightarrow> rest_hop h' = rest_hop h"
  using contains_trim [of h k] by simp

lemma put_rest: "free < array_size_hop \<Longrightarrow> rest_hop (put_hop (hash_hop k) free d k v h) = rest_hop h"
  using put_trim [OF hash_in_array(2)] by blast

lemma commit_confined:
  assumes "free < array_size_hop"
  shows "confined (commit_hop free d k v) h"
proof -
  obtain tx h1 where x: "xbegin h = (tx, h1)" by fastforce
  have r1: "rest_hop h1 = rest_hop h" using trim_tx(3) [of h] by (simp add: x)
  note s = hash_in_array(2) [of k]
  note c = contains_trim [of _ k, THEN conjunct1] put_trim [OF s assms, THEN conjunct1]
  have "commit_hop free d k v (trim_hop h) = map_outcome (map_prod id trim_hop) (commit_hop free d k v h)"
    by (cases "lock_hop (hash_hop k) h1") (auto simp: commit_hop_def x c s Let_def split: prod.splits)
  moreover have "rest_hop h' = rest_hop h" if "commit_hop free d k v h = Done (r, h')" for r h'
    using that put_rest [OF assms] s r1
    by (auto simp: commit_hop_def x Let_def bind_outcome_Done_iff split_def contains_trim [THEN conjunct2]
        dest!: rest_lock [OF s] split: if_splits)
  ultimately show ?thesis by (cases "commit_hop free d k v h") (auto simp: confined_def)
qed

lemma closer_loop_trim:
  assumes "free < array_size_hop" and "move + n \<le> free"
  shows "closer_loop n move free d (trim_hop h) =
      map_outcome (\<lambda>(f, d, b, h'). (f, d, b, trim_hop h')) (closer_loop n move free d h)"
  using assms
proof (induction n arbitrary: move h)
  case (Suc n)
  obtain tx h1 where x: "xbegin h = (tx, h1)" by fastforce
  have m: "move < array_size_hop" using Suc.prems by simp
  show ?case
  proof (cases "first_bit (Suc n) (hop_info (buckets h move))")
    case None
    with Suc m show ?thesis by simp
  next
    case (Some i)
    from first_bit_less [OF Some] Suc.prems have "move + i < free" by simp
    note mv = move_trim [OF this Suc.prems(1), THEN conjunct1]
    show ?thesis using Suc.IH [OF Suc.prems(1), of "Suc move"] Suc.prems(2) m
      by (cases "lock_hop move h1") (simp_all add: Let_def Some x mv)
  qed
qed simp

lemma lock_info: "lock_hop i h = Done h' \<Longrightarrow> hop_info (buckets h' j) = hop_info (buckets h j)"
  by (auto simp: lock_hop_def upd_hop_def split: if_splits)

text \<open>With one thread the second look at \<open>hop_info\<close> sees what the first has seen.\<close>

lemma closer_loop_found:
  assumes "first_bit (Suc n) (hop_info (buckets h move)) = Some i" and "xbegin h = (tx, h1)"
  shows "closer_loop (Suc n) move free d h =
    (if tx then Done (move + i, d - Suc n + i, True, xend (move_hop free move (Suc n) i h1))
     else bind_outcome (lock_hop move h1)
       (\<lambda>h2. Done (move + i, d - Suc n + i, True, unlock_hop move (move_hop free move (Suc n) i h2))))"
  using xbegin_same(7) [OF assms(2)] lock_info [of move h1 _ move] assms
  by (cases "lock_hop move h1") (simp_all add: Let_def)

lemma closer_loop_rest:
  assumes "closer_loop n move free d h = Done (f, e, b, h')" and "free < array_size_hop" and "move + n \<le> free"
  shows "rest_hop h' = rest_hop h \<and> f \<le> free"
  using assms
proof (induction n arbitrary: move h)
  case (Suc n)
  obtain tx h1 where x: "xbegin h = (tx, h1)" by fastforce
  have r1: "rest_hop h1 = rest_hop h" using trim_tx(3) [of h] by (simp add: x)
  have m: "move < array_size_hop" using Suc.prems by simp
  show ?case
  proof (cases "first_bit (Suc n) (hop_info (buckets h move))")
    case None
    with Suc.IH [of "Suc move" h] Suc.prems show ?thesis by simp
  next
    case (Some i)
    from first_bit_less [OF Some] Suc.prems(3) have i: "move + i < free" by simp
    note mv = move_trim [OF i Suc.prems(2), THEN conjunct2]
    have r: "rest_hop h2 = rest_hop h" if "lock_hop move h1 = Done h2" for h2
      using rest_lock [OF m that] r1 by simp
    show ?thesis using Suc.prems(1) i r mv r1 m unfolding closer_loop_found [OF Some x]
      by (cases "lock_hop move h1") (auto split: if_splits)
  qed
qed auto

lemma closer_loop_order:
  assumes "closer_loop n move free d h = Done (f, e, True, h')" and "move + n = free" and "n \<le> d" and "d \<le> free"
  shows "e \<le> f"
  using assms
proof (induction n arbitrary: move h)
  case (Suc n)
  obtain tx h1 where x: "xbegin h = (tx, h1)" by fastforce
  show ?case
  proof (cases "first_bit (Suc n) (hop_info (buckets h move))")
    case None
    with Suc.IH [of "Suc move" h] Suc.prems show ?thesis by simp
  next
    case (Some i)
    from Suc.prems(1) have "f = move + i" "e = d - Suc n + i" unfolding closer_loop_found [OF Some x]
      by (cases tx; cases "lock_hop move h1"; simp)+
    with Suc.prems(2-4) show ?thesis by simp
  qed
qed simp

lemma add_loop_confined:
  assumes "free < array_size_hop" and "d \<le> free"
  shows "confined (add_loop free d k v) h"
  using assms
proof (induction free d k v h rule: add_loop.induct)
  case (1 free d k v h)
  show ?case
  proof (cases "d < HOP_RANGE")
    case True
    then have "add_loop free d k v g = commit_hop free d k v g" for g by (subst add_loop.simps) simp
    with commit_confined [OF 1(2), of d k v h] show ?thesis by (simp add: confined_def)
  next
    case False
    then have d: "31 \<le> d" by (simp add: HOP_RANGE_def)
    have m: "free - 31 + 31 \<le> free" using d 1(3) by simp
    have f: "find_closer_bucket_hop free d g = closer_loop 31 (free - 31) free d g" for g
      using d by (simp add: find_closer_bucket_hop_def HOP_RANGE_def)
    note t = closer_loop_trim [OF 1(2) m, of d h]
    have eq: "add_loop free d k v g = (case closer_loop 31 (free - 31) free d g of
        Done (free', distance', found, h') \<Rightarrow> if found then add_loop free' distance' k v h' else Done (False, h')
      | Spins \<Rightarrow> Spins | Faults \<Rightarrow> Faults)" for g
      using False by (subst add_loop.simps) (simp add: f)
    show ?thesis
    proof (cases "closer_loop 31 (free - 31) free d h")
      case (Done c)
      obtain f' d' b h' where c: "c = (f', d', b, h')" by (cases c)
      note r = closer_loop_rest [OF Done [unfolded c] 1(2) m]
      show ?thesis
      proof (cases b)
        case True
        have d': "d' \<le> f'" using closer_loop_order [of 31 "free - 31" free d h f' d' h'] Done c True 1(3) d by simp
        have "confined (add_loop f' d' k v) h'"
          using 1(1) [OF False, of "(f', d', b, h')" f' "(d', b, h')" d' "(b, h')" b h'] True r 1(2) d' Done f by (simp add: c)
        with True r t show ?thesis by (simp add: confined_def eq Done c)
      next
        case no: False
        with r t show ?thesis by (simp add: confined_def eq Done c)
      qed
    qed (use t in \<open>simp_all add: confined_def eq\<close>)
  qed
qed

lemma add_confined: "confined (\<lambda>h. add_hop h k v) h"
proof -
  have f: "find (\<lambda>d. hop_key (buckets (trim_hop h) (hash_hop k + d)) = - 1) [0..<ADD_RANGE] =
      find (\<lambda>d. hop_key (buckets h (hash_hop k + d)) = - 1) [0..<ADD_RANGE]"
    by (rule find_cong_upt) (simp add: hash_in_array)
  show ?thesis
  proof (cases "find (\<lambda>d. hop_key (buckets h (hash_hop k + d)) = - 1) [0..<ADD_RANGE]")
    case None
    then show ?thesis by (simp add: confined_def add_hop_def f)
  next
    case (Some d)
    then have d: "hash_hop k + d < array_size_hop" using find_upt_SomeD(2) hash_in_array(1) by blast
    from add_loop_confined [OF this, of d k v "upd_hop (hash_hop k + d) (hop_key_update (\<lambda>_. scast BUSY_hop)) h"] d
    show ?thesis by (simp add: confined_def add_hop_def f Some Let_def)
  qed
qed

lemma remove_confined: "confined (\<lambda>h. remove_hop h k) h"
proof (cases "first_bit HOP_RANGE (hop_info (buckets h (hash_hop k)))")
  case None
  then show ?thesis by (simp add: confined_def remove_hop_def Let_def hash_in_array)
next
  case (Some i)
  obtain tx h1 where x: "xbegin h = (tx, h1)" by fastforce
  have r1: "rest_hop h1 = rest_hop h" using trim_tx(3) [of h] by (simp add: x)
  note s = hash_in_array(2) [of k]
  note t = take_trim [OF first_bit_less [OF Some], of k]
  have "remove_hop (trim_hop h) k = map_outcome (map_prod id trim_hop) (remove_hop h k)"
    by (cases "lock_hop (hash_hop k) h1") (auto simp: remove_hop_def Some x t [THEN conjunct1] s Let_def split_def)
  moreover have "rest_hop h' = rest_hop h" if "remove_hop h k = Done (r, h')" for r h'
    using that s r1
    by (auto simp: remove_hop_def Some x Let_def bind_outcome_Done_iff split_def t [THEN conjunct2]
        dest!: rest_lock [OF s] split: if_splits)
  ultimately show ?thesis by (cases "remove_hop h k") (auto simp: confined_def)
qed

lemma op_confined: "confined (op_hop x) h"
proof (cases x)
  case (Add k v)
  from confined_cases [OF add_confined [of k v h]] show ?thesis
    by cases (auto simp: Add confined_def)
next
  case (Remove k)
  from confined_cases [OF remove_confined [of k h]] show ?thesis
    by cases (auto simp: Remove confined_def)
next
  case (Contains k)
  with contains_trim [of h k] show ?thesis by (cases "contains_hop h k") (simp add: confined_def)
qed

section \<open>Transactions\<close>

text \<open>An insertion of a present key whose transaction starts returns inside the transaction.\<close>

lemma commit_hop_leaves_transaction:
  assumes "lay_hop h" and "k \<noteq> - 1" and "map_hop h k \<noteq> None" and "tx_answers h = True # as"
  shows "\<exists>h'. commit_hop free d k v h = Done (False, h') \<and> tx_depth h' = Suc (tx_depth h)"
proof -
  obtain tx h1 where x: "xbegin h = (tx, h1)" by fastforce
  note s = xbegin_same [OF x]
  have "tx" "tx_depth h1 = Suc (tx_depth h)" using x assms(4) by (auto simp: xbegin_def)
  moreover have "contains_hop h1 k = (True, unlock_hop (hash_hop k) h1)"
    using contains_hop_eq [of h1 k] assms(1-3) by (simp add: s)
  ultimately show ?thesis by (simp add: commit_hop_def x unlock_hop_def upd_hop_def)
qed

section \<open>Two threads\<close>

text \<open>
  The operations cut at every access to the table outside a transaction; every transaction starts and
  is one step. \<open>A_mark\<close> is the store of \<open>BUSY\<close> that is meant to reserve a free bucket.
\<close>

datatype hop_local =
    A_scan u32 u32 nat \<comment> \<open>\<open>add\<close>: before the load of the key at a distance\<close>
  | A_mark u32 u32 nat
  | A_place u32 u32 nat nat \<comment> \<open>the free bucket and its distance\<close>
  | A_look u32 u32 nat nat nat nat \<comment> \<open>\<open>find_closer_bucket\<close>: \<open>free_dist\<close>, \<open>move_bucket\<close>, the free bucket, its distance\<close>
  | A_move u32 u32 nat nat nat nat u32 nat \<comment> \<open>also \<open>start_hop_info\<close> and the offset found in it\<close>
  | A_drop u32 u32 nat
  | R_info u32
  | R_take u32 nat
  | C_info u32
  | C_key u32 u32 nat
  | Finished hop_op hop_res

fun hop_start :: "hop_op \<Rightarrow> hop_local" where
  "hop_start (Add k v) = A_scan k v 0"
| "hop_start (Remove k) = R_info k"
| "hop_start (Contains k) = C_info k"

definition next_look :: "u32 \<Rightarrow> u32 \<Rightarrow> nat \<Rightarrow> nat \<Rightarrow> nat \<Rightarrow> nat \<Rightarrow> hop_local" where
  "next_look k v n move free d = (if n = 1 then A_drop k v free else A_look k v (n - 1) (Suc move) free d)"

definition next_key :: "u32 \<Rightarrow> u32 \<Rightarrow> nat \<Rightarrow> hop_local" where
  "next_key k info i =
     (case find (\<lambda>j. i \<le> j \<and> bit info j) [0..<HOP_RANGE] of
        None \<Rightarrow> Finished (Contains k) (Flag False)
      | Some j \<Rightarrow> C_key k info j)"

fun hop_step :: "hop_local \<Rightarrow> hopscotch \<Rightarrow> hop_local \<times> hopscotch" where
  "hop_step (A_scan k v d) h =
     (if hop_key (buckets h (hash_hop k + d)) = - 1 then A_mark k v d
      else if Suc d < ADD_RANGE then A_scan k v (Suc d) else Finished (Add k v) (Flag False), h)"
| "hop_step (A_mark k v d) h =
     (A_place k v (hash_hop k + d) d, upd_hop (hash_hop k + d) (hop_key_update (\<lambda>_. scast BUSY_hop)) h)"
| "hop_step (A_place k v free d) h =
     (if d < HOP_RANGE then
        (let (c, h) = contains_hop h k
         in if \<not> c then (Finished (Add k v) (Flag True), put_hop (hash_hop k) free d k v h)
            else (Finished (Add k v) (Flag False), h))
      else (A_look k v (HOP_RANGE - 1) (free - (HOP_RANGE - 1)) free d, h))"
| "hop_step (A_look k v n move free d) h =
     (let info = hop_info (buckets h move)
      in case first_bit n info of
           None \<Rightarrow> (next_look k v n move free d, h)
         | Some i \<Rightarrow> (A_move k v n move free d info i, h))"
| "hop_step (A_move k v n move free d info i) h =
     (if info = hop_info (buckets h move)
      then (A_place k v (move + i) (d - n + i), move_hop free move n i h)
      else (next_look k v n move free d, h))"
| "hop_step (A_drop k v free) h =
     (Finished (Add k v) (Flag False), upd_hop free (hop_key_update (\<lambda>_. - 1)) h)"
| "hop_step (R_info k) h =
     (case first_bit HOP_RANGE (hop_info (buckets h (hash_hop k))) of
        None \<Rightarrow> (Finished (Remove k) (Data (- 1)), h)
      | Some i \<Rightarrow> (R_take k i, h))"
| "hop_step (R_take k i) h = (let (w, h) = take_hop (hash_hop k) i k h in (Finished (Remove k) (Data w), h))"
| "hop_step (C_info k) h = (next_key k (hop_info (buckets h (hash_hop k))) 0, h)"
| "hop_step (C_key k info i) h =
     (if hop_key (buckets h (hash_hop k + i)) = scast k
      then (Finished (Contains k) (Flag True), unlock_hop (hash_hop k) h)
      else (next_key k info (Suc i), h))"
| "hop_step (Finished x r) h = (Finished x r, h)"

record hop_config =
  table_hop :: hopscotch
  locals_hop :: "hop_local list"

definition hop_turn :: "nat \<Rightarrow> hop_config \<Rightarrow> hop_config" where
  "hop_turn t c =
     (let (l, h) = hop_step (locals_hop c ! t) (table_hop c)
      in c\<lparr>table_hop := h, locals_hop := (locals_hop c)[t := l]\<rparr>)"

text \<open>A step: a thread that has finished calls an operation, or a thread takes a step of its operation.\<close>

inductive hop_conc :: "hop_config \<Rightarrow> hop_config \<Rightarrow> bool" where
  call: "t < length (locals_hop c) \<Longrightarrow> locals_hop c ! t = Finished x r \<Longrightarrow> op_key_hop y \<noteq> - 1 \<Longrightarrow>
    hop_conc c (c\<lparr>locals_hop := (locals_hop c)[t := hop_start y]\<rparr>)"
| turn: "t < length (locals_hop c) \<Longrightarrow> hop_conc c (hop_turn t c)"

definition hop_act :: "nat \<times> hop_op option \<Rightarrow> hop_config \<Rightarrow> hop_config option" where
  "hop_act a c =
     (case a of (t, x) \<Rightarrow> if \<not> t < length (locals_hop c) then None else
        (case x of
           None \<Rightarrow> Some (hop_turn t c)
         | Some y \<Rightarrow> (case locals_hop c ! t of
              Finished _ _ \<Rightarrow> if op_key_hop y = - 1 then None else Some (c\<lparr>locals_hop := (locals_hop c)[t := hop_start y]\<rparr>)
            | _ \<Rightarrow> None)))"

lemma hop_act_step: "hop_act a c = Some c' \<Longrightarrow> hop_conc c c'"
  by (auto simp: hop_act_def intro: hop_conc.intros split: prod.splits option.splits if_splits hop_local.splits)

definition hop_init :: "hop_config \<Rightarrow> bool" where
  "hop_init c \<longleftrightarrow> (\<exists>as. table_hop c = create_hop as) \<and> (\<forall>l\<in>set (locals_hop c). \<exists>x r. l = Finished x r)"

fun removing :: "hop_local \<Rightarrow> bool" where
  "removing (R_info k) = True"
| "removing (R_take k i) = True"
| "removing (Finished (Remove k) r) = True"
| "removing _ = False"

definition two_idle :: hop_config where
  "two_idle = \<lparr>table_hop = create_hop [], locals_hop = replicate 2 (Finished (Contains 0) (Flag False))\<rparr>"

text \<open>Both threads see the same bucket free, both reserve it, both insert into it.\<close>

lemma lost_key_run:
  "case schedule_run hop_act
     [(0, Some (Add 5 50)), (1, Some (Add 1048581 70)), (0, None), (1, None), (0, None), (1, None), (0, None), (1, None)] two_idle of
     None \<Rightarrow> False
   | Some cs \<Rightarrow> locals_hop (last cs) = [Finished (Add 5 50) (Flag True), Finished (Add 1048581 70) (Flag True)] \<and>
       \<not> fst (contains_hop (table_hop (last cs)) 5) \<and> list_all (\<lambda>c. list_all (\<lambda>l. \<not> removing l) (locals_hop c)) cs"
  by code_simp

section \<open>Properties\<close>

text \<open>
  C18. A run of insertions, removals and lookups by one thread on the table from the constructor, with keys other
  than -1, always returns, whatever transactions start; its answers and the final content are those of a map, with two
  exceptions: an insertion of an absent key may be refused when at least 32 stored keys have their homes less than 32
  buckets from its own, and a removal may answer -1 although its key is there when another key with the same home
  bucket is in the table.
\<close>

theorem hop_runs_correct:
  assumes "\<forall>x\<in>set xs. op_key_hop x \<noteq> - 1"
  shows "\<exists>rs h. run_hop xs (create_hop as) = Done (rs, h) \<and> inv_hop h \<and> hop_accepts xs rs Map.empty (map_hop h)"
  using run_hop_law [OF create_hop_inv(1) assms] by (simp add: create_hop_inv(2))

text \<open>
  An insertion by one thread returns; it stores the entry exactly when it answers true, which it does
  exactly for an absent key if one of the 32 buckets from the key's home on is free.
\<close>

theorem add_hop_correct:
  assumes "inv_hop h" and "k \<noteq> - 1" and "\<exists>d<HOP_RANGE. kc_hop h (hash_hop k + d) = None"
  shows "\<exists>h'. add_hop h k v = Done (map_hop h k = None, h') \<and> inv_hop h' \<and>
    map_hop h' = (if map_hop h k = None then (map_hop h)(k \<mapsto> v) else map_hop h)"
  using add_hop_law [OF assms(1,2), of v] assms(3) by auto

text \<open>
  C20. What \<open>remove\<close> answers by one thread: it looks only at the first bucket that the bit map of the key's home
  names. If that bucket holds the key, the stored value is returned and the entry deleted; otherwise the answer is -1 and
  nothing changes, also when the key is stored in a later bucket of its home. An empty bit map means that the
  key is absent.
\<close>

theorem remove_hop_misses_key:
  assumes "inv_hop h" and "k \<noteq> - 1"
  shows "\<exists>w h'. remove_hop h k = Done (w, h') \<and> inv_hop h' \<and>
    (case first_bit HOP_RANGE (hop_info (buckets h (hash_hop k))) of
       None \<Rightarrow> w = - 1 \<and> map_hop h k = None \<and> map_hop h' = map_hop h
     | Some i \<Rightarrow>
         if hop_key (buckets h (hash_hop k + i)) = scast k
         then map_hop h k = Some w \<and> map_hop h' = (map_hop h)(k := None)
         else w = - 1 \<and> map_hop h' = map_hop h)"
proof (cases "first_bit HOP_RANGE (hop_info (buckets h (hash_hop k)))")
  case None
  with remove_hop_law [OF assms] first_bit_None_absent [OF assms(1) None] show ?thesis by auto
next
  case (Some i)
  have "kc_hop h (hash_hop k + i) = Some (scast k) \<longleftrightarrow> hop_key (buckets h (hash_hop k + i)) = scast k"
    using assms(2) scast_free [of k] by (auto simp: kc_hop_def simp del: scast_free)
  with remove_hop_law [OF assms] Some show ?thesis by auto
qed

text \<open>
  C19. No operation reads or writes outside the array of \<open>MAX_SEGMENTS + 256\<close> buckets: its answer and the array afterwards
  do not depend on what lies behind the array, and that stays as it was. This holds in any state, also in one
  that breaks the invariant.
\<close>

theorem op_hop_in_array:
  "op_hop x (trim_hop h) = map_outcome (map_prod id trim_hop) (op_hop x h) \<and>
   map_outcome (\<lambda>(_, h'). rest_hop h') (op_hop x h) = map_outcome (\<lambda>_. rest_hop h) (op_hop x h)"
  using op_confined [of x h] by (simp add: confined_def)

text \<open>
  C21. There is a run of two threads in which two insertions of different keys answer true, nothing is removed, and
  the first key is not in the table: \<open>BUSY\<close> is -1, the mark of a free bucket, so storing it reserves nothing,
  and both threads insert into the same bucket.
\<close>

theorem add_hop_loses_key:
  "\<exists>cs. cs \<noteq> [] \<and> hop_init (hd cs) \<and> successively hop_conc cs \<and>
     list_all (\<lambda>c. list_all (\<lambda>l. \<not> removing l) (locals_hop c)) cs \<and>
     locals_hop (last cs) = [Finished (Add 5 50) (Flag True), Finished (Add 1048581 70) (Flag True)] \<and>
     fst (contains_hop (table_hop (last cs)) 5) = False"
proof -
  obtain cs where cs: "schedule_run hop_act
     [(0, Some (Add 5 50)), (1, Some (Add 1048581 70)), (0, None), (1, None), (0, None), (1, None), (0, None), (1, None)] two_idle = Some cs"
    "locals_hop (last cs) = [Finished (Add 5 50) (Flag True), Finished (Add 1048581 70) (Flag True)]"
    "\<not> fst (contains_hop (table_hop (last cs)) 5)" "list_all (\<lambda>c. list_all (\<lambda>l. \<not> removing l) (locals_hop c)) cs"
    using lost_key_run by (auto split: option.splits)
  have "cs \<noteq> [] \<and> hd cs = two_idle \<and> successively hop_conc cs"
    by (rule schedule_run_steps [OF _ cs(1)]) (rule hop_act_step)
  moreover have "hop_init two_idle" by (auto simp: hop_init_def two_idle_def)
  ultimately show ?thesis using cs(2-4) by auto
qed

lemma accepts_example:
  assumes "\<And>k. \<not> crowded_hop Map.empty k"
    and "hop_accepts [Add 5 50, Remove 5, Contains 5] rs Map.empty M"
  shows "rs = [Flag True, Data 50, Flag False] \<and> M = Map.empty"
proof -
  from assms(2) obtain r1 r2 r3 M1 M2 where rs: "rs = [r1, r2, r3]" and
    s: "hop_spec (Add 5 50) r1 Map.empty M1" "hop_spec (Remove 5) r2 M1 M2" "hop_spec (Contains 5) r3 M2 M"
    by (auto elim!: hop_accepts.elims)
  from s(1) assms(1) have 1: "r1 = Flag True" "M1 = [5 \<mapsto> 50]" by (cases r1; auto split: if_splits)+
  with s(2) have 2: "r2 = Data 50" "M2 = Map.empty" by (cases r2; auto split: if_splits)+
  with s(3) show ?thesis using rs 1 by (cases r3) auto
qed

theorem hop_runs_correct_witness:
  "\<exists>h. run_hop [Add 5 50, Remove 5, Contains 5] (create_hop [True]) = Done ([Flag True, Data 50, Flag False], h) \<and>
     inv_hop h \<and> map_hop h = Map.empty"
proof -
  let ?xs = "[Add 5 50, Remove 5, Contains 5]"
  have n: "\<not> crowded_hop Map.empty k" for k by (simp add: crowded_hop_def HOP_RANGE_def)
  from hop_runs_correct [of ?xs "[True]"] obtain rs h where
    r: "run_hop ?xs (create_hop [True]) = Done (rs, h)" "inv_hop h" "hop_accepts ?xs rs Map.empty (map_hop h)" by auto
  from r(3) have "rs = [Flag True, Data 50, Flag False] \<and> map_hop h = Map.empty" by (rule accepts_example [OF n])
  with r(1,2) show ?thesis by auto
qed

lemma create_hop_free: "\<exists>d<HOP_RANGE. kc_hop (create_hop as) (hash_hop k + d) = None"
  by (rule exI [of _ 0]) (simp add: view_create HOP_RANGE_def)

theorem add_hop_correct_witness:
  "\<exists>h'. add_hop (create_hop [True]) 5 50 = Done (True, h') \<and> map_hop h' 5 = Some 50"
  using add_hop_correct [of "create_hop [True]" 5 50] create_hop_inv [of "[True]"] create_hop_free [of "[True]" 5] by auto

text \<open>The key 1048581 has the home bucket of the key 5, which lies there; it stays in the table.\<close>

theorem remove_hop_misses_key_witness:
  "\<exists>h h'. map_hop h = [5 \<mapsto> 50, 1048581 \<mapsto> 70] \<and> remove_hop h 1048581 = Done (- 1, h') \<and> map_hop h' 1048581 = Some 70"
proof -
  have run: "case run_hop [Add 5 50, Add 1048581 70] (create_hop []) of
      Done (rs, h) \<Rightarrow> rs = [Flag True, Flag True] \<and> first_bit HOP_RANGE (hop_info (buckets h (hash_hop 1048581))) = Some 0 \<and>
        hop_key (buckets h (hash_hop 1048581 + 0)) \<noteq> scast (1048581 :: u32)
    | _ \<Rightarrow> False" by code_simp
  obtain rs h where r: "run_hop [Add 5 50, Add 1048581 70] (create_hop []) = Done (rs, h)" "inv_hop h"
    "hop_accepts [Add 5 50, Add 1048581 70] rs Map.empty (map_hop h)"
    using run_hop_law [OF create_hop_inv(1), of "[Add 5 50, Add 1048581 70]" "[]"] by (auto simp: create_hop_inv(2))
  with run have f: "rs = [Flag True, Flag True]" "first_bit HOP_RANGE (hop_info (buckets h (hash_hop 1048581))) = Some 0"
    "hop_key (buckets h (hash_hop 1048581 + 0)) \<noteq> scast (1048581 :: u32)" by simp_all
  with r(3) have m: "map_hop h = [5 \<mapsto> 50, 1048581 \<mapsto> 70]" by simp
  from remove_hop_misses_key [OF r(2), of 1048581] f(2,3) obtain h' where
    "remove_hop h 1048581 = Done (- 1, h')" "map_hop h' = map_hop h" by auto
  with m show ?thesis by auto
qed

end
