(* ===== verification/Hash_int.thy ===== *)
theory Hash_int
  imports Clht_hash
begin

text \<open>
  The hash function \<open>HASH_INT\<close> of the hopscotch tables
  (\<open>src/src/hopscotch/data_structures/HopscotchHashMap.h\<close>, repeated in \<open>BitmapHopscotchHashMap.h\<close>) and the
  helpers of their constructors. \<open>int\<close> arithmetic wraps around, and \<open>>>\<close> on an \<open>int\<close> keeps the sign.
\<close>

unbundle bit_operations_syntax

definition EMPTY_HASH :: u32 where
  "EMPTY_HASH = 0"

definition BUSY_HASH :: u32 where
  "BUSY_HASH = 1"

definition EMPTY_KEY :: u32 where
  "EMPTY_KEY = 0"

definition EMPTY_DATA :: u32 where
  "EMPTY_DATA = 0"

definition calc_hash :: "u32 \<Rightarrow> u32" where
  "calc_hash key =
     (let key = key XOR (push_bit 15 key XOR 0xcd7dcd7d);
          key = key XOR signed_drop_bit 10 key;
          key = key XOR push_bit 3 key;
          key = key XOR signed_drop_bit 6 key;
          key = key XOR (push_bit 2 key + push_bit 14 key)
      in key XOR signed_drop_bit 16 key)"

text \<open>For evaluation: one function per line, so that no argument is copied.\<close>

definition mix_first :: "u32 \<Rightarrow> u32" where
  "mix_first key = key XOR (push_bit 15 key XOR 0xcd7dcd7d)"

definition mix_right :: "nat \<Rightarrow> u32 \<Rightarrow> u32" where
  "mix_right n key = key XOR signed_drop_bit n key"

definition mix_left :: "nat \<Rightarrow> u32 \<Rightarrow> u32" where
  "mix_left n key = key XOR push_bit n key"

definition mix_sum :: "u32 \<Rightarrow> u32" where
  "mix_sum key = key XOR (push_bit 2 key + push_bit 14 key)"

lemma calc_hash_code [code]:
  "calc_hash key = mix_right 16 (mix_sum (mix_right 6 (mix_left 3 (mix_right 10 (mix_first key)))))"
  by (simp add: calc_hash_def Let_def mix_first_def mix_right_def mix_left_def mix_sum_def)

text \<open>The last line of \<open>Calc\<close> clears the sign bit: only half of the hash values occur.\<close>

lemma calc_hash_sign: "\<not> bit (calc_hash k) 31"
  by (simp add: calc_hash_def Let_def bit_simps)

text \<open>Two keys have the hash value that marks an empty bucket.\<close>

lemma calc_hash_empty: "calc_hash 1807961469 = EMPTY_HASH" "calc_hash 2881696386 = EMPTY_HASH"
  by code_simp+

section \<open>Powers of two\<close>

text \<open>The loop of \<open>NearestPowerOfTwo\<close> does not end when \<open>rc <<= 1\<close> overflows.\<close>

partial_function (option) nearest_loop :: "u32 \<Rightarrow> u32 \<Rightarrow> u32 option" where
  "nearest_loop value rc = (if rc < value then nearest_loop value (push_bit 1 rc) else Some rc)"

definition NearestPowerOfTwo :: "u32 \<Rightarrow> u32 option" where
  "NearestPowerOfTwo value = nearest_loop value 1"

partial_function (option) divide_shift_loop :: "u32 \<Rightarrow> u32 \<Rightarrow> u32 \<Rightarrow> u32 option" where
  "divide_shift_loop value cur n =
     (if cur < value then divide_shift_loop value (push_bit 1 cur) (n + 1) else Some n)"

definition CalcDivideShift :: "u32 \<Rightarrow> u32 option" where
  "CalcDivideShift value = divide_shift_loop value 1 0"

declare nearest_loop.simps [code] divide_shift_loop.simps [code]

text \<open>\<open>NearestPowerOfTwo\<close> of a value up to 2 to the 31 is the least power of two that is not below it.\<close>

lemma nearest_loop_power:
  assumes "rc = 2 ^ i" and "i \<le> 31" and "value \<le> 2 ^ 31" and "i = 0 \<or> 2 ^ (i - 1) < unat value"
  shows "\<exists>j\<le>31. nearest_loop value rc = Some (2 ^ j) \<and> value \<le> 2 ^ j \<and> (j = 0 \<or> 2 ^ (j - 1) < unat value)"
  using assms
proof (induction "31 - i" arbitrary: i rc)
  case 0
  then have "\<not> rc < value" by (simp add: not_less)
  with 0 show ?case by (subst nearest_loop.simps) (auto simp: not_less)
next
  case (Suc d)
  show ?case
  proof (cases "rc < value")
    case False
    with Suc.prems show ?thesis by (subst nearest_loop.simps) (auto simp: not_less)
  next
    case True
    have i: "i < 31" using Suc.hyps(2) by simp
    have "unat rc = 2 ^ i" using Suc.prems(1) i by (simp add: unat_exp2)
    with True have "2 ^ i < unat value" by (simp add: word_less_nat_alt)
    moreover have "push_bit 1 rc = 2 ^ Suc i" using Suc.prems(1) by (simp add: push_bit_eq_mult)
    ultimately have "\<exists>j\<le>31. nearest_loop value (push_bit 1 rc) = Some (2 ^ j) \<and> value \<le> 2 ^ j \<and> (j = 0 \<or> 2 ^ (j - 1) < unat value)"
      using Suc.hyps(1) [of "Suc i" "push_bit 1 rc"] Suc.hyps(2) Suc.prems(3) i by simp
    with True show ?thesis by (subst nearest_loop.simps) simp
  qed
qed

lemma NearestPowerOfTwo_correct:
  assumes "value \<le> 2 ^ 31"
  shows "\<exists>j\<le>31. NearestPowerOfTwo value = Some (2 ^ j) \<and> value \<le> 2 ^ j \<and> (j = 0 \<or> 2 ^ (j - 1) < unat value)"
  unfolding NearestPowerOfTwo_def by (rule nearest_loop_power [where i = 0]) (use assms in simp_all)

text \<open>\<open>2 ^ j - 1\<close> as a mask.\<close>

lemma power_mask: "j < 32 \<Longrightarrow> unat (h AND (2 ^ j - 1 :: u32)) < 2 ^ j"
proof -
  assume "j < 32"
  have "h AND (2 ^ j - 1 :: u32) = take_bit j h" by (simp add: take_bit_eq_mask mask_eq_exp_minus_1)
  then show ?thesis by (simp add: unsigned_take_bit_eq)
qed

end
