(* ===== verification/Bitmap_hopscotch.thy ===== *)
theory Bitmap_hopscotch
  imports Hop_layout Hash_int
begin

text \<open>
  The class \<open>BitmapHopscotchHashMap\<close> (\<open>src/src/hopscotch/data_structures/BitmapHopscotchHashMap.h\<close>) with
  \<open>int\<close> keys and values and the hash function \<open>HASH_INT\<close>: hopscotch hashing with a bit map per home
  bucket, under locks that each protect a segment of the table. One thread runs at a time. The arrays
  are functions of the index; an index is at most \<open>_bucketMask + _INSERT_RANGE - 1\<close> and the array has
  \<open>_bucketMask + _INSERT_RANGE + 2\<close> buckets. A call that ends the process (\<open>exit(1)\<close>, the table cannot be
  resized) answers \<open>None\<close>.
\<close>

unbundle bit_operations_syntax

section \<open>State\<close>

definition HOP_RANGE_bm :: nat where
  "HOP_RANGE_bm = 32"

definition INSERT_RANGE_bm :: nat where
  "INSERT_RANGE_bm = 4 * 1024"

record bm_bucket =
  bm_info :: u32
  bm_hash :: u32
  bm_key :: u32
  bm_data :: u32

record bitmap_table =
  bm_shift :: u32
  bm_segment_mask :: u32
  bm_bucket_mask :: u32
  bm_stamp :: "nat \<Rightarrow> u32"
  bm_locked :: "nat \<Rightarrow> bool"
  bm_table :: "nat \<Rightarrow> bm_bucket"

definition bucket_bm :: bm_bucket where
  "bucket_bm = \<lparr>bm_info = 0, bm_hash = EMPTY_HASH, bm_key = EMPTY_KEY, bm_data = EMPTY_DATA\<rparr>"

text \<open>The constructor; \<open>None\<close> if \<open>NearestPowerOfTwo\<close> does not return.\<close>

definition create_bm :: "u32 \<Rightarrow> u32 \<Rightarrow> bitmap_table option" where
  "create_bm inCapacity concurrencyLevel =
     Option.bind (NearestPowerOfTwo concurrencyLevel) (\<lambda>level.
     Option.bind (NearestPowerOfTwo (concurrencyLevel div level)) (\<lambda>rest.
     Option.bind (CalcDivideShift (rest - 1)) (\<lambda>shift.
     Option.bind (NearestPowerOfTwo inCapacity) (\<lambda>adjInitCap.
       Some \<lparr>bm_shift = shift, bm_segment_mask = level - 1, bm_bucket_mask = adjInitCap - 1,
             bm_stamp = (\<lambda>_. 0), bm_locked = (\<lambda>_. False), bm_table = (\<lambda>_. bucket_bm)\<rparr>))))"

definition upd_bm :: "nat \<Rightarrow> (bm_bucket \<Rightarrow> bm_bucket) \<Rightarrow> bitmap_table \<Rightarrow> bitmap_table" where
  "upd_bm i f m = m\<lparr>bm_table := (bm_table m)(i := f (bm_table m i))\<rparr>"

definition lock_bm :: "nat \<Rightarrow> bitmap_table \<Rightarrow> bitmap_table outcome" where
  "lock_bm s m = (if bm_locked m s then Spins else Done (m\<lparr>bm_locked := (bm_locked m)(s := True)\<rparr>))"

definition unlock_bm :: "nat \<Rightarrow> bitmap_table \<Rightarrow> bitmap_table" where
  "unlock_bm s m = m\<lparr>bm_locked := (bm_locked m)(s := False)\<rparr>"

definition segment_bm :: "bitmap_table \<Rightarrow> u32 \<Rightarrow> nat" where
  "segment_bm m hash = unat (drop_bit (unat (bm_shift m)) hash AND bm_segment_mask m)"

definition start_bm :: "bitmap_table \<Rightarrow> u32 \<Rightarrow> nat" where
  "start_bm m hash = unat (hash AND bm_bucket_mask m)"

section \<open>Operations\<close>

definition holds_bm :: "bitmap_table \<Rightarrow> u32 \<Rightarrow> u32 \<Rightarrow> nat \<Rightarrow> bool" where
  "holds_bm m hash key i \<longleftrightarrow> hash = bm_hash (bm_table m i) \<and> key = bm_key (bm_table m i)"

text \<open>\<open>while (0 != hopInfo)\<close>: the lowest set bit is looked at and cleared.\<close>

function walk_bits :: "(nat \<Rightarrow> bool) \<Rightarrow> u32 \<Rightarrow> nat option" where
  "walk_bits P hopInfo =
     (case first_bit 32 hopInfo of
        None \<Rightarrow> None
      | Some i \<Rightarrow> if P i then Some i else walk_bits P (clear_bit i hopInfo))"
  by pat_completeness auto

lemma bits_shrink:
  assumes "first_bit 32 w = Some i"
  shows "card {j. j < 32 \<and> bit (clear_bit i w) j} < card {j. j < 32 \<and> bit w j}"
proof (rule psubset_card_mono)
  show "{j. j < 32 \<and> bit (clear_bit i w) j} \<subset> {j. j < 32 \<and> bit w j}"
    using first_bit_SomeD [OF assms] by auto
qed simp

termination walk_bits
  by (relation "measure (\<lambda>(P, w). card {i. i < 32 \<and> bit w i})") (auto dest: bits_shrink)

declare walk_bits.simps [simp del]

definition containsKey_bm :: "bitmap_table \<Rightarrow> u32 \<Rightarrow> bool" where
  "containsKey_bm m key =
     (let hash = calc_hash key; segment = segment_bm m hash; start = start_bm m hash;
          hopInfo = bm_info (bm_table m start)
      in if hopInfo = 0 then False
         else if hopInfo = 1 then holds_bm m hash key start
         else let startTimestamp = bm_stamp m segment
              in case walk_bits (\<lambda>i. holds_bm m hash key (start + i)) hopInfo of
                   Some i \<Rightarrow> True
                 | None \<Rightarrow>
                     if bm_stamp m segment = startTimestamp then False
                     else find (\<lambda>i. holds_bm m hash key (start + i)) [0..<HOP_RANGE_bm] \<noteq> None)"

text \<open>\<open>find_closer_free_backet\<close>: the free bucket (\<open>None\<close> for a null pointer) and the distance.\<close>

definition move_bm :: "nat \<Rightarrow> nat \<Rightarrow> nat \<Rightarrow> nat \<Rightarrow> nat \<Rightarrow> bitmap_table \<Rightarrow> bitmap_table" where
  "move_bm free segment move dist i m =
     (let new = move + i;
          m = upd_bm free (bm_data_update (\<lambda>_. bm_data (bm_table m new))) m;
          m = upd_bm free (bm_key_update (\<lambda>_. bm_key (bm_table m new))) m;
          m = upd_bm free (bm_hash_update (\<lambda>_. bm_hash (bm_table m new))) m;
          m = m\<lparr>bm_stamp := (bm_stamp m)(segment := bm_stamp m segment + 1)\<rparr>;
          m = upd_bm move (bm_info_update (mark_bit dist)) m
      in upd_bm move (bm_info_update (clear_bit i)) m)"

fun closer_loop_bm :: "nat \<Rightarrow> nat \<Rightarrow> nat \<Rightarrow> nat \<Rightarrow> u32 \<Rightarrow> bitmap_table \<Rightarrow> (nat option \<times> u32 \<times> bitmap_table) outcome" where
  "closer_loop_bm 0 move start_seg free distance m = Done (None, 0, m)"
| "closer_loop_bm (Suc n) move start_seg free distance m =
     (let start_hop_info = bm_info (bm_table m move)
      in case first_bit (Suc n) start_hop_info of
           None \<Rightarrow> closer_loop_bm n (Suc move) start_seg free distance m
         | Some i \<Rightarrow>
             (let segment = unat (drop_bit (unat (bm_shift m)) (of_nat move) AND bm_segment_mask m)
              in bind_outcome (if start_seg \<noteq> segment then lock_bm segment m else Done m)
                   (\<lambda>m. if start_hop_info = bm_info (bm_table m move)
                        then (let m = move_bm free segment move (Suc n) i m
                              in Done (Some (move + i), distance - of_nat (Suc n),
                                       if start_seg \<noteq> segment then unlock_bm segment m else m))
                        else closer_loop_bm n (Suc move) start_seg free distance
                               (if start_seg \<noteq> segment then unlock_bm segment m else m))))"

definition find_closer_free_backet :: "nat \<Rightarrow> nat \<Rightarrow> u32 \<Rightarrow> bitmap_table \<Rightarrow> (nat option \<times> u32 \<times> bitmap_table) outcome" where
  "find_closer_free_backet start_seg free distance m =
     closer_loop_bm (HOP_RANGE_bm - 1) (free - (HOP_RANGE_bm - 1)) start_seg free distance m"

text \<open>The entry goes into the free bucket, and its bit into the home bucket's map.\<close>

definition place_bm :: "nat \<Rightarrow> nat \<Rightarrow> u32 \<Rightarrow> u32 \<Rightarrow> u32 \<Rightarrow> bitmap_table \<Rightarrow> bitmap_table" where
  "place_bm start free distance key data m =
     (let m = upd_bm free (bm_data_update (\<lambda>_. data)) m;
          m = upd_bm free (bm_key_update (\<lambda>_. key)) m;
          m = upd_bm free (bm_hash_update (\<lambda>_. calc_hash key)) m
      in upd_bm start (bm_info_update (mark_bit (unat distance))) m)"

lemma closer_distance_bm:
  assumes "closer_loop_bm n move start_seg free distance m = Done (Some free', distance', m')" and "n \<le> 31" and "31 \<le> distance"
  shows "unat distance' < unat distance"
  using assms(1,2)
proof (induction n arbitrary: move m)
  case (Suc n)
  have "unat (distance - of_nat (Suc n)) < unat distance"
  proof -
    have n: "of_nat (Suc n) \<le> distance" "(of_nat (Suc n) :: u32) \<noteq> 0"
    proof -
      have u: "unat (of_nat (Suc n) :: u32) = Suc n" using Suc.prems(2) by (simp add: unat_of_nat take_bit_nat_eq_self del: of_nat_Suc)
      have "31 \<le> unat distance" using assms(3) by (simp add: word_le_nat_alt)
      with u Suc.prems(2) show "of_nat (Suc n) \<le> distance" by (simp add: word_le_nat_alt del: of_nat_Suc)
      show "(of_nat (Suc n) :: u32) \<noteq> 0" using u by (metis nat.distinct(1) unat_0)
    qed
    from n(1) have "unat (distance - of_nat (Suc n)) = unat distance - unat (of_nat (Suc n) :: u32)"
      using unat_sub [OF n(1)] by simp
    moreover have "0 < unat (of_nat (Suc n) :: u32)" using n(2) by (simp add: unat_gt_0 del: of_nat_Suc)
    moreover have "0 < unat distance" using assms(3) by (simp add: word_le_nat_alt)
    ultimately show ?thesis by linarith
  qed
  with Suc show ?case
    by (auto simp: Let_def bind_outcome_Done_iff simp del: of_nat_Suc split: option.splits if_splits)
qed simp

text \<open>The loop \<open>do ... while (0 != free_bucket)\<close>.\<close>

function place_loop_bm :: "nat \<Rightarrow> nat \<Rightarrow> nat \<Rightarrow> u32 \<Rightarrow> u32 \<Rightarrow> u32 \<Rightarrow> bitmap_table \<Rightarrow> (u32 option \<times> bitmap_table) outcome" where
  "place_loop_bm segment start free distance key data m =
     (if distance < of_nat HOP_RANGE_bm
      then Done (Some EMPTY_DATA, unlock_bm segment (place_bm start free distance key data m))
      else case find_closer_free_backet segment free distance m of
             Spins \<Rightarrow> Spins
           | Faults \<Rightarrow> Faults
           | Done (free', distance', m') \<Rightarrow>
               (case free' of
                  None \<Rightarrow> Done (None, m')
                | Some new \<Rightarrow> place_loop_bm segment start new distance' key data m'))"
  by pat_completeness auto
termination
proof (relation "measure (\<lambda>(segment, start, free, distance, key, data, m). unat distance)")
  fix segment start free distance key data m r free' d1 distance' m' new
  assume "\<not> distance < of_nat HOP_RANGE_bm" and "find_closer_free_backet segment free distance m = Done r"
    and "(free', d1) = r" and "(distance', m') = d1" and "free' = Some new"
  then have "closer_loop_bm 31 (free - 31) segment free distance m = Done (Some new, distance', m')" and "31 \<le> distance"
    by (auto simp: find_closer_free_backet_def HOP_RANGE_bm_def not_less word_le_nat_alt)
  from closer_distance_bm [OF this(1) _ this(2)]
  show "((segment, start, new, distance', key, data, m'), segment, start, free, distance, key, data, m)
      \<in> measure (\<lambda>(segment, start, free, distance, key, data, m). unat distance)" by simp
qed simp

declare place_loop_bm.simps [simp del]

function free_scan_bm :: "bitmap_table \<Rightarrow> nat \<Rightarrow> nat \<Rightarrow> nat option" where
  "free_scan_bm m start d =
     (if d < INSERT_RANGE_bm then (if EMPTY_HASH = bm_hash (bm_table m (start + d)) then Some d else free_scan_bm m start (Suc d))
      else None)"
  by pat_completeness auto
termination
  by (relation "measure (\<lambda>(m, start, d). INSERT_RANGE_bm - d)") auto

declare free_scan_bm.simps [simp del]

definition putIfAbsent_bm :: "bitmap_table \<Rightarrow> u32 \<Rightarrow> u32 \<Rightarrow> (u32 option \<times> bitmap_table) outcome" where
  "putIfAbsent_bm m key data =
     (let hash = calc_hash key; segment = segment_bm m hash
      in bind_outcome (lock_bm segment m)
        (\<lambda>m. let start = start_bm m hash; hopInfo = bm_info (bm_table m start)
             in case walk_bits (\<lambda>i. holds_bm m hash key (start + i)) hopInfo of
                  Some i \<Rightarrow> Done (Some (bm_data (bm_table m (start + i))), unlock_bm segment m)
                | None \<Rightarrow>
                    (case free_scan_bm m start 0 of
                       None \<Rightarrow> Done (None, m)
                     | Some d \<Rightarrow>
                         place_loop_bm segment start (start + d) (of_nat d) key data
                           (upd_bm (start + d) (bm_hash_update (\<lambda>_. BUSY_HASH)) m))))"

definition erase_bm :: "nat \<Rightarrow> nat \<Rightarrow> bitmap_table \<Rightarrow> u32 \<times> bitmap_table" where
  "erase_bm start i m =
     (let m = upd_bm start (bm_info_update (clear_bit i)) m;
          m = upd_bm (start + i) (bm_hash_update (\<lambda>_. EMPTY_HASH)) m;
          m = upd_bm (start + i) (bm_key_update (\<lambda>_. EMPTY_KEY)) m;
          rc = bm_data (bm_table m (start + i))
      in (rc, upd_bm (start + i) (bm_data_update (\<lambda>_. EMPTY_DATA)) m))"

definition remove_bm :: "bitmap_table \<Rightarrow> u32 \<Rightarrow> (u32 \<times> bitmap_table) outcome" where
  "remove_bm m key =
     (let hash = calc_hash key; segment = segment_bm m hash
      in bind_outcome (lock_bm segment m)
        (\<lambda>m. let start = start_bm m hash; hopInfo = bm_info (bm_table m start)
             in if hopInfo = 0 then Done (0, unlock_bm segment m)
                else if hopInfo = 1 then
                  (if holds_bm m hash key start then (let (rc, m) = erase_bm start 0 m in Done (rc, unlock_bm segment m))
                   else Done (0, unlock_bm segment m))
                else case walk_bits (\<lambda>i. holds_bm m hash key (start + i)) hopInfo of
                       Some i \<Rightarrow> (let (rc, m) = erase_bm start i m in Done (rc, unlock_bm segment m))
                     | None \<Rightarrow> Done (EMPTY_DATA, unlock_bm segment m)))"

fun size_loop_bm :: "bitmap_table \<Rightarrow> nat \<Rightarrow> u32" where
  "size_loop_bm m 0 = 0"
| "size_loop_bm m (Suc n) =
     size_loop_bm m n + (if EMPTY_HASH \<noteq> bm_hash (bm_table m n) then 1 else 0)"

definition size_bm :: "bitmap_table \<Rightarrow> u32" where
  "size_bm m = size_loop_bm m (unat (bm_bucket_mask m + of_nat INSERT_RANGE_bm))"

section \<open>The table as a layout\<close>

definition home_bm :: "u32 \<Rightarrow> u32 \<Rightarrow> nat" where
  "home_bm bm k = unat (calc_hash k AND bm)"

definition kc_bm :: "bitmap_table \<Rightarrow> nat \<Rightarrow> u32 option" where
  "kc_bm m c = (if bm_hash (bm_table m c) = EMPTY_HASH then None else Some (bm_key (bm_table m c)))"

definition vc_bm :: "bitmap_table \<Rightarrow> nat \<Rightarrow> u32" where
  "vc_bm m c = bm_data (bm_table m c)"

definition info_bm :: "bitmap_table \<Rightarrow> nat \<Rightarrow> nat \<Rightarrow> bool" where
  "info_bm m b i = bit (bm_info (bm_table m b)) i"

definition hashed_bm :: "bitmap_table \<Rightarrow> nat \<Rightarrow> bool" where
  "hashed_bm m c \<longleftrightarrow> bm_hash (bm_table m c) = EMPTY_HASH \<or> bm_hash (bm_table m c) = calc_hash (bm_key (bm_table m c))"

interpretation bl: hop_layout "home_bm bm" HOP_RANGE_bm for bm .

definition lay_bm :: "bitmap_table \<Rightarrow> bool" where
  "lay_bm m \<longleftrightarrow> bl.layout (bm_bucket_mask m) (info_bm m) (kc_bm m) \<and> (\<forall>c. hashed_bm m c)"

definition inv_bm :: "bitmap_table \<Rightarrow> bool" where
  "inv_bm m \<longleftrightarrow> lay_bm m \<and> (\<forall>s. \<not> bm_locked m s)"

definition map_bm :: "bitmap_table \<Rightarrow> u32 \<Rightarrow> u32 option" where
  "map_bm m = bl.layout_map (bm_bucket_mask m) (kc_bm m) (vc_bm m)"

lemmas view_bm = kc_bm_def vc_bm_def info_bm_def hashed_bm_def

lemma walk_bits_find: "walk_bits P w = find (\<lambda>i. bit w i \<and> P i) [0..<32]"
proof (induction P w rule: walk_bits.induct)
  case (1 P w)
  show ?case
  proof (cases "first_bit 32 w")
    case None
    then have "\<not> bit w i" if "i < 32" for i using that by (auto simp: first_bit_def find_upt_None)
    then have "find (\<lambda>i. bit w i \<and> P i) [0..<32] = None" unfolding find_upt_None by blast
    with None show ?thesis by (subst walk_bits.simps) simp
  next
    case (Some i)
    have i: "bit w i" "i < 32" using first_bit_SomeD [OF Some] by auto
    have low: "\<not> bit w j" if "j < i" for j using Some that unfolding first_bit_def by (rule find_upt_SomeD(3))
    show ?thesis
    proof (cases "P i")
      case True
      have "find (\<lambda>i. bit w i \<and> P i) [0..<32] = Some i"
        by (rule find_upt_SomeI) (use i True low in auto)
      with Some True show ?thesis by (subst walk_bits.simps) simp
    next
      case False
      have "find (\<lambda>j. bit (clear_bit i w) j \<and> P j) [0..<32] = find (\<lambda>i. bit w i \<and> P i) [0..<32]"
        by (rule find_cong) (use False in auto)
      with 1 [OF Some False] Some False show ?thesis by (subst walk_bits.simps) simp
    qed
  qed
qed

lemma lay_bmD:
  assumes "lay_bm m"
  shows "bl.layout (bm_bucket_mask m) (info_bm m) (kc_bm m)" and "hashed_bm m c"
  using assms by (simp_all add: lay_bm_def)

text \<open>A key that can be stored: its hash value is not the mark of an empty bucket.\<close>

definition storable :: "u32 \<Rightarrow> bool" where
  "storable k \<longleftrightarrow> calc_hash k \<noteq> EMPTY_HASH"

lemma start_home: "start_bm m (calc_hash k) = home_bm (bm_bucket_mask m) k"
  by (simp add: start_bm_def home_bm_def)

lemma holds_bm_iff:
  assumes "lay_bm m" and "storable k"
  shows "holds_bm m (calc_hash k) k c \<longleftrightarrow> kc_bm m c = Some k"
  using lay_bmD(2) [OF assms(1), of c] assms(2) by (auto simp: holds_bm_def kc_bm_def hashed_bm_def storable_def)

lemma map_bm_None: "lay_bm m \<Longrightarrow> map_bm m k = None \<longleftrightarrow> (\<forall>c. kc_bm m c \<noteq> Some k)"
  unfolding map_bm_def by (rule bl.layout_map_None [OF lay_bmD(1)])

text \<open>The walk over the bits of the home bucket finds the key.\<close>

lemma walk_bm:
  assumes lay: "lay_bm m" and k: "storable k"
  defines "w \<equiv> walk_bits (\<lambda>i. holds_bm m (calc_hash k) k (start_bm m (calc_hash k) + i)) (bm_info (bm_table m (start_bm m (calc_hash k))))"
  shows "w = Some i \<longleftrightarrow> kc_bm m (home_bm (bm_bucket_mask m) k + i) = Some k" and "w = None \<longleftrightarrow> map_bm m k = None"
proof -
  have "w = find (\<lambda>i. info_bm m (home_bm (bm_bucket_mask m) k) i \<and> kc_bm m (home_bm (bm_bucket_mask m) k + i) = Some k) [0..<HOP_RANGE_bm]"
    by (simp add: w_def walk_bits_find holds_bm_iff [OF lay k] start_home info_bm_def HOP_RANGE_bm_def)
  then show "w = Some i \<longleftrightarrow> kc_bm m (home_bm (bm_bucket_mask m) k + i) = Some k" "w = None \<longleftrightarrow> map_bm m k = None"
    using bl.layout_find [OF lay_bmD(1) [OF lay], of k i] bl.layout_find_None [OF lay_bmD(1) [OF lay], of k] map_bm_None [OF lay, of k]
    by simp_all
qed

text \<open>The two short cuts of \<open>containsKey\<close> and \<open>remove\<close> agree with the walk.\<close>

lemma bit_word_1: "bit (1 :: u32) i \<longleftrightarrow> i = 0"
  by (simp add: bit_simps)

lemma walk_zero: "walk_bits P 0 = None"
  by (simp add: walk_bits_find find_upt_None)

lemma walk_one: "walk_bits P 1 = (if P 0 then Some 0 else None)"
proof (cases "P 0")
  case True
  have "find (\<lambda>i. bit (1 :: u32) i \<and> P i) [0..<32] = Some 0"
    by (rule find_upt_SomeI) (use True in \<open>simp_all add: bit_word_1\<close>)
  with True show ?thesis by (simp add: walk_bits_find)
next
  case False
  have "find (\<lambda>i. bit (1 :: u32) i \<and> P i) [0..<32] = None"
    unfolding find_upt_None bit_word_1 using False by blast
  with False show ?thesis by (simp add: walk_bits_find)
qed

lemma containsKey_walk:
  "containsKey_bm m k \<longleftrightarrow>
    walk_bits (\<lambda>i. holds_bm m (calc_hash k) k (start_bm m (calc_hash k) + i)) (bm_info (bm_table m (start_bm m (calc_hash k)))) \<noteq> None"
proof -
  let ?info = "bm_info (bm_table m (start_bm m (calc_hash k)))"
  consider "?info = 0" | "?info = 1" | "?info \<noteq> 0" "?info \<noteq> 1" by blast
  then show ?thesis
    by cases (simp_all add: containsKey_bm_def Let_def walk_zero walk_one split: option.splits)
qed

lemma containsKey_law: "lay_bm m \<Longrightarrow> storable k \<Longrightarrow> containsKey_bm m k \<longleftrightarrow> map_bm m k \<noteq> None"
  using walk_bm(2) [of m k] by (simp add: containsKey_walk)

section \<open>Insertion and removal\<close>

lemma upd_bm_header [simp]:
  "bm_bucket_mask (upd_bm i f m) = bm_bucket_mask m" "bm_locked (upd_bm i f m) = bm_locked m"
  "bm_bucket_mask (unlock_bm s m) = bm_bucket_mask m" "bm_table (unlock_bm s m) = bm_table m"
  "bm_locked (unlock_bm s m) = (bm_locked m)(s := False)"
  by (simp_all add: upd_bm_def unlock_bm_def)

lemma lay_map_table:
  assumes "bm_table m' = bm_table m" and "bm_bucket_mask m' = bm_bucket_mask m"
  shows "lay_bm m' = lay_bm m" and "map_bm m' = map_bm m" and "kc_bm m' = kc_bm m"
proof -
  have "kc_bm m' = kc_bm m" "vc_bm m' = vc_bm m" "info_bm m' = info_bm m" "hashed_bm m' = hashed_bm m"
    using assms(1) by (simp_all add: view_bm fun_eq_iff)
  then show "lay_bm m' = lay_bm m" "map_bm m' = map_bm m" "kc_bm m' = kc_bm m"
    using assms(2) by (simp_all add: lay_bm_def map_bm_def)
qed

lemma lock_bm_free: "\<not> bm_locked m s \<Longrightarrow> \<exists>m'. lock_bm s m = Done m' \<and> bm_table m' = bm_table m \<and>
    bm_bucket_mask m' = bm_bucket_mask m \<and> bm_locked m' = (bm_locked m)(s := True) \<and> segment_bm m' = segment_bm m"
  by (auto simp: lock_bm_def segment_bm_def fun_eq_iff)

lemma inv_unlock_bm:
  assumes "lay_bm m" and "bm_locked m = (\<lambda>_. False)(s := True)"
  shows "inv_bm (unlock_bm s m)"
  using assms lay_map_table(1) [of "unlock_bm s m" m] by (simp add: inv_bm_def)

lemma free_scan_first:
  assumes "free_scan_bm m start d = r"
  shows "case r of None \<Rightarrow> \<forall>j. d \<le> j \<longrightarrow> j < INSERT_RANGE_bm \<longrightarrow> kc_bm m (start + j) \<noteq> None
    | Some e \<Rightarrow> d \<le> e \<and> e < INSERT_RANGE_bm \<and> kc_bm m (start + e) = None \<and> (\<forall>j. d \<le> j \<longrightarrow> j < e \<longrightarrow> kc_bm m (start + j) \<noteq> None)"
  using assms
proof (induction m start d arbitrary: r rule: free_scan_bm.induct)
  case (1 m start d)
  consider (full) "\<not> d < INSERT_RANGE_bm" | (free) "d < INSERT_RANGE_bm" "bm_hash (bm_table m (start + d)) = EMPTY_HASH"
    | (next_one) "d < INSERT_RANGE_bm" "bm_hash (bm_table m (start + d)) \<noteq> EMPTY_HASH" by blast
  then show ?case
  proof cases
    case full
    then show ?thesis using 1(2) by (subst (asm) free_scan_bm.simps) auto
  next
    case free
    then show ?thesis using 1(2) by (subst (asm) free_scan_bm.simps) (auto simp: kc_bm_def)
  next
    case next_one
    then have "free_scan_bm m start d = free_scan_bm m start (Suc d)" by (subst free_scan_bm.simps) (simp add: eq_commute)
    with 1(2) have r: "free_scan_bm m start (Suc d) = r" by simp
    have "kc_bm m (start + d) \<noteq> None" using next_one by (simp add: kc_bm_def)
    moreover have "d \<le> j \<longleftrightarrow> j = d \<or> Suc d \<le> j" for j by auto
    ultimately show ?thesis using 1(1) [OF next_one(1) _ r] next_one by (auto split: option.splits)
  qed
qed

lemma place_bm_law:
  fixes data :: u32
  assumes lay: "lay_bm m" and k: "storable k" "map_bm m k = None" and free: "kc_bm m (home_bm (bm_bucket_mask m) k + d) = None"
    and d: "d < HOP_RANGE_bm"
  defines "m' \<equiv> place_bm (home_bm (bm_bucket_mask m) k) (home_bm (bm_bucket_mask m) k + d) (of_nat d) k data m"
  shows "lay_bm m'" and "map_bm m' = (map_bm m)(k \<mapsto> data)" and "bm_locked m' = bm_locked m"
    and "kc_bm m' = (kc_bm m)(home_bm (bm_bucket_mask m) k + d \<mapsto> k)" and "bm_bucket_mask m' = bm_bucket_mask m"
proof -
  let ?s = "home_bm (bm_bucket_mask m) k"
  have u: "unat (of_nat d :: u32) = d" using d by (simp add: HOP_RANGE_bm_def unat_of_nat take_bit_nat_eq_self)
  have d32: "d < 32" using d by (simp add: HOP_RANGE_bm_def)
  have head: "bm_bucket_mask m' = bm_bucket_mask m" "bm_locked m' = bm_locked m" by (simp_all add: m'_def place_bm_def Let_def)
  have view: "kc_bm m' = (kc_bm m)(?s + d \<mapsto> k)" "vc_bm m' = (vc_bm m)(?s + d := data)"
    "info_bm m' = bl.set_info ?s d True (info_bm m)"
    using k(1) d32 by (auto simp: m'_def place_bm_def Let_def upd_bm_def view_bm fun_eq_iff bl.set_info_apply u storable_def)
  have hash: "hashed_bm m' c" for c
    using lay_bmD(2) [OF lay, of c] by (auto simp: m'_def place_bm_def Let_def upd_bm_def hashed_bm_def)
  have new: "\<forall>c. kc_bm m c \<noteq> Some k" using map_bm_None [OF lay] k(2) by blast
  note ins = bl.layout_insert [where k = k, OF lay_bmD(1) [OF lay] free _ _ new]
  show "lay_bm m'" using ins(1) d hash by (simp add: lay_bm_def view head)
  show "map_bm m' = (map_bm m)(k \<mapsto> data)" using ins(2) [of "vc_bm m" data] d by (simp add: map_bm_def view head)
  show "bm_locked m' = bm_locked m" "bm_bucket_mask m' = bm_bucket_mask m" by (rule head)+
  show "kc_bm m' = (kc_bm m)(?s + d \<mapsto> k)" by (rule view)
qed

lemma place_busy: "place_bm start free d k v (upd_bm free (bm_hash_update (\<lambda>_. BUSY_HASH)) m) = place_bm start free d k v m"
  by (simp add: place_bm_def Let_def upd_bm_def fun_eq_iff)

lemma putIfAbsent_law:
  assumes inv: "inv_bm m" and k: "storable k"
    and room: "\<exists>d<HOP_RANGE_bm. kc_bm m (home_bm (bm_bucket_mask m) k + d) = None"
  shows "\<exists>m'. putIfAbsent_bm m k v = Done (Some (case map_bm m k of None \<Rightarrow> EMPTY_DATA | Some w \<Rightarrow> w), m') \<and> inv_bm m' \<and>
    map_bm m' = (if map_bm m k = None then (map_bm m)(k \<mapsto> v) else map_bm m) \<and> bm_bucket_mask m' = bm_bucket_mask m \<and>
    (map_bm m k = None \<longrightarrow> (\<exists>d. kc_bm m (home_bm (bm_bucket_mask m) k + d) = None \<and>
       (\<forall>j<d. kc_bm m (home_bm (bm_bucket_mask m) k + j) \<noteq> None) \<and>
       kc_bm m' = (kc_bm m)(home_bm (bm_bucket_mask m) k + d \<mapsto> k)))"
proof -
  let ?g = "segment_bm m (calc_hash k)" and ?s = "home_bm (bm_bucket_mask m) k"
  from inv lock_bm_free [of m ?g] obtain m1 where m1: "lock_bm ?g m = Done m1" "bm_table m1 = bm_table m"
    "bm_bucket_mask m1 = bm_bucket_mask m" "bm_locked m1 = (\<lambda>_. False)(?g := True)"
    by (auto simp: inv_bm_def fun_eq_iff)
  note t = lay_map_table [OF m1(2,3)]
  have lay: "lay_bm m1" using inv t by (simp add: inv_bm_def)
  note w = walk_bm [OF lay k]
  have s: "start_bm m1 (calc_hash k) = ?s" by (simp add: start_home m1)
  show ?thesis
  proof (cases "map_bm m k")
    case (Some x)
    then obtain i where i: "walk_bits (\<lambda>i. holds_bm m1 (calc_hash k) k (?s + i)) (bm_info (bm_table m1 ?s)) = Some i"
      using w(2) t by (fastforce simp: s)
    with w(1) have c: "kc_bm m1 (?s + i) = Some k" by (simp add: s m1)
    from bl.layout_map_cell [OF lay_bmD(1) [OF lay] c, of "vc_bm m1"] Some t(2)
    have x: "bm_data (bm_table m1 (?s + i)) = x" by (simp add: map_bm_def vc_bm_def m1)
    have "putIfAbsent_bm m k v = Done (Some x, unlock_bm ?g m1)"
      by (simp add: putIfAbsent_bm_def m1(1) s i x)
    with Some inv_unlock_bm [OF lay m1(4)] lay_map_table(2) [of "unlock_bm ?g m1" m1] t show ?thesis by (simp add: m1(3))
  next
    case None
    then have n: "walk_bits (\<lambda>i. holds_bm m1 (calc_hash k) k (?s + i)) (bm_info (bm_table m1 ?s)) = None"
      using w(2) t by (simp add: s)
    obtain d where d: "free_scan_bm m1 ?s 0 = Some d" "d < HOP_RANGE_bm" "kc_bm m1 (?s + d) = None"
      "\<forall>j<d. kc_bm m1 (?s + j) \<noteq> None"
    proof (cases "free_scan_bm m1 ?s 0")
      case None
      note full = free_scan_first [OF this, simplified]
      from room obtain j where j: "j < HOP_RANGE_bm" "kc_bm m1 (?s + j) = None" using t(3) by auto
      then have "j < INSERT_RANGE_bm" by (simp add: HOP_RANGE_bm_def INSERT_RANGE_bm_def)
      with full j(2) show thesis by (metis option.distinct(1))
    next
      case (Some d)
      note f = free_scan_first [OF this, simplified]
      from room obtain j where j: "j < HOP_RANGE_bm" "kc_bm m1 (?s + j) = None" using t(3) by auto
      have "d \<le> j"
      proof (rule ccontr)
        assume "\<not> d \<le> j"
        with f j(2) show False by (metis not_le option.distinct(1))
      qed
      with j(1) have "d < HOP_RANGE_bm" by simp
      with f show thesis by (intro that [OF Some]) simp_all
    qed
    have lt: "(of_nat d :: u32) < of_nat HOP_RANGE_bm"
      using d(2) by (simp add: HOP_RANGE_bm_def word_less_nat_alt unat_of_nat take_bit_nat_eq_self)
    let ?m = "place_bm ?s (?s + d) (of_nat d) k v m1"
    have put: "putIfAbsent_bm m k v = Done (Some EMPTY_DATA, unlock_bm ?g ?m)"
      using lt by (simp add: putIfAbsent_bm_def m1(1) s n d(1) place_loop_bm.simps place_busy Let_def)
    have "map_bm m1 k = None" using None t by simp
    note p = place_bm_law [OF lay k this d(3) [folded m1(3)] d(2), of v, unfolded m1(3)]
    from inv_unlock_bm [OF p(1)] p(3) m1(4) have "inv_bm (unlock_bm ?g ?m)" by simp
    moreover have "map_bm (unlock_bm ?g ?m) = map_bm ?m" "kc_bm (unlock_bm ?g ?m) = kc_bm ?m"
      by (rule lay_map_table; simp)+
    ultimately show ?thesis using put None p t d(3,4) m1(3) by (intro exI [of _ "unlock_bm ?g ?m"]) auto
  qed
qed

lemma erase_bm_law:
  assumes lay: "lay_bm m" and c: "kc_bm m (home_bm (bm_bucket_mask m) k + i) = Some k" and i: "i < 32"
  shows "\<exists>m'. erase_bm (home_bm (bm_bucket_mask m) k) i m = (the (map_bm m k), m') \<and> lay_bm m' \<and>
    map_bm m' = (map_bm m)(k := None) \<and> bm_locked m' = bm_locked m \<and> bm_bucket_mask m' = bm_bucket_mask m"
proof -
  let ?s = "home_bm (bm_bucket_mask m) k"
  define m' where "m' = snd (erase_bm ?s i m)"
  have rc: "fst (erase_bm ?s i m) = vc_bm m (?s + i)" by (simp add: erase_bm_def Let_def upd_bm_def vc_bm_def)
  have head: "bm_bucket_mask m' = bm_bucket_mask m" "bm_locked m' = bm_locked m" by (simp_all add: m'_def erase_bm_def Let_def)
  have view: "kc_bm m' = (kc_bm m)(?s + i := None)" "vc_bm m' = (vc_bm m)(?s + i := EMPTY_DATA)"
    "info_bm m' = bl.set_info ?s i False (info_bm m)"
    by (auto simp: m'_def erase_bm_def Let_def upd_bm_def view_bm fun_eq_iff bl.set_info_apply)
  have hash: "hashed_bm m' c" for c
    using lay_bmD(2) [OF lay, of c] by (auto simp: m'_def erase_bm_def Let_def upd_bm_def hashed_bm_def)
  note del = bl.layout_delete [OF lay_bmD(1) [OF lay] c]
  have "lay_bm m'" using del(1) hash by (simp add: lay_bm_def view head)
  moreover have "map_bm m' = (map_bm m)(k := None)" using del(2) [of "vc_bm m" EMPTY_DATA] by (simp add: map_bm_def view head)
  moreover have "the (map_bm m k) = vc_bm m (?s + i)"
    using bl.layout_map_cell [OF lay_bmD(1) [OF lay] c, of "vc_bm m"] by (simp add: map_bm_def)
  ultimately show ?thesis using head rc by (intro exI [of _ m']) (simp add: m'_def prod_eq_iff)
qed

lemma remove_bm_walk:
  assumes "lock_bm (segment_bm m (calc_hash k)) m = Done m1"
  shows "remove_bm m k =
    (case walk_bits (\<lambda>i. holds_bm m1 (calc_hash k) k (start_bm m1 (calc_hash k) + i)) (bm_info (bm_table m1 (start_bm m1 (calc_hash k)))) of
       Some i \<Rightarrow> (let (rc, m2) = erase_bm (start_bm m1 (calc_hash k)) i m1 in Done (rc, unlock_bm (segment_bm m (calc_hash k)) m2))
     | None \<Rightarrow> Done (EMPTY_DATA, unlock_bm (segment_bm m (calc_hash k)) m1))"
proof -
  let ?info = "bm_info (bm_table m1 (start_bm m1 (calc_hash k)))"
  consider "?info = 0" | "?info = 1" | "?info \<noteq> 0" "?info \<noteq> 1" by blast
  then show ?thesis
    by cases (simp_all add: remove_bm_def Let_def assms walk_zero walk_one EMPTY_DATA_def)
qed

lemma remove_bm_law:
  assumes inv: "inv_bm m" and k: "storable k"
  shows "\<exists>m'. remove_bm m k = Done (case map_bm m k of None \<Rightarrow> EMPTY_DATA | Some w \<Rightarrow> w, m') \<and> inv_bm m' \<and>
    map_bm m' = (map_bm m)(k := None)"
proof -
  let ?g = "segment_bm m (calc_hash k)" and ?s = "home_bm (bm_bucket_mask m) k"
  from inv lock_bm_free [of m ?g] obtain m1 where m1: "lock_bm ?g m = Done m1" "bm_table m1 = bm_table m"
    "bm_bucket_mask m1 = bm_bucket_mask m" "bm_locked m1 = (\<lambda>_. False)(?g := True)"
    by (auto simp: inv_bm_def fun_eq_iff)
  note t = lay_map_table [OF m1(2,3)]
  have lay: "lay_bm m1" using inv t by (simp add: inv_bm_def)
  note w = walk_bm [OF lay k]
  have s: "start_bm m1 (calc_hash k) = ?s" by (simp add: start_home m1)
  let ?w = "walk_bits (\<lambda>i. holds_bm m1 (calc_hash k) k (?s + i)) (bm_info (bm_table m1 ?s))"
  show ?thesis
  proof (cases ?w)
    case None
    then have n: "map_bm m k = None" using w(2) t by (simp add: s)
    have "remove_bm m k = Done (EMPTY_DATA, unlock_bm ?g m1)" using None by (simp add: remove_bm_walk [OF m1(1)] s)
    with n inv_unlock_bm [OF lay m1(4)] lay_map_table(2) [of "unlock_bm ?g m1" m1] t show ?thesis by auto
  next
    case (Some i)
    with w(1) have c: "kc_bm m1 (?s + i) = Some k" by (simp add: s m1)
    then have some: "map_bm m1 k \<noteq> None" using map_bm_None [OF lay] by blast
    have "i < 32" using Some find_upt_SomeD(2) unfolding walk_bits_find by blast
    from erase_bm_law [OF lay, of k i] c this m1(3) obtain m' where m': "erase_bm ?s i m1 = (the (map_bm m1 k), m')"
      "lay_bm m'" "map_bm m' = (map_bm m1)(k := None)" "bm_locked m' = bm_locked m1" by auto
    have "remove_bm m k = Done (the (map_bm m1 k), unlock_bm ?g m')"
      using Some m'(1) by (simp add: remove_bm_walk [OF m1(1)] s)
    moreover have "inv_bm (unlock_bm ?g m')" using inv_unlock_bm [OF m'(2)] m'(4) m1(4) by simp
    moreover have "map_bm (unlock_bm ?g m') = map_bm m'" by (rule lay_map_table(2)) simp_all
    ultimately show ?thesis using some m'(3) t(2) by auto
  qed
qed

section \<open>Runs\<close>

lemma create_bm_empty:
  assumes "create_bm inCapacity concurrencyLevel = Some m"
  shows "inv_bm m" and "map_bm m = Map.empty" and "kc_bm m = Map.empty"
proof -
  from assms have m: "bm_table m = (\<lambda>_. bucket_bm)" "bm_locked m = (\<lambda>_. False)"
    by (auto simp: create_bm_def Option.bind_eq_Some_conv)
  then have v: "kc_bm m = Map.empty" "info_bm m = (\<lambda>_ _. False)"
    by (simp_all add: view_bm bucket_bm_def fun_eq_iff)
  show "kc_bm m = Map.empty" by (rule v)
  show "inv_bm m" using m by (auto simp: inv_bm_def lay_bm_def v bl.layout_def hashed_bm_def bucket_bm_def)
  then have "map_bm m k = None" for k using map_bm_None [of m k] by (auto simp: inv_bm_def v)
  then show "map_bm m = Map.empty" by auto
qed

fun put_all_bm :: "(u32 \<times> u32) list \<Rightarrow> bitmap_table \<Rightarrow> (u32 option list \<times> bitmap_table) outcome" where
  "put_all_bm [] m = Done ([], m)"
| "put_all_bm ((k, v) # es) m =
     bind_outcome (putIfAbsent_bm m k v)
       (\<lambda>(r, m). bind_outcome (put_all_bm es m) (\<lambda>(rs, m). Done (r # rs, m)))"

text \<open>Keys that fill the table from the left, each not before its home and near it.\<close>

definition filled :: "u32 list \<Rightarrow> nat \<Rightarrow> nat \<Rightarrow> u32 option" where
  "filled ks n c = (if c < n then Some (ks ! c) else None)"

lemma put_all_fill:
  assumes "inv_bm m" and "kc_bm m = filled ks n" and "n \<le> length ks" and "distinct ks" and "bm_bucket_mask m = bm"
    and "\<And>j. j < length ks \<Longrightarrow> storable (ks ! j) \<and> home_bm bm (ks ! j) \<le> j \<and> j - home_bm bm (ks ! j) < HOP_RANGE_bm"
  shows "\<exists>m'. put_all_bm (map (\<lambda>k. (k, k)) (drop n ks)) m = Done (replicate (length ks - n) (Some EMPTY_DATA), m') \<and>
    inv_bm m' \<and> kc_bm m' = filled ks (length ks) \<and> bm_bucket_mask m' = bm"
  using assms(1-3,5)
proof (induction "length ks - n" arbitrary: n m)
  case 0
  then show ?case by simp
next
  case (Suc r)
  then have n: "n < length ks" by simp
  let ?k = "ks ! n" and ?s = "home_bm bm (ks ! n)"
  have k: "storable ?k" "?s \<le> n" "n - ?s < HOP_RANGE_bm" using assms(6) [OF n] by auto
  have new: "map_bm m ?k = None"
    using map_bm_None [of m ?k] Suc.prems(1) assms(4) n
    by (auto simp: inv_bm_def Suc.prems(2) filled_def nth_eq_iff_index_eq)
  have room: "kc_bm m (?s + (n - ?s)) = None" using k by (simp add: Suc.prems(2) filled_def)
  from putIfAbsent_law [OF Suc.prems(1) k(1), of ?k] new room k(3) Suc.prems(4) obtain m1 d where
    m1: "putIfAbsent_bm m ?k ?k = Done (Some EMPTY_DATA, m1)" "inv_bm m1" "bm_bucket_mask m1 = bm"
    and d: "kc_bm m (?s + d) = None" "\<forall>j<d. kc_bm m (?s + j) \<noteq> None" "kc_bm m1 = (kc_bm m)(?s + d \<mapsto> ?k)"
    by auto
  have "?s + d = n"
  proof -
    have "\<not> ?s + d < n" using d(1) by (simp add: Suc.prems(2) filled_def split: if_splits)
    moreover have "\<not> n - ?s < d" using d(2) room by blast
    ultimately show ?thesis using k(2) by simp
  qed
  with d(3) have "kc_bm m1 = filled ks (Suc n)" by (auto simp: Suc.prems(2) filled_def fun_eq_iff)
  moreover have "r = length ks - Suc n" "Suc n \<le> length ks" using Suc.hyps(2) n by simp_all
  ultimately obtain m' where
    m': "put_all_bm (map (\<lambda>k. (k, k)) (drop (Suc n) ks)) m1 = Done (replicate (length ks - Suc n) (Some EMPTY_DATA), m')"
      "inv_bm m'" "kc_bm m' = filled ks (length ks)" "bm_bucket_mask m' = bm" using Suc.hyps(1) [of "Suc n" m1] m1(2,3) by blast
  have "drop n ks = ?k # drop (Suc n) ks" using n by (rule Cons_nth_drop_Suc [symmetric])
  moreover have "length ks - n = Suc (length ks - Suc n)" using n by simp
  ultimately show ?case using m1(1) m' by simp
qed

text \<open>
  What \<open>find_closer_free_backet\<close> does to a new key: the 32 buckets from its home are taken and the next one is free, and the
  bucket after the home has its first entry \<open>i\<close> places after it. That entry moves away, and the new key
  goes into its bucket, \<open>i + 1\<close> after the home, but the distance is computed as 1.
\<close>

lemma closer_step_bm:
  assumes free: "\<And>g. g \<noteq> seg \<Longrightarrow> \<not> bm_locked m g" and b: "first_bit 31 (bm_info (bm_table m (s + 1))) = Some i"
  shows "\<exists>m2 g. find_closer_free_backet seg (s + 32) 32 m = Done (Some (s + 1 + i), 1, m2) \<and>
    bm_table m2 = bm_table (move_bm (s + 32) g (s + 1) 31 i m)"
proof -
  let ?g = "unat (drop_bit (unat (bm_shift m)) (of_nat (s + 1)) AND bm_segment_mask m)"
  have closer: "find_closer_free_backet seg (s + 32) 32 m = closer_loop_bm (Suc 30) (s + 1) seg (s + 32) 32 m"
    by (simp add: find_closer_free_backet_def HOP_RANGE_bm_def)
  have move: "bm_table (move_bm f g mv d i m') = bm_table (move_bm f g mv d i m)" if "bm_table m' = bm_table m" for f g mv d m'
    using that by (simp add: move_bm_def Let_def upd_bm_def)
  show ?thesis
  proof (cases "seg = ?g")
    case True
    then show ?thesis unfolding closer closer_loop_bm.simps(2) Let_def using b
      by (intro exI [of _ "move_bm (s + 32) ?g (s + 1) 31 i m"] exI [of _ ?g]) simp
  next
    case False
    with free obtain m1 where m1: "lock_bm ?g m = Done m1" "bm_table m1 = bm_table m" using lock_bm_free [of m ?g] by auto
    show ?thesis unfolding closer closer_loop_bm.simps(2) Let_def using b m1 False move [OF m1(2)]
      by (intro exI [of _ "unlock_bm ?g (move_bm (s + 32) ?g (s + 1) 31 i m1)"] exI [of _ ?g]) simp
  qed
qed

lemma lock_mask: "lock_bm s m = Done m' \<Longrightarrow> bm_bucket_mask m' = bm_bucket_mask m"
  by (auto simp: lock_bm_def split: if_splits)

lemma move_mask: "bm_bucket_mask (move_bm f g mv d i m) = bm_bucket_mask m"
  by (simp add: move_bm_def Let_def upd_bm_def)

lemma closer_mask:
  assumes "closer_loop_bm n mv seg f d m = Done (r, d', m')"
  shows "bm_bucket_mask m' = bm_bucket_mask m"
  using assms
proof (induction n arbitrary: mv m)
  case (Suc n)
  show ?case
  proof (cases "first_bit (Suc n) (bm_info (bm_table m mv))")
    case None
    with Suc show ?thesis by simp
  next
    case (Some i)
    with Suc.prems show ?thesis
      by (auto simp: Let_def bind_outcome_Done_iff move_mask dest!: lock_mask Suc.IH split: if_splits)
  qed
qed simp

lemma free_scan_at:
  assumes "\<forall>j<d. kc_bm m (start + j) \<noteq> None" and "kc_bm m (start + d) = None" and "d < INSERT_RANGE_bm"
  shows "free_scan_bm m start 0 = Some d"
proof (cases "free_scan_bm m start 0")
  case None
  from free_scan_first [OF this] assms(2,3) show ?thesis by auto
next
  case (Some e)
  note f = free_scan_first [OF Some, simplified]
  have "\<not> e < d" using f assms(1) by blast
  moreover have "\<not> d < e" using f assms(2) by (metis option.distinct(1))
  ultimately show ?thesis using Some by simp
qed

text \<open>Where the new entry and the moved entry end up.\<close>

lemma lost_entry:
  fixes k v :: u32
  assumes t: "bm_table m2 = bm_table (move_bm (s + 32) g (s + 1) 31 i m)" and i: "i < 31"
  defines "m' \<equiv> place_bm s (s + 1 + i) 1 k v m2"
  shows "bit (bm_info (bm_table m' s)) j \<longleftrightarrow> j = 1 \<or> bit (bm_info (bm_table m s)) j"
    and "c \<noteq> s + 32 \<Longrightarrow> c \<noteq> s + 1 + i \<Longrightarrow> holds_bm m' hash key c \<longleftrightarrow> holds_bm m hash key c"
  using i by (simp_all add: m'_def place_bm_def move_bm_def Let_def upd_bm_def t holds_bm_def)

lemma put_loses_key:
  assumes inv: "inv_bm m" and k: "storable k" "map_bm m k = None" and s: "s = home_bm (bm_bucket_mask m) k"
    and full: "\<forall>j<32. kc_bm m (s + j) \<noteq> None" "kc_bm m (s + 32) = None"
    and b: "first_bit 31 (bm_info (bm_table m (s + 1))) = Some i" "0 < i"
  shows "\<exists>m'. putIfAbsent_bm m k v = Done (Some EMPTY_DATA, m') \<and> \<not> containsKey_bm m' k"
proof -
  let ?g = "segment_bm m (calc_hash k)"
  from inv lock_bm_free [of m ?g] obtain m1 where m1: "lock_bm ?g m = Done m1" "bm_table m1 = bm_table m"
    "bm_bucket_mask m1 = bm_bucket_mask m" "bm_locked m1 = (\<lambda>_. False)(?g := True)"
    by (auto simp: inv_bm_def fun_eq_iff)
  note t = lay_map_table [OF m1(2,3)]
  have lay: "lay_bm m1" using inv t by (simp add: inv_bm_def)
  note w = walk_bm [OF lay k(1)]
  have st: "start_bm m1 (calc_hash k) = s" by (simp add: start_home m1 s)
  have n: "walk_bits (\<lambda>i. holds_bm m1 (calc_hash k) k (s + i)) (bm_info (bm_table m1 s)) = None"
    using w(2) t k(2) by (simp add: st)
  have scan: "free_scan_bm m1 s 0 = Some 32" by (rule free_scan_at) (use full t(3) in \<open>simp_all add: INSERT_RANGE_bm_def\<close>)
  let ?b = "upd_bm (s + 32) (bm_hash_update (\<lambda>_. BUSY_HASH)) m1"
  have "first_bit 31 (bm_info (bm_table ?b (s + 1))) = Some i" using b by (simp add: upd_bm_def m1)
  moreover have "\<not> bm_locked ?b g" if "g \<noteq> ?g" for g using that m1(4) by simp
  ultimately obtain m2 g where m2: "find_closer_free_backet ?g (s + 32) 32 ?b = Done (Some (s + 1 + i), 1, m2)"
    "bm_table m2 = bm_table (move_bm (s + 32) g (s + 1) 31 i ?b)" using closer_step_bm [of ?g ?b s i] by blast
  let ?m = "unlock_bm ?g (place_bm s (s + 1 + i) 1 k v m2)"
  have put: "putIfAbsent_bm m k v = Done (Some EMPTY_DATA, ?m)"
    by (simp add: putIfAbsent_bm_def m1(1) st n scan place_loop_bm.simps [of _ _ _ 32] place_loop_bm.simps [of _ _ _ 1]
        m2(1) [simplified] Let_def HOP_RANGE_bm_def)
  have i31: "i < 31" using first_bit_SomeD [OF b(1)] by simp
  note l = lost_entry [OF m2(2) i31, where k = k and v = v]
  have fin: "\<not> (bit (bm_info (bm_table ?m s)) j \<and> holds_bm ?m (calc_hash k) k (s + j))" if "j < 32" for j
  proof
    assume j: "bit (bm_info (bm_table ?m s)) j \<and> holds_bm ?m (calc_hash k) k (s + j)"
    then have bit: "j = 1 \<or> info_bm m s j" using l(1) [of j] by (simp add: upd_bm_def info_bm_def m1)
    have lm: "bl.layout (bm_bucket_mask m) (info_bm m) (kc_bm m)" using inv lay_bmD(1) by (simp add: inv_bm_def)
    have "info_bm m (s + 1) i" using first_bit_SomeD [OF b(1)] by (simp add: info_bm_def)
    then have other: "\<not> info_bm m s (1 + i)"
      using bl.layoutD(2) [OF lm, of "s + 1" i] bl.layoutD(2) [OF lm, of s "1 + i"] by auto
    have "j \<noteq> 1 + i" using bit b(2) other by auto
    with that have ne: "s + j \<noteq> s + 32" "s + j \<noteq> s + 1 + i" by simp_all
    have "holds_bm (place_bm s (s + 1 + i) 1 k v m2) (calc_hash k) k (s + j)" using j by (simp add: holds_bm_def)
    then have "holds_bm ?b (calc_hash k) k (s + j)" by (simp only: l(2) [OF ne])
    moreover have "holds_bm ?b (calc_hash k) k (s + j) = holds_bm m1 (calc_hash k) k (s + j)"
      using ne by (simp add: holds_bm_def upd_bm_def)
    ultimately have "holds_bm m1 (calc_hash k) k (s + j)" by blast
    with holds_bm_iff [OF lay k(1)] map_bm_None [OF lay, of k] k(2) t(2) show False by simp
  qed
  have "bm_bucket_mask m2 = bm_bucket_mask m" using closer_mask [OF m2(1) [unfolded find_closer_free_backet_def]] by (simp add: m1)
  then have "start_bm ?m (calc_hash k) = s" by (simp add: start_bm_def place_bm_def Let_def s home_bm_def)
  with fin have "\<not> containsKey_bm ?m k" unfolding containsKey_walk walk_bits_find by (simp add: find_upt_None)
  with put show ?thesis by blast
qed

text \<open>
  Thirty-two keys that fill the buckets 0 to 31, two of them and the last 29 with home 0 and the third
  with home 1 (in a table of 64 buckets).
\<close>

definition full_keys :: "u32 list" where
  "full_keys = [217, 221, 46, 243, 291, 299, 307, 397, 445, 615, 646, 813, 824, 828, 888, 909, 911, 943, 1055, 1113, 1115, 1160, 1289, 1348, 1444, 1455, 1510, 1765, 1789, 1882, 1883, 1967]"

lemma full_keys_hashes: "map calc_hash full_keys =
  [1978775552, 94423488, 628168641, 1594121600, 350904384, 2004041472, 640111808, 1632933504, 1463637440, 1381323520,
   864007552, 792875008, 2088264832, 917057472, 1656052864, 1715722240, 1359703936, 932185472, 1484968832, 304693568,
   996272320, 2106958720, 1750958208, 876730496, 1777474816, 1505398464, 217538048, 75832192, 1785638912, 1885040320,
   495099008, 19767232]"
  by (simp add: full_keys_def calc_hash_code mix_first_def mix_right_def mix_left_def mix_sum_def)

lemma full_keys_homes: "map (home_bm 63) full_keys = [0, 0, 1] @ replicate 29 0" "list_all storable full_keys"
proof -
  have "map (home_bm 63) full_keys = map (\<lambda>h. unat (h AND 63)) (map calc_hash full_keys)" by (simp add: home_bm_def)
  also have "\<dots> = [0, 0, 1] @ replicate 29 0" unfolding full_keys_hashes by code_simp
  finally show "map (home_bm 63) full_keys = [0, 0, 1] @ replicate 29 0" .
  have "list_all storable full_keys = list_all (\<lambda>h. h \<noteq> EMPTY_HASH) (map calc_hash full_keys)"
    by (simp add: list.pred_map comp_def storable_def [abs_def])
  also have "\<dots>" unfolding full_keys_hashes by code_simp
  finally show "list_all storable full_keys" by simp
qed

lemma full_keys_ok: "distinct full_keys" "length full_keys = 32"
  by code_simp+

lemma full_keys_home: "j < 32 \<Longrightarrow> storable (full_keys ! j) \<and> home_bm 63 (full_keys ! j) = (if j = 2 then 1 else 0)"
proof -
  assume j: "j < 32"
  have "home_bm 63 (full_keys ! j) = ([0, 0, 1] @ replicate 29 0) ! j"
    using arg_cong [OF full_keys_homes(1), of "\<lambda>xs. xs ! j"] j full_keys_ok(2) by (simp only: nth_map)
  moreover have "([0, 0, 1] @ replicate 29 0) ! j = (if j = 2 then 1 else (0 :: nat))"
    using j by (simp add: nth_append nth_Cons split: nat.split)
  moreover have "storable (full_keys ! j)" using full_keys_homes(2) j full_keys_ok(2) by (simp add: list_all_length)
  ultimately show ?thesis by simp
qed

section \<open>Properties\<close>

text \<open>
  C22. The bit-mapped hopscotch table implements the map as long as an insertion finds a free bucket among the 32 from the
  key's home on: for a key whose hash value is not 0, \<open>putIfAbsent\<close> answers the stored value or 0 and stores an absent key,
  \<open>remove\<close> answers the stored value or 0 and deletes the key, \<open>containsKey\<close> says whether the key is stored, and no
  call waits for ever.
\<close>

theorem bitmap_ops_correct:
  assumes "inv_bm m" and "storable k" and "\<exists>d<HOP_RANGE_bm. kc_bm m (home_bm (bm_bucket_mask m) k + d) = None"
  shows "(\<exists>m'. putIfAbsent_bm m k v = Done (Some (case map_bm m k of None \<Rightarrow> EMPTY_DATA | Some w \<Rightarrow> w), m') \<and> inv_bm m' \<and>
      map_bm m' = (if map_bm m k = None then (map_bm m)(k \<mapsto> v) else map_bm m)) \<and>
    (\<exists>m'. remove_bm m k = Done (case map_bm m k of None \<Rightarrow> EMPTY_DATA | Some w \<Rightarrow> w, m') \<and> inv_bm m' \<and>
      map_bm m' = (map_bm m)(k := None)) \<and>
    containsKey_bm m k = (map_bm m k \<noteq> None)"
  using putIfAbsent_law [OF assms, of v] remove_bm_law [OF assms(1,2)] containsKey_law [of m k] assms(1,2)
  by (auto simp: inv_bm_def)

text \<open>
  C23. An insertion that has to move another entry can lose its key. In a new table of 64 buckets 32 keys fill the
  buckets 0 to 31, one of them with home 1 in bucket 2. The insertion of key 2045 (home 0) moves that entry to bucket 32
  and takes its place; \<open>find_closer_free_backet\<close> computes the distance of bucket 2 as 1, so the bit
  of bucket 1 is set; \<open>putIfAbsent\<close> answers that the key was absent and is stored, and \<open>containsKey\<close> does not find it.
\<close>

theorem bitmap_put_loses_key:
  "\<exists>m m1 m2. create_bm 64 1 = Some m \<and>
     put_all_bm (map (\<lambda>k. (k, k)) full_keys) m = Done (replicate 32 (Some EMPTY_DATA), m1) \<and>
     putIfAbsent_bm m1 2045 9 = Done (Some EMPTY_DATA, m2) \<and> containsKey_bm m2 2045 = False"
proof -
  have "case create_bm 64 1 of None \<Rightarrow> False | Some m \<Rightarrow> bm_bucket_mask m = 63" by code_simp
  then obtain m where m: "create_bm 64 1 = Some m" "bm_bucket_mask m = 63" by (auto split: option.splits)
  note e = create_bm_empty [OF m(1)]
  have "kc_bm m = filled full_keys 0" by (auto simp: e filled_def)
  moreover have "storable (full_keys ! j) \<and> home_bm 63 (full_keys ! j) \<le> j \<and> j - home_bm 63 (full_keys ! j) < HOP_RANGE_bm"
    if "j < length full_keys" for j
    using that full_keys_home [of j] by (simp add: full_keys_ok(2) HOP_RANGE_bm_def)
  ultimately obtain m1 where
    m1: "put_all_bm (map (\<lambda>k. (k, k)) full_keys) m = Done (replicate 32 (Some EMPTY_DATA), m1)" "inv_bm m1"
      "kc_bm m1 = filled full_keys 32" "bm_bucket_mask m1 = 63"
    using put_all_fill [OF e(1) _ le0 full_keys_ok(1) m(2)] unfolding full_keys_ok(2) drop_0 diff_zero by blast
  have lay: "lay_bm m1" using m1(2) by (simp add: inv_bm_def)
  have k: "storable 2045" "home_bm 63 2045 = 0" "2045 \<notin> set full_keys" by code_simp+
  have "kc_bm m1 c \<noteq> Some 2045" for c using k(3) by (auto simp: m1(3) filled_def full_keys_ok(2) in_set_conv_nth)
  then have absent: "map_bm m1 2045 = None" using map_bm_None [OF lay] by blast
  have bits: "bit (bm_info (bm_table m1 1)) i \<longleftrightarrow> i = 1" if "i < 31" for i
    using bl.layout_info [OF lay_bmD(1) [OF lay], of 1 i] full_keys_home [of "1 + i"] that
    by (auto simp: m1(3,4) info_bm_def filled_def split: if_splits)
  have "first_bit 31 (bm_info (bm_table m1 (0 + 1))) = Some 1"
    unfolding first_bit_def by (rule find_upt_SomeI) (use bits in auto)
  from put_loses_key [OF m1(2) k(1) absent _ _ _ this, of 9] k(2) m1(3,4) m m1(1) show ?thesis
    by (auto simp: filled_def)
qed

text \<open>
  A key whose hash value is 0 is stored in a bucket that still counts as free: the next insertion with the
  same home overwrites it.
\<close>

theorem bitmap_put_overwrites_hash_0:
  "\<exists>m m1 m2. create_bm 64 1 = Some m \<and> putIfAbsent_bm m 1807961469 8 = Done (Some EMPTY_DATA, m1) \<and>
     containsKey_bm m1 1807961469 = True \<and> putIfAbsent_bm m1 217 9 = Done (Some EMPTY_DATA, m2) \<and>
     containsKey_bm m2 1807961469 = False"
proof -
  have "case create_bm 64 1 of None \<Rightarrow> False | Some m \<Rightarrow>
    (case putIfAbsent_bm m 1807961469 8 of Done (r, m1) \<Rightarrow> r = Some EMPTY_DATA \<and> containsKey_bm m1 1807961469 \<and>
      (case putIfAbsent_bm m1 217 9 of Done (r, m2) \<Rightarrow> r = Some EMPTY_DATA \<and> \<not> containsKey_bm m2 1807961469 | _ \<Rightarrow> False) | _ \<Rightarrow> False)"
    by code_simp
  then obtain m where m: "create_bm 64 1 = Some m" and run: "case putIfAbsent_bm m 1807961469 8 of
      Done (r, m1) \<Rightarrow> r = Some EMPTY_DATA \<and> containsKey_bm m1 1807961469 \<and>
      (case putIfAbsent_bm m1 217 9 of Done (r, m2) \<Rightarrow> r = Some EMPTY_DATA \<and> \<not> containsKey_bm m2 1807961469 | _ \<Rightarrow> False) | _ \<Rightarrow> False"
    by (cases "create_bm 64 1") simp_all
  from run obtain m1 where m1: "putIfAbsent_bm m 1807961469 8 = Done (Some EMPTY_DATA, m1)" "containsKey_bm m1 1807961469"
    and run2: "case putIfAbsent_bm m1 217 9 of Done (r, m2) \<Rightarrow> r = Some EMPTY_DATA \<and> \<not> containsKey_bm m2 1807961469 | _ \<Rightarrow> False"
    by (cases "putIfAbsent_bm m 1807961469 8") (simp_all split: prod.splits)
  from run2 obtain m2 where "putIfAbsent_bm m1 217 9 = Done (Some EMPTY_DATA, m2)" "\<not> containsKey_bm m2 1807961469"
    by (cases "putIfAbsent_bm m1 217 9") (simp_all split: prod.splits)
  with m m1 show ?thesis by blast
qed

theorem bitmap_ops_correct_witness:
  "\<exists>m m'. create_bm 64 1 = Some m \<and> putIfAbsent_bm m 217 9 = Done (Some EMPTY_DATA, m') \<and> map_bm m' 217 = Some 9"
proof -
  have "create_bm 64 1 \<noteq> None" by code_simp
  then obtain m where m: "create_bm 64 1 = Some m" by auto
  note e = create_bm_empty [OF m]
  have "storable 217" by code_simp
  moreover have "\<exists>d<HOP_RANGE_bm. kc_bm m (home_bm (bm_bucket_mask m) 217 + d) = None"
    by (rule exI [of _ 0]) (simp add: e HOP_RANGE_bm_def)
  ultimately show ?thesis using bitmap_ops_correct [OF e(1), of 217 9] m by (auto simp: e(2))
qed

end
