(* ===== verification/Spec2Isabelle.thy ===== *)
theory Spec2Isabelle
  imports Clht_lb_runs Clht_lb_packed Clht_lf_answers Clht_lf_map_rem_steps Clht_lb_no_next_map Clht_lb_lock_ins Clht_lb_linked_resize
    Clht_lf_res_run Locks Hopscotch_runs Bitmap_hopscotch
begin

text \<open>
  Verification of the concurrent hash tables of CHT-bench.

  \<^bold>\<open>The program.\<close> CHT-bench compares hash tables under many threads. Its own core is CLHT
  (\<open>src/src/clht\<close>): tables whose bucket is one cache line, with three keys, three values and a word of
  control information, in eight variants that share one interface (\<open>clht_create\<close>, \<open>clht_get\<close>,
  \<open>clht_put\<close>, \<open>clht_remove\<close>, \<open>clht_size\<close>). A key is hashed to a bucket; a lookup never locks; an update
  locks the bucket (lock-based variants) or commits by a compare-and-swap of a snapshot word (lock-free
  variants). Resizing variants replace the whole table: they copy the buckets into a larger table, swap
  the pointer in \<open>clht_t\<close> and hand the old version to a collector (\<open>clht_gc.c\<close>), which frees a
  version once no thread announces that it may still use it. The benchmark brings its own locks
  (\<open>src/include/lock_if.h\<close>) and compares CLHT with two hopscotch tables
  (\<open>src/src/hopscotch/data_structures\<close>): one whose updates are hardware transactions
  (\<open>hopscotch.hpp\<close>) and one with locked segments (\<open>BitmapHopscotchHashMap.h\<close>).

  \<^bold>\<open>How it is modelled.\<close> Sequential functions return an \<open>outcome\<close>: \<open>Done\<close> a result, \<open>Spins\<close> (a lock or
  retry loop that never ends when nobody else runs) or \<open>Faults\<close> (a null dereference, a failed \<open>assert\<close>).
  The allocator is a list of answers that the code consumes, each carrying the uninitialised words of the
  block. Machine integers are words of their width. A chain of buckets linked by \<open>next\<close> is the list of its
  buckets. Concurrent code is a step relation, one access to shared memory per step, over a list of
  threads with their program points; memory is sequentially consistent.

  \<^bold>\<open>Shared theories.\<close>
  \<^item> Prelude: words, outcomes, the allocator, lemmas on association lists and multisets.
  \<^item> Atomic_ops: the instructions of \<open>atomic_ops.h\<close>. Clht_hash: \<open>is_power_of_two\<close>, \<open>pow2roundup\<close>, the hash
    of Jenkins, bucket numbers.
  \<^item> Kv_store: the abstract map and the interfaces. \<open>kv_store\<close> is the contract of one table (\<open>get\<close>,
    \<open>put\<close>, \<open>rem\<close> against an abstraction map and an invariant); \<open>kv_total\<close> adds that insertions return;
    \<open>hashed_store\<close> derives the contract of a table from that of one bucket; \<open>op_store\<close> is the contract of
    structures whose operations may resize. Their lemmas turn the contract of single operations
    into statements on whole runs. Bounded_store: tables whose buckets cannot grow, and exactly
    which runs on them return. Copy_target: what a copy of all entries into a new table does.
  \<^item> Step_system: reachable states, the interface of an inductive invariant, runs along a schedule.
  \<^item> Chain: the bucket \<open>bucket_s\<close> and the loops over a chain (search, first empty slot, insertion, removal,
    size), shared by three variants. Snapshot, Slots: the snapshot word of the lock-free variants and the
    map that a set of valid slots stands for. Rtable: the state that all resizing tables share, tables
    addressed by their index and linked by \<open>table_prev\<close> and \<open>table_new\<close>.

  \<^bold>\<open>Components.\<close> Every name ends in the suffix of its variant.
  \<^item> Clht_lb (\<open>clht_lb.c\<close>, suffix \<open>_lb\<close>): creation, all operations, the unused copy function. Clht_lb_steps,
    Clht_lb_slots, Clht_lb_conc, Clht_lb_inv, Clht_lb_runs: the same operations with any number of
    threads on one chain. \<open>lb_local\<close> is the program point of a thread, \<open>lb_step\<close> one access. Shown: mutual
    exclusion, atomic updates, what the answers mean, a lookup that reads an uninitialised value,
    and the agreement with the sequential functions.
  \<^item> Clht_lb_packed (\<open>clht_lb_packed.c\<close>): buckets kept dense.
  \<^item> Clht_lf, Clht_lf_steps, Clht_lf_conc, Clht_lf_answers (\<open>clht_lf.c\<close>, suffix \<open>_lf\<close>): lock-free buckets,
    sequentially and with any number of threads: atomic updates, no duplicates, sound negative answers,
    and a run in which a lookup is wrong.
  \<^item> Clht_lf_map_rem, Clht_lf_map_rem_steps (\<open>clht_lf_only_map_rem.c\<close>, suffix \<open>_mr\<close>): removal by
    marking; a removal that misses its key.
  \<^item> Clht_gc (\<open>clht_gc.c\<close>): version records of the threads, collection, destruction.
  \<^item> Clht_lb_res, Clht_lb_res_map (\<open>clht_lb_res.c\<close>, suffix \<open>_res\<close>): resizing with chains.
    Clht_lb_no_next, Clht_lb_no_next_map (\<open>clht_lb_res_no_next.c\<close>, suffix \<open>_nn\<close>): resizing without chains.
    Clht_lb_lock_ins (\<open>clht_lb_lock_ins.c\<close>, suffix \<open>_ins\<close>): only insertions lock.
    Clht_lb_linked, Clht_lb_linked_map, Clht_lb_linked_resize (\<open>clht_lb_linked.c\<close>, suffix \<open>_lk\<close>): buckets
    that overflow into their neighbours. Clht_lf_res, Clht_lf_res_map, Clht_lf_res_run
    (\<open>clht_lf_res.c\<close>, suffix \<open>_lr\<close>): lock-free buckets with resizing.
    For each: one table implements the map; a resize keeps the map, freezes the old version and
    keeps the chain of versions; runs of operations refine the abstract map whatever resizes they set off;
    and the cases in which this fails.
  \<^item> Locks (\<open>lock_if.h\<close>): test-and-set, test-and-test-and-set and ticket lock, any number of threads, one
    access per step. The locale \<open>flag_lock\<close> is the contract of a lock that is one word; both
    test-and-set locks are its instances. The ticket lock is shown to be a queue.
  \<^item> Hop_layout: the layout that hopscotch hashing keeps (every key near its home cell, a bit map per home) and the
    steps that keep it, in the locale \<open>hop_layout\<close>. Hopscotch, Hopscotch_runs (\<open>hopscotch.hpp\<close>, suffix
    \<open>_hop\<close>): all operations with any answers of the hardware transactions, what runs answer, that no
    access leaves the array, and the same operations cut into steps of several threads, which lose keys.
    Hash_int, Bitmap_hopscotch (\<open>BitmapHopscotchHashMap.h\<close>, suffix \<open>_bm\<close>): the hash function, the
    constructor and all operations; the map they implement while no key has to move, and what is lost when
    one has to.

  \<^bold>\<open>Bounds and fuel.\<close> The mutual recursion of \<open>ht_status\<close> and \<open>ht_resize_pes\<close> is given
  \<open>resize_depth\<close> = 34 levels; 33 are enough, because every level multiplies the 32-bit number of
  buckets by an even factor (lemma \<open>status_res_not_spins\<close>, part of the refinement). Insertion into a table
  without chains ends after at most 33 rounds of resizing. The loop of the collector gets one unit of fuel
  per table. Loops that may run for ever in the code (\<open>clht_put\<close> of the linked and of the lock-free resizing
  table) are partial functions, and what is shown of them includes when they do not return. The concurrent
  models keep every counter at its width; the statements bound the fetch-and-increments of a lock by 2 to
  the 64 and the insertions into a lock-free bucket by 2 to the 32, where a wrapped lock word or snapshot
  version could be taken for an old one. One counter is not kept at its width: the loops of the four
  \<open>ht_resize_pes\<close> over the old buckets count with \<open>int32_t\<close> in the source and without bound in \<open>copy_buckets_res\<close>,
  \<open>copy_buckets_nn\<close>, \<open>copy_buckets_lk\<close> and \<open>copy_buckets_lr\<close>, so these are the code for tables of at most 2 to
  the 31 buckets.

  \<^bold>\<open>Not modelled.\<close> Printing, statistics and timing (\<open>clht_print\<close> is modelled only where it does not return);
  hardware transactions in CLHT; \<open>ht_resize_help\<close> where the headers compile it out; interleavings during a resize
  (resizing is modelled for one thread, with the version records of the others standing still). The
  external library \<open>ssmem\<close> is represented by the list of blocks given to it. The C++ tables libcuckoo
  and TBB, the framework of the hopscotch tables and \<open>libatomic_ops\<close> are third-party code; the hopscotch tables
  \<open>HopscotchHashMap.h\<close> and \<open>ChainedHashMap.h\<close> are left out; the locks \<open>HTICKET\<close> and \<open>CLH\<close> are only declared; the
  drivers under \<open>test\<close> only call the tables.
\<close>

end
